(* ===== verification/Prelude.thy ===== *)
theory Prelude
  imports Main "HOL-Library.Word"
begin

text \<open>
  Shared vocabulary of the development: bytes and machine words as the C++ code sees
  them on a little-endian 64-bit Linux, the result type of operations that may have
  undefined behaviour, reads and writes through a pointer, and the generic lemmas the
  components share.

  A pointer of type \<open>char*\<close> is modelled by the bytes from the pointed-to position to
  the end of the allocation it points into. Reading past that end is the value
  \<open>Inl OobRead\<close> and never an unspecified byte.
\<close>

unbundle bit_operations_syntax

named_theorems res_simps \<open>rewrite rules of the result type\<close>
named_theorems codec_simps \<open>what the byte-level encoders and decoders compute\<close>

section \<open>Machine types\<close>

type_synonym byte = "8 word"
type_synonym bytes = "byte list"
type_synonym u32 = "32 word"
type_synonym u64 = "64 word"

section \<open>Results that may be undefined behaviour\<close>

text \<open>
  Each constructor is one way in which the C++ program leaves its defined behaviour (or
  stops): a read or a write outside an allocation, a read of an uninitialised pointer, a
  division by zero, a failed \<open>assert\<close>, a use of a released block. \<open>Blocked\<close> is a call that waits
  for a lock which only the caller itself could release, \<open>Thrown\<close> an exception. \<open>OutOfFuel\<close> is
  the result of a loop model whose bound was too small; the components prove that their
  bounds are large enough.
\<close>

datatype fault =
    OobRead
  | OobWrite
  | Uninit
  | DivZero
  | AssertFail
  | UseAfterFree
  | BadShift
  | OutOfFuel
  | Blocked
  | Thrown

type_synonym 'a res = "fault + 'a"

fun rbind :: "'a res \<Rightarrow> ('a \<Rightarrow> 'b res) \<Rightarrow> 'b res" where
  "rbind (Inl e) f = Inl e"
| "rbind (Inr x) f = f x"

definition rmap :: "('a \<Rightarrow> 'b) \<Rightarrow> 'a res \<Rightarrow> 'b res" where
  "rmap f m = rbind m (\<lambda>x. Inr (f x))"

lemma rmap_Inr [simp]: "rmap f (Inr x) = Inr (f x)"
  by (simp add: rmap_def)

lemma rmap_Inl [simp]: "rmap f (Inl e) = Inl e"
  by (simp add: rmap_def)

lemma rbind_cong [fundef_cong]:
  "m = m' \<Longrightarrow> (\<And>x. m' = Inr x \<Longrightarrow> f x = g x) \<Longrightarrow> rbind m f = rbind m' g"
  by (cases m') auto

lemma rbind_eq_Inr [res_simps]: "rbind m f = Inr y \<longleftrightarrow> (\<exists>x. m = Inr x \<and> f x = Inr y)"
  by (cases m) auto

lemma rmap_eq_Inr [res_simps]: "rmap f m = Inr y \<longleftrightarrow> (\<exists>x. m = Inr x \<and> y = f x)"
  by (cases m) auto

lemma rbind_assoc: "rbind (rbind m f) g = rbind m (\<lambda>x. rbind (f x) g)"
  by (cases m) auto

section \<open>Reading and writing through a pointer\<close>

definition rd :: "'a list \<Rightarrow> nat \<Rightarrow> 'a res" where
  "rd xs i = (if i < length xs then Inr (xs ! i) else Inl OobRead)"

lemma rd_0 [simp]: "rd (x # xs) 0 = Inr x"
  by (simp add: rd_def)

lemma rd_Suc [simp]: "rd (x # xs) (Suc i) = rd xs i"
  by (simp add: rd_def)

lemma rd_1 [simp]: "rd (x # xs) 1 = rd xs 0"
  by (simp add: rd_def)

lemma rd_numeral [simp]: "rd (x # xs) (numeral k) = rd xs (pred_numeral k)"
  by (simp add: rd_def numeral_eq_Suc)

lemma rd_Nil [simp]: "rd [] i = Inl OobRead"
  by (simp add: rd_def)

lemma rd_append: "rd (xs @ ys) i = (if i < length xs then Inr (xs ! i) else rd ys (i - length xs))"
  by (auto simp: rd_def nth_append)

lemma rd_append_length [simp]: "rd (xs @ ys) (length xs) = rd ys 0"
  by (simp add: rd_append)

text \<open>The view of \<open>n\<close> bytes that starts \<open>off\<close> bytes behind the pointer.\<close>

definition view :: "bytes \<Rightarrow> nat \<Rightarrow> nat \<Rightarrow> bytes res" where
  "view p off n = (if off + n \<le> length p then Inr (take n (drop off p)) else Inl OobRead)"

lemma view_append [codec_simps]:
  "off = length a \<Longrightarrow> n = length b \<Longrightarrow> view (a @ b @ c) off n = Inr b"
  by (simp add: view_def)

lemma view_prefix: "n = length a \<Longrightarrow> view (a @ c) 0 n = Inr a"
  by (simp add: view_def)

text \<open>Writing \<open>bs\<close> at the start of a buffer.\<close>

definition write_front :: "bytes \<Rightarrow> bytes \<Rightarrow> bytes res" where
  "write_front buf bs =
     (if length bs \<le> length buf then Inr (bs @ drop (length bs) buf) else Inl OobWrite)"

lemma write_front_exact [codec_simps]: "length buf = length bs \<Longrightarrow> write_front buf bs = Inr bs"
  by (simp add: write_front_def)

section \<open>Little-endian words\<close>

text \<open>
  \<open>byte_at w j\<close> is the byte \<open>reinterpret_cast<const char*>(&w)[j]\<close>; \<open>of_le\<close> reads
  bytes as one little-endian word, \<open>le_bytes\<close> lays a word out.
\<close>

definition byte_at :: "'a::len word \<Rightarrow> nat \<Rightarrow> byte" where
  "byte_at w j = ucast (drop_bit (8 * j) w)"

definition le_bytes :: "nat \<Rightarrow> 'a::len word \<Rightarrow> bytes" where
  "le_bytes n w = map (byte_at w) [0..<n]"

fun of_le :: "bytes \<Rightarrow> 'a::len word" where
  "of_le [] = 0"
| "of_le (b # bs) = ucast b OR push_bit 8 (of_le bs)"

lemma length_le_bytes [simp]: "length (le_bytes n w) = n"
  by (simp add: le_bytes_def)

lemma nth_le_bytes: "j < n \<Longrightarrow> le_bytes n w ! j = byte_at w j"
  by (simp add: le_bytes_def)

lemma bit_byte_at: "bit (byte_at (w :: 'a::len word) j) n \<longleftrightarrow> n < 8 \<and> bit w (8 * j + n)"
  by (auto simp: byte_at_def bit_simps ac_simps dest: bit_imp_le_length)

lemma bit_of_le:
  "bit (of_le bs :: 'a::len word) n \<longleftrightarrow>
     n < LENGTH('a) \<and> n div 8 < length bs \<and> bit (bs ! (n div 8)) (n mod 8)"
proof (induction bs arbitrary: n)
  case Nil
  then show ?case by simp
next
  case (Cons b bs)
  show ?case
  proof (cases "n < 8")
    case True
    then show ?thesis by (auto simp: bit_simps)
  next
    case False
    then have "n div 8 = Suc ((n - 8) div 8)" "n mod 8 = (n - 8) mod 8"
      by (simp_all add: le_div_geq le_mod_geq)
    moreover have "\<not> bit b n"
      using False by (auto dest: bit_imp_le_length)
    ultimately show ?thesis
      using False Cons.IH [of "n - 8"] by (auto simp: bit_simps)
  qed
qed

lemma of_le_le_bytes [codec_simps]:
  assumes "LENGTH('a) \<le> 8 * n"
  shows "of_le (le_bytes n w) = (w :: 'a::len word)"
proof (rule bit_eqI)
  fix m
  assume "possible_bit TYPE('a word) m"
  then have m: "m < LENGTH('a)" by simp
  with assms have "m div 8 < n" by linarith
  with m show "bit (of_le (le_bytes n w) :: 'a word) m \<longleftrightarrow> bit w m"
    by (simp add: bit_of_le nth_le_bytes bit_byte_at)
qed

lemma bit_false_of_less:
  fixes w :: "'a::len word"
  assumes "unat w < 2 ^ k" "k \<le> n"
  shows "\<not> bit w n"
proof -
  have "unat w < 2 ^ n"
    using assms by (meson one_le_numeral order_less_le_trans power_increasing)
  then have "\<not> bit (unat w) n"
    by (simp add: bit_iff_odd)
  then show ?thesis by (simp add: bit_unsigned_iff)
qed

lemma unat_less_u64: "unat (w :: u64) < 2 ^ 64"
  by (rule order_less_le_trans [OF unsigned_less]) simp

lemma unat_less_u32: "unat (w :: u32) < 2 ^ 32"
  by (rule order_less_le_trans [OF unsigned_less]) simp

lemma unat_of_nat_u64: "n < 2 ^ 64 \<Longrightarrow> unat (of_nat n :: u64) = n"
  by (simp add: unsigned_of_nat take_bit_nat_eq_self)

lemma unat_of_nat_u32: "n < 2 ^ 32 \<Longrightarrow> unat (of_nat n :: u32) = n"
  by (simp add: unsigned_of_nat take_bit_nat_eq_self)

lemma not_bit_u64 [simp]: "64 \<le> n \<Longrightarrow> \<not> bit (w :: u64) n"
  using bit_imp_le_length [of w n] by auto

lemma not_bit_u32 [simp]: "32 \<le> n \<Longrightarrow> \<not> bit (w :: u32) n"
  using bit_imp_le_length [of w n] by auto

lemma less_8_cases:
  "(n::nat) < 8 \<Longrightarrow> n = 0 \<or> n = 1 \<or> n = 2 \<or> n = 3 \<or> n = 4 \<or> n = 5 \<or> n = 6 \<or> n = 7"
  by auto

lemma byte_eqI:
  fixes a b :: byte
  assumes "bit a 0 = bit b 0" "bit a 1 = bit b 1" "bit a 2 = bit b 2" "bit a 3 = bit b 3"
    and "bit a 4 = bit b 4" "bit a 5 = bit b 5" "bit a 6 = bit b 6" "bit a 7 = bit b 7"
  shows "a = b"
  by (rule bit_eqI) (use assms in \<open>auto dest!: less_8_cases\<close>)

lemma of_le_le_bytes_small:
  assumes "unat w < 2 ^ (8 * n)"
  shows "of_le (le_bytes n w) = (w :: 'a::len word)"
proof (rule bit_eqI)
  fix m
  assume "possible_bit TYPE('a word) m"
  then have m: "m < LENGTH('a)" by simp
  show "bit (of_le (le_bytes n w) :: 'a word) m \<longleftrightarrow> bit w m"
  proof (cases "m div 8 < n")
    case True
    with m show ?thesis by (simp add: bit_of_le nth_le_bytes bit_byte_at)
  next
    case False
    then have "8 * n \<le> m" by linarith
    with assms have "\<not> bit w m" by (rule bit_false_of_less)
    with False show ?thesis by (simp add: bit_of_le)
  qed
qed

section \<open>Lists\<close>

lemma takeWhile_dropWhile_append:
  "\<forall>x\<in>set xs. P x \<Longrightarrow> (ys \<noteq> [] \<Longrightarrow> \<not> P (hd ys)) \<Longrightarrow>
    takeWhile P (xs @ ys) = xs \<and> dropWhile P (xs @ ys) = ys"
  by (induction xs) (auto split: if_splits, (cases ys; simp)+)

end
