(* ===== verification/Varint.thy ===== *)
theory Varint
  imports Prelude
begin

text \<open>
  The variable-length integers of \<open>src/coding/varint.cc\<close> and \<open>include/coding/varint.h\<close>
  (little-endian base 128, as in Protocol Buffers). The encoders are the unrolled
  branches of the source: \<open>p j\<close> is \<open>data_ptr[j]\<close>, byte \<open>j\<close> of the value in memory. The
  source increments \<open>data_ptr\<close> inside an expression that also reads it
  (\<open>(*data_ptr++ >> 7 & 0x1) | (*data_ptr << 1)\<close>), whose order C++11 leaves open; the
  model takes the left operand first, as the compilers the project builds with do and as
  the code needs.

  A \<open>char\<close> is signed: \<open>>>\<close> is the arithmetic shift of the promoted value, \<open>sar\<close>.
\<close>

unbundle bit_operations_syntax

abbreviation sar :: "nat \<Rightarrow> byte \<Rightarrow> byte" where
  "sar n b \<equiv> signed_drop_bit n b"

section \<open>Encoding\<close>

definition EncodeVarint32 :: "u32 \<Rightarrow> bytes" where
  "EncodeVarint32 data = (let p = byte_at data in
     if data < 0x80 then
       [p 0 AND 0x7F]
     else if data < 0x4000 then
       [p 0 OR 0x80,
        (sar 7 (p 0) AND 0x1) OR (push_bit 1 (p 1) AND 0x7F)]
     else if data < 0x200000 then
       [p 0 OR 0x80,
        (sar 7 (p 0) AND 0x1) OR push_bit 1 (p 1) OR 0x80,
        (sar 6 (p 1) AND 0x3) OR (push_bit 2 (p 2) AND 0x7F)]
     else if data < 0x10000000 then
       [p 0 OR 0x80,
        (sar 7 (p 0) AND 0x1) OR push_bit 1 (p 1) OR 0x80,
        (sar 6 (p 1) AND 0x3) OR push_bit 2 (p 2) OR 0x80,
        (sar 5 (p 2) AND 0x7) OR (push_bit 3 (p 3) AND 0x7F)]
     else
       [p 0 OR 0x80,
        (sar 7 (p 0) AND 0x1) OR push_bit 1 (p 1) OR 0x80,
        (sar 6 (p 1) AND 0x3) OR push_bit 2 (p 2) OR 0x80,
        (sar 5 (p 2) AND 0x7) OR push_bit 3 (p 3) OR 0x80,
        (sar 4 (p 3) AND 0xF) AND 0x7F])"

definition EncodeVarint64 :: "u64 \<Rightarrow> bytes" where
  "EncodeVarint64 data = (let p = byte_at data;
       b0 = p 0 OR 0x80;
       b1 = (sar 7 (p 0) AND 0x1) OR push_bit 1 (p 1) OR 0x80;
       b2 = (sar 6 (p 1) AND 0x3) OR push_bit 2 (p 2) OR 0x80;
       b3 = (sar 5 (p 2) AND 0x7) OR push_bit 3 (p 3) OR 0x80;
       b4 = (sar 4 (p 3) AND 0xF) OR push_bit 4 (p 4) OR 0x80;
       b5 = (sar 3 (p 4) AND 0x1F) OR push_bit 5 (p 5) OR 0x80;
       b6 = (sar 2 (p 5) AND 0x3F) OR push_bit 6 (p 6) OR 0x80;
       b7 = (sar 1 (p 6) AND 0x7F) OR push_bit 7 (p 7) OR 0x80
     in
     if data < 0x80 then
       [p 0 AND 0x7F]
     else if data < 0x4000 then
       [b0, (sar 7 (p 0) AND 0x1) OR (push_bit 1 (p 1) AND 0x7F)]
     else if data < 0x200000 then
       [b0, b1, (sar 6 (p 1) AND 0x3) OR (push_bit 2 (p 2) AND 0x7F)]
     else if data < 0x10000000 then
       [b0, b1, b2, (sar 5 (p 2) AND 0x7) OR (push_bit 3 (p 3) AND 0x7F)]
     else if data < 0x800000000 then
       [b0, b1, b2, b3, (sar 4 (p 3) AND 0xF) OR (push_bit 4 (p 4) AND 0x7F)]
     else if data < 0x40000000000 then
       [b0, b1, b2, b3, b4, (sar 3 (p 4) AND 0x1F) OR (push_bit 5 (p 5) AND 0x7F)]
     else if data < 0x2000000000000 then
       [b0, b1, b2, b3, b4, b5, (sar 2 (p 5) AND 0x3F) OR (push_bit 6 (p 6) AND 0x7F)]
     else if data < 0x100000000000000 then
       [b0, b1, b2, b3, b4, b5, b6, (sar 1 (p 6) AND 0x7F) OR (push_bit 7 (p 7) AND 0x7F)]
     else if data \<le> 0x7FFFFFFFFFFFFFFF then
       [b0, b1, b2, b3, b4, b5, b6, b7, p 7 AND 0x7F]
     else
       [b0, b1, b2, b3, b4, b5, b6, b7, p 7 OR 0x80, 0x1])"

section \<open>Size\<close>

text \<open>\<open>SizeOfVarint(const char*)\<close>: count bytes up to the first without the tag bit.\<close>

definition tagged :: "byte \<Rightarrow> bool" where
  "tagged b \<longleftrightarrow> b AND 0x80 \<noteq> 0"

fun SizeOfVarint_loop :: "bytes \<Rightarrow> nat \<Rightarrow> nat res" where
  "SizeOfVarint_loop [] ret = Inl OobRead"
| "SizeOfVarint_loop (b # bs) ret =
     (if tagged b then SizeOfVarint_loop bs (ret + 1) else Inr ret)"

definition SizeOfVarint_ptr :: "bytes \<Rightarrow> nat res" where
  "SizeOfVarint_ptr data_ptr = SizeOfVarint_loop data_ptr 1"

text \<open>\<open>SizeOfVarint(uint64_t)\<close>: count how often the value can be shifted by seven bits.\<close>

function SizeOfVarint_shift :: "u64 \<Rightarrow> nat \<Rightarrow> nat" where
  "SizeOfVarint_shift x ret =
     (if drop_bit 7 x \<noteq> 0 then SizeOfVarint_shift (drop_bit 7 x) (ret + 1) else ret)"
  by pat_completeness auto
termination
proof (relation "measure (\<lambda>(x, ret). unat x)")
  fix x :: u64 and ret :: nat
  assume "drop_bit 7 x \<noteq> 0"
  then have "unat x \<noteq> 0" by (auto simp: unat_eq_0)
  then have "unat x div 128 < unat x" by simp
  moreover have "unat (drop_bit 7 x) = unat x div 128"
    by (simp only: unat_drop_bit_eq) (simp add: drop_bit_eq_div)
  ultimately show "((drop_bit 7 x, ret + 1), (x, ret)) \<in> measure (\<lambda>(x, ret). unat x)"
    by simp
qed simp

definition SizeOfVarint :: "u64 \<Rightarrow> nat" where
  "SizeOfVarint data =
     (if data AND 0x8000000000000000 \<noteq> 0 then 10 else SizeOfVarint_shift data 1)"

section \<open>Decoding\<close>

text \<open>
  \<open>d i\<close> below is the byte \<open>*data_ptr\<close> after \<open>i\<close> increments; \<open>r0, r1, \<dots>\<close> are the
  bytes of \<open>ret\<close> in memory, and \<open>of_le\<close> of a shorter list leaves the upper bytes of
  \<open>ret\<close> at their initial 0. \<open>DecodeVarint32\<close> writes the byte of its fifth step behind the
  end of the four-byte \<open>ret\<close>: that path is \<open>Inl OobWrite\<close>.
\<close>

definition DecodeVarint32 :: "bytes \<Rightarrow> u32 res" where
  "DecodeVarint32 data_ptr =
     rbind (rd data_ptr 0) (\<lambda>d0.
     if \<not> tagged d0 then Inr (of_le [d0 AND 0x7F]) else
     rbind (rd data_ptr 1) (\<lambda>d1. let r0 = (d0 AND 0x7F) OR push_bit 7 d1 in
     if \<not> tagged d1 then Inr (of_le [r0, drop_bit 1 (d1 AND 0x7F)]) else
     rbind (rd data_ptr 2) (\<lambda>d2. let r1 = drop_bit 1 (d1 AND 0x7F) OR push_bit 6 (d2 AND 0x3) in
     if \<not> tagged d2 then Inr (of_le [r0, r1, drop_bit 2 (d2 AND 0x7F)]) else
     rbind (rd data_ptr 3) (\<lambda>d3. let r2 = drop_bit 2 (d2 AND 0x7F) OR push_bit 5 (d3 AND 0x7) in
     if \<not> tagged d3 then Inr (of_le [r0, r1, r2, drop_bit 3 (d3 AND 0x7F)]) else
     rbind (rd data_ptr 4) (\<lambda>d4. Inl OobWrite)))))"

definition DecodeVarint64 :: "bytes \<Rightarrow> u64 res" where
  "DecodeVarint64 data_ptr =
     rbind (rd data_ptr 0) (\<lambda>d0.
     if \<not> tagged d0 then Inr (of_le [d0 AND 0x7F]) else
     rbind (rd data_ptr 1) (\<lambda>d1. let r0 = (d0 AND 0x7F) OR push_bit 7 d1 in
     if \<not> tagged d1 then Inr (of_le [r0, drop_bit 1 (d1 AND 0x7F)]) else
     rbind (rd data_ptr 2) (\<lambda>d2. let r1 = drop_bit 1 (d1 AND 0x7F) OR push_bit 6 (d2 AND 0x3) in
     if \<not> tagged d2 then Inr (of_le [r0, r1, drop_bit 2 (d2 AND 0x7F)]) else
     rbind (rd data_ptr 3) (\<lambda>d3. let r2 = drop_bit 2 (d2 AND 0x7F) OR push_bit 5 (d3 AND 0x7) in
     if \<not> tagged d3 then Inr (of_le [r0, r1, r2, drop_bit 3 (d3 AND 0x7F)]) else
     rbind (rd data_ptr 4) (\<lambda>d4. let r3 = drop_bit 3 (d3 AND 0x7F) OR push_bit 4 (d4 AND 0xF) in
     if \<not> tagged d4 then Inr (of_le [r0, r1, r2, r3, drop_bit 4 (d4 AND 0x7F)]) else
     rbind (rd data_ptr 5) (\<lambda>d5. let r4 = drop_bit 4 (d4 AND 0x7F) OR push_bit 3 (d5 AND 0x1F) in
     if \<not> tagged d5 then Inr (of_le [r0, r1, r2, r3, r4, drop_bit 5 (d5 AND 0x7F)]) else
     rbind (rd data_ptr 6) (\<lambda>d6. let r5 = drop_bit 5 (d5 AND 0x7F) OR push_bit 2 (d6 AND 0x3F) in
     if \<not> tagged d6 then Inr (of_le [r0, r1, r2, r3, r4, r5, drop_bit 6 (d6 AND 0x7F)]) else
     rbind (rd data_ptr 7) (\<lambda>d7. let r6 = drop_bit 6 (d6 AND 0x7F) OR push_bit 1 (d7 AND 0x7F) in
     rbind (rd data_ptr 8) (\<lambda>d8. let r7 = d8 AND 0x7F in
     if \<not> tagged d8 then Inr (of_le [r0, r1, r2, r3, r4, r5, r6, r7]) else
     Inr (of_le [r0, r1, r2, r3, r4, r5, r6, r7 OR 0x80]))))))))))"

section \<open>The reference encoding\<close>

text \<open>
  \<open>leb128\<close> is the encoding as it is specified: seven bits at a time, least significant
  group first, the tag bit on every byte but the last. \<open>groups k w\<close> is its form for a word
  of exactly \<open>k\<close> groups.
\<close>

fun leb128 :: "nat \<Rightarrow> bytes" where
  "leb128 n = (if n < 128 then [of_nat n] else (of_nat (n mod 128) OR 0x80) # leb128 (n div 128))"

declare leb128.simps [simp del]

fun groups :: "nat \<Rightarrow> 'a::len word \<Rightarrow> bytes" where
  "groups 0 w = []"
| "groups (Suc k) w =
     (if k = 0 then ucast w AND 0x7F else (ucast w AND 0x7F) OR 0x80) # groups k (drop_bit 7 w)"

lemma length_groups [simp]: "length (groups k w) = k"
  by (induction k arbitrary: w) auto

lemma tagged_iff: "tagged b \<longleftrightarrow> bit b 7"
  using and_exp_eq_0_iff_not_bit [of b 7] by (simp add: tagged_def)

lemma tagged_OR [simp]: "tagged (b OR 0x80)"
  unfolding tagged_iff by (simp add: bit_simps)

lemma not_tagged_AND [simp]: "\<not> tagged (b AND 0x7F)"
  unfolding tagged_iff by (simp add: bit_simps)

lemma unat_drop_bit_7: "unat (drop_bit 7 w) = unat w div 128"
  by (simp only: unat_drop_bit_eq) (simp add: drop_bit_eq_div)

lemma ucast_7F: "(ucast (w :: 'a::len word) AND 0x7F :: byte) = of_nat (unat w mod 128)"
proof -
  have "(ucast w AND 0x7F :: byte) = take_bit 7 (ucast w)"
    by (simp add: take_bit_eq_mask mask_eq_exp_minus_1)
  also have "\<dots> = of_nat (take_bit 7 (unat w))"
    by (rule bit_eqI) (auto simp: bit_simps)
  finally show ?thesis by (simp add: take_bit_eq_mod)
qed

lemma groups_leb128:
  assumes "unat w < 128 ^ Suc k" "k = 0 \<or> 128 ^ k \<le> unat w"
  shows "groups (Suc k) w = leb128 (unat w)"
  using assms
proof (induction k arbitrary: w)
  case 0
  then show ?case by (simp add: leb128.simps [of "unat w"] ucast_7F)
next
  case (Suc k)
  have lo: "128 ^ k * 128 \<le> unat w" and hi: "unat w < 128 ^ Suc k * 128"
    using Suc.prems by (simp_all add: algebra_simps)
  have "1 * 128 \<le> (128 ^ k * 128 :: nat)"
    by (rule mult_le_mono1) simp
  with lo have "128 \<le> unat w" by linarith
  moreover from lo have "128 ^ k \<le> unat w div 128"
    by (simp add: less_eq_div_iff_mult_less_eq)
  moreover from hi have "unat w div 128 < 128 ^ Suc k"
    by (simp add: div_less_iff_less_mult)
  ultimately have "groups (Suc k) (drop_bit 7 w) = leb128 (unat w div 128)"
    using Suc.IH [of "drop_bit 7 w"] by (simp add: unat_drop_bit_7 del: groups.simps)
  with \<open>128 \<le> unat w\<close> show ?case
    by (simp add: leb128.simps [of "unat w"] ucast_7F)
qed

lemma SizeOfVarint_shift_eq:
  assumes "unat x < 128 ^ Suc k" "k = 0 \<or> 128 ^ k \<le> unat x"
  shows "SizeOfVarint_shift x ret = ret + k"
  using assms
proof (induction k arbitrary: x ret)
  case 0
  then have "drop_bit 7 x = 0"
    by (simp add: unat_eq_0 [symmetric] unat_drop_bit_7 del: unat_eq_0)
  then show ?case by (simp add: SizeOfVarint_shift.simps [of x])
next
  case (Suc k)
  have lo: "128 ^ k * 128 \<le> unat x" and hi: "unat x < 128 ^ Suc k * 128"
    using Suc.prems by (simp_all add: algebra_simps)
  from lo have lo': "128 ^ k \<le> unat x div 128"
    by (simp add: less_eq_div_iff_mult_less_eq)
  moreover from hi have "unat x div 128 < 128 ^ Suc k"
    by (simp add: div_less_iff_less_mult)
  ultimately have "SizeOfVarint_shift (drop_bit 7 x) (ret + 1) = ret + 1 + k"
    using Suc.IH [of "drop_bit 7 x" "ret + 1"] by (simp add: unat_drop_bit_7)
  moreover from lo' have "drop_bit 7 x \<noteq> 0"
    using unat_drop_bit_7 [of x] by (auto simp: Suc_le_eq)
  ultimately show ?case by (simp add: SizeOfVarint_shift.simps [of x])
qed

text \<open>The size class of a word, as a case rule.\<close>

definition size_class :: "nat \<Rightarrow> 'a::len word \<Rightarrow> bool" where
  "size_class k w \<longleftrightarrow> unat w < 128 ^ k \<and> (k = 1 \<or> 128 ^ (k - 1) \<le> unat w)"

lemma size_class_leb128: "0 < k \<Longrightarrow> size_class k w \<Longrightarrow> groups k w = leb128 (unat w)"
  using groups_leb128 [of w "k - 1"] by (auto simp: size_class_def)

lemma size_class_ex:
  "unat w < 128 ^ k \<Longrightarrow> 0 < k \<Longrightarrow> \<exists>j. 0 < j \<and> j \<le> k \<and> size_class j w"
proof (induction k)
  case 0
  then show ?case by simp
next
  case (Suc k)
  show ?case
  proof (cases "0 < k \<and> unat w < 128 ^ k")
    case True
    with Suc.IH show ?thesis by (meson le_SucI)
  next
    case False
    with Suc.prems have "size_class (Suc k) w" by (auto simp: size_class_def)
    then show ?thesis by blast
  qed
qed

lemma u64_size_cases:
  obtains k where "0 < k" "k \<le> 10" "size_class k (w :: u64)"
  using size_class_ex [of w 10] unat_less_u64 [of w] by force

lemma top_bit_iff: "(w :: u64) AND 0x8000000000000000 \<noteq> 0 \<longleftrightarrow> 2 ^ 63 \<le> unat w"
proof -
  have "w AND 0x8000000000000000 \<noteq> 0 \<longleftrightarrow> bit w 63"
    using and_exp_eq_0_iff_not_bit [of w 63] by simp
  also have "\<dots> \<longleftrightarrow> odd (unat w div 2 ^ 63)"
    by (metis bit_iff_odd bit_unsigned_iff possible_bit_nat)
  also have "\<dots> \<longleftrightarrow> 2 ^ 63 \<le> unat w"
  proof (cases "2 ^ 63 \<le> unat w")
    case True
    with unat_less_u64 [of w] have "unat w div 2 ^ 63 = 1"
      by (intro div_nat_eqI) auto
    with True show ?thesis by simp
  next
    case False
    then show ?thesis by (simp add: div_less)
  qed
  finally show ?thesis .
qed

lemma SizeOfVarint_size_class:
  assumes "0 < k" "k \<le> 10" "size_class k (w :: u64)"
  shows "SizeOfVarint w = k"
proof (cases "2 ^ 63 \<le> unat w")
  case True
  have "k = 10"
  proof (rule ccontr)
    assume "k \<noteq> 10"
    with assms(2) have "(128::nat) ^ k \<le> 128 ^ 9" by (intro power_increasing) auto
    with assms(3) True show False by (simp add: size_class_def)
  qed
  with True show ?thesis by (simp add: SizeOfVarint_def top_bit_iff)
next
  case False
  obtain j where j: "k = Suc j" using assms(1) by (cases k) auto
  with assms(3) have "SizeOfVarint_shift w 1 = 1 + j"
    by (intro SizeOfVarint_shift_eq) (auto simp: size_class_def)
  with False j show ?thesis by (simp add: SizeOfVarint_def top_bit_iff)
qed

section \<open>The encoders produce the reference encoding\<close>

named_theorems byte_group \<open>the bytes the unrolled encoders write, as groups of seven bits\<close>

lemma groups_numeral [simp]:
  "groups (numeral k) w =
     (if pred_numeral k = 0 then ucast w AND 0x7F else (ucast w AND 0x7F) OR 0x80) #
     groups (pred_numeral k) (drop_bit 7 w)"
  by (simp add: numeral_eq_Suc)

lemma enc_first [byte_group]:
  fixes w :: "'a::len word"
  shows "byte_at w 0 OR 0x80 = (ucast w AND 0x7F) OR 0x80"
    "byte_at w 0 AND 0x7F = ucast w AND 0x7F"
  by (rule byte_eqI; (simp only: bit_simps bit_byte_at)?; simp add: numeral_2_eq_2)+

lemma enc_group_1 [byte_group]:
  fixes w :: "'a::len word"
  shows "(sar 7 (byte_at w 0) AND 0x1) OR push_bit 1 (byte_at w 1) OR 0x80 = (ucast (drop_bit 7 w) AND 0x7F) OR 0x80"
    "(sar 7 (byte_at w 0) AND 0x1) OR (push_bit 1 (byte_at w 1) AND 0x7F) = (ucast (drop_bit 7 w) AND 0x7F)"
  by (rule byte_eqI; (simp only: bit_simps bit_byte_at)?; simp add: numeral_2_eq_2)+

lemma enc_group_2 [byte_group]:
  fixes w :: "'a::len word"
  shows "(sar 6 (byte_at w 1) AND 0x3) OR push_bit 2 (byte_at w 2) OR 0x80 = (ucast (drop_bit 14 w) AND 0x7F) OR 0x80"
    "(sar 6 (byte_at w 1) AND 0x3) OR (push_bit 2 (byte_at w 2) AND 0x7F) = (ucast (drop_bit 14 w) AND 0x7F)"
  by (rule byte_eqI; (simp only: bit_simps bit_byte_at)?; simp add: numeral_2_eq_2)+

lemma enc_group_3 [byte_group]:
  fixes w :: "'a::len word"
  shows "(sar 5 (byte_at w 2) AND 0x7) OR push_bit 3 (byte_at w 3) OR 0x80 = (ucast (drop_bit 21 w) AND 0x7F) OR 0x80"
    "(sar 5 (byte_at w 2) AND 0x7) OR (push_bit 3 (byte_at w 3) AND 0x7F) = (ucast (drop_bit 21 w) AND 0x7F)"
  by (rule byte_eqI; (simp only: bit_simps bit_byte_at)?; simp add: numeral_2_eq_2)+

lemma enc_group_4 [byte_group]:
  fixes w :: "'a::len word"
  shows "(sar 4 (byte_at w 3) AND 0xF) OR push_bit 4 (byte_at w 4) OR 0x80 = (ucast (drop_bit 28 w) AND 0x7F) OR 0x80"
    "(sar 4 (byte_at w 3) AND 0xF) OR (push_bit 4 (byte_at w 4) AND 0x7F) = (ucast (drop_bit 28 w) AND 0x7F)"
  by (rule byte_eqI; (simp only: bit_simps bit_byte_at)?; simp add: numeral_2_eq_2)+

lemma enc_group_5 [byte_group]:
  fixes w :: "'a::len word"
  shows "(sar 3 (byte_at w 4) AND 0x1F) OR push_bit 5 (byte_at w 5) OR 0x80 = (ucast (drop_bit 35 w) AND 0x7F) OR 0x80"
    "(sar 3 (byte_at w 4) AND 0x1F) OR (push_bit 5 (byte_at w 5) AND 0x7F) = (ucast (drop_bit 35 w) AND 0x7F)"
  by (rule byte_eqI; (simp only: bit_simps bit_byte_at)?; simp add: numeral_2_eq_2)+

lemma enc_group_6 [byte_group]:
  fixes w :: "'a::len word"
  shows "(sar 2 (byte_at w 5) AND 0x3F) OR push_bit 6 (byte_at w 6) OR 0x80 = (ucast (drop_bit 42 w) AND 0x7F) OR 0x80"
    "(sar 2 (byte_at w 5) AND 0x3F) OR (push_bit 6 (byte_at w 6) AND 0x7F) = (ucast (drop_bit 42 w) AND 0x7F)"
  by (rule byte_eqI; (simp only: bit_simps bit_byte_at)?; simp add: numeral_2_eq_2)+

lemma enc_group_7 [byte_group]:
  fixes w :: "'a::len word"
  shows "(sar 1 (byte_at w 6) AND 0x7F) OR push_bit 7 (byte_at w 7) OR 0x80 = (ucast (drop_bit 49 w) AND 0x7F) OR 0x80"
    "(sar 1 (byte_at w 6) AND 0x7F) OR (push_bit 7 (byte_at w 7) AND 0x7F) = (ucast (drop_bit 49 w) AND 0x7F)"
  by (rule byte_eqI; (simp only: bit_simps bit_byte_at)?; simp add: numeral_2_eq_2)+

lemma enc_last [byte_group]:
  "byte_at (w :: u64) 7 AND 0x7F = ucast (drop_bit 56 w) AND 0x7F"
  "byte_at (w :: u64) 7 OR 0x80 = (ucast (drop_bit 56 w) AND 0x7F) OR 0x80"
  "(sar 4 (byte_at (v :: u32) 3) AND 0xF) AND 0x7F = ucast (drop_bit 28 v) AND 0x7F"
  by (rule byte_eqI; (simp only: bit_simps bit_byte_at)?; simp add: numeral_2_eq_2)+

lemma top_group:
  assumes "size_class 10 (w :: u64)"
  shows "ucast (drop_bit 63 w) AND 0x7F = (1 :: byte)"
proof (rule byte_eqI)
  have "bit w 63"
    using assms top_bit_iff [of w] and_exp_eq_0_iff_not_bit [of w 63] by (simp add: size_class_def)
  then show "bit (ucast (drop_bit 63 w) AND 0x7F :: byte) 0 = bit (1::byte) 0"
    by (simp add: bit_simps)
qed (simp_all add: bit_simps)

text \<open>The bounds of the branches, for each size class.\<close>

lemma size_class_less:
  assumes "size_class k w" "0 < k" "unat t = 128 ^ j" "0 < j"
  shows "w < t \<longleftrightarrow> k \<le> j"
proof (cases "k \<le> j")
  case True
  then have "(128::nat) ^ k \<le> 128 ^ j" by (rule power_increasing) simp
  with assms(1) have "unat w < 128 ^ j"
    by (meson order_less_le_trans size_class_def)
  with assms(3) True show ?thesis by (simp add: word_less_nat_alt)
next
  case False
  then have "(128::nat) ^ j \<le> 128 ^ (k - 1)" by (intro power_increasing) auto
  also have "\<dots> \<le> unat w" using assms False by (auto simp: size_class_def)
  finally show ?thesis using assms(3) False by (simp add: word_less_nat_alt)
qed

lemma size_class_thresholds64:
  assumes "size_class k (w :: u64)" "0 < k"
  shows "w < 0x80 \<longleftrightarrow> k \<le> 1" "w < 0x4000 \<longleftrightarrow> k \<le> 2" "w < 0x200000 \<longleftrightarrow> k \<le> 3"
    "w < 0x10000000 \<longleftrightarrow> k \<le> 4" "w < 0x800000000 \<longleftrightarrow> k \<le> 5" "w < 0x40000000000 \<longleftrightarrow> k \<le> 6"
    "w < 0x2000000000000 \<longleftrightarrow> k \<le> 7" "w < 0x100000000000000 \<longleftrightarrow> k \<le> 8"
    "w \<le> 0x7FFFFFFFFFFFFFFF \<longleftrightarrow> k \<le> 9"
proof -
  have "w \<le> 0x7FFFFFFFFFFFFFFF \<longleftrightarrow> w < 0x8000000000000000"
    by (simp add: word_le_nat_alt word_less_nat_alt) linarith
  then show "w \<le> 0x7FFFFFFFFFFFFFFF \<longleftrightarrow> k \<le> 9"
    using size_class_less [OF assms, of "0x8000000000000000" 9] by simp
qed (rule size_class_less [OF assms]; simp)+

lemma size_class_thresholds32:
  assumes "size_class k (w :: u32)" "0 < k"
  shows "w < 0x80 \<longleftrightarrow> k \<le> 1" "w < 0x4000 \<longleftrightarrow> k \<le> 2" "w < 0x200000 \<longleftrightarrow> k \<le> 3"
    "w < 0x10000000 \<longleftrightarrow> k \<le> 4"
  by (rule size_class_less [OF assms]; simp)+

lemma EncodeVarint64_groups:
  assumes "0 < k" "k \<le> 10" "size_class k w"
  shows "EncodeVarint64 w = groups k w"
proof -
  note encode = EncodeVarint64_def Let_def size_class_thresholds64 [OF assms(3,1)]
    rel_simps simp_thms if_True if_False byte_group
  have "k = 1 \<or> k = 2 \<or> k = 3 \<or> k = 4 \<or> k = 5 \<or> k = 6 \<or> k = 7 \<or> k = 8 \<or> k = 9 \<or> k = 10"
    using assms(1,2) by presburger
  then show ?thesis
    by (elim disjE) (use top_group [of w] assms(3) in \<open>simp only: encode; simp\<close>)+
qed

lemma EncodeVarint32_groups:
  assumes "0 < k" "k \<le> 5" "size_class k w"
  shows "EncodeVarint32 w = groups k w"
proof -
  note encode = EncodeVarint32_def Let_def size_class_thresholds32 [OF assms(3,1)]
    rel_simps simp_thms if_True if_False byte_group
  have "k = 1 \<or> k = 2 \<or> k = 3 \<or> k = 4 \<or> k = 5"
    using assms(1,2) by presburger
  then show ?thesis
    by (elim disjE) (simp only: encode; simp)+
qed

lemma EncodeVarint64_leb128: "EncodeVarint64 w = leb128 (unat w)"
  by (rule u64_size_cases [of w]) (metis EncodeVarint64_groups size_class_leb128)

lemma EncodeVarint32_leb128: "EncodeVarint32 w = leb128 (unat w)"
proof -
  obtain k where "0 < k" "k \<le> 5" "size_class k w"
    using size_class_ex [of w 5] unat_less_u32 [of w] by force
  then show ?thesis by (metis EncodeVarint32_groups size_class_leb128)
qed

lemma length_EncodeVarint64 [simp]: "length (EncodeVarint64 w) = SizeOfVarint w"
  by (rule u64_size_cases [of w]) (metis EncodeVarint64_groups SizeOfVarint_size_class length_groups)

lemma SizeOfVarint_bounds: "0 < SizeOfVarint w \<and> SizeOfVarint w \<le> 10"
  by (rule u64_size_cases [of w]) (metis SizeOfVarint_size_class)

lemma SizeOfVarint_loop_groups:
  "SizeOfVarint_loop (groups (Suc k) w @ rest) ret = Inr (ret + k)"
proof (induction k arbitrary: w ret)
  case 0
  show ?case by simp
next
  case (Suc k)
  have "SizeOfVarint_loop (groups (Suc (Suc k)) w @ rest) ret =
      SizeOfVarint_loop (groups (Suc k) (drop_bit 7 w) @ rest) (ret + 1)"
    by (simp only: groups.simps) simp
  then show ?case by (simp only: Suc.IH) simp
qed

lemma SizeOfVarint_ptr_Encode [codec_simps]:
  "SizeOfVarint_ptr (EncodeVarint64 w @ rest) = Inr (SizeOfVarint w)"
proof (rule u64_size_cases [of w])
  fix k assume k: "0 < k" "k \<le> 10" "size_class k w"
  then show ?thesis
    using SizeOfVarint_loop_groups [of "k - 1" w rest 1]
    by (simp add: SizeOfVarint_ptr_def EncodeVarint64_groups SizeOfVarint_size_class)
qed

section \<open>Decoding what was encoded\<close>

text \<open>
  Byte \<open>j\<close> of the decoded word: the upper bits of group \<open>j\<close> and the lower bits of group
  \<open>j + 1\<close>. A group that carries the tag and one that does not have the same payload.
\<close>

lemma payload_tagged [simp]:
  "((b AND 0x7F) OR 0x80) AND 0x7F = (b AND 0x7F :: byte)"
  "(b AND 0x7F) AND 0x7F = (b AND 0x7F :: byte)"
  by (rule byte_eqI; (simp only: bit_simps)?; simp add: numeral_2_eq_2)+

lemma dec_group_0 [byte_group]:
  fixes w :: "'a::len word"
  shows "(ucast w AND 0x7F) OR push_bit 7 ((ucast (drop_bit 7 w) AND 0x7F) OR 0x80) = byte_at w 0"
    "(ucast w AND 0x7F) OR push_bit 7 (ucast (drop_bit 7 w) AND 0x7F) = byte_at w 0"
  by (rule byte_eqI; (simp only: bit_simps bit_byte_at)?; simp add: bit_simps numeral_2_eq_2)+

lemma dec_group_1 [byte_group]:
  fixes w :: "'a::len word"
  shows "drop_bit 1 (ucast (drop_bit 7 w) AND 0x7F) OR push_bit 6 (((ucast (drop_bit 14 w) AND 0x7F) OR 0x80) AND 0x3) = byte_at w 1"
    "drop_bit 1 (ucast (drop_bit 7 w) AND 0x7F) OR push_bit 6 ((ucast (drop_bit 14 w) AND 0x7F) AND 0x3) = byte_at w 1"
  by (rule byte_eqI; (simp only: bit_simps bit_byte_at)?; simp add: bit_simps numeral_2_eq_2)+

lemma dec_group_2 [byte_group]:
  fixes w :: "'a::len word"
  shows "drop_bit 2 (ucast (drop_bit 14 w) AND 0x7F) OR push_bit 5 (((ucast (drop_bit 21 w) AND 0x7F) OR 0x80) AND 0x7) = byte_at w 2"
    "drop_bit 2 (ucast (drop_bit 14 w) AND 0x7F) OR push_bit 5 ((ucast (drop_bit 21 w) AND 0x7F) AND 0x7) = byte_at w 2"
  by (rule byte_eqI; (simp only: bit_simps bit_byte_at)?; simp add: bit_simps numeral_2_eq_2)+

lemma dec_group_3 [byte_group]:
  fixes w :: "'a::len word"
  shows "drop_bit 3 (ucast (drop_bit 21 w) AND 0x7F) OR push_bit 4 (((ucast (drop_bit 28 w) AND 0x7F) OR 0x80) AND 0xF) = byte_at w 3"
    "drop_bit 3 (ucast (drop_bit 21 w) AND 0x7F) OR push_bit 4 ((ucast (drop_bit 28 w) AND 0x7F) AND 0xF) = byte_at w 3"
  by (rule byte_eqI; (simp only: bit_simps bit_byte_at)?; simp add: bit_simps numeral_2_eq_2)+

lemma dec_group_4 [byte_group]:
  fixes w :: "'a::len word"
  shows "drop_bit 4 (ucast (drop_bit 28 w) AND 0x7F) OR push_bit 3 (((ucast (drop_bit 35 w) AND 0x7F) OR 0x80) AND 0x1F) = byte_at w 4"
    "drop_bit 4 (ucast (drop_bit 28 w) AND 0x7F) OR push_bit 3 ((ucast (drop_bit 35 w) AND 0x7F) AND 0x1F) = byte_at w 4"
  by (rule byte_eqI; (simp only: bit_simps bit_byte_at)?; simp add: bit_simps numeral_2_eq_2)+

lemma dec_group_5 [byte_group]:
  fixes w :: "'a::len word"
  shows "drop_bit 5 (ucast (drop_bit 35 w) AND 0x7F) OR push_bit 2 (((ucast (drop_bit 42 w) AND 0x7F) OR 0x80) AND 0x3F) = byte_at w 5"
    "drop_bit 5 (ucast (drop_bit 35 w) AND 0x7F) OR push_bit 2 ((ucast (drop_bit 42 w) AND 0x7F) AND 0x3F) = byte_at w 5"
  by (rule byte_eqI; (simp only: bit_simps bit_byte_at)?; simp add: bit_simps numeral_2_eq_2)+

lemma dec_group_6 [byte_group]:
  fixes w :: "'a::len word"
  shows "drop_bit 6 (ucast (drop_bit 42 w) AND 0x7F) OR push_bit 1 (((ucast (drop_bit 49 w) AND 0x7F) OR 0x80) AND 0x7F) = byte_at w 6"
    "drop_bit 6 (ucast (drop_bit 42 w) AND 0x7F) OR push_bit 1 ((ucast (drop_bit 49 w) AND 0x7F) AND 0x7F) = byte_at w 6"
    "drop_bit 6 (ucast (drop_bit 42 w) AND 0x7F) OR push_bit 1 (ucast (drop_bit 49 w) AND 0x7F) = byte_at w 6"
  by (rule byte_eqI; (simp only: bit_simps bit_byte_at)?; simp add: bit_simps numeral_2_eq_2)+

lemma dec_last:
  fixes w :: "'a::len word"
  shows "unat w < 128 ^ 1 \<Longrightarrow> ucast w AND 0x7F = byte_at w 0"
    "unat w < 128 ^ 2 \<Longrightarrow> drop_bit 1 (ucast (drop_bit 7 w) AND 0x7F) = byte_at w 1"
    "unat w < 128 ^ 3 \<Longrightarrow> drop_bit 2 (ucast (drop_bit 14 w) AND 0x7F) = byte_at w 2"
    "unat w < 128 ^ 4 \<Longrightarrow> drop_bit 3 (ucast (drop_bit 21 w) AND 0x7F) = byte_at w 3"
    "unat w < 128 ^ 5 \<Longrightarrow> drop_bit 4 (ucast (drop_bit 28 w) AND 0x7F) = byte_at w 4"
    "unat w < 128 ^ 6 \<Longrightarrow> drop_bit 5 (ucast (drop_bit 35 w) AND 0x7F) = byte_at w 5"
    "unat w < 128 ^ 7 \<Longrightarrow> drop_bit 6 (ucast (drop_bit 42 w) AND 0x7F) = byte_at w 6"
proof -
  have *: "unat w < 128 ^ k \<Longrightarrow> 7 * k \<le> n \<Longrightarrow> \<not> bit w n" for k n
    by (rule bit_false_of_less [of _ "7 * k"]) (simp_all add: power_mult)
  show "unat w < 128 ^ 1 \<Longrightarrow> ucast w AND 0x7F = byte_at w 0"
    using * [of 1 7] by (intro byte_eqI; (simp only: bit_simps bit_byte_at)?; simp add: bit_simps numeral_2_eq_2)
  show "unat w < 128 ^ 2 \<Longrightarrow> drop_bit 1 (ucast (drop_bit 7 w) AND 0x7F) = byte_at w 1"
    using * [of 2] by (intro byte_eqI; (simp only: bit_simps bit_byte_at)?; simp add: bit_simps numeral_2_eq_2)
  show "unat w < 128 ^ 3 \<Longrightarrow> drop_bit 2 (ucast (drop_bit 14 w) AND 0x7F) = byte_at w 2"
    using * [of 3] by (intro byte_eqI; (simp only: bit_simps bit_byte_at)?; simp add: bit_simps numeral_2_eq_2)
  show "unat w < 128 ^ 4 \<Longrightarrow> drop_bit 3 (ucast (drop_bit 21 w) AND 0x7F) = byte_at w 3"
    using * [of 4] by (intro byte_eqI; (simp only: bit_simps bit_byte_at)?; simp add: bit_simps numeral_2_eq_2)
  show "unat w < 128 ^ 5 \<Longrightarrow> drop_bit 4 (ucast (drop_bit 28 w) AND 0x7F) = byte_at w 4"
    using * [of 5] by (intro byte_eqI; (simp only: bit_simps bit_byte_at)?; simp add: bit_simps numeral_2_eq_2)
  show "unat w < 128 ^ 6 \<Longrightarrow> drop_bit 5 (ucast (drop_bit 35 w) AND 0x7F) = byte_at w 5"
    using * [of 6] by (intro byte_eqI; (simp only: bit_simps bit_byte_at)?; simp add: bit_simps numeral_2_eq_2)
  show "unat w < 128 ^ 7 \<Longrightarrow> drop_bit 6 (ucast (drop_bit 42 w) AND 0x7F) = byte_at w 6"
    using * [of 7] by (intro byte_eqI; (simp only: bit_simps bit_byte_at)?; simp add: bit_simps numeral_2_eq_2)
qed

text \<open>Running the decoder on a concrete number of bytes.\<close>

lemmas decode_run = DecodeVarint64_def DecodeVarint32_def rbind.simps rd_0 rd_1 rd_numeral
  pred_numeral_simps BitM.simps numeral_One Let_def simp_thms if_True if_False
  append_Cons append_Nil tagged_OR not_tagged_AND payload_tagged

lemma of_le_upt: "of_le (map (byte_at w) [0..<n]) = (of_le (le_bytes n w) :: 'a::len word)"
  by (simp add: le_bytes_def)

lemma of_le_prefix:
  fixes w :: "'a::len word"
  shows "unat w < 256 ^ n \<Longrightarrow> of_le (le_bytes n w) = w"
  by (rule of_le_le_bytes_small) (simp add: power_mult)

lemma le_bytes_explicit:
  "le_bytes 1 w = [byte_at w 0]"
  "le_bytes 2 w = [byte_at w 0, byte_at w 1]"
  "le_bytes 3 w = [byte_at w 0, byte_at w 1, byte_at w 2]"
  "le_bytes 4 w = [byte_at w 0, byte_at w 1, byte_at w 2, byte_at w 3]"
  "le_bytes 5 w = [byte_at w 0, byte_at w 1, byte_at w 2, byte_at w 3, byte_at w 4]"
  "le_bytes 6 w = [byte_at w 0, byte_at w 1, byte_at w 2, byte_at w 3, byte_at w 4, byte_at w 5]"
  "le_bytes 7 w = [byte_at w 0, byte_at w 1, byte_at w 2, byte_at w 3, byte_at w 4, byte_at w 5,
     byte_at w 6]"
  "le_bytes 8 w = [byte_at w 0, byte_at w 1, byte_at w 2, byte_at w 3, byte_at w 4, byte_at w 5,
     byte_at w 6, byte_at w 7]"
  by (simp_all add: le_bytes_def upt_rec numeral_eq_Suc)

lemma groups_explicit:
  "groups 1 w = [ucast w AND 0x7F]"
  "groups 2 w = [(ucast w AND 0x7F) OR 0x80, ucast (drop_bit 7 w) AND 0x7F]"
  "groups 3 w = [(ucast w AND 0x7F) OR 0x80, (ucast (drop_bit 7 w) AND 0x7F) OR 0x80,
     ucast (drop_bit 14 w) AND 0x7F]"
  "groups 4 w = [(ucast w AND 0x7F) OR 0x80, (ucast (drop_bit 7 w) AND 0x7F) OR 0x80,
     (ucast (drop_bit 14 w) AND 0x7F) OR 0x80, ucast (drop_bit 21 w) AND 0x7F]"
  "groups 5 w = [(ucast w AND 0x7F) OR 0x80, (ucast (drop_bit 7 w) AND 0x7F) OR 0x80,
     (ucast (drop_bit 14 w) AND 0x7F) OR 0x80, (ucast (drop_bit 21 w) AND 0x7F) OR 0x80,
     ucast (drop_bit 28 w) AND 0x7F]"
  "groups 6 w = [(ucast w AND 0x7F) OR 0x80, (ucast (drop_bit 7 w) AND 0x7F) OR 0x80,
     (ucast (drop_bit 14 w) AND 0x7F) OR 0x80, (ucast (drop_bit 21 w) AND 0x7F) OR 0x80,
     (ucast (drop_bit 28 w) AND 0x7F) OR 0x80, ucast (drop_bit 35 w) AND 0x7F]"
  "groups 7 w = [(ucast w AND 0x7F) OR 0x80, (ucast (drop_bit 7 w) AND 0x7F) OR 0x80,
     (ucast (drop_bit 14 w) AND 0x7F) OR 0x80, (ucast (drop_bit 21 w) AND 0x7F) OR 0x80,
     (ucast (drop_bit 28 w) AND 0x7F) OR 0x80, (ucast (drop_bit 35 w) AND 0x7F) OR 0x80,
     ucast (drop_bit 42 w) AND 0x7F]"
  "groups 8 w = [(ucast w AND 0x7F) OR 0x80, (ucast (drop_bit 7 w) AND 0x7F) OR 0x80,
     (ucast (drop_bit 14 w) AND 0x7F) OR 0x80, (ucast (drop_bit 21 w) AND 0x7F) OR 0x80,
     (ucast (drop_bit 28 w) AND 0x7F) OR 0x80, (ucast (drop_bit 35 w) AND 0x7F) OR 0x80,
     (ucast (drop_bit 42 w) AND 0x7F) OR 0x80, ucast (drop_bit 49 w) AND 0x7F]"
  "groups 9 w = [(ucast w AND 0x7F) OR 0x80, (ucast (drop_bit 7 w) AND 0x7F) OR 0x80,
     (ucast (drop_bit 14 w) AND 0x7F) OR 0x80, (ucast (drop_bit 21 w) AND 0x7F) OR 0x80,
     (ucast (drop_bit 28 w) AND 0x7F) OR 0x80, (ucast (drop_bit 35 w) AND 0x7F) OR 0x80,
     (ucast (drop_bit 42 w) AND 0x7F) OR 0x80, (ucast (drop_bit 49 w) AND 0x7F) OR 0x80,
     ucast (drop_bit 56 w) AND 0x7F]"
  "groups 10 w = [(ucast w AND 0x7F) OR 0x80, (ucast (drop_bit 7 w) AND 0x7F) OR 0x80,
     (ucast (drop_bit 14 w) AND 0x7F) OR 0x80, (ucast (drop_bit 21 w) AND 0x7F) OR 0x80,
     (ucast (drop_bit 28 w) AND 0x7F) OR 0x80, (ucast (drop_bit 35 w) AND 0x7F) OR 0x80,
     (ucast (drop_bit 42 w) AND 0x7F) OR 0x80, (ucast (drop_bit 49 w) AND 0x7F) OR 0x80,
     (ucast (drop_bit 56 w) AND 0x7F) OR 0x80, ucast (drop_bit 63 w) AND 0x7F]"
  by simp_all

lemma decode_small:
  assumes "unat (w :: u64) < 128 ^ k" "k \<in> {1, 2, 3, 4, 5, 6, 7}"
  shows "DecodeVarint64 (groups k w @ rest) = Inr w"
proof -
  have "(128::nat) ^ k \<le> 256 ^ k" by (rule power_mono) simp_all
  with assms(1) have le: "of_le (le_bytes k w) = w" by (intro of_le_prefix) simp
  have "DecodeVarint64 (groups k w @ rest) = Inr (of_le (le_bytes k w))"
    using assms
    by (elim insertE emptyE; hypsubst)
      (simp_all only: groups_explicit decode_run, simp_all only: le_bytes_explicit byte_group dec_last)
  with le show ?thesis by simp
qed

text \<open>
  The ninth byte of the input is the top byte of the result, whatever it is: an eight-byte
  encoding has no ninth byte, so the byte behind the encoding is taken.
\<close>

lemma top_byte:
  "(if \<not> tagged b then Inr (f (b AND 0x7F)) else Inr (f (b AND 0x7F OR 0x80))) = Inr (f b)"
proof (cases "tagged b")
  case True
  then have "b AND 0x7F OR 0x80 = b"
    unfolding tagged_iff by (intro byte_eqI; (simp only: bit_simps)?; simp add: numeral_2_eq_2)
  with True show ?thesis by simp
next
  case False
  then have "b AND 0x7F = b"
    unfolding tagged_iff by (intro byte_eqI; (simp only: bit_simps)?; simp add: numeral_2_eq_2)
  with False show ?thesis by simp
qed

lemma decode_eight:
  assumes "size_class 8 (w :: u64)"
  shows "DecodeVarint64 (groups 8 w) = Inl OobRead"
    and "DecodeVarint64 (groups 8 w @ b # rest) = Inr (w OR push_bit 56 (ucast b))"
proof -
  have "\<not> bit w n" if "56 \<le> n" for n
    using assms that by (intro bit_false_of_less [of _ 56]) (simp_all add: size_class_def)
  moreover have "n mod 8 = n - 56" if "\<not> n div 8 < 7" "n < 64" for n :: nat
    using that by presburger
  ultimately have *: "of_le (le_bytes 7 w @ [b]) = w OR push_bit 56 (ucast b)"
    by (intro bit_eqI) (auto simp: bit_simps bit_of_le nth_append nth_le_bytes bit_byte_at
        dest: bit_imp_le_length)
  show "DecodeVarint64 (groups 8 w) = Inl OobRead"
    by (simp only: groups_explicit decode_run rd_Nil)
  have "DecodeVarint64 (groups 8 w @ b # rest) = Inr (of_le (le_bytes 7 w @ [b]))"
    by (simp only: groups_explicit decode_run top_byte
        [of b "\<lambda>x. of_le [_, _, _, _, _, _, _, x]"], simp only: le_bytes_explicit byte_group
        append_Cons append_Nil)
  with * show "DecodeVarint64 (groups 8 w @ b # rest) = Inr (w OR push_bit 56 (ucast b))"
    by simp
qed

lemma dec_top:
  "size_class 9 (w :: u64) \<Longrightarrow> ucast (drop_bit 56 w) AND 0x7F = byte_at w 7"
  "size_class 10 (w :: u64) \<Longrightarrow> (ucast (drop_bit 56 w) AND 0x7F) OR 0x80 = byte_at w 7"
proof -
  assume "size_class 9 w"
  then have "\<not> bit w 63"
    by (intro bit_false_of_less [of _ 63]) (simp_all add: size_class_def)
  then show "ucast (drop_bit 56 w) AND 0x7F = byte_at w 7"
    by (intro byte_eqI; (simp only: bit_simps bit_byte_at)?; simp add: bit_simps numeral_2_eq_2)
next
  assume "size_class 10 w"
  then have "bit w 63"
    using top_bit_iff [of w] and_exp_eq_0_iff_not_bit [of w 63] by (simp add: size_class_def)
  then show "(ucast (drop_bit 56 w) AND 0x7F) OR 0x80 = byte_at w 7"
    by (intro byte_eqI; (simp only: bit_simps bit_byte_at)?; simp add: bit_simps numeral_2_eq_2)
qed

lemma decode_large:
  assumes "size_class k (w :: u64)" "k = 9 \<or> k = 10"
  shows "DecodeVarint64 (groups k w @ rest) = Inr w"
proof -
  have le: "of_le (le_bytes 8 w) = w" by (rule of_le_le_bytes) simp
  have "DecodeVarint64 (groups k w @ rest) = Inr (of_le (le_bytes 8 w))"
    using assms
    by (elim disjE; hypsubst)
      (simp_all only: groups_explicit decode_run, simp_all only: le_bytes_explicit byte_group dec_top)
  with le show ?thesis by simp
qed

lemma DecodeVarint64_Encode:
  assumes "unat w < 2 ^ 49 \<or> 2 ^ 56 \<le> unat w"
  shows "DecodeVarint64 (EncodeVarint64 w @ rest) = Inr w"
proof (rule u64_size_cases [of w])
  fix k assume k: "0 < k" "k \<le> 10" "size_class k w"
  have enc: "EncodeVarint64 w = groups k w" by (rule EncodeVarint64_groups [OF k])
  have "k \<noteq> 8" using assms k(3) by (auto simp: size_class_def)
  with k(1,2) have "k \<in> {1, 2, 3, 4, 5, 6, 7} \<or> k = 9 \<or> k = 10"
    by (simp only: insert_iff empty_iff) presburger
  then show ?thesis
    using decode_small [of w k rest] decode_large [of k w rest] k(3)
    by (auto simp only: enc size_class_def)
qed

lemma DecodeVarint64_Encode_small [codec_simps]:
  "unat w < 2 ^ 49 \<Longrightarrow> DecodeVarint64 (EncodeVarint64 w @ rest) = Inr w"
  by (rule DecodeVarint64_Encode) simp

lemma decode32_small:
  assumes "unat (w :: u32) < 128 ^ k" "k \<in> {1, 2, 3, 4}"
  shows "DecodeVarint32 (groups k w @ rest) = Inr w"
proof -
  have "(128::nat) ^ k \<le> 256 ^ k" by (rule power_mono) simp_all
  with assms(1) have le: "of_le (le_bytes k w) = w" by (intro of_le_prefix) simp
  have "DecodeVarint32 (groups k w @ rest) = Inr (of_le (le_bytes k w))"
    using assms
    by (elim insertE emptyE; hypsubst)
      (simp_all only: groups_explicit decode_run, simp_all only: le_bytes_explicit byte_group dec_last)
  with le show ?thesis by simp
qed

lemma decode32_five: "DecodeVarint32 (groups 5 (w :: u32) @ rest) = Inl OobWrite"
  by (simp only: groups_explicit decode_run)

section \<open>Properties\<close>

text \<open>The unrolled encoders of 64-bit and 32-bit values write exactly the base-128 encoding
  of the Protocol Buffers specification, and the two \<open>SizeOfVarint\<close> overloads agree with
  each other and with the number of bytes written.\<close>

theorem varint_encode_is_leb128:
  "EncodeVarint64 w = leb128 (unat w) \<and> EncodeVarint32 v = leb128 (unat v) \<and>
   length (EncodeVarint64 w) = SizeOfVarint w \<and>
   SizeOfVarint_ptr (EncodeVarint64 w @ rest) = Inr (SizeOfVarint w) \<and>
   SizeOfVarint w \<le> 10"
  using SizeOfVarint_bounds [of w]
  by (simp add: EncodeVarint64_leb128 [symmetric] EncodeVarint32_leb128 SizeOfVarint_ptr_Encode)

text \<open>C31. Round trip: decoding an encoded value gives the value back, whatever follows it in
  memory, for every value that is not encoded in exactly eight bytes.\<close>

theorem varint64_roundtrip:
  assumes "unat w < 2 ^ 49 \<or> 2 ^ 56 \<le> unat w"
  shows "DecodeVarint64 (EncodeVarint64 w @ rest) = Inr w"
  using assms by (rule DecodeVarint64_Encode)

theorem varint64_roundtrip_witness:
  "DecodeVarint64 (EncodeVarint64 300 @ [7]) = Inr 300 \<and>
   DecodeVarint64 (EncodeVarint64 (2 ^ 63)) = Inr (2 ^ 63)"
  using varint64_roundtrip [of 300 "[7]"] varint64_roundtrip [of "2 ^ 63" "[]"] by simp

text \<open>Values encoded in eight bytes (from 2^49 up to but not including 2^56) do not
  survive: the decoder does not test the tag bit of the eighth byte and reads a ninth. It
  runs off the end of an exactly sized buffer, and otherwise the byte behind the encoding
  becomes the top byte of the result.\<close>

theorem varint64_eight_byte_overread:
  assumes "2 ^ 49 \<le> unat w" "unat w < 2 ^ 56"
  shows "DecodeVarint64 (EncodeVarint64 w) = Inl OobRead \<and>
    DecodeVarint64 (EncodeVarint64 w @ b # rest) = Inr (w OR push_bit 56 (ucast b))"
proof -
  from assms have "size_class 8 w" by (simp add: size_class_def)
  then have "EncodeVarint64 w = groups 8 w" by (intro EncodeVarint64_groups) simp_all
  with decode_eight [OF \<open>size_class 8 w\<close>] show ?thesis by (simp only: simp_thms)
qed

theorem varint64_eight_byte_overread_witness:
  "DecodeVarint64 (EncodeVarint64 0x2000000000000) = Inl OobRead \<and>
   DecodeVarint64 (EncodeVarint64 0x2000000000000 @ [1]) = Inr 0x102000000000000"
  using varint64_eight_byte_overread [of "0x2000000000000" 1 "[]"] by simp

text \<open>\<open>DecodeVarint32\<close> inverts \<open>EncodeVarint32\<close> on the values of at most four encoded bytes;
  on every value from 2^28 up it writes one byte behind its four-byte result.\<close>

theorem varint32_decode:
  "DecodeVarint32 (EncodeVarint32 v @ rest) = (if unat v < 2 ^ 28 then Inr v else Inl OobWrite)"
proof -
  obtain k where k: "0 < k" "k \<le> 5" "size_class k v"
    using size_class_ex [of v 5] unat_less_u32 [of v] by force
  have enc: "EncodeVarint32 v = groups k v" by (rule EncodeVarint32_groups [OF k])
  have bound: "unat v < 2 ^ 28 \<longleftrightarrow> k \<le> 4"
    using size_class_thresholds32(4) [OF k(3,1)] by (simp add: word_less_nat_alt)
  show ?thesis
  proof (cases "k = 5")
    case True
    with bound decode32_five [of v rest] show ?thesis by (simp only: enc if_False) simp
  next
    case False
    with k(1,2) have "k \<in> {1, 2, 3, 4}" by auto
    with k(3) have "DecodeVarint32 (groups k v @ rest) = Inr v"
      by (intro decode32_small) (simp_all only: size_class_def)
    with bound False k(2) show ?thesis by (simp only: enc) simp
  qed
qed

end
