(* ===== verification/Basics.thy ===== *)
theory Basics
  imports Prelude
begin

text \<open>
  The small value classes every component uses: \<open>Status\<close> (\<open>include/util/status.h\<close>),
  \<open>Sequence\<close> with its hash-table equality (\<open>include/util/sequence.h\<close>), the \<open>Config\<close>
  table (\<open>src/util/config.cc\<close>) and \<open>PathJoin\<close> (\<open>include/util/tools.h\<close>).
\<close>

section \<open>Status\<close>

datatype Code = kOk | kUndefinedError | kFileIOError | kBadArgumentError

record Status =
  err_type :: Code
  err_msg :: string

definition StatusNoError :: "Status \<Rightarrow> bool" where
  "StatusNoError s \<longleftrightarrow> err_type s = kOk"

definition NoError :: Status where
  "NoError = \<lparr>err_type = kOk, err_msg = []\<rparr>"

definition UndefinedError :: "string \<Rightarrow> Status" where
  "UndefinedError msg = \<lparr>err_type = kUndefinedError, err_msg = ''<ERROR>'' @ msg\<rparr>"

definition FileIOError :: "string \<Rightarrow> Status" where
  "FileIOError msg = \<lparr>err_type = kFileIOError, err_msg = ''<ERROR>'' @ msg\<rparr>"

definition BadArgumentError :: "string \<Rightarrow> Status" where
  "BadArgumentError msg = \<lparr>err_type = kBadArgumentError, err_msg = ''<ERROR>'' @ msg\<rparr>"

lemma StatusNoError_simps [simp]:
  "StatusNoError NoError"
  "\<not> StatusNoError (UndefinedError m)"
  "\<not> StatusNoError (FileIOError m)"
  "\<not> StatusNoError (BadArgumentError m)"
  by (simp_all add: StatusNoError_def NoError_def UndefinedError_def FileIOError_def
      BadArgumentError_def)

section \<open>Sequence\<close>

text \<open>
  A \<open>Sequence\<close> is a view: a start address and a size. The model is the viewed bytes; the
  components that care about the address (the caches and the allocators) keep it separately.
\<close>

definition SkipPrefix :: "nat \<Rightarrow> bytes \<Rightarrow> bytes" where
  "SkipPrefix prefix_size seq = drop prefix_size seq"

text \<open>
  \<open>SeqEqual::operator()\<close>: the loop decrements \<open>len\<close> but advances neither \<open>x\<close> nor \<open>y\<close>,
  so every iteration compares the first bytes.
\<close>

fun SeqEqual_loop :: "nat \<Rightarrow> byte \<Rightarrow> byte \<Rightarrow> bool" where
  "SeqEqual_loop 0 x y = True"
| "SeqEqual_loop (Suc len) x y = (if x \<noteq> y then False else SeqEqual_loop len x y)"

definition SeqEqual :: "bytes \<Rightarrow> bytes \<Rightarrow> bool" where
  "SeqEqual seq_x seq_y =
     (if length seq_x = length seq_y
      then (case (seq_x, seq_y) of
              (x # _, y # _) \<Rightarrow> SeqEqual_loop (length seq_x) x y
            | _ \<Rightarrow> True)
      else False)"

lemma SeqEqual_loop_iff: "SeqEqual_loop n x y \<longleftrightarrow> n = 0 \<or> x = y"
  by (induction n) auto

lemma SeqEqual_iff:
  "SeqEqual xs ys \<longleftrightarrow> length xs = length ys \<and> (xs = [] \<or> hd xs = hd ys)"
  by (auto simp: SeqEqual_def SeqEqual_loop_iff split: list.splits)

lemma SeqEqual_refl: "SeqEqual xs xs"
  by (simp add: SeqEqual_iff)

lemma SeqEqual_sym: "SeqEqual xs ys \<Longrightarrow> SeqEqual ys xs"
  by (auto simp: SeqEqual_iff)

lemma SeqEqual_trans: "SeqEqual xs ys \<Longrightarrow> SeqEqual ys zs \<Longrightarrow> SeqEqual xs zs"
  by (auto simp: SeqEqual_iff)

section \<open>Config\<close>

type_synonym Config = "string \<rightharpoonup> string"

definition AddOrUpdateConfig :: "Config \<Rightarrow> string \<Rightarrow> string \<Rightarrow> Config" where
  "AddOrUpdateConfig config nm option = config(nm \<mapsto> option)"

definition GetConfig :: "Config \<Rightarrow> string \<Rightarrow> string" where
  "GetConfig config nm = (case config nm of Some v \<Rightarrow> v | None \<Rightarrow> [])"

definition Config_default :: Config where
  "Config_default =
     AddOrUpdateConfig
       (AddOrUpdateConfig
         (AddOrUpdateConfig Map.empty
           ''database_dir'' ''/home/tom_cat/workdir/private/CS/C++/Primer/TomCatDB/db'')
         ''default_core_thread_num'' ''4'')
       ''max_task_queue_size'' ''10''"

section \<open>PathJoin\<close>

text \<open>\<open>parent.back()\<close> of an empty string is undefined behaviour.\<close>

definition PathJoin :: "string \<Rightarrow> string \<Rightarrow> string res" where
  "PathJoin parent child =
     (if parent = [] then Inl OobRead
      else if last parent = CHR ''/'' then Inr (butlast parent @ ''/'' @ child)
      else Inr (parent @ ''/'' @ child))"

lemma PathJoin_inj:
  assumes "PathJoin d a = Inr p" "PathJoin d b = Inr q"
  shows "p = q \<longleftrightarrow> a = b"
  using assms by (auto simp: PathJoin_def split: if_splits)

end
