(* ===== verification/Interfaces.thy ===== *)
theory Interfaces
  imports Prelude
begin

text \<open>
  The contracts between components, as locales. Each names the operations a client calls
  and the laws it relies on; the provider's theory interprets it on the model of the code,
  and the client's lemmas are proved inside it.

  \<^item> \<open>framing\<close>: self-delimiting records. Provider: \<open>InternalEntry::EntryData\<close>. Client: the
    loops that cut a data block into entries.
  \<^item> \<open>key_order\<close>: the template parameter \<open>Cmp\<close> of \<open>SkipList\<close>. Provider:
    \<open>InternalEntryComparator\<close> and \<open>QueryComparator\<close>.
  \<^item> \<open>hash_equality\<close>: the template parameters \<open>Hash\<close> and \<open>Equal\<close> of \<open>LRUCache\<close>.
  \<^item> \<open>filter_policy\<close>: the abstract class \<open>Filter\<close>. Provider: \<open>TCBloomFilter\<close>.
\<close>

section \<open>Self-delimiting records\<close>

text \<open>
  The loop of \<open>ReadSSTDataBlock\<close> and \<open>ReadSSTDataAll\<close>: take the record at the front, skip
  it, repeat until the block is used up. A record of size 0 would not make progress.
\<close>

function split_frames :: "(bytes \<Rightarrow> bytes res) \<Rightarrow> bytes \<Rightarrow> bytes list res" where
  "split_frames item bs =
     (if bs = [] then Inr []
      else rbind (item bs) (\<lambda>e.
        if e = [] then Inl OutOfFuel
        else rmap ((#) e) (split_frames item (drop (length e) bs))))"
  by pat_completeness auto
termination
  by (relation "measure (\<lambda>(item, bs). length bs)") auto

declare split_frames.simps [simp del]

lemma split_frames_Nil [simp]: "split_frames item [] = Inr []"
  by (simp add: split_frames.simps)

locale framing =
  fixes item :: "bytes \<Rightarrow> bytes res"
    and frame :: "bytes \<Rightarrow> bool"
  assumes item_frame: "frame e \<Longrightarrow> item (e @ rest) = Inr e"
    and frame_nonempty: "frame e \<Longrightarrow> e \<noteq> []"
begin

lemma split_concat: "\<forall>e\<in>set es. frame e \<Longrightarrow> split_frames item (concat es) = Inr es"
proof (induction es)
  case Nil
  then show ?case by simp
next
  case (Cons e es)
  from Cons.prems have e: "frame e" "e \<noteq> []" by (auto dest: frame_nonempty)
  with Cons show ?case
    by (simp add: split_frames.simps [of item "e @ concat es"] item_frame)
qed

lemma concat_inj:
  assumes "\<forall>e\<in>set xs. frame e" "\<forall>e\<in>set ys. frame e" "concat xs = concat ys"
  shows "xs = ys"
proof -
  have "Inr xs = split_frames item (concat xs)"
    by (rule split_concat [OF assms(1), symmetric])
  also have "\<dots> = Inr ys"
    unfolding assms(3) by (rule split_concat [OF assms(2)])
  finally show ?thesis by simp
qed

end

section \<open>Comparators\<close>

text \<open>
  \<open>ge\<close> and \<open>eq\<close> are the comparator's operations; on \<open>valid\<close> keys they compute a total
  preorder \<open>le\<close> and an equivalence \<open>same\<close>. \<open>sentinel\<close> is the key of the dummy head node.
\<close>

locale key_order =
  fixes ge :: "'k \<Rightarrow> 'k \<Rightarrow> bool res"
    and eq :: "'k \<Rightarrow> 'k \<Rightarrow> bool res"
    and sentinel :: 'k
    and valid :: "'k \<Rightarrow> bool"
    and le :: "'k \<Rightarrow> 'k \<Rightarrow> bool"
    and same :: "'k \<Rightarrow> 'k \<Rightarrow> bool"
  assumes ge_valid: "valid x \<Longrightarrow> valid y \<Longrightarrow> ge x y = Inr (le y x)"
    and eq_valid: "valid x \<Longrightarrow> valid y \<Longrightarrow> eq x y = Inr (same x y)"
    and eq_sentinel: "valid y \<Longrightarrow> eq sentinel y = Inr False"
    and le_total: "valid x \<Longrightarrow> valid y \<Longrightarrow> le x y \<or> le y x"
    and le_trans: "valid x \<Longrightarrow> valid y \<Longrightarrow> valid z \<Longrightarrow> le x y \<Longrightarrow> le y z \<Longrightarrow> le x z"

text \<open>The order with the strict comparison \<open>Greater\<close> as well.\<close>

locale strict_key_order = key_order ge eq sentinel valid le same
  for ge eq :: "'k \<Rightarrow> 'k \<Rightarrow> bool res" and sentinel :: 'k and valid :: "'k \<Rightarrow> bool"
    and le same :: "'k \<Rightarrow> 'k \<Rightarrow> bool" +
  fixes gt :: "'k \<Rightarrow> 'k \<Rightarrow> bool res"
  assumes gt_valid: "valid x \<Longrightarrow> valid y \<Longrightarrow> gt x y = Inr (\<not> le x y)"
    and gt_sentinel: "valid y \<Longrightarrow> gt sentinel y = Inr False"

section \<open>Hash tables\<close>

text \<open>
  An \<open>unordered_map\<close> as the list of its entries, in no particular order; \<open>p\<close> says which stored
  key matches the probe. \<open>um_erase\<close> removes the first match.
\<close>

definition um_find :: "('s \<Rightarrow> bool) \<Rightarrow> ('s \<times> 'v) list \<Rightarrow> 'v option" where
  "um_find p m = map_option snd (find (p \<circ> fst) m)"

fun um_erase :: "('s \<Rightarrow> bool) \<Rightarrow> ('s \<times> 'v) list \<Rightarrow> ('s \<times> 'v) list" where
  "um_erase p [] = []"
| "um_erase p (x # m) = (if p (fst x) then m else x # um_erase p m)"

lemma um_erase_subset: "set (um_erase p m) \<subseteq> set m"
  by (induction m) auto

text \<open>No two stored keys are equal.\<close>

definition um_ok :: "('k \<Rightarrow> 'k \<Rightarrow> bool) \<Rightarrow> ('s \<Rightarrow> 'k) \<Rightarrow> ('s \<times> 'v) list \<Rightarrow> bool" where
  "um_ok keq obs m \<longleftrightarrow> sorted_wrt (\<lambda>x y. \<not> keq (obs (fst x)) (obs (fst y))) m"

lemma um_find_None: "um_find p m = None \<longleftrightarrow> (\<forall>x\<in>set m. \<not> p (fst x))"
  by (auto simp: um_find_def find_None_iff)

lemma um_find_SomeD: "um_find p m = Some a \<Longrightarrow> \<exists>s. (s, a) \<in> set m \<and> p s"
  by (induction m) (auto simp: um_find_def split: if_splits)

text \<open>
  The key equality of the map: equal hash values and the \<open>Equal\<close> functor. \<open>obs\<close> is what a
  stored key denotes. The hash function of the standard library is a parameter of the
  definitions that use it.
\<close>

locale hash_equality =
  fixes keq :: "'k \<Rightarrow> 'k \<Rightarrow> bool"
  assumes keq_refl: "keq x x"
    and keq_sym: "keq x y \<Longrightarrow> keq y x"
    and keq_trans: "keq x y \<Longrightarrow> keq y z \<Longrightarrow> keq x z"
begin

lemma um_ok_Nil: "um_ok keq obs []"
  by (simp add: um_ok_def)

lemma um_ok_insert:
  "um_ok keq obs m \<Longrightarrow> um_find (\<lambda>s. keq (obs k) (obs s)) m = None \<Longrightarrow> um_ok keq obs ((k, v) # m)"
  by (auto simp: um_ok_def um_find_None)

lemma set_um_erase:
  "um_ok keq obs m \<Longrightarrow> set (um_erase (\<lambda>s. keq k (obs s)) m) = {x \<in> set m. \<not> keq k (obs (fst x))}"
proof (induction m)
  case (Cons x m)
  show ?case
  proof (cases "keq k (obs (fst x))")
    case True
    have "\<not> keq k (obs (fst y))" if "y \<in> set m" for y
    proof
      assume "keq k (obs (fst y))"
      then have "keq (obs (fst x)) (obs (fst y))" using True keq_sym keq_trans by blast
      then show False using Cons.prems that by (simp add: um_ok_def)
    qed
    with True show ?thesis by auto
  next
    case False
    with Cons show ?thesis by (auto simp: um_ok_def)
  qed
qed simp

lemma um_ok_erase: "um_ok keq obs m \<Longrightarrow> um_ok keq obs (um_erase p m)"
proof (induction m)
  case (Cons x m)
  then show ?case using um_erase_subset [of p m] by (auto simp: um_ok_def)
qed (simp add: um_ok_def)

lemma um_find_stored:
  assumes "um_ok keq obs m" "(s, a) \<in> set m" "keq k (obs s)"
  shows "um_find (\<lambda>s. keq k (obs s)) m = Some a"
  using assms
proof (induction m)
  case (Cons x m)
  show ?case
  proof (cases "x = (s, a)")
    case True
    with Cons.prems show ?thesis by (simp add: um_find_def)
  next
    case False
    then have "(s, a) \<in> set m" "\<not> keq (obs (fst x)) (obs s)"
      using Cons.prems by (auto simp: um_ok_def)
    then have "\<not> keq k (obs (fst x))" using Cons.prems(3) keq_sym keq_trans by blast
    with Cons \<open>(s, a) \<in> set m\<close> show ?thesis by (simp add: um_find_def um_ok_def)
  qed
qed simp

end

lemma distinct_um_erase: "distinct (map snd m) \<Longrightarrow> distinct (map snd (um_erase p m))"
proof (induction m)
  case (Cons x m)
  then show ?case using um_erase_subset [of p m] by auto
qed simp

section \<open>Filters\<close>

text \<open>
  \<open>create\<close> builds the filter of a set of entries, \<open>contains\<close> queries it with a key. The law
  the readers rely on is that a key whose entry was filtered is never reported absent, and
  that a query on a filter that was built does not fault.
\<close>

locale filter_policy =
  fixes create :: "bytes list \<Rightarrow> bytes res"
    and contains :: "bytes \<Rightarrow> bytes \<Rightarrow> bool res"
    and entry_ok :: "bytes \<Rightarrow> bool"
    and key_of :: "bytes \<Rightarrow> bytes"
  assumes contains_total: "create es = Inr f \<Longrightarrow> es \<noteq> [] \<Longrightarrow> \<exists>b. contains k f = Inr b"
    and no_false_negative: "create es = Inr f \<Longrightarrow> \<forall>e\<in>set es. entry_ok e \<Longrightarrow> e \<in> set es \<Longrightarrow>
      contains (key_of e) f = Inr True"
begin

text \<open>A reader that gives up when the filter says no loses nothing.\<close>

lemma absent_key:
  "create es = Inr f \<Longrightarrow> \<forall>e\<in>set es. entry_ok e \<Longrightarrow> contains k f = Inr False \<Longrightarrow>
    \<forall>e\<in>set es. key_of e \<noteq> k"
  using no_false_negative by fastforce

end

end
