(* ===== verification/InternalEntry.thy ===== *)
theory InternalEntry
  imports Varint Basics Interfaces
begin

text \<open>
  The record format of \<open>src/coding/internal_entry.cc\<close>: a varint key size, the key, a
  64-bit id, one byte of operation type and, for an insertion, a varint value size and the
  value. An entry pointer is modelled by the bytes from it to the end of its allocation.
\<close>

unbundle bit_operations_syntax

datatype OpType = kDelete | kInsert

fun op_byte :: "OpType \<Rightarrow> byte" where
  "op_byte kDelete = 0"
| "op_byte kInsert = 1"

section \<open>Encoding\<close>

text \<open>The bytes written, and the write into the caller's buffer.\<close>

definition entry_bytes :: "bytes \<Rightarrow> bytes \<Rightarrow> u64 \<Rightarrow> OpType \<Rightarrow> bytes" where
  "entry_bytes key val eid op =
     EncodeVarint64 (of_nat (length key)) @ key @ le_bytes 8 eid @ [op_byte op] @
     (if op = kInsert then EncodeVarint64 (of_nat (length val)) @ val else [])"

definition EncodeInternal ::
    "bytes \<Rightarrow> bytes \<Rightarrow> u64 \<Rightarrow> OpType \<Rightarrow> bytes \<Rightarrow> (Status \<times> bytes) res" where
  "EncodeInternal key val eid op internal_entry =
     rmap (\<lambda>buf. (NoError, buf)) (write_front internal_entry (entry_bytes key val eid op))"

section \<open>Decoding\<close>

definition EntryOpType :: "bytes \<Rightarrow> OpType res" where
  "EntryOpType internal_entry =
     rbind (DecodeVarint64 internal_entry) (\<lambda>key_size.
     rbind (rd internal_entry (unat (of_nat (SizeOfVarint key_size) + key_size + 8))) (\<lambda>b.
     if b = 0 then Inr kDelete
     else if b = 1 then Inr kInsert
     else Inl AssertFail))"

definition EntryKey :: "bytes \<Rightarrow> bytes res" where
  "EntryKey internal_entry =
     rbind (DecodeVarint64 internal_entry) (\<lambda>size.
     rbind (SizeOfVarint_ptr internal_entry) (\<lambda>n.
     view internal_entry n (unat size)))"

definition EntryValue :: "bytes \<Rightarrow> bytes res" where
  "EntryValue internal_entry =
     rbind (DecodeVarint64 internal_entry) (\<lambda>size.
     let p = drop (unat (of_nat (SizeOfVarint size) + size + 9)) internal_entry in
     rbind (SizeOfVarint_ptr p) (\<lambda>n.
     rbind (DecodeVarint64 p) (\<lambda>vsize.
     view p n (unat vsize))))"

definition EntryData :: "bytes \<Rightarrow> bytes res" where
  "EntryData internal_entry =
     rbind (DecodeVarint64 internal_entry) (\<lambda>size.
     let before_value_size = of_nat (SizeOfVarint size) + size + 9 :: u64 in
     rbind (EntryOpType internal_entry) (\<lambda>op.
     if op = kDelete then view internal_entry 0 (unat before_value_size)
     else
       let p = drop (unat before_value_size) internal_entry in
       rbind (SizeOfVarint_ptr p) (\<lambda>n.
       rbind (DecodeVarint64 p) (\<lambda>vsize.
       view internal_entry 0 (unat (before_value_size + of_nat n + vsize))))))"

section \<open>Entries that fit\<close>

text \<open>
  The bound of the round-trip results: key and value below 2^48 bytes, far more than a
  process can address, so that sizes take at most seven bytes and their sums do not wrap.
\<close>

definition fits :: "bytes \<Rightarrow> bool" where
  "fits bs \<longleftrightarrow> length bs < 2 ^ 48"

lemma unat_of_length:
  assumes "n < 2 ^ 49"
  shows "unat (of_nat n :: u64) = n"
  using assms by (intro unat_of_nat_u64) simp

lemma unat_length [simp]: "fits bs \<Longrightarrow> unat (of_nat (length bs) :: u64) = length bs"
  by (rule unat_of_length) (simp add: fits_def)

lemma Decode_length [codec_simps]:
  "fits bs \<Longrightarrow> DecodeVarint64 (EncodeVarint64 (of_nat (length bs)) @ rest) = Inr (of_nat (length bs))"
  by (rule DecodeVarint64_Encode) (simp add: fits_def unat_of_length)

lemma unat_offset:
  assumes "fits bs" "k < 2 ^ 48"
  shows "unat (of_nat (SizeOfVarint w) + of_nat (length bs) + of_nat k :: u64) =
    SizeOfVarint w + length bs + k"
proof -
  have "SizeOfVarint w + length bs + k < 2 ^ 64"
    using assms SizeOfVarint_bounds [of w] by (simp add: fits_def)
  then have "unat (of_nat (SizeOfVarint w + length bs + k) :: u64) = SizeOfVarint w + length bs + k"
    by (intro unat_of_nat_u64) simp
  then show ?thesis by simp
qed

lemmas unat_offset_9 = unat_offset [where k = 9, simplified]
  and unat_offset_8 = unat_offset [where k = 8, simplified]

lemma length_entry_bytes:
  "length (entry_bytes key val eid op) =
     SizeOfVarint (of_nat (length key)) + length key + 9 +
     (if op = kInsert then SizeOfVarint (of_nat (length val)) + length val else 0)"
  by (simp add: entry_bytes_def)

lemma entry_bytes_nonempty: "entry_bytes key val eid op \<noteq> []"
  by (simp add: entry_bytes_def)

lemma EntryKey_entry [codec_simps]:
  "fits key \<Longrightarrow> EntryKey (entry_bytes key val eid op @ rest) = Inr key"
  by (simp add: EntryKey_def entry_bytes_def codec_simps)

lemma EntryOpType_entry [codec_simps]:
  assumes "fits key"
  shows "EntryOpType (entry_bytes key val eid op @ rest) = Inr op"
proof -
  let ?a = "EncodeVarint64 (of_nat (length key)) @ key @ le_bytes 8 eid"
  let ?b = "(if op = kInsert then EncodeVarint64 (of_nat (length val)) @ val else []) @ rest"
  have e: "entry_bytes key val eid op @ rest = ?a @ op_byte op # ?b"
    by (simp add: entry_bytes_def)
  have "rd (?a @ op_byte op # ?b) (length ?a) = Inr (op_byte op)"
    by (simp only: rd_append_length rd_0)
  then have "rd (entry_bytes key val eid op @ rest)
      (SizeOfVarint (of_nat (length key)) + length key + 8) = Inr (op_byte op)"
    by (simp add: e add.assoc)
  moreover have "DecodeVarint64 (entry_bytes key val eid op @ rest) = Inr (of_nat (length key))"
    using assms by (simp add: entry_bytes_def codec_simps)
  ultimately show ?thesis
    using assms by (cases op) (simp_all add: EntryOpType_def unat_offset_8)
qed

lemma entry_split:
  assumes "fits key"
  shows "entry_bytes key val eid op @ rest =
      take (SizeOfVarint (of_nat (length key)) + length key + 9) (entry_bytes key val eid op) @
      (if op = kInsert then EncodeVarint64 (of_nat (length val)) @ val else []) @ rest"
    and "drop (SizeOfVarint (of_nat (length key)) + length key + 9) (entry_bytes key val eid op @ rest)
      = (if op = kInsert then EncodeVarint64 (of_nat (length val)) @ val else []) @ rest"
  by (simp_all add: entry_bytes_def)

lemma EntryValue_entry [codec_simps]:
  assumes "fits key" "fits val"
  shows "EntryValue (entry_bytes key val eid kInsert @ rest) = Inr val"
proof -
  have "DecodeVarint64 (entry_bytes key val eid kInsert @ rest) = Inr (of_nat (length key))"
    using assms by (simp add: entry_bytes_def codec_simps)
  moreover have "drop (unat (of_nat (SizeOfVarint (of_nat (length key))) + of_nat (length key) + 9 :: u64))
      (entry_bytes key val eid kInsert @ rest) = EncodeVarint64 (of_nat (length val)) @ val @ rest"
    using assms(1) by (simp only: unat_offset_9 entry_split(2)) simp
  ultimately show ?thesis
    using assms(2) by (simp add: EntryValue_def codec_simps)
qed

lemma EntryData_entry [codec_simps]:
  assumes "fits key" "fits val"
  shows "EntryData (entry_bytes key val eid op @ rest) = Inr (entry_bytes key val eid op)"
proof -
  let ?s = "SizeOfVarint (of_nat (length key))"
  have dec: "DecodeVarint64 (entry_bytes key val eid op @ rest) = Inr (of_nat (length key))"
    using assms by (simp add: entry_bytes_def codec_simps)
  show ?thesis
  proof (cases op)
    case kDelete
    then have "length (entry_bytes key val eid op) = ?s + length key + 9"
      by (simp add: length_entry_bytes)
    then have "view (entry_bytes key val eid op @ rest) 0 (?s + length key + 9)
        = Inr (entry_bytes key val eid op)"
      by (intro view_prefix) simp
    with dec kDelete assms show ?thesis
      by (simp add: EntryData_def unat_offset_9 EntryOpType_entry)
  next
    case kInsert
    let ?t = "SizeOfVarint (of_nat (length val))"
    have d: "drop (?s + length key + 9) (entry_bytes key val eid op @ rest) =
        EncodeVarint64 (of_nat (length val)) @ val @ rest"
      using entry_split(2) [OF assms(1), of val eid op rest] kInsert by simp
    have "unat (of_nat (?s + length key + 9 + ?t + length val) :: u64) =
        ?s + length key + 9 + ?t + length val"
      using assms SizeOfVarint_bounds [of "of_nat (length key)"]
        SizeOfVarint_bounds [of "of_nat (length val)"]
      by (intro unat_of_nat_u64) (simp add: fits_def)
    then have u: "unat (of_nat ?s + of_nat (length key) + 9 + of_nat ?t + of_nat (length val) :: u64)
        = length (entry_bytes key val eid op)"
      using kInsert by (simp add: length_entry_bytes)
    have "view (entry_bytes key val eid op @ rest) 0 (length (entry_bytes key val eid op))
        = Inr (entry_bytes key val eid op)"
      by (rule view_prefix) simp
    with dec kInsert assms d u show ?thesis
      by (simp add: EntryData_def unat_offset_9 EntryOpType_entry codec_simps)
  qed
qed

section \<open>Entries as self-delimiting records\<close>

definition is_entry :: "bytes \<Rightarrow> bool" where
  "is_entry e \<longleftrightarrow> (\<exists>key val eid op. fits key \<and> fits val \<and> e = entry_bytes key val eid op)"

lemma is_entryI [intro]: "fits key \<Longrightarrow> fits val \<Longrightarrow> is_entry (entry_bytes key val eid op)"
  by (auto simp: is_entry_def)

lemma is_entryE [elim?]:
  assumes "is_entry e"
  obtains key val eid op where "fits key" "fits val" "e = entry_bytes key val eid op"
  using assms by (auto simp: is_entry_def)

interpretation entry_frame: framing EntryData is_entry
  by unfold_locales (auto elim!: is_entryE simp: codec_simps entry_bytes_nonempty)

section \<open>Properties\<close>

text \<open>C26. Round trip of an entry: from the encoded entry, whatever follows it in memory, the
  decoders recover the key, the operation type, the value of an insertion and the extent of
  the whole entry; the encoder fills a buffer of exactly the size its callers allocate.\<close>

theorem internal_entry_roundtrip:
  assumes "fits key" "fits val"
    and "length buf = SizeOfVarint (of_nat (length key)) + length key + 9 +
      (if op = kInsert then SizeOfVarint (of_nat (length val)) + length val else 0)"
  shows "\<exists>e. EncodeInternal key val eid op buf = Inr (NoError, e) \<and>
    length e = length buf \<and>
    EntryKey (e @ rest) = Inr key \<and>
    EntryOpType (e @ rest) = Inr op \<and>
    (op = kInsert \<longrightarrow> EntryValue (e @ rest) = Inr val) \<and>
    EntryData (e @ rest) = Inr e"
  using assms
  by (intro exI [of _ "entry_bytes key val eid op"])
    (simp add: EncodeInternal_def length_entry_bytes codec_simps)

theorem internal_entry_roundtrip_witness:
  "\<exists>e. EncodeInternal [104, 105] [1] 7 kInsert (replicate 14 0) = Inr (NoError, e) \<and>
    EntryKey (e @ [255]) = Inr [104, 105] \<and> EntryValue (e @ [255]) = Inr [1]"
proof -
  have "SizeOfVarint 2 = 1" "SizeOfVarint 1 = 1"
    by (simp_all add: SizeOfVarint_def SizeOfVarint_shift.simps)
  then show ?thesis
    using internal_entry_roundtrip [of "[104, 105]" "[1]" "replicate 14 0" kInsert 7 "[255]"]
    by (auto simp: fits_def)
qed

end
