(* ===== verification/FileIO.thy ===== *)
theory FileIO
  imports InternalEntry
begin

text \<open>
  Files, writers and readers: \<open>src/io/dbfile.cc\<close>, \<open>src/io/writer.cc\<close>, \<open>src/io/reader.cc\<close>.

  The operating system is a record: the contents of the files, and for each of the calls that
  may fail the results it still has in store (\<open>open\<close>: success or not; \<open>write\<close> and \<open>read\<close>: how
  many bytes at most, a value not above 0 for a failure). When a list is used up the calls
  succeed in full. \<open>close\<close>, \<open>lseek\<close> to a valid offset and \<open>stat\<close> do not fail.
\<close>

section \<open>The operating system\<close>

record os =
  files :: "string \<rightharpoonup> bytes"
  open_results :: "bool list"
  write_results :: "int list"
  read_results :: "int list"

datatype Mode = kNewFile | kAppend | kReadOnly

definition content :: "os \<Rightarrow> string \<Rightarrow> bytes" where
  "content s f = (case files s f of Some bs \<Rightarrow> bs | None \<Rightarrow> [])"

definition os_open :: "os \<Rightarrow> string \<Rightarrow> Mode \<Rightarrow> bool \<times> os" where
  "os_open s f mode =
     (case open_results s of
        False # rs \<Rightarrow> (False, s\<lparr>open_results := rs\<rparr>)
      | rs \<Rightarrow>
          let s1 = s\<lparr>open_results := tl rs\<rparr> in
          case mode of
            kNewFile \<Rightarrow> (True, s1\<lparr>files := (files s1)(f \<mapsto> [])\<rparr>)
          | kAppend \<Rightarrow> (True, s1\<lparr>files := (files s1)(f \<mapsto> content s1 f)\<rparr>)
          | kReadOnly \<Rightarrow> (files s1 f \<noteq> None, s1))"

definition append_file :: "os \<Rightarrow> string \<Rightarrow> bytes \<Rightarrow> os" where
  "append_file s f data = s\<lparr>files := (files s)(f \<mapsto> content s f @ data)\<rparr>"

text \<open>\<open>write\<close> at the end of the file: the returned count and the new state.\<close>

definition os_write :: "os \<Rightarrow> string \<Rightarrow> bytes \<Rightarrow> int \<times> os" where
  "os_write s f data =
     (case write_results s of
        [] \<Rightarrow> (int (length data), append_file s f data)
      | r # rs \<Rightarrow>
          let s1 = s\<lparr>write_results := rs\<rparr> in
          if r \<le> 0 then (r, s1)
          else let n = min (nat r) (length data) in (int n, append_file s1 f (take n data)))"

definition os_read :: "os \<Rightarrow> string \<Rightarrow> nat \<Rightarrow> nat \<Rightarrow> bytes \<times> int \<times> os" where
  "os_read s f pos n =
     (let avail = take n (drop pos (content s f)) in
      case read_results s of
        [] \<Rightarrow> (avail, int (length avail), s)
      | r # rs \<Rightarrow>
          let s1 = s\<lparr>read_results := rs\<rparr> in
          if r < 0 then ([], r, s1)
          else let got = take (nat r) avail in (got, int (length got), s1))"

section \<open>DBFile\<close>

record DBFile =
  file_name :: string
  file_mode :: Mode
  is_open :: bool

definition DBFile_Open :: "os \<Rightarrow> DBFile \<Rightarrow> bool \<times> DBFile \<times> os" where
  "DBFile_Open s d =
     (if is_open d then (True, d, s)
      else let (ok, s') = os_open s (file_name d) (file_mode d) in (ok, d\<lparr>is_open := ok\<rparr>, s'))"

definition DBFile_Close :: "DBFile \<Rightarrow> bool \<times> DBFile" where
  "DBFile_Close d = (if is_open d then (True, d\<lparr>is_open := False\<rparr>) else (False, d))"

definition set_mode :: "DBFile \<Rightarrow> Mode \<Rightarrow> DBFile" where
  "set_mode d m = d\<lparr>file_mode := m\<rparr>"

definition DBFile_new :: "os \<Rightarrow> string \<Rightarrow> Mode \<Rightarrow> DBFile \<times> os" where
  "DBFile_new s f mode =
     snd (DBFile_Open s \<lparr>file_name = f, file_mode = mode, is_open = False\<rparr>)"

section \<open>BaseWriter\<close>

text \<open>\<open>buffer\<close> holds the first \<open>pos_\<close> bytes of \<open>buffer_\<close>; \<open>dbfile\<close> may be the null pointer.\<close>

record writer =
  kMaxBufferSize :: nat
  buffer :: bytes
  dbfile :: "DBFile option"

definition Writer_new :: "DBFile \<Rightarrow> nat \<Rightarrow> writer" where
  "Writer_new d max_buffer_size = \<lparr>kMaxBufferSize = max_buffer_size, buffer = [], dbfile = Some d\<rparr>"

definition AbleToBuffer :: "writer \<Rightarrow> nat \<Rightarrow> bool" where
  "AbleToBuffer w n \<longleftrightarrow> length (buffer w) + n \<le> kMaxBufferSize w"

definition ClearBuffer :: "writer \<Rightarrow> writer" where
  "ClearBuffer w = w\<lparr>buffer := []\<rparr>"

definition AppendToBuffer :: "writer \<Rightarrow> bytes \<Rightarrow> nat \<times> writer" where
  "AppendToBuffer w src =
     (if \<not> AbleToBuffer w (length src)
      then let n = kMaxBufferSize w - length (buffer w) in (n, w\<lparr>buffer := buffer w @ take n src\<rparr>)
      else (length src, w\<lparr>buffer := buffer w @ src\<rparr>))"

fun open_retry :: "nat \<Rightarrow> os \<Rightarrow> string \<Rightarrow> bool \<times> os" where
  "open_retry 0 s f = (False, s)"
| "open_retry (Suc n) s f =
     (let (ok, s') = os_open s f kAppend in if ok then (True, s') else open_retry n s' f)"

text \<open>The loop \<open>while (written_bytes < pos_)\<close> on what is left to write.\<close>

function write_loop :: "os \<Rightarrow> string \<Rightarrow> bytes \<Rightarrow> os" where
  "write_loop s f data =
     (if data = [] then s
      else let (write_stat, s') = os_write s f data in
        if write_stat > 0 then write_loop s' f (drop (nat write_stat) data)
        else write_loop s' f data)"
  by pat_completeness auto
termination
  by (relation "measures [\<lambda>(s, f, data). length (write_results s), \<lambda>(s, f, data). length data]")
    (auto simp: os_write_def Let_def append_file_def split: list.splits if_splits)

declare write_loop.simps [simp del]

text \<open>\<open>max_retry\<close> counts from 5 down to 0: six attempts.\<close>

definition WriteAppendFile :: "os \<Rightarrow> writer \<Rightarrow> Status \<times> writer \<times> os" where
  "WriteAppendFile s w =
     (case dbfile w of
        None \<Rightarrow> (BadArgumentError ''No dbfile specified.'', w, s)
      | Some d \<Rightarrow>
          let (ok, s1) = open_retry 6 s (file_name d) in
          if \<not> ok then (FileIOError ''Cannot open dbfile.'', w, s1)
          else (NoError, ClearBuffer w, write_loop s1 (file_name d) (buffer w)))"

text \<open>\<open>WriteNewFile\<close> adds the result of \<open>write\<close> to \<open>written_bytes\<close> unchecked; with a negative
  count the next call reads in front of the buffer.\<close>

fun new_file_loop :: "nat \<Rightarrow> os \<Rightarrow> string \<Rightarrow> bytes \<Rightarrow> int \<Rightarrow> (bool \<times> os) res" where
  "new_file_loop retries s f buf written =
     (if written \<ge> int (length buf) then Inr (True, s)
      else case retries of
        0 \<Rightarrow> Inr (False, s)
      | Suc n \<Rightarrow>
          if written < 0 then Inl OobRead
          else let (r, s') = os_write s f (drop (nat written) buf) in
            new_file_loop n s' f buf (written + r))"

definition kMaxRetry :: nat where
  "kMaxRetry = 5"

definition WriteNewFile :: "os \<Rightarrow> writer \<Rightarrow> (Status \<times> writer \<times> os) res" where
  "WriteNewFile s w =
     (case dbfile w of
        None \<Rightarrow> Inr (BadArgumentError ''No dbfile specified.'', w, s)
      | Some d \<Rightarrow>
          let d1 = (if file_mode d \<noteq> kNewFile then set_mode (snd (DBFile_Close d)) kNewFile else d);
              (ok, d2, s1) = DBFile_Open s d1;
              w2 = w\<lparr>dbfile := Some d2\<rparr>
          in if \<not> ok then Inr (FileIOError ''Cannot open dbfile.'', w2, s1)
             else rbind (new_file_loop kMaxRetry s1 (file_name d2) (buffer w) 0) (\<lambda>(done, s2).
               if \<not> done then Inr (FileIOError [], w2, s2)
               else Inr (NoError, ClearBuffer (w2\<lparr>dbfile := Some (snd (DBFile_Close d2))\<rparr>), s2)))"

section \<open>SequentialWriter\<close>

text \<open>The inner \<open>while\<close> of \<open>WriteBatch\<close>: \<open>n\<close> bytes of \<open>e\<close> have just been buffered.\<close>

fun batch_entry :: "nat \<Rightarrow> os \<Rightarrow> writer \<Rightarrow> bytes \<Rightarrow> nat \<Rightarrow> (Status \<times> writer \<times> os) res" where
  "batch_entry 0 s w e n = Inl OutOfFuel"
| "batch_entry (Suc fuel) s w e n =
     (if n = length e then Inr (NoError, w, s)
      else
        let e1 = SkipPrefix n e; (st, w1, s1) = WriteAppendFile s w in
        if \<not> StatusNoError st then Inr (st, w1, s1)
        else let (n1, w2) = AppendToBuffer w1 e1 in batch_entry fuel s1 w2 e1 n1)"

fun batch_loop :: "os \<Rightarrow> writer \<Rightarrow> bytes list \<Rightarrow> (Status \<times> writer \<times> os) res" where
  "batch_loop s w [] = Inr (NoError, w, s)"
| "batch_loop s w (e # es) =
     (let (n, w1) = AppendToBuffer w e in
      rbind (batch_entry (length e + 2) s w1 e n) (\<lambda>(st, w2, s2).
      if \<not> StatusNoError st then Inr (st, w2, s2) else batch_loop s2 w2 es))"

definition WriteBatch :: "os \<Rightarrow> writer \<Rightarrow> bytes list \<Rightarrow> nat \<Rightarrow> nat \<Rightarrow> (Status \<times> writer \<times> os) res" where
  "WriteBatch s w entries from to =
     (if from < to \<and> length entries < to then Inl OobRead
      else rbind (batch_loop s w (take (to - from) (drop from entries))) (\<lambda>(st, w1, s1).
        if StatusNoError st \<and> length (buffer w1) \<noteq> 0 then Inr (WriteAppendFile s1 w1)
        else Inr (st, w1, s1)))"

text \<open>The overload without a range.\<close>

definition WriteBatch_all :: "os \<Rightarrow> writer \<Rightarrow> bytes list \<Rightarrow> (Status \<times> writer \<times> os) res" where
  "WriteBatch_all s w entries = WriteBatch s w entries 0 (length entries)"

fun fragment_loop :: "nat \<Rightarrow> os \<Rightarrow> writer \<Rightarrow> bytes \<Rightarrow> (Status \<times> writer \<times> os) res" where
  "fragment_loop 0 s w fragment = Inl OutOfFuel"
| "fragment_loop (Suc fuel) s w fragment =
     (if fragment = [] then Inr (NoError, w, s)
      else
        let (n, w1) = AppendToBuffer w fragment; (st, w2, s2) = WriteAppendFile s w1 in
        if \<not> StatusNoError st then Inr (st, w2, s2)
        else fragment_loop fuel s2 w2 (drop n fragment))"

definition WriteFragment :: "os \<Rightarrow> writer \<Rightarrow> bytes \<Rightarrow> (Status \<times> writer \<times> os) res" where
  "WriteFragment s w fragment =
     fragment_loop (length fragment + 1) s (ClearBuffer w) fragment"

section \<open>SequentialReader\<close>

definition IsCorrectlyOpened :: "os \<Rightarrow> DBFile \<Rightarrow> Status \<times> DBFile \<times> os" where
  "IsCorrectlyOpened s d =
     (let (ok, d1, s1) = (if \<not> is_open d then DBFile_Open s (set_mode d kReadOnly) else (True, d, s)) in
      if \<not> ok then (FileIOError ''File failed to be opened.'', d1, s1)
      else if file_mode d1 \<noteq> kReadOnly then
        let (ok2, d2, s2) = DBFile_Open s1 (set_mode (snd (DBFile_Close d1)) kReadOnly) in
        if \<not> ok2 then (FileIOError ''Wrong open mode for the file.'', d2, s2) else (NoError, d2, s2)
      else (NoError, d1, s1))"

fun to_string :: "nat \<Rightarrow> string" where
  "to_string n =
     (if n < 10 then [char_of (48 + n)] else to_string (n div 10) @ [char_of (48 + n mod 10)])"

declare to_string.simps [simp del]

text \<open>\<open>lseek\<close> to a negative offset fails and leaves the position of the fresh descriptor, 0.
  Both branches of the code (through the buffer or straight into the string) read once.\<close>

definition InternalRead :: "os \<Rightarrow> DBFile \<Rightarrow> nat \<Rightarrow> int \<Rightarrow> Status \<times> bytes \<times> os" where
  "InternalRead s d n offset =
     (let pos = (if offset < 0 then 0 else nat offset);
          (bs, got, s1) = os_read s (file_name d) pos n
      in if got = int n then (NoError, bs, s1)
         else (FileIOError (''Unable to read all '' @ to_string n @ '' bytes.''), [], s1))"

definition Reader_Read :: "os \<Rightarrow> string \<Rightarrow> nat \<Rightarrow> int \<Rightarrow> Status \<times> bytes \<times> os" where
  "Reader_Read s f n offset =
     (let (d, s1) = DBFile_new s f kReadOnly; (st, d1, s2) = IsCorrectlyOpened s1 d in
      if \<not> StatusNoError st then (st, [], s2) else InternalRead s2 d1 n offset)"

definition Reader_ReadEntire :: "os \<Rightarrow> string \<Rightarrow> Status \<times> bytes \<times> os" where
  "Reader_ReadEntire s f =
     (let (d, s1) = DBFile_new s f kReadOnly; (st, d1, s2) = IsCorrectlyOpened s1 d in
      if \<not> StatusNoError st then (st, [], s2)
      else InternalRead s2 d1 (length (content s2 f)) 0)"

definition FlieSize :: "os \<Rightarrow> string \<Rightarrow> int" where
  "FlieSize s f = (case files s f of Some bs \<Rightarrow> int (length bs) | None \<Rightarrow> - 1)"

text \<open>\<open>RandomReader\<close> is unimplemented: every operation returns an undefined error.\<close>

definition RandomReader_Read :: "os \<Rightarrow> string \<Rightarrow> nat \<Rightarrow> int \<Rightarrow> Status \<times> bytes \<times> os" where
  "RandomReader_Read s f n offset = (UndefinedError [], [], s)"

definition RandomReader_ReadEntire :: "os \<Rightarrow> string \<Rightarrow> Status \<times> bytes \<times> os" where
  "RandomReader_ReadEntire s f = (UndefinedError [], [], s)"

definition RandomReader_InternalRead :: "os \<Rightarrow> DBFile \<Rightarrow> nat \<Rightarrow> int \<Rightarrow> Status \<times> bytes \<times> os" where
  "RandomReader_InternalRead s d n offset = (UndefinedError [], [], s)"

section \<open>What the writer guarantees\<close>

text \<open>\<open>transfers f s w st s' w' data\<close>: a step that, if it reports success, has moved \<open>data\<close>
  behind what was in the file \<open>f\<close> and the buffer; it touches no other file, and it fails
  only if \<open>open\<close> does.\<close>

definition transfers :: "string \<Rightarrow> os \<Rightarrow> writer \<Rightarrow> Status \<Rightarrow> os \<Rightarrow> writer \<Rightarrow> bytes \<Rightarrow> bool" where
  "transfers f s w st s' w' data \<longleftrightarrow>
     (StatusNoError st \<longrightarrow> content s' f @ buffer w' = content s f @ buffer w @ data) \<and>
     (open_results s = [] \<longrightarrow> StatusNoError st \<and> open_results s' = []) \<and>
     dbfile w' = dbfile w \<and> kMaxBufferSize w' = kMaxBufferSize w \<and>
     length (buffer w') \<le> kMaxBufferSize w' \<and>
     (\<forall>g. g \<noteq> f \<longrightarrow> files s' g = files s g) \<and> read_results s' = read_results s"

lemma transfers_trans:
  "transfers f s w st1 s1 w1 a \<Longrightarrow> StatusNoError st1 \<Longrightarrow> transfers f s1 w1 st s2 w2 b \<Longrightarrow>
    transfers f s w st s2 w2 (a @ b)"
  unfolding transfers_def by (metis append.assoc)

lemma transfers_error:
  "transfers f s w st1 s1 w1 a \<Longrightarrow> \<not> StatusNoError st1 \<Longrightarrow> transfers f s w st1 s1 w1 b"
  by (auto simp: transfers_def)

lemma os_write_files:
  assumes "os_write s f data = (r, s')"
  shows "content s' f = content s f @ take (nat r) data" "nat r \<le> length data"
    "g \<noteq> f \<Longrightarrow> files s' g = files s g" "open_results s' = open_results s"
    "read_results s' = read_results s"
  using assms
  by (auto simp: os_write_def Let_def append_file_def content_def split: list.splits if_splits)

lemma write_loop_files:
  "content (write_loop s f data) f = content s f @ data"
  "g \<noteq> f \<Longrightarrow> files (write_loop s f data) g = files s g"
  "open_results (write_loop s f data) = open_results s"
  "read_results (write_loop s f data) = read_results s"
proof (induction s f data rule: write_loop.induct)
  case (1 s f data)
  obtain r s' where w: "os_write s f data = (r, s')" by fastforce
  note fs = os_write_files [OF w]
  {
    case 1
    then show ?case
      using "1.IH"(1,5) [OF _ w [symmetric]] w fs by (simp add: write_loop.simps [of s f data])
  next
    case 2
    then show ?case
      using "1.IH"(2,6) [OF _ w [symmetric]] w fs by (simp add: write_loop.simps [of s f data])
  next
    case 3
    then show ?case
      using "1.IH"(3,7) [OF _ w [symmetric]] w fs by (simp add: write_loop.simps [of s f data])
  next
    case 4
    then show ?case
      using "1.IH"(4,8) [OF _ w [symmetric]] w fs by (simp add: write_loop.simps [of s f data])
  }
qed

lemma os_open_append_files:
  assumes "os_open s f kAppend = (ok, s')"
  shows "content s' f = content s f" "g \<noteq> f \<Longrightarrow> files s' g = files s g"
    "read_results s' = read_results s" "open_results s = [] \<Longrightarrow> ok \<and> open_results s' = []"
  using assms
  by (auto simp: os_open_def content_def Let_def split: list.splits bool.splits if_splits)

lemma open_retry_files:
  "open_retry n s f = (ok, s') \<Longrightarrow> content s' f = content s f \<and> (\<forall>g. g \<noteq> f \<longrightarrow> files s' g = files s g) \<and>
    read_results s' = read_results s \<and> (open_results s = [] \<longrightarrow> n > 0 \<longrightarrow> ok \<and> open_results s' = [])"
proof (induction n arbitrary: s)
  case (Suc n)
  obtain ok1 s1 where o: "os_open s f kAppend = (ok1, s1)" by fastforce
  note fs = os_open_append_files [OF o]
  show ?case
  proof (cases ok1)
    case True
    with o Suc.prems fs show ?thesis by auto
  next
    case False
    then have "open_retry n s1 f = (ok, s')" using o Suc.prems by simp
    from Suc.IH [OF this] fs False show ?thesis by auto
  qed
qed simp

lemma WriteAppendFile_transfers:
  assumes "dbfile w = Some d" "length (buffer w) \<le> kMaxBufferSize w"
    and "WriteAppendFile s w = (st, w', s')"
  shows "transfers (file_name d) s w st s' w' []" "StatusNoError st \<Longrightarrow> buffer w' = []"
proof -
  obtain ok s1 where o: "open_retry 6 s (file_name d) = (ok, s1)" by fastforce
  note fs = open_retry_files [OF o]
  have "(ok \<and> st = NoError \<and> w' = ClearBuffer w \<and> s' = write_loop s1 (file_name d) (buffer w)) \<or>
    (\<not> ok \<and> \<not> StatusNoError st \<and> w' = w \<and> s' = s1)"
    using assms(1,3) o by (cases ok) (auto simp: WriteAppendFile_def simp del: open_retry.simps)
  then show "transfers (file_name d) s w st s' w' []" "StatusNoError st \<Longrightarrow> buffer w' = []"
    using fs assms(2) write_loop_files [where s = s1 and f = "file_name d" and data = "buffer w"]
    by (auto simp: transfers_def ClearBuffer_def)
qed

lemma AppendToBuffer_parts:
  assumes "AppendToBuffer w e = (n, w1)" "length (buffer w) \<le> kMaxBufferSize w"
  shows "n \<le> length e" "buffer w1 = buffer w @ take n e" "dbfile w1 = dbfile w"
    "kMaxBufferSize w1 = kMaxBufferSize w" "length (buffer w1) \<le> kMaxBufferSize w1"
    "buffer w = [] \<Longrightarrow> 0 < kMaxBufferSize w \<Longrightarrow> e \<noteq> [] \<Longrightarrow> 0 < n"
  using assms by (auto simp: AppendToBuffer_def AbleToBuffer_def Let_def split: if_splits)

lemma transfers_append:
  "AppendToBuffer w e = (n, w1) \<Longrightarrow> length (buffer w) \<le> kMaxBufferSize w \<Longrightarrow>
    transfers f s w NoError s w1 (take n e)"
  using AppendToBuffer_parts [of w e n w1] by (auto simp: transfers_def)

lemma transfers_buffer: "transfers f s w st s' w' a \<Longrightarrow> dbfile w = Some d \<Longrightarrow>
    dbfile w' = Some d \<and> length (buffer w') \<le> kMaxBufferSize w' \<and> kMaxBufferSize w' = kMaxBufferSize w"
  by (simp add: transfers_def)

lemma batch_entry_transfers:
  assumes "dbfile w = Some d" "length (buffer w) \<le> kMaxBufferSize w" "0 < kMaxBufferSize w"
    and "n \<le> length e" "length e - n + 2 \<le> fuel"
  shows "\<exists>st w' s'. batch_entry fuel s w e n = Inr (st, w', s') \<and>
    transfers (file_name d) s w st s' w' (drop n e)"
  using assms
proof (induction fuel arbitrary: s w e n)
  case (Suc fuel)
  show ?case
  proof (cases "n = length e")
    case True
    with Suc.prems show ?thesis by (simp add: transfers_def)
  next
    case False
    obtain st w1 s1 where a: "WriteAppendFile s w = (st, w1, s1)" by (cases "WriteAppendFile s w") auto
    note t = WriteAppendFile_transfers [OF Suc.prems(1,2) a]
    show ?thesis
    proof (cases "StatusNoError st")
      case True
      let ?e = "drop n e"
      note b = transfers_buffer [OF t(1) Suc.prems(1)]
      obtain n1 w2 where ap: "AppendToBuffer w1 ?e = (n1, w2)" by fastforce
      note p = AppendToBuffer_parts [OF ap]
      have "0 < n1" using p(6) t(2) True b Suc.prems(3,4) False by simp
      moreover have "n1 \<le> length ?e" "dbfile w2 = Some d" "length (buffer w2) \<le> kMaxBufferSize w2"
        "0 < kMaxBufferSize w2" using p b Suc.prems(3) by simp_all
      ultimately obtain st' w' s' where r: "batch_entry fuel s1 w2 ?e n1 = Inr (st', w', s')"
        "transfers (file_name d) s1 w2 st' s' w' (drop n1 ?e)"
        using Suc.IH [of w2 n1 ?e s1] Suc.prems(4,5) False by fastforce
      have "transfers (file_name d) s1 w1 NoError s1 w2 (take n1 ?e)"
        using transfers_append [OF ap] b by blast
      from transfers_trans [OF transfers_trans [OF t(1) True this] _ r(2)]
      have "transfers (file_name d) s w st' s' w' ?e" by (simp del: drop_drop)
      then show ?thesis
        using r(1) a True False ap by (simp add: SkipPrefix_def del: drop_drop)
    next
      case st: False
      then show ?thesis using a False transfers_error [OF t(1)] by auto
    qed
  qed
qed simp

lemma batch_loop_transfers:
  assumes "dbfile w = Some d" "length (buffer w) \<le> kMaxBufferSize w" "0 < kMaxBufferSize w"
  shows "\<exists>st w' s'. batch_loop s w es = Inr (st, w', s') \<and>
    transfers (file_name d) s w st s' w' (concat es)"
  using assms
proof (induction es arbitrary: s w)
  case Nil
  then show ?case by (simp add: transfers_def)
next
  case (Cons e es)
  obtain n w1 where ap: "AppendToBuffer w e = (n, w1)" by fastforce
  note p = AppendToBuffer_parts [OF ap Cons.prems(2)]
  note t0 = transfers_append [OF ap Cons.prems(2), of "file_name d" s]
  have "dbfile w1 = Some d" "0 < kMaxBufferSize w1" "length e - n + 2 \<le> length e + 2"
    using p Cons.prems by simp_all
  from batch_entry_transfers [OF this(1) p(5) this(2) p(1) this(3), of s]
  obtain st w2 s2 where b: "batch_entry (length e + 2) s w1 e n = Inr (st, w2, s2)"
    "transfers (file_name d) s w1 st s2 w2 (drop n e)" by blast
  have t: "transfers (file_name d) s w st s2 w2 e"
    using transfers_trans [OF t0 _ b(2)] by simp
  show ?case
  proof (cases "StatusNoError st")
    case True
    note tb = transfers_buffer [OF t Cons.prems(1)]
    obtain st' w' s' where r: "batch_loop s2 w2 es = Inr (st', w', s')"
      "transfers (file_name d) s2 w2 st' s' w' (concat es)"
      using Cons.IH [of w2 s2] tb Cons.prems(3) by auto
    then show ?thesis
      using ap b(1) True transfers_trans [OF t True r(2)] by (simp del: batch_entry.simps)
  next
    case False
    then show ?thesis using ap b(1) transfers_error [OF t False] by (simp del: batch_entry.simps)
  qed
qed

lemma WriteBatch_transfers:
  assumes "dbfile w = Some d" "length (buffer w) \<le> kMaxBufferSize w" "0 < kMaxBufferSize w"
    and "to \<le> length es"
  shows "\<exists>st w' s'. WriteBatch s w es from to = Inr (st, w', s') \<and>
    transfers (file_name d) s w st s' w' (concat (take (to - from) (drop from es))) \<and>
    (StatusNoError st \<longrightarrow> buffer w' = [])"
proof -
  let ?es = "take (to - from) (drop from es)"
  obtain st w1 s1 where b: "batch_loop s w ?es = Inr (st, w1, s1)"
    "transfers (file_name d) s w st s1 w1 (concat ?es)"
    using batch_loop_transfers [OF assms(1-3)] by blast
  note tb = transfers_buffer [OF b(2) assms(1)]
  obtain st2 w2 s2 where a: "WriteAppendFile s1 w1 = (st2, w2, s2)" by (cases "WriteAppendFile s1 w1") auto
  have tb1: "dbfile w1 = Some d" "length (buffer w1) \<le> kMaxBufferSize w1" using tb by simp_all
  note t = WriteAppendFile_transfers [OF tb1 a]
  show ?thesis
  proof (cases "StatusNoError st \<and> length (buffer w1) \<noteq> 0")
    case True
    then show ?thesis
      using assms(4) b(1) a transfers_trans [OF b(2) _ t(1)] t(2) by (simp add: WriteBatch_def)
  next
    case False
    then show ?thesis using assms(4) b by (auto simp: WriteBatch_def)
  qed
qed

lemma fragment_loop_transfers:
  assumes "dbfile w = Some d" "buffer w = []" "0 < kMaxBufferSize w" "length fragment < fuel"
  shows "\<exists>st w' s'. fragment_loop fuel s w fragment = Inr (st, w', s') \<and>
    transfers (file_name d) s w st s' w' fragment \<and> (StatusNoError st \<longrightarrow> buffer w' = [])"
  using assms
proof (induction fuel arbitrary: s w fragment)
  case (Suc fuel)
  show ?case
  proof (cases "fragment = []")
    case True
    with Suc.prems show ?thesis by (simp add: transfers_def)
  next
    case False
    obtain n w1 where ap: "AppendToBuffer w fragment = (n, w1)" by fastforce
    have b0: "length (buffer w) \<le> kMaxBufferSize w" using Suc.prems(2) by simp
    note p = AppendToBuffer_parts [OF ap b0]
    obtain st w2 s2 where a: "WriteAppendFile s w1 = (st, w2, s2)" by (cases "WriteAppendFile s w1") auto
    have d1: "dbfile w1 = Some d" using p Suc.prems by simp
    note t = WriteAppendFile_transfers [OF d1 p(5) a]
    have t1: "transfers (file_name d) s w st s2 w2 (take n fragment)"
      using transfers_trans [OF transfers_append [OF ap b0] _ t(1)] by simp
    show ?thesis
    proof (cases "StatusNoError st")
      case True
      have "0 < n" using p(6) Suc.prems False by simp
      then have len: "length (drop n fragment) < fuel" using Suc.prems(4) p(1) False by simp
      have "dbfile w2 = Some d" "0 < kMaxBufferSize w2"
        using transfers_buffer [OF t1 Suc.prems(1)] Suc.prems(3) by simp_all
      from Suc.IH [OF this(1) t(2) [OF True] this(2) len, of s2]
      obtain st' w' s' where r: "fragment_loop fuel s2 w2 (drop n fragment) = Inr (st', w', s')"
        "transfers (file_name d) s2 w2 st' s' w' (drop n fragment)" "StatusNoError st' \<longrightarrow> buffer w' = []"
        by blast
      then show ?thesis
        using ap a True False transfers_trans [OF t1 True r(2)] by simp
    next
      case st: False
      then show ?thesis using ap a False transfers_error [OF t1 st] by simp
    qed
  qed
qed simp

lemma WriteFragment_transfers:
  assumes "dbfile w = Some d" "0 < kMaxBufferSize w" "buffer w = []"
  shows "\<exists>st w' s'. WriteFragment s w fragment = Inr (st, w', s') \<and>
    transfers (file_name d) s w st s' w' fragment \<and> (StatusNoError st \<longrightarrow> buffer w' = [])"
proof -
  have "ClearBuffer w = w" using assms(3) by (simp add: ClearBuffer_def)
  then show ?thesis
    using fragment_loop_transfers [of w d fragment "length fragment + 1" s] assms
    unfolding WriteFragment_def by (simp del: fragment_loop.simps)
qed

section \<open>What the reader guarantees\<close>

lemma os_open_read_files:
  "os_open s f kReadOnly = (ok, s') \<Longrightarrow> files s' = files s \<and> read_results s' = read_results s \<and>
    write_results s' = write_results s \<and> (ok \<longrightarrow> files s f \<noteq> None) \<and>
    (open_results s = [] \<longrightarrow> open_results s' = [] \<and> (ok \<longleftrightarrow> files s f \<noteq> None))"
  by (auto simp: os_open_def Let_def split: list.splits bool.splits)

lemma os_read_result:
  "os_read s f pos n = (bs, got, s') \<Longrightarrow> files s' = files s \<and> open_results s' = open_results s \<and>
    write_results s' = write_results s \<and>
    (got = int n \<longrightarrow> bs = take n (drop pos (content s f)) \<and> length bs = n) \<and>
    (read_results s = [] \<longrightarrow> read_results s' = [] \<and> bs = take n (drop pos (content s f)) \<and>
      got = int (length bs))"
  by (auto simp: os_read_def Let_def split: list.splits if_splits)

text \<open>Opening for reading, with the second attempt of \<open>IsCorrectlyOpened\<close>.\<close>

lemma open_for_reading:
  assumes "DBFile_new s f kReadOnly = (d, s1)" "IsCorrectlyOpened s1 d = (st, d1, s2)"
  shows "files s2 = files s \<and> read_results s2 = read_results s \<and> write_results s2 = write_results s \<and>
    file_name d1 = f \<and> (StatusNoError st \<longrightarrow> files s f \<noteq> None) \<and>
    (open_results s = [] \<longrightarrow> open_results s2 = [] \<and> (StatusNoError st \<longleftrightarrow> files s f \<noteq> None))"
proof -
  obtain ok t1 where o1: "os_open s f kReadOnly = (ok, t1)" by fastforce
  then have d: "d = \<lparr>file_name = f, file_mode = kReadOnly, is_open = ok\<rparr>" "s1 = t1"
    using assms(1) by (auto simp: DBFile_new_def DBFile_Open_def)
  show ?thesis
  proof (cases ok)
    case True
    then show ?thesis
      using os_open_read_files [OF o1] d assms(2) by (auto simp: IsCorrectlyOpened_def)
  next
    case False
    obtain ok2 t2 where o2: "os_open t1 f kReadOnly = (ok2, t2)" by fastforce
    show ?thesis
      using os_open_read_files [OF o1] os_open_read_files [OF o2] o2 d assms(2) False
      by (cases ok2) (auto simp: IsCorrectlyOpened_def DBFile_Open_def set_mode_def)
  qed
qed

text \<open>\<open>reads f s bs s'\<close>: a read step that leaves the files alone.\<close>

lemma Reader_Read_result:
  assumes "Reader_Read s f n offset = (st, bs, s')" "0 \<le> offset"
  shows "files s' = files s"
    and "StatusNoError st \<Longrightarrow> bs = take n (drop (nat offset) (content s f)) \<and> length bs = n \<and> files s f \<noteq> None"
    and "open_results s = [] \<Longrightarrow> read_results s = [] \<Longrightarrow>
      open_results s' = [] \<and> read_results s' = [] \<and> write_results s' = write_results s \<and>
      (StatusNoError st \<longleftrightarrow> files s f \<noteq> None \<and> n \<le> length (content s f) - nat offset)"
proof -
  obtain d s1 st1 d1 s2 where o: "DBFile_new s f kReadOnly = (d, s1)" "IsCorrectlyOpened s1 d = (st1, d1, s2)"
    by (metis prod_cases3 surj_pair)
  note op = open_for_reading [OF o]
  obtain bs1 got s3 where r: "os_read s2 f (nat offset) n = (bs1, got, s3)" by (cases "os_read s2 f (nat offset) n") auto
  note rr = os_read_result [OF r]
  have c: "content s2 f = content s f" using op by (simp add: content_def)
  have e: "(\<not> StatusNoError st1 \<and> st = st1 \<and> bs = [] \<and> s' = s2) \<or>
    (StatusNoError st1 \<and> got = int n \<and> st = NoError \<and> bs = bs1 \<and> s' = s3) \<or>
    (StatusNoError st1 \<and> got \<noteq> int n \<and> \<not> StatusNoError st \<and> s' = s3)"
    using assms o op r
    by (cases "StatusNoError st1"; cases "got = int n") (auto simp: Reader_Read_def InternalRead_def Let_def)
  from e op rr show "files s' = files s" by auto
  from e op rr c show "bs = take n (drop (nat offset) (content s f)) \<and> length bs = n \<and> files s f \<noteq> None"
    if "StatusNoError st" using that by auto
  assume "open_results s = []" "read_results s = []"
  with e op rr c show "open_results s' = [] \<and> read_results s' = [] \<and> write_results s' = write_results s \<and>
      (StatusNoError st \<longleftrightarrow> files s f \<noteq> None \<and> n \<le> length (content s f) - nat offset)"
    by (auto simp: min_def split: if_splits)
qed

section \<open>Properties\<close>



text \<open>A successful \<open>Read\<close> returns exactly the requested bytes at the offset; a short read,
  a missing file or a failing \<open>open\<close> gives an error, never partial data, and when the system
  calls succeed the read succeeds exactly if the bytes are there.\<close>

theorem Read_exact_or_error:
  assumes "Reader_Read s f n offset = (st, bs, s')" "0 \<le> offset"
  shows "files s' = files s \<and>
    (StatusNoError st \<longrightarrow> bs = take n (drop (nat offset) (content s f)) \<and> length bs = n) \<and>
    (open_results s = [] \<longrightarrow> read_results s = [] \<longrightarrow>
      (StatusNoError st \<longleftrightarrow> files s f \<noteq> None \<and> n \<le> length (content s f) - nat offset))"
  using Reader_Read_result [OF assms] by blast

theorem Read_exact_or_error_witness:
  "\<exists>st s'. Reader_Read \<lparr>files = [''f'' \<mapsto> [1, 2, 3, 4]], open_results = [], write_results = [], read_results = []\<rparr>
      ''f'' 2 1 = (st, [2, 3], s') \<and> StatusNoError st"
proof -
  let ?s = "\<lparr>files = [''f'' \<mapsto> [1, 2, 3, 4]], open_results = [], write_results = [], read_results = []\<rparr> :: os"
  obtain st bs s' where r: "Reader_Read ?s ''f'' 2 1 = (st, bs, s')" by (cases "Reader_Read ?s ''f'' 2 1") auto
  from Read_exact_or_error [OF r] show ?thesis using r by (auto simp: content_def numeral_2_eq_2)
qed

text \<open>\<open>WriteNewFile\<close> mishandles a failing \<open>write\<close>: the result -1 is added to the count of
  written bytes, and the retry passes a pointer in front of the buffer.\<close>

theorem WriteNewFile_failure_underruns:
  assumes "dbfile w = Some d" "is_open d" "file_mode d = kNewFile" "buffer w \<noteq> []"
    and "write_results s = r # rs" "r < 0"
  shows "WriteNewFile s w = Inl OobRead"
  using assms
  by (simp add: WriteNewFile_def DBFile_Open_def kMaxRetry_def eval_nat_numeral os_write_def)

theorem WriteNewFile_failure_underruns_witness:
  "WriteNewFile \<lparr>files = Map.empty, open_results = [], write_results = [-1], read_results = []\<rparr>
      \<lparr>kMaxBufferSize = 8, buffer = [1], dbfile = Some \<lparr>file_name = ''f'', file_mode = kNewFile, is_open = True\<rparr>\<rparr>
    = Inl OobRead"
  by (rule WriteNewFile_failure_underruns
      [where d = "\<lparr>file_name = ''f'', file_mode = kNewFile, is_open = True\<rparr>" and r = "- 1" and rs = "[]"])
    simp_all

end
