(* ===== verification/Tools.thy ===== *)
theory Tools
  imports Prelude
begin

text \<open>
  The string and vector helpers of \<open>src/util/tools.cc\<close> and \<open>include/util/tools.h\<close>:
  \<open>Split\<close>, \<open>Remove\<close> and \<open>RearrangeFilesInManifest\<close>. Iterators and subscripts outside the
  vector, which C++ leaves undefined, are the fault \<open>OobRead\<close>.
\<close>

section \<open>Split\<close>

text \<open>\<open>find(seperator, start)\<close> and \<open>substr\<close> on the rest of the string; a last piece is
  kept only when it is not empty.\<close>

function Split :: "'a list \<Rightarrow> 'a \<Rightarrow> 'a list list" where
  "Split str seperator =
     (case dropWhile (\<lambda>c. c \<noteq> seperator) str of
        [] \<Rightarrow> (if length str > 0 then [str] else [])
      | c # rest \<Rightarrow> takeWhile (\<lambda>c. c \<noteq> seperator) str # Split rest seperator)"
  by pat_completeness auto
termination
proof (relation "measure (\<lambda>(str, _). length str)", simp, clarsimp)
  fix str :: "'a list" and sep c rest
  assume "dropWhile (\<lambda>c. c \<noteq> sep) str = c # rest"
  then have "length (c # rest) \<le> length str" by (metis length_dropWhile_le)
  then show "length rest < length str" by simp
qed

declare Split.simps [simp del]

lemma Split_Nil [simp]: "Split [] c = []"
  by (simp add: Split.simps)

lemma Split_Cons_sep: "c \<notin> set xs \<Longrightarrow> Split (xs @ c # ys) c = xs # Split ys c"
proof -
  assume "c \<notin> set xs"
  then have "dropWhile (\<lambda>x. x \<noteq> c) (xs @ c # ys) = c # ys \<and>
    takeWhile (\<lambda>x. x \<noteq> c) (xs @ c # ys) = xs"
    by (induction xs) auto
  then show ?thesis by (simp add: Split.simps [of "xs @ c # ys"])
qed

lemma Split_last: "c \<notin> set xs \<Longrightarrow> Split xs c = (if xs = [] then [] else [xs])"
proof -
  assume "c \<notin> set xs"
  then have "dropWhile (\<lambda>x. x \<noteq> c) xs = []" by (induction xs) auto
  then show ?thesis by (simp only: Split.simps [of xs]) simp
qed

text \<open>The inverse: pieces, each followed by the separator.\<close>

definition terminated :: "'a \<Rightarrow> 'a list list \<Rightarrow> 'a list" where
  "terminated c xss = concat (map (\<lambda>xs. xs @ [c]) xss)"

lemma terminated_simps [simp]:
  "terminated c [] = []" "terminated c (xs # xss) = xs @ c # terminated c xss"
  by (simp_all add: terminated_def)

lemma Split_terminated:
  "\<forall>xs\<in>set xss. c \<notin> set xs \<Longrightarrow> Split (terminated c xss @ ys) c = xss @ Split ys c"
  by (induction xss) (auto simp: Split_Cons_sep)

lemma Split_butlast_terminated:
  "\<forall>xs\<in>set xss. c \<notin> set xs \<and> xs \<noteq> [] \<Longrightarrow> Split (butlast (terminated c xss)) c = xss"
proof (induction xss rule: rev_induct)
  case (snoc xs xss)
  have "terminated c (xss @ [xs]) = terminated c xss @ xs @ [c]"
    by (simp add: terminated_def)
  then have "butlast (terminated c (xss @ [xs])) = terminated c xss @ xs"
    by (simp add: butlast_append)
  with snoc.prems show ?case by (simp add: Split_terminated Split_last)
qed simp

section \<open>Remove\<close>

text \<open>\<open>std::copy(first + a, first + b, first + d)\<close> with \<open>d \<le> a\<close>.\<close>

definition copy_range :: "'a list \<Rightarrow> nat \<Rightarrow> nat \<Rightarrow> nat \<Rightarrow> 'a list res" where
  "copy_range src a b d =
     (if a \<le> b \<and> b \<le> length src \<and> d \<le> a
      then Inr (take d src @ take (b - a) (drop a src) @ drop (d + (b - a)) src)
      else Inl OobRead)"

text \<open>The copying loop over the remove points; \<open>removed\<close> counts the points passed.\<close>

fun Remove_loop :: "'a list \<Rightarrow> nat list \<Rightarrow> nat \<Rightarrow> ('a list \<times> nat) res" where
  "Remove_loop src [] removed = Inr (src, removed)"
| "Remove_loop src [p] removed =
     (if p < removed then Inl OobRead
      else rmap (\<lambda>s. (s, removed + 1)) (copy_range src (p + 1) (length src) (p - removed)))"
| "Remove_loop src (p # q # r_p) removed =
     (if p < removed then Inl OobRead
      else rbind (copy_range src (p + 1) q (p - removed)) (\<lambda>s. Remove_loop s (q # r_p) (removed + 1)))"

definition Remove :: "'a list \<Rightarrow> nat list \<Rightarrow> 'a list res" where
  "Remove src r_p =
     (case r_p of
        [] \<Rightarrow> Inr src
      | [p] \<Rightarrow> (if p < length src then Inr (take p src @ drop (p + 1) src) else Inl OobRead)
      | _ \<Rightarrow> rmap (\<lambda>(s, removed). take (length s - removed) s) (Remove_loop src r_p 0))"

text \<open>At the point \<open>p\<close> with \<open>k\<close> points passed, the first \<open>p - k\<close> elements are final and
  everything from \<open>p\<close> on is still the original vector.\<close>

definition without :: "nat \<Rightarrow> nat list \<Rightarrow> 'a list \<Rightarrow> 'a list" where
  "without from ps src = nths (drop from src) {i. i + from \<notin> set ps}"

lemma without_Cons:
  assumes "from \<le> q" "q < length src" "sorted_wrt (<) (q # ps)"
  shows "without from (q # ps) src = take (q - from) (drop from src) @ without (q + 1) ps src"
proof -
  let ?a = "take (q - from) (drop from src)"
  have split: "drop from src = ?a @ src ! q # drop (q + 1) src"
    using assms(1,2) id_take_nth_drop [of "q - from" "drop from src"] by simp
  have len: "length ?a = q - from" using assms(1,2) by simp
  have "nths ?a {i. i + from \<notin> set (q # ps)} = ?a"
    using assms(1,3) by (intro nths_all) (auto simp: len)
  moreover have "{j. j + (q - from) \<in> {i. i + from \<notin> set (q # ps)}} = {j. j \<noteq> 0 \<and> j + q \<notin> set ps}"
    using assms(1) by auto
  ultimately show ?thesis
    unfolding without_def
    by (subst split) (simp only: nths_append len nths_Cons, simp add: add.commute add.left_commute)
qed

lemma without_Nil [simp]: "without from [] src = drop from src"
  by (simp add: without_def nths_all)

lemma copy_range_parts:
  assumes "copy_range s a b d = Inr s1"
  shows "length s1 = length s" "take (d + (b - a)) s1 = take d s @ take (b - a) (drop a s)"
    "drop (d + (b - a)) s1 = drop (d + (b - a)) s"
  using assms by (auto simp: copy_range_def split: if_splits)

lemma Remove_loop_inv:
  assumes "sorted_wrt (<) (p # ps)" "\<forall>q\<in>set (p # ps). q < n" "length src = n" "length s = n"
    and "drop p s = drop p src" "k \<le> p"
  shows "\<exists>s'. Remove_loop s (p # ps) k = Inr (s', k + Suc (length ps)) \<and> length s' = n \<and>
    take (n - (k + Suc (length ps))) s' = take (p - k) s @ without (p + 1) ps src"
  using assms
proof (induction ps arbitrary: p s k)
  case Nil
  have rest: "drop (p + 1) s = drop (p + 1) src" using Nil.prems(5) by (metis drop_drop add.commute)
  have "\<exists>s1. copy_range s (p + 1) n (p - k) = Inr s1"
    using Nil.prems by (simp add: copy_range_def)
  then obtain s1 where c: "copy_range s (p + 1) n (p - k) = Inr s1" ..
  have "p - k + (n - (p + 1)) = n - (k + 1)" using Nil.prems by auto
  then have "take (n - (k + 1)) s1 = take (p - k) s @ drop (p + 1) src"
    using copy_range_parts(2) [OF c] rest Nil.prems by simp
  then show ?case using c copy_range_parts(1) [OF c] Nil.prems by simp
next
  case (Cons q ps)
  have rest: "drop (p + 1) s = drop (p + 1) src" using Cons.prems(5) by (metis drop_drop add.commute)
  have "\<exists>s1. copy_range s (p + 1) q (p - k) = Inr s1"
    using Cons.prems by (simp add: copy_range_def)
  then obtain s1 where c: "copy_range s (p + 1) q (p - k) = Inr s1" ..
  have e: "p - k + (q - (p + 1)) = q - (k + 1)" using Cons.prems by auto
  have "drop q s1 = drop q s"
  proof -
    have "drop q s1 = drop (k + 1) (drop (q - (k + 1)) s1)" using Cons.prems by simp
    also have "\<dots> = drop (k + 1) (drop (q - (k + 1)) s)"
      using copy_range_parts(3) [OF c] unfolding e by simp
    finally show ?thesis using Cons.prems by simp
  qed
  moreover have "drop q s = drop q src"
  proof -
    have "drop (q - p) (drop p s) = drop (q - p) (drop p src)" using Cons.prems(5) by simp
    then show ?thesis using Cons.prems(1) by simp
  qed
  ultimately obtain s' where s': "Remove_loop s1 (q # ps) (k + 1) = Inr (s', k + 1 + Suc (length ps))"
    "length s' = n"
    "take (n - (k + 1 + Suc (length ps))) s' = take (q - (k + 1)) s1 @ without (q + 1) ps src"
    using Cons.IH [of q s1 "k + 1"] Cons.prems copy_range_parts(1) [OF c] by auto
  have "take (q - (k + 1)) s1 = take (p - k) s @ take (q - (p + 1)) (drop (p + 1) src)"
    using copy_range_parts(2) [OF c] unfolding e rest .
  moreover have "without (p + 1) (q # ps) src = take (q - (p + 1)) (drop (p + 1) src) @ without (q + 1) ps src"
    using Cons.prems by (intro without_Cons) auto
  ultimately show ?case using s' c Cons.prems by simp
qed

lemma Remove_deletes:
  assumes "sorted_wrt (<) r_p" "\<forall>q\<in>set r_p. q < length src"
  shows "Remove src r_p = Inr (nths src {i. i \<notin> set r_p})"
proof (cases r_p)
  case Nil
  then show ?thesis by (simp add: Remove_def nths_all)
next
  case (Cons p ps)
  have "without 0 (p # ps) src = take p src @ without (p + 1) ps src"
    using without_Cons [of 0 p src ps] assms Cons by simp
  then have w: "nths src {i. i \<notin> set r_p} = take p src @ without (p + 1) ps src"
    using Cons by (simp add: without_def)
  show ?thesis
  proof (cases ps)
    case Nil
    then show ?thesis using Cons w assms by (simp add: Remove_def)
  next
    case (Cons q qs)
    obtain s' where "Remove_loop src (p # ps) 0 = Inr (s', 0 + Suc (length ps))" "length s' = length src"
      "take (length src - (0 + Suc (length ps))) s' = take (p - 0) src @ without (p + 1) ps src"
      using Remove_loop_inv [of p ps "length src" src src 0] assms \<open>r_p = p # ps\<close> by auto
    then show ?thesis using Cons w \<open>r_p = p # ps\<close> by (simp add: Remove_def del: Remove_loop.simps)
  qed
qed

text \<open>\<open>Remove\<close> deletes exactly the elements at the given subscripts, which must be
  ascending and inside the vector, and keeps the others in order.\<close>

theorem Remove_deletes_points:
  assumes "sorted_wrt (<) r_p" "\<forall>q\<in>set r_p. q < length src"
  shows "Remove src r_p = Inr (nths src {i. i \<notin> set r_p})"
  using assms by (rule Remove_deletes)

theorem Remove_deletes_points_witness: "Remove [10, 11, 12, 13, 14 :: nat] [1, 3] = Inr [10, 12, 14]"
proof -
  have "nths [10, 11, 12, 13, 14 :: nat] {i. i \<notin> set [1, 3]} = [10, 12, 14]"
    by (simp add: nths_Cons)
  then show ?thesis using Remove_deletes_points [of "[1, 3]" "[10, 11, 12, 13, 14 :: nat]"] by simp
qed

section \<open>RearrangeFilesInManifest\<close>

text \<open>Returns the flag and the new \<open>data_files\<close> (unchanged when the flag is false).\<close>

definition RearrangeFilesInManifest ::
    "'f list \<Rightarrow> int \<times> int \<Rightarrow> 'f list \<Rightarrow> (bool \<times> 'f list) res" where
  "RearrangeFilesInManifest data_files boundary new_files =
     (if fst boundary = snd boundary then
        (if snd boundary = 0 then Inr (True, new_files @ data_files)
         else if snd boundary = int (length data_files) then Inr (True, data_files @ new_files)
         else Inr (False, data_files))
      else if 0 \<le> fst boundary \<and> fst boundary \<le> int (length data_files) \<and>
              0 \<le> snd boundary \<and> snd boundary \<le> int (length data_files)
      then Inr (True, take (nat (fst boundary)) data_files @ new_files @ drop (nat (snd boundary)) data_files)
      else Inl OobRead)"

end
