(* ===== verification/Format.thy ===== *)
theory Format
  imports Tools
begin

text \<open>
  The file formats of \<open>include/coding/format.h\<close> and \<open>src/coding/format.cc\<close>: the text of
  the MANIFEST (its own path, the path of the log, then one line of \<open>;\<close>-separated names per
  level) and the fixed-size footer of a data file.
\<close>

section \<open>MANIFEST\<close>

record Manifest =
  path_to_manifest :: string
  path_to_log :: string
  data_files :: "string list list"

definition newline :: char where
  "newline = CHR 0x0A"

definition Manifest_Decode :: "string \<Rightarrow> Manifest res" where
  "Manifest_Decode manifest_str =
     (let lines = Split manifest_str newline in
      rbind (rd lines 0) (\<lambda>l0. rbind (rd lines 1) (\<lambda>l1.
      Inr \<lparr>path_to_manifest = l0, path_to_log = l1,
        data_files = map (\<lambda>l. Split l (CHR '';'')) (drop 2 lines)\<rparr>)))"

text \<open>One line: each name followed by \<open>;\<close>, the last \<open>;\<close> overwritten by the newline.\<close>

definition encode_level :: "string list \<Rightarrow> string" where
  "encode_level level =
     (let line = concat (map (\<lambda>f. f @ [CHR '';'']) level) in
      if line = [] then line @ [newline] else butlast line @ [newline])"

definition Manifest_Encode :: "Manifest \<Rightarrow> string" where
  "Manifest_Encode manifest =
     path_to_manifest manifest @ [newline] @ path_to_log manifest @ [newline] @
     concat (map encode_level (data_files manifest))"

text \<open>Names that survive: no separator in them, and not empty.\<close>

definition good_name :: "string \<Rightarrow> bool" where
  "good_name f \<longleftrightarrow> f \<noteq> [] \<and> newline \<notin> set f \<and> CHR '';'' \<notin> set f"

definition good_manifest :: "Manifest \<Rightarrow> bool" where
  "good_manifest m \<longleftrightarrow> newline \<notin> set (path_to_manifest m) \<and> newline \<notin> set (path_to_log m) \<and>
     (\<forall>level\<in>set (data_files m). \<forall>f\<in>set level. good_name f)"

lemma encode_level_eq:
  "encode_level level = butlast (terminated (CHR '';'') level) @ [newline]"
  by (auto simp: encode_level_def terminated_def Let_def)

lemma level_line:
  assumes "\<forall>f\<in>set level. good_name f"
  shows "newline \<notin> set (butlast (terminated (CHR '';'') level))"
    and "Split (butlast (terminated (CHR '';'') level)) (CHR '';'') = level"
proof -
  have "newline \<notin> set (terminated (CHR '';'') level)"
    using assms by (auto simp: terminated_def good_name_def newline_def)
  then show "newline \<notin> set (butlast (terminated (CHR '';'') level))"
    by (auto dest: in_set_butlastD)
  show "Split (butlast (terminated (CHR '';'') level)) (CHR '';'') = level"
    using assms by (intro Split_butlast_terminated) (auto simp: good_name_def)
qed

lemma Manifest_Decode_Encode:
  assumes "good_manifest m"
  shows "Manifest_Decode (Manifest_Encode m) = Inr m"
proof -
  let ?ls = "map (\<lambda>level. butlast (terminated (CHR '';'') level)) (data_files m)"
  have "concat (map encode_level ls) =
      terminated newline (map (\<lambda>level. butlast (terminated (CHR '';'') level)) ls)" for ls
    by (induction ls) (simp_all add: encode_level_eq)
  then have e: "Manifest_Encode m = terminated newline (path_to_manifest m # path_to_log m # ?ls) @ []"
    by (simp add: Manifest_Encode_def)
  have "Split (Manifest_Encode m) newline = (path_to_manifest m # path_to_log m # ?ls) @ Split [] newline"
    unfolding e using assms level_line(1) by (intro Split_terminated) (auto simp: good_manifest_def)
  moreover have "map (\<lambda>l. Split l (CHR '';'')) ?ls = data_files m"
    using assms level_line(2) by (auto simp: good_manifest_def intro!: map_idI)
  ultimately show ?thesis
    by (simp add: Manifest_Decode_def Let_def rd_def)
qed

section \<open>Footer\<close>

record Footer =
  min_key_size :: u32
  max_key_offset :: u32
  max_key_size :: u32
  data_blk_size :: u32
  index_blk_size :: u32
  flexible_blk_size :: u32

definition kSSTFooterSize :: nat where
  "kSSTFooterSize = 24"

definition kDefaultDataBlkSize :: nat where
  "kDefaultDataBlkSize = 4096"

definition kApproximateSSTFileSize :: nat where
  "kApproximateSSTFileSize = 2097152"

text \<open>\<open>*reinterpret_cast<const uint32_t*>(p + off)\<close>\<close>

definition rd_u32 :: "bytes \<Rightarrow> nat \<Rightarrow> u32 res" where
  "rd_u32 bs off = rmap of_le (view bs off 4)"

definition Footer_of :: "bytes \<Rightarrow> Footer res" where
  "Footer_of footer_str =
     rbind (rd_u32 footer_str 0) (\<lambda>a. rbind (rd_u32 footer_str 4) (\<lambda>b.
     rbind (rd_u32 footer_str 8) (\<lambda>c. rbind (rd_u32 footer_str 12) (\<lambda>d.
     rbind (rd_u32 footer_str 16) (\<lambda>e. rbind (rd_u32 footer_str 20) (\<lambda>f.
     Inr \<lparr>min_key_size = a, max_key_offset = b, max_key_size = c,
       data_blk_size = d, index_blk_size = e, flexible_blk_size = f\<rparr>))))))"

definition Footer_bytes :: "Footer \<Rightarrow> bytes" where
  "Footer_bytes f =
     le_bytes 4 (min_key_size f) @ le_bytes 4 (max_key_offset f) @ le_bytes 4 (max_key_size f) @
     le_bytes 4 (data_blk_size f) @ le_bytes 4 (index_blk_size f) @ le_bytes 4 (flexible_blk_size f)"

lemma view_skip: "length xs = n \<Longrightarrow> view (xs @ ys) (n + off) m = view ys off m"
  by (simp add: view_def)

lemma rd_u32_skip: "length xs = n \<Longrightarrow> n \<le> off \<Longrightarrow> rd_u32 (xs @ ys) off = rd_u32 ys (off - n)"
  using view_skip [of xs n ys "off - n" 4] by (simp add: rd_u32_def)

lemma rd_u32_le_bytes: "rd_u32 (le_bytes 4 (w :: u32) @ ys) 0 = Inr w"
  by (simp add: rd_u32_def view_prefix codec_simps)

lemma length_Footer_bytes [simp]: "length (Footer_bytes f) = kSSTFooterSize"
  by (simp add: Footer_bytes_def kSSTFooterSize_def)

lemma Footer_of_bytes: "Footer_of (Footer_bytes f @ rest) = Inr f"
  by (simp add: Footer_of_def Footer_bytes_def rd_u32_le_bytes rd_u32_skip)

section \<open>Properties\<close>

text \<open>C33. The MANIFEST text determines the manifest: decoding the encoded text gives the
  manifest back, empty levels included, for names without separators.\<close>

theorem manifest_roundtrip:
  assumes "good_manifest m"
  shows "Manifest_Decode (Manifest_Encode m) = Inr m"
  using assms by (rule Manifest_Decode_Encode)

theorem manifest_roundtrip_witness:
  "Manifest_Decode (Manifest_Encode
      \<lparr>path_to_manifest = ''d/MANIFEST'', path_to_log = ''d/LOG'',
       data_files = [[''00'', ''01''], [], [''02'']]\<rparr>) =
   Inr \<lparr>path_to_manifest = ''d/MANIFEST'', path_to_log = ''d/LOG'',
     data_files = [[''00'', ''01''], [], [''02'']]\<rparr>"
  by (rule manifest_roundtrip) (simp add: good_manifest_def good_name_def newline_def)

end
