(* ===== verification/MemAllocator.thy ===== *)
theory MemAllocator
  imports Prelude
begin

text \<open>
  The bump allocator of \<open>src/util/mem_allocator.cc\<close> and its header. An address is a block
  number and an offset; a block is its size, or \<open>None\<close> once it has been deleted and its
  pointer nulled. Sizes are naturals, since every subtraction is guarded; the one expression
  that can wrap, \<open>MemUsage\<close>, is computed on words. Asserts are the fault \<open>AssertFail\<close>.

  \<open>alloc_inv\<close> relates the allocator to the regions handed out so far.
\<close>

section \<open>State and operations\<close>

type_synonym addr = "nat \<times> nat"

record allocator =
  kDefaultBlockSize :: nat
  remaining_size :: nat
  start_addr :: addr
  block_ptr :: "nat option list"
  ref_count :: "int list"

definition kMaxSectorSize :: "allocator \<Rightarrow> nat" where
  "kMaxSectorSize m = kDefaultBlockSize m div 2"

definition AllocateFullBlock :: "allocator \<Rightarrow> nat \<Rightarrow> addr \<times> allocator" where
  "AllocateFullBlock m n =
     ((length (block_ptr m), 0),
      m\<lparr>block_ptr := block_ptr m @ [Some n], ref_count := ref_count m @ [1]\<rparr>)"

definition AllocateNewBlock :: "allocator \<Rightarrow> nat \<Rightarrow> addr \<times> allocator" where
  "AllocateNewBlock m n =
     (let (p, m') = AllocateFullBlock m (kDefaultBlockSize m) in
      (p, m'\<lparr>start_addr := (fst p, snd p + n), remaining_size := kDefaultBlockSize m - n\<rparr>))"

text \<open>\<open>++ref.back()\<close>\<close>

definition ref_back :: "int \<Rightarrow> int list \<Rightarrow> int list" where
  "ref_back k rs = rs[length rs - 1 := rs ! (length rs - 1) + k]"

definition Allocate :: "allocator \<Rightarrow> nat \<Rightarrow> addr \<times> allocator" where
  "Allocate m n =
     (if n > kMaxSectorSize m then AllocateFullBlock m n
      else if n > remaining_size m then AllocateNewBlock m n
      else (start_addr m,
        m\<lparr>start_addr := (fst (start_addr m), snd (start_addr m) + n),
          remaining_size := remaining_size m - n, ref_count := ref_back 1 (ref_count m)\<rparr>))"

definition Ref :: "allocator \<Rightarrow> nat \<Rightarrow> allocator" where
  "Ref m b =
     (if b < length (ref_count m) then m\<lparr>ref_count := (ref_count m)[b := ref_count m ! b + 1]\<rparr> else m)"

definition Unref :: "allocator \<Rightarrow> nat \<Rightarrow> int \<times> allocator" where
  "Unref m b =
     (if b < length (ref_count m)
      then (ref_count m ! b - 1, m\<lparr>ref_count := (ref_count m)[b := ref_count m ! b - 1]\<rparr>)
      else (-1, m))"

definition RefLast :: "allocator \<Rightarrow> int \<Rightarrow> allocator" where
  "RefLast m k = m\<lparr>ref_count := ref_back k (ref_count m)\<rparr>"

definition RefBlock :: "allocator \<Rightarrow> int \<Rightarrow> nat \<Rightarrow> allocator res" where
  "RefBlock m k b =
     (if b < length (ref_count m)
      then Inr (m\<lparr>ref_count := (ref_count m)[b := ref_count m ! b + k]\<rparr>)
      else Inl OobWrite)"

definition MemUsage :: "allocator \<Rightarrow> u32" where
  "MemUsage m =
     ucast (of_nat (length (block_ptr m)) * of_nat (kDefaultBlockSize m) - of_nat (remaining_size m) :: u64)"

definition BlockCount :: "allocator \<Rightarrow> u32" where
  "BlockCount m = of_nat (length (block_ptr m))"

definition MemAllocator_new :: "nat \<Rightarrow> allocator" where
  "MemAllocator_new default_block_size =
     (let m = \<lparr>kDefaultBlockSize = default_block_size, remaining_size = default_block_size,
               start_addr = (0, 0), block_ptr = [], ref_count = []\<rparr>;
          (p, m1) = AllocateFullBlock m default_block_size
      in snd (Unref (m1\<lparr>start_addr := p\<rparr>) 0))"

text \<open>The default of the header, \<open>1 << 12\<close>; \<open>MergeAllocator\<close> and the default
  \<open>QueryAllocator\<close> pass 0, so that each request gets a block of its own.\<close>

definition MemAllocator_default :: allocator where
  "MemAllocator_default = MemAllocator_new 4096"

definition MergeAllocator_new :: allocator where
  "MergeAllocator_new = MemAllocator_new 0"

definition ReleaseIdleSpace :: "allocator \<Rightarrow> allocator" where
  "ReleaseIdleSpace m =
     m\<lparr>block_ptr := map2 (\<lambda>b r. if r = 0 then None else b) (block_ptr m) (ref_count m)\<rparr>"

definition ReleaseIdleSpace_block :: "allocator \<Rightarrow> nat \<Rightarrow> allocator res" where
  "ReleaseIdleSpace_block m b =
     (if b < length (ref_count m) \<and> ref_count m ! b = 0
      then Inr (m\<lparr>block_ptr := (block_ptr m)[b := None]\<rparr>)
      else Inl AssertFail)"

text \<open>\<open>MemAllocator::Reallocate\<close> returns a null pointer; this is \<open>MergeAllocator::Reallocate\<close>.\<close>

definition Merge_Reallocate :: "allocator \<Rightarrow> nat \<Rightarrow> nat \<Rightarrow> (addr \<times> allocator) res" where
  "Merge_Reallocate m n b =
     rbind (ReleaseIdleSpace_block m b) (\<lambda>m1.
     Inr ((b, 0), m1\<lparr>block_ptr := (block_ptr m1)[b := Some n],
       ref_count := (ref_count m1)[b := ref_count m1 ! b + 1]\<rparr>))"

definition Cache_Allocate :: "allocator \<Rightarrow> nat \<Rightarrow> addr \<times> nat \<times> allocator" where
  "Cache_Allocate m n =
     (let (p, m') = Allocate m n in (p, length (block_ptr m') - 1, m'))"

text \<open>The destructor: the blocks it deletes, in order. A nulled pointer is skipped.\<close>

definition MemAllocator_delete :: "allocator \<Rightarrow> nat list" where
  "MemAllocator_delete m = filter (\<lambda>b. block_ptr m ! b \<noteq> None) [0..<length (block_ptr m)]"

section \<open>The invariant\<close>

type_synonym region = "addr \<times> nat"

fun in_block :: "allocator \<Rightarrow> region \<Rightarrow> bool" where
  "in_block m ((b, off), n) \<longleftrightarrow>
     (case (if b < length (block_ptr m) then block_ptr m ! b else None) of
        None \<Rightarrow> False | Some s \<Rightarrow> off + n \<le> s)"

fun disjoint_regions :: "region \<Rightarrow> region \<Rightarrow> bool" where
  "disjoint_regions ((b, off), n) ((b', off'), n') \<longleftrightarrow> b \<noteq> b' \<or> off + n \<le> off' \<or> off' + n' \<le> off"

lemma disjoint_regions_sym: "disjoint_regions r r' \<longleftrightarrow> disjoint_regions r' r"
  by (cases "(r, r')" rule: disjoint_regions.cases) auto

definition free_region :: "allocator \<Rightarrow> region" where
  "free_region m = (start_addr m, remaining_size m)"

text \<open>Regions handed out lie in live blocks, apart from each other and from the free space.\<close>

definition alloc_inv :: "allocator \<Rightarrow> region list \<Rightarrow> bool" where
  "alloc_inv m rs \<longleftrightarrow>
     in_block m (free_region m) \<and> remaining_size m \<le> kDefaultBlockSize m \<and>
     length (ref_count m) = length (block_ptr m) \<and>
     (\<forall>r\<in>set rs. in_block m r \<and> disjoint_regions r (free_region m)) \<and>
     sorted_wrt disjoint_regions rs"

lemma alloc_inv_new: "alloc_inv (MemAllocator_new n) []"
  by (simp add: alloc_inv_def MemAllocator_new_def AllocateFullBlock_def Unref_def free_region_def)

lemma in_block_append:
  "in_block m r \<Longrightarrow> in_block (m\<lparr>block_ptr := block_ptr m @ bs, ref_count := rc\<rparr>) r"
  by (cases "(m, r)" rule: in_block.cases) (auto split: if_splits option.splits simp: nth_append)

lemma in_block_other [simp]:
  "in_block (m\<lparr>start_addr := p\<rparr>) r = in_block m r"
  "in_block (m\<lparr>remaining_size := k\<rparr>) r = in_block m r"
  "in_block (m\<lparr>ref_count := rc\<rparr>) r = in_block m r"
  by (cases "(m, r)" rule: in_block.cases; simp)+

lemma in_block_fst: "in_block m r \<Longrightarrow> fst (fst r) < length (block_ptr m)"
  by (cases "(m, r)" rule: in_block.cases) (auto split: if_splits option.splits)

lemma new_block_disjoint: "in_block m r \<Longrightarrow> disjoint_regions r ((length (block_ptr m), off), n)"
  using in_block_fst [of m r] by (cases "(r, ((length (block_ptr m), off), n))" rule: disjoint_regions.cases) auto

lemma alloc_inv_FullBlock:
  assumes "alloc_inv m rs" "AllocateFullBlock m n = (p, m')"
  shows "alloc_inv m' ((p, n) # rs)"
proof -
  have p: "p = (length (block_ptr m), 0)"
    and m': "m' = m\<lparr>block_ptr := block_ptr m @ [Some n], ref_count := ref_count m @ [1]\<rparr>"
    using assms(2) by (auto simp: AllocateFullBlock_def)
  have f: "free_region m' = free_region m" by (simp add: m' free_region_def)
  have "in_block m' (p, n)" by (simp add: p m')
  moreover have "in_block m' r" if "in_block m r" for r
    using in_block_append [OF that] by (simp add: m')
  moreover have "disjoint_regions (p, n) r" if "in_block m r" for r
    using new_block_disjoint [OF that] disjoint_regions_sym by (simp add: p)
  ultimately show ?thesis
    using assms(1) f by (auto simp: alloc_inv_def m' free_region_def)
qed

lemma alloc_inv_NewBlock:
  assumes "alloc_inv m rs" "n \<le> kDefaultBlockSize m" "AllocateNewBlock m n = (p, m')"
  shows "alloc_inv m' ((p, n) # rs)"
proof -
  let ?b = "length (block_ptr m)" and ?d = "kDefaultBlockSize m"
  have p: "p = (?b, 0)"
    and m': "m' = m\<lparr>block_ptr := block_ptr m @ [Some ?d], ref_count := ref_count m @ [1],
      start_addr := (?b, n), remaining_size := ?d - n\<rparr>"
    using assms(3) by (auto simp: AllocateFullBlock_def AllocateNewBlock_def)
  have in': "in_block m' r" if "in_block m r" for r
    using in_block_append [OF that, where bs = "[Some ?d]" and rc = "ref_count m @ [1]"]
    by (simp add: m')
  have "disjoint_regions (p, n) r" "disjoint_regions r (free_region m')" if "in_block m r" for r
    using new_block_disjoint [OF that] disjoint_regions_sym by (simp_all add: p m' free_region_def)
  then show ?thesis
    using assms(1,2) in' by (auto simp: alloc_inv_def m' p free_region_def)
qed

lemma length_ref_back [simp]: "length (ref_back k rs) = length rs"
  by (simp add: ref_back_def)

lemma alloc_inv_Allocate:
  assumes "alloc_inv m rs" "Allocate m n = (p, m')"
  shows "alloc_inv m' ((p, n) # rs)"
proof -
  consider "n > kMaxSectorSize m" "AllocateFullBlock m n = (p, m')"
    | "n \<le> kMaxSectorSize m" "n > remaining_size m" "AllocateNewBlock m n = (p, m')"
    | "n \<le> remaining_size m" "p = start_addr m"
      "m' = m\<lparr>start_addr := (fst (start_addr m), snd (start_addr m) + n),
        remaining_size := remaining_size m - n, ref_count := ref_back 1 (ref_count m)\<rparr>"
    using assms(2) by (auto simp: Allocate_def split: if_splits)
  then show ?thesis
  proof cases
    case 1
    then show ?thesis using alloc_inv_FullBlock [OF assms(1)] by blast
  next
    case 2
    then show ?thesis
      using alloc_inv_NewBlock [OF assms(1)] by (simp add: kMaxSectorSize_def)
  next
    case 3
    obtain b off where s: "start_addr m = (b, off)" by fastforce
    have "disjoint_regions r (p, n) \<and> disjoint_regions r (free_region m')"
      if "disjoint_regions r (free_region m)" for r
      using that 3 s by (cases "(r, free_region m)" rule: disjoint_regions.cases) (auto simp: free_region_def)
    moreover have "in_block m (p, n)" "in_block m' (free_region m')"
      using assms(1) 3 s by (auto simp: alloc_inv_def free_region_def split: option.splits if_splits)
    ultimately show ?thesis
      using assms(1) 3 s disjoint_regions_sym
      by (auto simp: alloc_inv_def free_region_def)
  qed
qed

section \<open>Runs of requests\<close>

fun Allocate_all :: "allocator \<Rightarrow> nat list \<Rightarrow> region list \<times> allocator" where
  "Allocate_all m [] = ([], m)"
| "Allocate_all m (n # ns) =
     (let (p, m1) = Allocate m n; (rs, m2) = Allocate_all m1 ns in (rs @ [(p, n)], m2))"

lemma alloc_inv_all:
  "alloc_inv m rs \<Longrightarrow> alloc_inv (snd (Allocate_all m ns)) (fst (Allocate_all m ns) @ rs)"
proof (induction ns arbitrary: m rs)
  case (Cons n ns)
  obtain p m1 where a: "Allocate m n = (p, m1)" by fastforce
  with Cons show ?case
    using Cons.IH [OF alloc_inv_Allocate [OF Cons.prems a]] by (simp add: split_beta)
qed simp

text \<open>While no request exceeds \<open>kMaxSectorSize\<close> the current block is the last one, so
  \<open>ref.back()\<close> is the counter of the block the region lies in.\<close>

definition region_count :: "region list \<Rightarrow> nat \<Rightarrow> int" where
  "region_count rs b = int (length (filter (\<lambda>r. fst (fst r) = b) rs))"

definition refs_exact :: "allocator \<Rightarrow> region list \<Rightarrow> bool" where
  "refs_exact m rs \<longleftrightarrow>
     length (ref_count m) = length (block_ptr m) \<and> block_ptr m \<noteq> [] \<and>
     fst (start_addr m) = length (block_ptr m) - 1 \<and>
     (\<forall>b<length (ref_count m). ref_count m ! b = region_count rs b)"

lemma refs_exact_Allocate:
  assumes "refs_exact m rs" "alloc_inv m rs" "n \<le> kMaxSectorSize m" "Allocate m n = (p, m')"
  shows "refs_exact m' ((p, n) # rs) \<and> kDefaultBlockSize m' = kDefaultBlockSize m"
proof (cases "n > remaining_size m")
  case True
  then have m': "p = (length (block_ptr m), 0)"
    "m' = m\<lparr>block_ptr := block_ptr m @ [Some (kDefaultBlockSize m)], ref_count := ref_count m @ [1],
      start_addr := (length (block_ptr m), n), remaining_size := kDefaultBlockSize m - n\<rparr>"
    using assms(3,4) by (auto simp: Allocate_def AllocateNewBlock_def AllocateFullBlock_def)
  have "fst (fst r) \<noteq> length (block_ptr m)" if "r \<in> set rs" for r
    using assms(2) that in_block_fst by (fastforce simp: alloc_inv_def)
  then have "region_count rs (length (block_ptr m)) = 0"
    by (simp add: region_count_def filter_empty_conv)
  with assms(1) show ?thesis
    by (auto simp: refs_exact_def m' region_count_def nth_append less_Suc_eq)
next
  case False
  then have m': "p = start_addr m"
    "m' = m\<lparr>start_addr := (fst (start_addr m), snd (start_addr m) + n),
      remaining_size := remaining_size m - n, ref_count := ref_back 1 (ref_count m)\<rparr>"
    using assms(3,4) by (auto simp: Allocate_def)
  with assms(1) show ?thesis
    by (auto simp: refs_exact_def m' region_count_def ref_back_def nth_list_update)
qed

lemma refs_exact_all:
  "refs_exact m rs \<Longrightarrow> alloc_inv m rs \<Longrightarrow> \<forall>n\<in>set ns. n \<le> kMaxSectorSize m \<Longrightarrow>
    refs_exact (snd (Allocate_all m ns)) (fst (Allocate_all m ns) @ rs)"
proof (induction ns arbitrary: m rs)
  case (Cons n ns)
  obtain p m1 where a: "Allocate m n = (p, m1)" by fastforce
  have "refs_exact m1 ((p, n) # rs)" "kMaxSectorSize m1 = kMaxSectorSize m"
    using refs_exact_Allocate [OF Cons.prems(1,2) _ a] Cons.prems(3) by (simp_all add: kMaxSectorSize_def)
  then show ?case
    using Cons.IH [OF _ alloc_inv_Allocate [OF Cons.prems(2) a]] Cons.prems(3) a
    by (simp add: split_beta)
qed simp

lemma refs_exact_new: "refs_exact (MemAllocator_new d) []"
  by (simp add: refs_exact_def MemAllocator_new_def AllocateFullBlock_def Unref_def region_count_def)

lemma Allocate_live:
  "None \<notin> set (block_ptr m) \<Longrightarrow> None \<notin> set (block_ptr (snd (Allocate m n)))"
  by (simp add: Allocate_def AllocateNewBlock_def AllocateFullBlock_def)

lemma Allocate_all_live:
  "None \<notin> set (block_ptr m) \<Longrightarrow> None \<notin> set (block_ptr (snd (Allocate_all m ns)))"
proof (induction ns arbitrary: m)
  case (Cons n ns)
  then show ?case using Allocate_live [of m n] by (simp add: split_beta Let_def)
qed simp

lemma MemAllocator_new_live: "None \<notin> set (block_ptr (MemAllocator_new d))"
  by (simp add: MemAllocator_new_def AllocateFullBlock_def Unref_def)

lemma live_block: "None \<notin> set (block_ptr m) \<Longrightarrow> b < length (block_ptr m) \<Longrightarrow> \<exists>n. block_ptr m ! b = Some n"
  by (metis not_None_eq nth_mem)

lemma delete_live:
  "None \<notin> set (block_ptr m) \<Longrightarrow> MemAllocator_delete m = [0..<length (block_ptr m)]"
  unfolding MemAllocator_delete_def by (rule filter_True) (auto dest: live_block)

lemma delete_released:
  assumes "None \<notin> set (block_ptr m)" "length (ref_count m) = length (block_ptr m)"
  shows "MemAllocator_delete (ReleaseIdleSpace m) = filter (\<lambda>b. ref_count m ! b \<noteq> 0) [0..<length (block_ptr m)]"
  using assms by (auto simp: MemAllocator_delete_def ReleaseIdleSpace_def dest: live_block intro!: filter_cong)

section \<open>Properties\<close>

text \<open>C28. Whatever the block size and the sequence of requests, the regions the allocator
  hands out lie inside its blocks and never overlap. The destructor deletes every block once,
  and after \<open>ReleaseIdleSpace\<close> exactly those that call has not deleted.\<close>

theorem allocations_disjoint:
  "case Allocate_all (MemAllocator_new d) sizes of (rs, m) \<Rightarrow>
     map snd (rev rs) = sizes \<and> list_all (in_block m) rs \<and> sorted_wrt disjoint_regions rs \<and>
     MemAllocator_delete m = [0..<length (block_ptr m)] \<and>
     MemAllocator_delete (ReleaseIdleSpace m) = filter (\<lambda>b. ref_count m ! b \<noteq> 0) [0..<length (block_ptr m)]"
proof -
  have "map snd (rev (fst (Allocate_all m ns))) = ns" for m ns
    by (induction ns arbitrary: m) (auto simp: split_beta Let_def)
  then show ?thesis
    using alloc_inv_all [OF alloc_inv_new, of d sizes] Allocate_all_live [OF MemAllocator_new_live, of d sizes]
    by (auto simp: alloc_inv_def list_all_iff split_beta delete_live delete_released)
qed

text \<open>If no request exceeds \<open>kMaxSectorSize\<close>, the reference count of each block is the
  number of regions in it, and \<open>ReleaseIdleSpace\<close> deletes no block that holds a region.\<close>

theorem small_requests_counted:
  assumes "\<forall>n\<in>set sizes. n \<le> d div 2" "Allocate_all (MemAllocator_new d) sizes = (rs, m)"
  shows "ref_count m = map (region_count rs) [0..<length (block_ptr m)] \<and>
    list_all (in_block (ReleaseIdleSpace m)) rs"
proof -
  have "kMaxSectorSize (MemAllocator_new d) = d div 2"
    by (simp add: kMaxSectorSize_def MemAllocator_new_def AllocateFullBlock_def Unref_def)
  then have r: "refs_exact m rs" "alloc_inv m rs"
    using refs_exact_all [OF refs_exact_new alloc_inv_new, of sizes d] assms
      alloc_inv_all [OF alloc_inv_new, of d sizes] by simp_all
  have "in_block (ReleaseIdleSpace m) ((b, off), n)" if "((b, off), n) \<in> set rs" for b off n
  proof -
    have "region_count rs b > 0"
      using that by (force simp: region_count_def filter_empty_conv)
    moreover have b: "in_block m ((b, off), n)" "b < length (block_ptr m)"
      using r(2) that in_block_fst [of m "((b, off), n)"] by (auto simp: alloc_inv_def)
    ultimately show ?thesis using r by (simp add: ReleaseIdleSpace_def refs_exact_def)
  qed
  then show ?thesis
    using r(1) by (auto simp: refs_exact_def list_all_iff intro: nth_equalityI)
qed

theorem small_requests_counted_witness:
  "Allocate_all (MemAllocator_new 16) [8, 6, 8] =
     ([((1, 0), 8), ((0, 8), 6), ((0, 0), 8)],
      \<lparr>kDefaultBlockSize = 16, remaining_size = 8, start_addr = (1, 8),
       block_ptr = [Some 16, Some 16], ref_count = [2, 1]\<rparr>) \<and>
   map (region_count [((1, 0), 8), ((0, 8), 6), ((0, 0), 8)]) [0..<2] = [2, 1]"
proof -
  have a: "Allocate_all (MemAllocator_new 16) [8, 6, 8] =
     ([((1, 0), 8), ((0, 8), 6), ((0, 0), 8)],
      \<lparr>kDefaultBlockSize = 16, remaining_size = 8, start_addr = (1, 8),
       block_ptr = [Some 16, Some 16], ref_count = [2, 1]\<rparr>)"
    by (simp add: MemAllocator_new_def AllocateFullBlock_def Unref_def Allocate_def
        AllocateNewBlock_def kMaxSectorSize_def ref_back_def)
  have "[2, 1] = map (region_count [((1, 0), 8), ((0, 8), 6), ((0, 0), 8)]) [0..<length [Some (16::nat), Some 16]]"
    using small_requests_counted [of "[8, 6, 8]" 16, OF _ a] by simp
  then show ?thesis using a by (simp add: numeral_2_eq_2)
qed

text \<open>Mixed sizes break the counts: a small request after a large one lies in an earlier
  block but increments the counter of the last. The region's own block keeps the count 0, so
  \<open>ReleaseIdleSpace\<close> deletes it although the region is live.\<close>

theorem mixed_sizes_release_live_block:
  assumes "d div 2 < big" "small \<le> d div 2"
  shows "\<exists>m. Allocate_all (MemAllocator_new d) [big, small] = ([((0, 0), small), ((1, 0), big)], m) \<and>
    ref_count m = [0, 2] \<and> \<not> in_block (ReleaseIdleSpace m) ((0, 0), small)"
  using assms
  by (auto simp: MemAllocator_new_def AllocateFullBlock_def Unref_def Allocate_def
      AllocateNewBlock_def kMaxSectorSize_def ref_back_def ReleaseIdleSpace_def)

theorem mixed_sizes_release_live_block_witness:
  "\<exists>m. Allocate_all MemAllocator_default [3000, 10] = ([((0, 0), 10), ((1, 0), 3000)], m) \<and>
    ref_count m = [0, 2]"
  using mixed_sizes_release_live_block [of 4096 3000 10] by (auto simp: MemAllocator_default_def)

text \<open>A request above \<open>kMaxSectorSize\<close> raises \<open>MemUsage\<close> by one default block whatever
  its size, so the size of a table of large entries is underestimated.\<close>

theorem MemUsage_ignores_large_sizes:
  assumes "kMaxSectorSize m < n"
  shows "MemUsage (snd (Allocate m n)) = MemUsage m + of_nat (kDefaultBlockSize m)"
proof -
  have "ucast (x + y :: u64) = (ucast x + ucast y :: u32)" for x y
  proof (transfer fixing: )
    fix x y :: int
    show "take_bit LENGTH(32) (take_bit LENGTH(64) (x + y)) =
        take_bit LENGTH(32) (take_bit LENGTH(64) x + take_bit LENGTH(64) y)"
      by (subst (2) take_bit_add [symmetric]) (simp add: take_bit_add)
  qed
  then have u: "ucast ((1 + y) * x - z :: u64) = (ucast (y * x - z) + ucast x :: u32)" for x y z
    by (metis (no_types) add.commute add_diff_eq distrib_right mult_1)
  have "ucast (of_nat k :: u64) = (of_nat k :: u32)" for k
    by (transfer fixing: k) simp
  with assms show ?thesis
    by (simp add: MemUsage_def Allocate_def AllocateFullBlock_def u)
qed

theorem MemUsage_ignores_large_sizes_witness:
  "MemUsage (snd (Allocate MemAllocator_default 1000000)) = MemUsage MemAllocator_default + 4096"
  using MemUsage_ignores_large_sizes [of MemAllocator_default 1000000]
  by (simp add: MemAllocator_default_def kMaxSectorSize_def MemAllocator_new_def
      AllocateFullBlock_def Unref_def)

end
