(* ===== verification/Hash.thy ===== *)
theory Hash
  imports Prelude
begin

text \<open>
  \<open>Murmur2::Hash\<close> of \<open>include/coding/hash.h\<close>, on 64-bit words. The size argument is the
  length of the key (sizes below 2^31, so that the \<open>int\<close> parameter holds them). A read past
  the key is a fault; \<open>Murmur2_total\<close> shows that there is none.
\<close>

unbundle bit_operations_syntax

definition murmur_m :: u64 where
  "murmur_m = 0xc6a4a7935bd1e995"

text \<open>The loop over the 8-byte blocks; the first argument is \<open>end - data\<close>.\<close>

fun Murmur2_loop :: "nat \<Rightarrow> bytes \<Rightarrow> u64 \<Rightarrow> (u64 \<times> bytes) res" where
  "Murmur2_loop 0 data h = Inr (h, data)"
| "Murmur2_loop (Suc n) data h =
     rbind (view data 0 8) (\<lambda>block.
     let k = of_le block * murmur_m;
         k = k XOR drop_bit 47 k;
         k = k * murmur_m
     in Murmur2_loop n (drop 8 data) ((h XOR k) * murmur_m))"

text \<open>The \<open>switch\<close> on \<open>size & 7\<close>, whose cases fall through from 7 down to 1.\<close>

definition tail_byte :: "nat \<Rightarrow> bytes \<Rightarrow> nat \<Rightarrow> u64 \<Rightarrow> u64 res" where
  "tail_byte n data2 i h =
     (if n > i then rmap (\<lambda>b. h XOR push_bit (8 * i) (ucast b)) (rd data2 i) else Inr h)"

definition Murmur2_tail :: "nat \<Rightarrow> bytes \<Rightarrow> u64 \<Rightarrow> u64 res" where
  "Murmur2_tail n data2 h =
     rbind (tail_byte n data2 6 h) (\<lambda>h. rbind (tail_byte n data2 5 h) (\<lambda>h.
     rbind (tail_byte n data2 4 h) (\<lambda>h. rbind (tail_byte n data2 3 h) (\<lambda>h.
     rbind (tail_byte n data2 2 h) (\<lambda>h. rbind (tail_byte n data2 1 h) (\<lambda>h.
     rbind (tail_byte n data2 0 h) (\<lambda>h. Inr (if n > 0 then h * murmur_m else h))))))))"

definition Murmur2_Hash :: "bytes \<Rightarrow> u64 \<Rightarrow> u64 res" where
  "Murmur2_Hash key seed =
     (let sz = length key; h = seed XOR (of_nat sz * murmur_m) in
      rbind (Murmur2_loop (sz div 8) key h) (\<lambda>(h, data2).
      rbind (Murmur2_tail (sz mod 8) data2 h) (\<lambda>h.
      let h = h XOR drop_bit 47 h; h = h * murmur_m in Inr (h XOR drop_bit 47 h))))"

lemma Murmur2_loop_total:
  "8 * n \<le> length data \<Longrightarrow> \<exists>h'. Murmur2_loop n data h = Inr (h', drop (8 * n) data)"
proof (induction n arbitrary: data h)
  case (Suc n)
  have "\<exists>h'. Murmur2_loop n (drop 8 data) h1 = Inr (h', drop (8 * n) (drop 8 data))" for h1
    using Suc.prems by (intro Suc.IH) simp
  moreover have "view data 0 8 = Inr (take 8 data)" using Suc.prems by (simp add: view_def)
  ultimately show ?case by (simp add: Let_def add.commute)
qed simp

lemma tail_byte_total: "n \<le> length data2 \<Longrightarrow> \<exists>h'. tail_byte n data2 i h = Inr h'"
  by (simp add: tail_byte_def rd_def)

lemma Murmur2_tail_total: "n \<le> length data2 \<Longrightarrow> \<exists>h'. Murmur2_tail n data2 h = Inr h'"
proof -
  assume "n \<le> length data2"
  then have "\<exists>f. \<forall>i h. tail_byte n data2 i h = Inr (f i h)"
    using tail_byte_total by metis
  then obtain f where "tail_byte n data2 i h = Inr (f i h)" for i h by blast
  then show ?thesis by (simp add: Murmur2_tail_def)
qed

text \<open>The hash of any key with any seed is computed without reading past the key.\<close>

theorem Murmur2_total: "\<exists>h. Murmur2_Hash key seed = Inr h"
proof -
  have "8 * (length key div 8) \<le> length key" by simp
  then obtain h where "Murmur2_loop (length key div 8) key (seed XOR (of_nat (length key) * murmur_m)) =
      Inr (h, drop (8 * (length key div 8)) key)"
    using Murmur2_loop_total by blast
  moreover have "\<exists>h'. Murmur2_tail (length key mod 8) (drop (8 * (length key div 8)) key) h = Inr h'"
    by (intro Murmur2_tail_total) (simp add: minus_mult_div_eq_mod)
  ultimately show ?thesis by (auto simp: Murmur2_Hash_def Let_def)
qed

end
