(* ===== verification/Comparators.thy ===== *)
theory Comparators
  imports InternalEntry
begin

text \<open>
  The comparators of \<open>src/util/comparator.cc\<close>. \<open>cmp_skip\<close> is the loop all of them share: it
  drops the common prefix of two counted byte strings and leaves both remaining counts and
  pointers. Bytes are compared as signed \<open>char\<close>s (\<open>\<le>s\<close>), as on the platform of the code.

  \<open>InternalEntryComparator\<close> orders entries by key and then by id; \<open>QueryComparator\<close>
  overrides the two non-strict comparisons to look at the key alone, and inherits the
  strict ones, which call the overriding functions.
\<close>

unbundle bit_operations_syntax

fun cmp_skip :: "nat \<Rightarrow> bytes \<Rightarrow> nat \<Rightarrow> bytes \<Rightarrow> (nat \<times> bytes \<times> nat \<times> bytes) res" where
  "cmp_skip (Suc n) (x # xs) (Suc m) (y # ys) =
     (if x = y then cmp_skip n xs m ys else Inr (Suc n, x # xs, Suc m, y # ys))"
| "cmp_skip (Suc n) [] (Suc m) ys = Inl OobRead"
| "cmp_skip (Suc n) xs (Suc m) [] = Inl OobRead"
| "cmp_skip n xs m ys = Inr (n, xs, m, ys)"

section \<open>SequenceComparator\<close>

definition Seq_GreaterOrEquals :: "bytes \<Rightarrow> bytes \<Rightarrow> bool res" where
  "Seq_GreaterOrEquals first second =
     rbind (cmp_skip (length first) first (length second) second) (\<lambda>(n, xs, m, ys).
       if (n = 0 \<and> m = 0) \<or> m = 0 then Inr True
       else if n > 0 then rbind (rd xs 0) (\<lambda>x. rbind (rd ys 0) (\<lambda>y. Inr (y \<le>s x)))
       else Inr False)"

definition Seq_LessOrEquals :: "bytes \<Rightarrow> bytes \<Rightarrow> bool res" where
  "Seq_LessOrEquals first second =
     rbind (cmp_skip (length first) first (length second) second) (\<lambda>(n, xs, m, ys).
       if (n = 0 \<and> m = 0) \<or> n = 0 then Inr True
       else if m > 0 then rbind (rd xs 0) (\<lambda>x. rbind (rd ys 0) (\<lambda>y. Inr (x \<le>s y)))
       else Inr False)"

definition Seq_Greater :: "bytes \<Rightarrow> bytes \<Rightarrow> bool res" where
  "Seq_Greater first second = rmap Not (Seq_LessOrEquals first second)"

definition Seq_Less :: "bytes \<Rightarrow> bytes \<Rightarrow> bool res" where
  "Seq_Less first second = rmap Not (Seq_GreaterOrEquals first second)"

definition Seq_Equal :: "bytes \<Rightarrow> bytes \<Rightarrow> bool res" where
  "Seq_Equal first second =
     rbind (cmp_skip (length first) first (length second) second) (\<lambda>(n, xs, m, ys).
       Inr (n = m \<and> n = 0))"

section \<open>InternalEntryComparator\<close>

text \<open>The key of an entry as the comparators see it: its size and the bytes from its start.\<close>

definition key_part :: "bytes \<Rightarrow> (nat \<times> bytes) res" where
  "key_part e =
     rbind (DecodeVarint64 e) (\<lambda>size.
     rbind (SizeOfVarint_ptr e) (\<lambda>k. Inr (unat size, drop k e)))"

text \<open>\<open>*reinterpret_cast<const uint64_t*>(p)\<close>.\<close>

definition rd_id :: "bytes \<Rightarrow> u64 res" where
  "rd_id p = rmap of_le (view p 0 8)"

definition IEC_GreaterOrEquals :: "bytes \<Rightarrow> bytes \<Rightarrow> bool res" where
  "IEC_GreaterOrEquals first second =
     rbind (rd first 0) (\<lambda>f0. if f0 = 0 then Inr True else
     rbind (rd second 0) (\<lambda>s0. if s0 = 0 then Inr False else
     rbind (key_part first) (\<lambda>(n1, p1). rbind (key_part second) (\<lambda>(n2, p2).
     rbind (cmp_skip n1 p1 n2 p2) (\<lambda>(n, xs, m, ys).
       if n = 0 \<and> m = 0 then rbind (rd_id xs) (\<lambda>i. rbind (rd_id ys) (\<lambda>j. Inr (i \<ge> j)))
       else if m = 0 then Inr True
       else if n > 0 then rbind (rd xs 0) (\<lambda>x. rbind (rd ys 0) (\<lambda>y. Inr (y \<le>s x)))
       else Inr False)))))"

definition IEC_LessOrEquals :: "bytes \<Rightarrow> bytes \<Rightarrow> bool res" where
  "IEC_LessOrEquals first second =
     rbind (rd first 0) (\<lambda>f0. if f0 = 0 then Inr True else
     rbind (rd second 0) (\<lambda>s0. if s0 = 0 then Inr False else
     rbind (key_part first) (\<lambda>(n1, p1). rbind (key_part second) (\<lambda>(n2, p2).
     rbind (cmp_skip n1 p1 n2 p2) (\<lambda>(n, xs, m, ys).
       if n = 0 \<and> m = 0 then rbind (rd_id xs) (\<lambda>i. rbind (rd_id ys) (\<lambda>j. Inr (i \<le> j)))
       else if n = 0 then Inr True
       else if m > 0 then rbind (rd xs 0) (\<lambda>x. rbind (rd ys 0) (\<lambda>y. Inr (x \<le>s y)))
       else Inr False)))))"

definition IEC_Greater :: "bytes \<Rightarrow> bytes \<Rightarrow> bool res" where
  "IEC_Greater first second = rmap Not (IEC_LessOrEquals first second)"

definition IEC_Less :: "bytes \<Rightarrow> bytes \<Rightarrow> bool res" where
  "IEC_Less first second = rmap Not (IEC_GreaterOrEquals first second)"

definition IEC_Equal :: "bytes \<Rightarrow> bytes \<Rightarrow> bool res" where
  "IEC_Equal first second =
     rbind (rd first 0) (\<lambda>f0. rbind (rd second 0) (\<lambda>s0.
     if f0 = 0 \<or> s0 = 0 then Inr (f0 = s0) else
     rbind (key_part first) (\<lambda>(n1, p1). rbind (key_part second) (\<lambda>(n2, p2).
     rbind (cmp_skip n1 p1 n2 p2) (\<lambda>(n, xs, m, ys). Inr (n = m \<and> n = 0))))))"

text \<open>The overloads for \<open>std::string\<close>; \<open>c_str()\<close> points to the bytes with a zero behind them.\<close>

definition c_str :: "bytes \<Rightarrow> bytes" where
  "c_str x = x @ [0]"

definition IEC_GreaterOrEquals_string :: "bytes \<Rightarrow> bytes \<Rightarrow> bool res" where
  "IEC_GreaterOrEquals_string x y = IEC_GreaterOrEquals (c_str x) (c_str y)"

definition IEC_LessOrEquals_string :: "bytes \<Rightarrow> bytes \<Rightarrow> bool res" where
  "IEC_LessOrEquals_string x y = IEC_LessOrEquals (c_str x) (c_str y)"

definition IEC_Greater_string :: "bytes \<Rightarrow> bytes \<Rightarrow> bool res" where
  "IEC_Greater_string x y = IEC_Greater (c_str x) (c_str y)"

definition IEC_Less_string :: "bytes \<Rightarrow> bytes \<Rightarrow> bool res" where
  "IEC_Less_string x y = IEC_Less (c_str x) (c_str y)"

definition IEC_Equal_string :: "bytes \<Rightarrow> bytes \<Rightarrow> bool res" where
  "IEC_Equal_string x y = IEC_Equal (c_str x) (c_str y)"

section \<open>IntegerComparator\<close>

definition Int_GreaterOrEquals :: "32 word \<Rightarrow> 32 word \<Rightarrow> bool" where
  "Int_GreaterOrEquals x y = (y \<le>s x)"

definition Int_LessOrEquals :: "32 word \<Rightarrow> 32 word \<Rightarrow> bool" where
  "Int_LessOrEquals x y = (x \<le>s y)"

definition Int_Greater :: "32 word \<Rightarrow> 32 word \<Rightarrow> bool" where
  "Int_Greater x y = (y <s x)"

definition Int_Less :: "32 word \<Rightarrow> 32 word \<Rightarrow> bool" where
  "Int_Less x y = (x <s y)"

definition Int_Equal :: "32 word \<Rightarrow> 32 word \<Rightarrow> bool" where
  "Int_Equal x y = (x = y)"

section \<open>QueryComparator\<close>

definition QC_GreaterOrEquals :: "bytes \<Rightarrow> bytes \<Rightarrow> bool res" where
  "QC_GreaterOrEquals first second =
     rbind (rd first 0) (\<lambda>f0. if f0 = 0 then Inr True else
     rbind (rd second 0) (\<lambda>s0. if s0 = 0 then Inr False else
     rbind (key_part first) (\<lambda>(n1, p1). rbind (key_part second) (\<lambda>(n2, p2).
     rbind (cmp_skip n1 p1 n2 p2) (\<lambda>(n, xs, m, ys).
       if m = 0 then Inr True
       else if n = 0 then Inr False
       else rbind (rd xs 0) (\<lambda>x. rbind (rd ys 0) (\<lambda>y. Inr (y \<le>s x))))))))"

definition QC_LessOrEquals :: "bytes \<Rightarrow> bytes \<Rightarrow> bool res" where
  "QC_LessOrEquals first second =
     rbind (rd first 0) (\<lambda>f0. if f0 = 0 then Inr True else
     rbind (rd second 0) (\<lambda>s0. if s0 = 0 then Inr False else
     rbind (key_part first) (\<lambda>(n1, p1). rbind (key_part second) (\<lambda>(n2, p2).
     rbind (cmp_skip n1 p1 n2 p2) (\<lambda>(n, xs, m, ys).
       if n = 0 then Inr True
       else if m = 0 then Inr False
       else rbind (rd xs 0) (\<lambda>x. rbind (rd ys 0) (\<lambda>y. Inr (x \<le>s y))))))))"

definition QC_Greater :: "bytes \<Rightarrow> bytes \<Rightarrow> bool res" where
  "QC_Greater first second = rmap Not (QC_LessOrEquals first second)"

section \<open>The orders they compute\<close>

text \<open>Keys: lexicographic, by signed bytes. Entries: key, then id.\<close>

fun key_le :: "bytes \<Rightarrow> bytes \<Rightarrow> bool" where
  "key_le [] ys = True"
| "key_le (x # xs) [] = False"
| "key_le (x # xs) (y # ys) = (if x = y then key_le xs ys else x \<le>s y)"

lemma key_le_refl [simp]: "key_le xs xs"
  by (induction xs) auto

lemma sle_total: "(x :: byte) \<le>s y \<or> y \<le>s x"
  by (auto simp: word_sle_eq)

lemma sle_antisym: "(x :: byte) \<le>s y \<Longrightarrow> y \<le>s x \<Longrightarrow> x = y"
  by (metis word_sle_eq order_antisym signed_word_eqI)

lemma sle_trans: "(x :: byte) \<le>s y \<Longrightarrow> y \<le>s z \<Longrightarrow> x \<le>s z"
  by (auto simp: word_sle_eq)

lemma key_le_total: "key_le xs ys \<or> key_le ys xs"
  using sle_total by (induction xs ys rule: key_le.induct) auto

lemma key_le_antisym: "key_le xs ys \<Longrightarrow> key_le ys xs \<Longrightarrow> xs = ys"
proof (induction xs ys rule: key_le.induct)
  case (1 ys)
  then show ?case by (cases ys) auto
qed (auto split: if_splits dest: sle_antisym)

lemma key_le_trans: "key_le xs ys \<Longrightarrow> key_le ys zs \<Longrightarrow> key_le xs zs"
proof (induction xs ys arbitrary: zs rule: key_le.induct)
  case (3 x xs y ys)
  then show ?case
    by (cases zs) (auto split: if_splits dest: sle_trans sle_antisym)
qed auto

definition ent_le :: "bytes \<times> u64 \<Rightarrow> bytes \<times> u64 \<Rightarrow> bool" where
  "ent_le a b = (if fst a = fst b then snd a \<le> snd b else key_le (fst a) (fst b))"

lemma ent_le_refl [simp]: "ent_le a a"
  by (simp add: ent_le_def)

lemma ent_le_total: "ent_le a b \<or> ent_le b a"
  using key_le_total by (auto simp: ent_le_def)

lemma ent_le_antisym: "ent_le a b \<Longrightarrow> ent_le b a \<Longrightarrow> a = b"
  by (auto simp: ent_le_def prod_eq_iff split: if_splits dest: key_le_antisym)

lemma ent_le_trans: "ent_le a b \<Longrightarrow> ent_le b c \<Longrightarrow> ent_le a c"
  by (auto simp: ent_le_def split: if_splits dest: key_le_trans key_le_antisym)

text \<open>What the shared loop leaves behind.\<close>

lemma cmp_skip_cases:
  obtains (equal) "xs = ys" "cmp_skip (length xs) (xs @ r) (length ys) (ys @ s) = Inr (0, r, 0, s)"
  | (prefix1) m q where "xs \<noteq> ys" "key_le xs ys" "\<not> key_le ys xs" "m > 0"
      "cmp_skip (length xs) (xs @ r) (length ys) (ys @ s) = Inr (0, r, m, q)"
  | (prefix2) n p where "xs \<noteq> ys" "key_le ys xs" "\<not> key_le xs ys" "n > 0"
      "cmp_skip (length xs) (xs @ r) (length ys) (ys @ s) = Inr (n, p, 0, s)"
  | (differ) n x p m y q where "xs \<noteq> ys" "n > 0" "m > 0" "key_le xs ys \<longleftrightarrow> x \<le>s y" "key_le ys xs \<longleftrightarrow> y \<le>s x"
      "cmp_skip (length xs) (xs @ r) (length ys) (ys @ s) = Inr (n, x # p, m, y # q)"
proof -
  have "(xs = ys \<and> cmp_skip (length xs) (xs @ r) (length ys) (ys @ s) = Inr (0, r, 0, s)) \<or>
    (\<exists>m q. xs \<noteq> ys \<and> key_le xs ys \<and> \<not> key_le ys xs \<and> m > 0 \<and>
      cmp_skip (length xs) (xs @ r) (length ys) (ys @ s) = Inr (0, r, m, q)) \<or>
    (\<exists>n p. xs \<noteq> ys \<and> key_le ys xs \<and> \<not> key_le xs ys \<and> n > 0 \<and>
      cmp_skip (length xs) (xs @ r) (length ys) (ys @ s) = Inr (n, p, 0, s)) \<or>
    (\<exists>n x p m y q. xs \<noteq> ys \<and> n > 0 \<and> m > 0 \<and> (key_le xs ys \<longleftrightarrow> x \<le>s y) \<and> (key_le ys xs \<longleftrightarrow> y \<le>s x) \<and>
      cmp_skip (length xs) (xs @ r) (length ys) (ys @ s) = Inr (n, x # p, m, y # q))"
  proof (induction xs arbitrary: ys)
    case Nil
    then show ?case by (cases ys) auto
  next
    case (Cons x xs)
    show ?case
    proof (cases ys)
      case Nil
      then show ?thesis by auto
    next
      case (Cons y ys')
      with Cons.IH [of ys'] show ?thesis by auto
    qed
  qed
  then show ?thesis using that by blast
qed

section \<open>Sequences\<close>

lemma Seq_compare:
  "Seq_LessOrEquals xs ys = Inr (key_le xs ys)"
  "Seq_GreaterOrEquals xs ys = Inr (key_le ys xs)"
  "Seq_Equal xs ys = Inr (xs = ys)"
  by (rule cmp_skip_cases [of xs ys "[]" "[]"];
      simp add: Seq_LessOrEquals_def Seq_GreaterOrEquals_def Seq_Equal_def)+

section \<open>Entries\<close>

lemma hd_leb128: "hd (leb128 n) = 0 \<longleftrightarrow> n = 0"
proof (cases "n < 128")
  case True
  then have "(of_nat n :: byte) = 0 \<longleftrightarrow> n = 0"
    by (auto simp: word_of_nat_eq_0_iff dest: dvd_imp_le)
  with True show ?thesis by (simp add: leb128.simps [of n])
next
  case False
  have "(b OR 0x80 :: byte) \<noteq> 0" for b
  proof
    assume "b OR 0x80 = 0"
    with tagged_OR [of b] have "tagged 0" by (simp only:)
    then show False by (simp add: tagged_def)
  qed
  with False show ?thesis by (simp add: leb128.simps [of n])
qed

lemma leb128_nonempty: "leb128 n \<noteq> []"
  by (subst leb128.simps) simp

lemma rd_entry_0:
  "\<exists>b. rd (entry_bytes key val eid op @ rest) 0 = Inr b \<and> (fits key \<longrightarrow> (b = 0 \<longleftrightarrow> key = []))"
proof -
  have "entry_bytes key val eid op @ rest =
      hd (leb128 (unat (of_nat (length key) :: u64))) #
      tl (entry_bytes key val eid op @ rest)"
    using leb128_nonempty
    by (cases "leb128 (unat (of_nat (length key) :: u64))")
      (auto simp: entry_bytes_def EncodeVarint64_leb128)
  then obtain t where
    "entry_bytes key val eid op @ rest = hd (leb128 (unat (of_nat (length key) :: u64))) # t"
    by blast
  then show ?thesis by (simp add: hd_leb128)
qed

lemma key_part_entry:
  "fits key \<Longrightarrow> \<exists>t. key_part (entry_bytes key val eid op @ rest) = Inr (length key, key @ le_bytes 8 eid @ t)"
  by (simp add: key_part_def entry_bytes_def codec_simps)

lemma rd_id_le_bytes [simp]: "rd_id (le_bytes 8 eid @ t) = Inr eid"
  by (simp add: rd_id_def view_prefix codec_simps)

text \<open>
  One lemma per comparison, for entries in memory (each followed by anything). An entry
  with the empty key starts with the byte 0 and is taken for the infinite sentinel.
\<close>

lemma compare_setup:
  assumes "fits key1" "fits key2"
  obtains b1 b2 t1 t2 where
    "rd (entry_bytes key1 val1 i1 op1 @ r1) 0 = Inr b1" "b1 = 0 \<longleftrightarrow> key1 = []"
    "rd (entry_bytes key2 val2 i2 op2 @ r2) 0 = Inr b2" "b2 = 0 \<longleftrightarrow> key2 = []"
    "key_part (entry_bytes key1 val1 i1 op1 @ r1) = Inr (length key1, key1 @ le_bytes 8 i1 @ t1)"
    "key_part (entry_bytes key2 val2 i2 op2 @ r2) = Inr (length key2, key2 @ le_bytes 8 i2 @ t2)"
  using rd_entry_0 [of key1 val1 i1 op1 r1] rd_entry_0 [of key2 val2 i2 op2 r2]
    key_part_entry [OF assms(1), of val1 i1 op1 r1] key_part_entry [OF assms(2), of val2 i2 op2 r2]
    assms by blast

lemma compare_entries:
  assumes "fits key1" "fits key2"
  shows "IEC_LessOrEquals (entry_bytes key1 val1 i1 op1 @ r1) (entry_bytes key2 val2 i2 op2 @ r2) =
      Inr (key1 = [] \<or> key2 \<noteq> [] \<and> ent_le (key1, i1) (key2, i2))" (is ?le)
    and "IEC_GreaterOrEquals (entry_bytes key1 val1 i1 op1 @ r1) (entry_bytes key2 val2 i2 op2 @ r2) =
      Inr (key1 = [] \<or> key2 \<noteq> [] \<and> ent_le (key2, i2) (key1, i1))" (is ?ge)
    and "IEC_Equal (entry_bytes key1 val1 i1 op1 @ r1) (entry_bytes key2 val2 i2 op2 @ r2) =
      Inr (key1 = key2)" (is ?eq)
    and "QC_LessOrEquals (entry_bytes key1 val1 i1 op1 @ r1) (entry_bytes key2 val2 i2 op2 @ r2) =
      Inr (key_le key1 key2)" (is ?qle)
    and "QC_GreaterOrEquals (entry_bytes key1 val1 i1 op1 @ r1) (entry_bytes key2 val2 i2 op2 @ r2) =
      Inr (key1 = [] \<or> key2 \<noteq> [] \<and> key_le key2 key1)" (is ?qge)
proof -
  obtain b1 b2 t1 t2 where e:
    "rd (entry_bytes key1 val1 i1 op1 @ r1) 0 = Inr b1" "b1 = 0 \<longleftrightarrow> key1 = []"
    "rd (entry_bytes key2 val2 i2 op2 @ r2) 0 = Inr b2" "b2 = 0 \<longleftrightarrow> key2 = []"
    "key_part (entry_bytes key1 val1 i1 op1 @ r1) = Inr (length key1, key1 @ le_bytes 8 i1 @ t1)"
    "key_part (entry_bytes key2 val2 i2 op2 @ r2) = Inr (length key2, key2 @ le_bytes 8 i2 @ t2)"
    by (rule compare_setup [OF assms])
  show ?le
    by (rule cmp_skip_cases [of key1 key2 "le_bytes 8 i1 @ t1" "le_bytes 8 i2 @ t2"];
        use e in \<open>auto simp: IEC_LessOrEquals_def ent_le_def\<close>)
  show ?ge
    by (rule cmp_skip_cases [of key1 key2 "le_bytes 8 i1 @ t1" "le_bytes 8 i2 @ t2"];
        use e in \<open>auto simp: IEC_GreaterOrEquals_def ent_le_def\<close>)
  show ?eq
    by (rule cmp_skip_cases [of key1 key2 "le_bytes 8 i1 @ t1" "le_bytes 8 i2 @ t2"];
        use e in \<open>auto simp: IEC_Equal_def\<close>)
  show ?qle
    by (rule cmp_skip_cases [of key1 key2 "le_bytes 8 i1 @ t1" "le_bytes 8 i2 @ t2"];
        use e in \<open>auto simp: QC_LessOrEquals_def\<close>)
  show ?qge
    by (rule cmp_skip_cases [of key1 key2 "le_bytes 8 i1 @ t1" "le_bytes 8 i2 @ t2"];
        use e in \<open>auto simp: QC_GreaterOrEquals_def\<close>)
qed

section \<open>The comparator as a key order\<close>

text \<open>Key and id read from an entry: the abstraction the comparisons are about.\<close>

definition ent_of :: "bytes \<Rightarrow> bytes \<times> u64" where
  "ent_of e =
     (case rbind (key_part e) (\<lambda>(n, p). rmap (Pair (take n p)) (rd_id (drop n p))) of
        Inr x \<Rightarrow> x | Inl _ \<Rightarrow> ([], 0))"

lemma ent_of_entry' [simp]: "fits key \<Longrightarrow> ent_of (entry_bytes key val eid op @ rest) = (key, eid)"
  using key_part_entry [of key val eid op rest] by (auto simp: ent_of_def)

lemma ent_of_entry [simp]: "fits key \<Longrightarrow> ent_of (entry_bytes key val eid op) = (key, eid)"
  using ent_of_entry' [of key val eid op "[]"] by simp

definition ordered_entry :: "bytes \<Rightarrow> bool" where
  "ordered_entry e \<longleftrightarrow> (\<exists>key val eid op. fits key \<and> fits val \<and> key \<noteq> [] \<and> e = entry_bytes key val eid op)"

lemma ordered_entryI [intro]:
  "fits key \<Longrightarrow> fits val \<Longrightarrow> key \<noteq> [] \<Longrightarrow> ordered_entry (entry_bytes key val eid op)"
  by (auto simp: ordered_entry_def)

lemma ordered_entryE:
  assumes "ordered_entry e"
  obtains key val eid op where "fits key" "fits val" "key \<noteq> []" "e = entry_bytes key val eid op"
  using assms by (auto simp: ordered_entry_def)

lemma ordered_is_entry: "ordered_entry e \<Longrightarrow> is_entry e"
  by (auto elim!: ordered_entryE)

lemmas compare_entries_exact = compare_entries [where ?r1.0 = "[]" and ?r2.0 = "[]", simplified]

lemma compare_ordered:
  assumes "ordered_entry x" "ordered_entry y"
  shows "IEC_GreaterOrEquals x y = Inr (ent_le (ent_of y) (ent_of x))"
    and "IEC_LessOrEquals x y = Inr (ent_le (ent_of x) (ent_of y))"
    and "IEC_Greater x y = Inr (\<not> ent_le (ent_of x) (ent_of y))"
    and "IEC_Less x y = Inr (\<not> ent_le (ent_of y) (ent_of x))"
    and "IEC_Equal x y = Inr (fst (ent_of x) = fst (ent_of y))"
    and "QC_LessOrEquals x y = Inr (key_le (fst (ent_of x)) (fst (ent_of y)))"
    and "QC_GreaterOrEquals x y = Inr (key_le (fst (ent_of y)) (fst (ent_of x)))"
    and "QC_Greater x y = Inr (\<not> key_le (fst (ent_of x)) (fst (ent_of y)))"
  using assms
  by (auto elim!: ordered_entryE
      simp: compare_entries_exact IEC_Greater_def IEC_Less_def QC_Greater_def)

lemma ordered_first_byte: "ordered_entry e \<Longrightarrow> \<exists>b. rd e 0 = Inr b \<and> b \<noteq> 0"
proof (elim ordered_entryE)
  fix key val eid op
  assume "fits key" "key \<noteq> []" "e = entry_bytes key val eid op"
  then show ?thesis using rd_entry_0 [of key val eid op "[]"] by auto
qed

text \<open>The one-byte key \<open>invalid_key_\<close> of the skip list's dummy nodes.\<close>

definition invalid_key :: bytes where
  "invalid_key = [0]"

lemma IEC_Equal_invalid: "ordered_entry e \<Longrightarrow> IEC_Equal invalid_key e = Inr False"
  using ordered_first_byte [of e] by (auto simp: IEC_Equal_def invalid_key_def)

lemma IEC_Greater_invalid: "IEC_Greater invalid_key e = Inr False"
  by (simp add: IEC_Greater_def IEC_LessOrEquals_def invalid_key_def)

interpretation iec: strict_key_order IEC_GreaterOrEquals IEC_Equal invalid_key ordered_entry
  "\<lambda>x y. ent_le (ent_of x) (ent_of y)" "\<lambda>x y. fst (ent_of x) = fst (ent_of y)" IEC_Greater
  by unfold_locales
    (auto simp: compare_ordered IEC_Equal_invalid IEC_Greater_invalid ent_le_total intro: ent_le_trans)

text \<open>The overloads for strings compare the same.\<close>

lemma compare_strings:
  assumes "ordered_entry x" "ordered_entry y"
  shows "IEC_GreaterOrEquals_string x y = IEC_GreaterOrEquals x y"
    and "IEC_LessOrEquals_string x y = IEC_LessOrEquals x y"
    and "IEC_Greater_string x y = IEC_Greater x y"
    and "IEC_Less_string x y = IEC_Less x y"
    and "IEC_Equal_string x y = IEC_Equal x y"
  using assms
  by (auto elim!: ordered_entryE simp: IEC_GreaterOrEquals_string_def IEC_LessOrEquals_string_def IEC_Greater_string_def
      IEC_Less_string_def IEC_Equal_string_def IEC_Greater_def IEC_Less_def c_str_def compare_entries compare_entries_exact)

text \<open>Integers are a key order as well, with any integer below all keys at the dummy nodes.\<close>

interpretation ints: strict_key_order "\<lambda>x y. Inr (Int_GreaterOrEquals x y)" "\<lambda>x y. Inr (Int_Equal x y)" m
  "\<lambda>x. m <s x" "\<lambda>x y. x \<le>s y" "(=)" "\<lambda>x y. Inr (Int_Greater x y)" for m :: "32 word"
  by unfold_locales
    (auto simp: Int_GreaterOrEquals_def Int_Equal_def Int_Greater_def word_sle_eq word_sless_alt)

section \<open>Properties\<close>

lemma ordered_EntryKey: "ordered_entry e \<Longrightarrow> EntryKey e = Inr (fst (ent_of e))"
  using EntryKey_entry [where rest = "[]"] by (auto elim!: ordered_entryE)



text \<open>An entry with the empty key starts with the byte 0 and is taken for the sentinel: it
  compares as both \<open>\<ge>\<close> and \<open>\<le>\<close> to everything, its own key included, so the order is lost.\<close>

theorem empty_key_breaks_order:
  "IEC_LessOrEquals (entry_bytes [] val eid op) y = Inr True \<and>
   IEC_GreaterOrEquals (entry_bytes [] val eid op) y = Inr True \<and>
   IEC_Less (entry_bytes [] val eid op) y = Inr False"
proof -
  have "rd (entry_bytes [] val eid op) 0 = Inr 0"
    using rd_entry_0 [of "[]" val eid op "[]"] by (auto simp: fits_def)
  then show ?thesis
    by (simp add: IEC_LessOrEquals_def IEC_GreaterOrEquals_def IEC_Less_def)
qed

section \<open>Functors and the integer comparator\<close>

text \<open>The call operators of \<open>MergeComparator\<close> (the entry is the first component) and
  \<open>QueryComparator\<close>, used by the priority queues.\<close>

definition MergeComparator_call :: "bytes \<times> 'a \<Rightarrow> bytes \<times> 'a \<Rightarrow> bool res" where
  "MergeComparator_call x y = IEC_Greater (fst x) (fst y)"

definition QueryComparator_call :: "bytes \<Rightarrow> bytes \<Rightarrow> bool res" where
  "QueryComparator_call x y = QC_Greater x y"

end
