(* ===== verification/BloomFilter.thy ===== *)
theory BloomFilter
  imports Hash Comparators
begin

text \<open>
  The bloom filter of \<open>src/coding/filter.cc\<close>. The floating-point formulas that choose the
  number of bytes (\<open>ceil(bits / 8.0)\<close> from \<open>n\<close> and \<open>fp_rate_\<close>) and of hash functions are the
  parameters \<open>filter_bytes\<close> and \<open>hash_k\<close>; the seeds are the vector \<open>seeds_\<close>.
\<close>

unbundle bit_operations_syntax

definition default_seeds :: "u64 list" where
  "default_seeds =
     [0x6fef439dc013aaa6, 0x089f55eb6baaab91, 0xfe28c5826fef439d, 0x88606e7e6075f2c3,
      0x38ed602f9a4f44a7, 0x45fc1384341b1bea, 0x3de4e39c71165672, 0xae5f61af9a07fd46,
      0x512f9502b7bc2663, 0xae7ee2cb56659fc5]"

text \<open>\<open>InitMembers\<close>: \<open>rand() << 32 + rand()\<close> shifts by \<open>32 + rand()\<close>; a shift by 64 or more
  is undefined. The argument \<open>rs\<close> lists what \<open>rand()\<close> returns.\<close>

function InitSeeds :: "nat \<Rightarrow> u64 list \<Rightarrow> nat list \<Rightarrow> u64 list res" where
  "InitSeeds hash_k seeds rs =
     (if length seeds < hash_k then
        (case rs of
           r1 # r2 # rs' \<Rightarrow>
             (if 32 + r2 < 64
              then InitSeeds hash_k (seeds @ [push_bit (32 + r2) (of_nat r1)]) rs'
              else Inl BadShift)
         | _ \<Rightarrow> Inl OutOfFuel)
      else Inr seeds)"
  by pat_completeness auto
termination
  by (relation "measure (\<lambda>(k, seeds, rs). k - length seeds)") auto

text \<open>\<open>filter_content[pos] |= 0x80 >> (hash_value % 8)\<close> and its test.\<close>

definition bit_mask :: "u64 \<Rightarrow> byte" where
  "bit_mask hash_value = drop_bit (unat (hash_value mod 8)) 0x80"

definition byte_pos :: "u64 \<Rightarrow> bytes \<Rightarrow> nat res" where
  "byte_pos hash_value content =
     (if length content = 0 then Inl DivZero else Inr (unat (hash_value div 8) mod length content))"

definition set_hash :: "u64 \<Rightarrow> bytes \<Rightarrow> bytes res" where
  "set_hash hash_value content =
     rbind (byte_pos hash_value content) (\<lambda>pos.
     rbind (rd content pos) (\<lambda>b. Inr (content[pos := b OR bit_mask hash_value])))"

fun set_hashes :: "u64 list \<Rightarrow> nat \<Rightarrow> nat \<Rightarrow> bytes \<Rightarrow> bytes \<Rightarrow> bytes res" where
  "set_hashes seeds i 0 key content = Inr content"
| "set_hashes seeds i (Suc n) key content =
     rbind (rd seeds i) (\<lambda>seed.
     rbind (Murmur2_Hash key seed) (\<lambda>h.
     rbind (set_hash h content) (set_hashes seeds (Suc i) n key)))"

fun CreateFilter_loop :: "nat \<Rightarrow> u64 list \<Rightarrow> bytes list \<Rightarrow> bytes \<Rightarrow> bytes res" where
  "CreateFilter_loop hash_k seeds [] content = Inr content"
| "CreateFilter_loop hash_k seeds (e # es) content =
     rbind (EntryKey e) (\<lambda>key.
     rbind (set_hashes seeds 0 hash_k key content) (CreateFilter_loop hash_k seeds es))"

text \<open>\<open>resize(bytes, 0)\<close> of the caller's string, which is empty at both call sites.\<close>

definition resize :: "bytes \<Rightarrow> nat \<Rightarrow> bytes" where
  "resize content n = take n content @ replicate (n - length content) 0"

definition CreateFilter :: "(nat \<Rightarrow> nat) \<Rightarrow> nat \<Rightarrow> u64 list \<Rightarrow> bytes list \<Rightarrow> bytes \<Rightarrow> bytes res" where
  "CreateFilter filter_bytes hash_k seeds entry_set filter_content =
     CreateFilter_loop hash_k seeds entry_set (resize filter_content (filter_bytes (length entry_set)))"

fun Contains_loop :: "u64 list \<Rightarrow> nat \<Rightarrow> nat \<Rightarrow> bytes \<Rightarrow> bytes \<Rightarrow> bool res" where
  "Contains_loop seeds i 0 key content = Inr True"
| "Contains_loop seeds i (Suc n) key content =
     rbind (rd seeds i) (\<lambda>seed.
     rbind (Murmur2_Hash key seed) (\<lambda>h.
     rbind (byte_pos h content) (\<lambda>pos.
     rbind (rd content pos) (\<lambda>b.
     if b AND bit_mask h = 0 then Inr False else Contains_loop seeds (Suc i) n key content))))"

definition Filter_ContainsKey :: "nat \<Rightarrow> u64 list \<Rightarrow> bytes \<Rightarrow> bytes \<Rightarrow> bool res" where
  "Filter_ContainsKey hash_k seeds key filter_content =
     Contains_loop seeds 0 hash_k key filter_content"

section \<open>Bits only accumulate\<close>

definition has_hash :: "u64 \<Rightarrow> bytes \<Rightarrow> bool" where
  "has_hash h content \<longleftrightarrow> content \<noteq> [] \<and>
     content ! (unat (h div 8) mod length content) AND bit_mask h \<noteq> 0"

definition grows :: "bytes \<Rightarrow> bytes \<Rightarrow> bool" where
  "grows c c' \<longleftrightarrow> length c' = length c \<and> (\<forall>h. has_hash h c \<longrightarrow> has_hash h c')"

lemma grows_refl [simp]: "grows c c"
  by (simp add: grows_def)

lemma grows_trans [trans]: "grows a b \<Longrightarrow> grows b c \<Longrightarrow> grows a c"
  by (simp add: grows_def)

lemma bit_mask_nonzero: "bit_mask h \<noteq> 0"
proof -
  have "unat (h mod 8) < 8" by (simp add: unat_mod_distrib)
  then have "unat (h mod 8) \<in> {0, 1, 2, 3, 4, 5, 6, 7}" by auto
  then show ?thesis by (auto simp: bit_mask_def)
qed

lemma or_and_mono: "a AND m \<noteq> 0 \<Longrightarrow> (a OR b) AND m \<noteq> (0 :: byte)"
  by (metis bit.conj_disj_distrib2 or_eq_0_iff)

lemma set_hash_grows:
  assumes "set_hash h c = Inr c'"
  shows "grows c c' \<and> has_hash h c'"
proof -
  let ?p = "unat (h div 8) mod length c"
  from assms have c: "c \<noteq> []" "?p < length c" "c' = c[?p := c ! ?p OR bit_mask h]"
    by (auto simp: set_hash_def byte_pos_def rd_def res_simps split: if_splits)
  have "(c ! ?p OR bit_mask h) AND bit_mask h \<noteq> 0"
    using bit_mask_nonzero [of h] by (metis and.idem or.commute or_and_mono)
  with c show ?thesis
    by (auto simp: grows_def has_hash_def nth_list_update or_and_mono)
qed

text \<open>All hashes of a key from the \<open>i\<close>-th on are set.\<close>

fun all_set :: "u64 list \<Rightarrow> nat \<Rightarrow> nat \<Rightarrow> bytes \<Rightarrow> bytes \<Rightarrow> bool" where
  "all_set seeds i 0 key c \<longleftrightarrow> True"
| "all_set seeds i (Suc n) key c \<longleftrightarrow>
     (\<exists>seed h. rd seeds i = Inr seed \<and> Murmur2_Hash key seed = Inr h \<and> has_hash h c) \<and>
     all_set seeds (Suc i) n key c"

lemma all_set_grows: "all_set seeds i n key c \<Longrightarrow> grows c c' \<Longrightarrow> all_set seeds i n key c'"
  by (induction n arbitrary: i) (auto simp: grows_def)

lemma set_hashes_sets:
  "set_hashes seeds i n key c = Inr c' \<Longrightarrow> grows c c' \<and> all_set seeds i n key c'"
proof (induction n arbitrary: i c)
  case (Suc n)
  then obtain seed h c1 where 1: "rd seeds i = Inr seed" "Murmur2_Hash key seed = Inr h"
    "set_hash h c = Inr c1" "set_hashes seeds (Suc i) n key c1 = Inr c'"
    by (auto simp: res_simps)
  from Suc.IH [OF 1(4)] set_hash_grows [OF 1(3)] 1(1,2) show ?case
    by (auto simp: grows_def)
qed simp

lemma Contains_all_set: "all_set seeds i n key c \<Longrightarrow> Contains_loop seeds i n key c = Inr True"
proof (induction n arbitrary: i)
  case (Suc n)
  then obtain seed h where 1: "rd seeds i = Inr seed" "Murmur2_Hash key seed = Inr h" "has_hash h c"
    by auto
  with Suc show ?case by (simp add: byte_pos_def has_hash_def rd_def)
qed simp

lemma CreateFilter_loop_sets:
  "CreateFilter_loop k seeds es c = Inr c' \<Longrightarrow>
    grows c c' \<and> (\<forall>e\<in>set es. \<forall>key. EntryKey e = Inr key \<longrightarrow> all_set seeds 0 k key c')"
proof (induction es arbitrary: c)
  case (Cons e es)
  then obtain key c1 where 1: "EntryKey e = Inr key" "set_hashes seeds 0 k key c = Inr c1"
    "CreateFilter_loop k seeds es c1 = Inr c'"
    by (auto simp: res_simps)
  have g: "grows c c1" "all_set seeds 0 k key c1" using set_hashes_sets [OF 1(2)] by auto
  with Cons.IH [OF 1(3)] have "grows c c'" "all_set seeds 0 k key c'"
    using grows_trans all_set_grows by blast+
  with Cons.IH [OF 1(3)] 1(1) show ?case by simp
qed simp

text \<open>Creation cannot fault when the filter has a byte and there are enough seeds.\<close>

lemma set_hashes_total:
  "c \<noteq> [] \<Longrightarrow> i + n \<le> length seeds \<Longrightarrow>
    \<exists>c'. set_hashes seeds i n key c = Inr c' \<and> length c' = length c"
proof (induction n arbitrary: i c)
  case (Suc n)
  obtain h where h: "Murmur2_Hash key (seeds ! i) = Inr h" using Murmur2_total by blast
  let ?p = "unat (h div 8) mod length c"
  have "?p < length c" using Suc.prems(1) by simp
  then have "set_hash h c = Inr (c[?p := c ! ?p OR bit_mask h])"
    using Suc.prems(1) by (simp add: set_hash_def byte_pos_def rd_def)
  then show ?case
    using Suc.IH [of "c[?p := c ! ?p OR bit_mask h]" "Suc i"] Suc.prems h by (simp add: rd_def)
qed simp

lemma CreateFilter_loop_total:
  "c \<noteq> [] \<Longrightarrow> k \<le> length seeds \<Longrightarrow> \<forall>e\<in>set es. is_entry e \<Longrightarrow>
    \<exists>c'. CreateFilter_loop k seeds es c = Inr c' \<and> length c' = length c"
proof (induction es arbitrary: c)
  case (Cons e es)
  then have "is_entry e" by simp
  then obtain key where key: "EntryKey e = Inr key"
    using EntryKey_entry [where rest = "[]"] by (auto elim!: is_entryE)
  obtain c1 where "set_hashes seeds 0 k key c = Inr c1" "length c1 = length c"
    using set_hashes_total [OF Cons.prems(1), of 0 k seeds key] Cons.prems(2) by auto
  moreover from this Cons.prems(1) have "c1 \<noteq> []" by auto
  ultimately show ?case using Cons.IH [of c1] Cons.prems key by simp
qed simp

lemma length_resize [simp]: "length (resize c n) = n"
  by (simp add: resize_def)

lemma Contains_loop_total:
  "c \<noteq> [] \<Longrightarrow> i + n \<le> length seeds \<Longrightarrow> \<exists>b. Contains_loop seeds i n key c = Inr b"
proof (induction n arbitrary: i)
  case (Suc n)
  obtain h where "Murmur2_Hash key (seeds ! i) = Inr h" using Murmur2_total by blast
  moreover obtain b where "Contains_loop seeds (Suc i) n key c = Inr b"
    using Suc.IH [of "Suc i"] Suc.prems by auto
  ultimately show ?case
    using Suc.prems by (cases "c ! (unat (h div 8) mod length c) AND bit_mask h = 0")
      (auto simp: rd_def byte_pos_def)
qed auto

lemma set_hashes_needs:
  "set_hashes seeds i n key c = Inr c' \<Longrightarrow> n = 0 \<or> (c \<noteq> [] \<and> i + n \<le> length seeds)"
proof (induction n arbitrary: i c)
  case (Suc n)
  then obtain seed h c1 where 1: "rd seeds i = Inr seed" "set_hash h c = Inr c1"
    "set_hashes seeds (Suc i) n key c1 = Inr c'"
    by (auto simp: res_simps)
  then have "i < length seeds" "c \<noteq> []"
    by (auto simp: rd_def set_hash_def byte_pos_def split: if_splits)
  with Suc.IH [OF 1(3)] show ?case by auto
qed simp

section \<open>The filter as a policy\<close>

definition entry_key :: "bytes \<Rightarrow> bytes" where
  "entry_key e = fst (ent_of e)"

lemma EntryKey_is_entry: "is_entry e \<Longrightarrow> EntryKey e = Inr (entry_key e)"
  using EntryKey_entry [where rest = "[]"] by (auto elim!: is_entryE simp: entry_key_def)

interpretation bloom: filter_policy
  "\<lambda>es. CreateFilter filter_bytes hash_k seeds es []" "Filter_ContainsKey hash_k seeds"
  is_entry entry_key
proof unfold_locales
  fix es f and k :: bytes
  assume c: "CreateFilter filter_bytes hash_k seeds es [] = Inr f" and ne: "es \<noteq> []"
  then obtain e es' key c1 where 1: "es = e # es'"
    "set_hashes seeds 0 hash_k key (resize [] (filter_bytes (length es))) = Inr c1"
    "CreateFilter_loop hash_k seeds es' c1 = Inr f"
    by (cases es) (auto simp: CreateFilter_def res_simps)
  have "length f = length (resize [] (filter_bytes (length es)))"
    using set_hashes_sets [OF 1(2)] CreateFilter_loop_sets [OF 1(3)] by (simp add: grows_def)
  then have "hash_k = 0 \<or> (f \<noteq> [] \<and> 0 + hash_k \<le> length seeds)"
    using set_hashes_needs [OF 1(2)] by (metis length_0_conv)
  then show "\<exists>b. Filter_ContainsKey hash_k seeds k f = Inr b"
    unfolding Filter_ContainsKey_def
  proof
    assume "hash_k = 0"
    then show "\<exists>b. Contains_loop seeds 0 hash_k k f = Inr b" by auto
  qed (rule Contains_loop_total; simp)
next
  fix es f e
  assume "CreateFilter filter_bytes hash_k seeds es [] = Inr f" "\<forall>e\<in>set es. is_entry e" "e \<in> set es"
  then have "all_set seeds 0 hash_k (entry_key e) f"
    using CreateFilter_loop_sets [of hash_k seeds es _ f] EntryKey_is_entry [of e]
    unfolding CreateFilter_def by blast
  then show "Filter_ContainsKey hash_k seeds (entry_key e) f = Inr True"
    unfolding Filter_ContainsKey_def by (rule Contains_all_set)
qed

lemma filter_built:
  assumes "\<forall>e\<in>set es. is_entry e" "0 < filter_bytes (length es)" "hash_k \<le> length seeds"
  shows "\<exists>f. CreateFilter filter_bytes hash_k seeds es [] = Inr f \<and> length f = filter_bytes (length es)"
proof -
  have "resize [] (filter_bytes (length es)) \<noteq> []"
    using assms(2) length_resize by (metis less_numeral_extra(3) list.size(3))
  from CreateFilter_loop_total [OF this assms(3,1)] show ?thesis
    unfolding CreateFilter_def by auto
qed

section \<open>Properties\<close>

text \<open>C27. For a non-empty set of entries, a filter with at least one byte and enough seeds,
  the filter is built without a fault, has the requested size, and reports every key of
  the set as present: there are no false negatives.\<close>

theorem bloom_no_false_negatives:
  assumes "\<forall>e\<in>set es. is_entry e" "0 < filter_bytes (length es)" "hash_k \<le> length seeds"
  shows "\<exists>f. CreateFilter filter_bytes hash_k seeds es [] = Inr f \<and>
    length f = filter_bytes (length es) \<and>
    list_all (\<lambda>e. Filter_ContainsKey hash_k seeds (entry_key e) f = Inr True) es"
proof -
  obtain f where "CreateFilter filter_bytes hash_k seeds es [] = Inr f" "length f = filter_bytes (length es)"
    using filter_built [where filter_bytes = filter_bytes, OF assms] by blast
  then show ?thesis using bloom.no_false_negative assms(1) by (auto simp: list_all_iff)
qed

theorem bloom_no_false_negatives_witness:
  "\<exists>f. CreateFilter (\<lambda>n. 2 * n) 6 default_seeds [entry_bytes [107] [] 3 kDelete] [] = Inr f \<and> length f = 2 \<and>
    Filter_ContainsKey 6 default_seeds [107] f = Inr True"
proof -
  have e: "is_entry (entry_bytes [107] [] 3 kDelete)"
    "entry_key (entry_bytes [107] [] 3 kDelete) = [107]"
    by (auto simp: fits_def entry_key_def)
  moreover have "6 \<le> length default_seeds" by (simp add: default_seeds_def)
  ultimately show ?thesis
    using bloom_no_false_negatives [of "[entry_bytes [107] [] 3 kDelete]" "\<lambda>n. 2 * n" 6 default_seeds]
    by simp
qed

text \<open>A filter of no bytes, which is what an empty set of entries gives, divides by zero
  as soon as it is queried.\<close>

theorem empty_filter_divides_by_zero:
  assumes "0 < hash_k" "hash_k \<le> length seeds" "filter_bytes 0 = 0"
  shows "CreateFilter filter_bytes hash_k seeds [] [] = Inr [] \<and>
    Filter_ContainsKey hash_k seeds key [] = Inl DivZero"
proof -
  obtain n where n: "hash_k = Suc n" using assms(1) by (cases hash_k) auto
  obtain h where "Murmur2_Hash key (seeds ! 0) = Inr h" using Murmur2_total by blast
  with n assms show ?thesis
    by (cases seeds) (simp_all add: CreateFilter_def resize_def Filter_ContainsKey_def rd_def byte_pos_def)
qed

theorem empty_filter_divides_by_zero_witness:
  "Filter_ContainsKey 6 default_seeds [1] [] = Inl DivZero"
  using empty_filter_divides_by_zero [of 6 default_seeds "\<lambda>n. 2 * n" "[1]"]
  by (simp add: default_seeds_def)

end
