(* ===== verification/SSTFile.thy ===== *)
theory SSTFile
  imports FileIO Format MemAllocator BloomFilter
begin

text \<open>
  Data files: the parts of \<open>src/io/io.cc\<close> that write and read one SST file. A file is its
  data blocks, an index of block offsets, a flexible block (the filter) and a footer of
  24 bytes. \<open>sst_image\<close> is the layout as a function of the entries and the filter; the
  writer produces it and the readers take it apart again.

  Offsets and sizes are 32-bit words as in the code; \<open>SST_fits\<close> is the bound under which
  they do not wrap. The pool of readers is a count of readers at hand.
\<close>

section \<open>Writing\<close>

definition kDefaultWriterBufferSize :: nat where
  "kDefaultWriterBufferSize = 4096"

text \<open>The loop of \<open>WriteSSTData\<close>: subscript, start point, \<open>cur_blk_size\<close>, \<open>cur_offset\<close> and
  \<open>data_blk_offset\<close>; it returns them with the status.\<close>

function data_loop ::
    "bytes list \<Rightarrow> nat \<Rightarrow> nat \<Rightarrow> u32 \<Rightarrow> u32 \<Rightarrow> u32 list \<Rightarrow> writer \<Rightarrow> os \<Rightarrow>
      (Status \<times> nat \<times> u32 \<times> u32 list \<times> writer \<times> os) res" where
  "data_loop entry_set i start_point cur_blk_size cur_offset data_blk_offset w s =
     (if i < length entry_set then
        let sz = length (entry_set ! i) in
        if unat cur_blk_size + sz > kDefaultDataBlkSize then
          rbind (WriteBatch s w entry_set start_point (i + 1)) (\<lambda>(st, w', s').
          let offs = data_blk_offset @ [cur_offset];
              off = cur_offset + (cur_blk_size + of_nat sz)
          in if \<not> StatusNoError st then Inr (st, start_point, off, offs, w', s')
             else data_loop entry_set (i + 1) (i + 1) 0 off offs w' s')
        else data_loop entry_set (i + 1) start_point (cur_blk_size + of_nat sz) cur_offset data_blk_offset w s
      else Inr (NoError, start_point, cur_offset, data_blk_offset, w, s))"
  by pat_completeness auto
termination
  by (relation "measure (\<lambda>(es, i, _). length es - i)") auto

declare data_loop.simps [simp del]

definition WriteSSTData :: "os \<Rightarrow> writer \<Rightarrow> bytes list \<Rightarrow> (Status \<times> u32 list \<times> u32 \<times> writer \<times> os) res" where
  "WriteSSTData s w entry_set =
     rbind (data_loop entry_set 0 0 0 0 [] w s) (\<lambda>(st, start_point, cur_offset, offs, w1, s1).
     if \<not> StatusNoError st then Inr (st, offs, 0, w1, s1)
     else if start_point \<noteq> length entry_set then
       rbind (WriteBatch s1 w1 entry_set start_point (length entry_set)) (\<lambda>(st2, w2, s2).
       Inr (st2, offs @ [cur_offset],
         foldl (\<lambda>off e. off + of_nat (length e)) cur_offset (drop start_point entry_set), w2, s2))
     else Inr (st, offs, cur_offset, w1, s1))"

definition index_bytes :: "u32 list \<Rightarrow> bytes" where
  "index_bytes data_blk_offset =
     le_bytes 4 (of_nat (length data_blk_offset) :: u32) @ concat (map (le_bytes 4) data_blk_offset)"

definition WriteSSTIndex :: "os \<Rightarrow> writer \<Rightarrow> u32 list \<Rightarrow> (Status \<times> writer \<times> os) res" where
  "WriteSSTIndex s w data_blk_offset = WriteFragment s w (index_bytes data_blk_offset)"

definition WriteSSTFlexible :: "os \<Rightarrow> writer \<Rightarrow> bytes \<Rightarrow> (Status \<times> writer \<times> os) res" where
  "WriteSSTFlexible s w flexible_content = WriteFragment s w flexible_content"

definition WriteSSTFileFooter :: "os \<Rightarrow> writer \<Rightarrow> Footer \<Rightarrow> (Status \<times> writer \<times> os) res" where
  "WriteSSTFileFooter s w footer = WriteFragment s w (Footer_bytes footer)"

text \<open>Both versions of \<open>WriteSSTFile\<close>: \<open>create\<close> is \<open>filter->CreateFilter\<close>; the version without
  a filter writes the four bytes \<open>TODO\<close>. \<open>front()\<close> and \<open>back()\<close> of an empty entry set are
  undefined.\<close>

definition WriteSSTFile_filter ::
    "(bytes list \<Rightarrow> bytes res) \<Rightarrow> os \<Rightarrow> string \<Rightarrow> bytes list \<Rightarrow> (Status \<times> os) res" where
  "WriteSSTFile_filter create s fname entry_set =
     (let (d, s0) = DBFile_new s fname kAppend; w0 = Writer_new d kDefaultWriterBufferSize in
      rbind (WriteSSTData s0 w0 entry_set) (\<lambda>(st, offs, data_block_size, w1, s1).
      if \<not> StatusNoError st then Inr (st, s1) else
      let index_block_size = of_nat ((length offs + 1) * 4) in
      rbind (WriteSSTIndex s1 w1 offs) (\<lambda>(st, w2, s2).
      if \<not> StatusNoError st then Inr (st, s2) else
      rbind (create entry_set) (\<lambda>filter_content.
      rbind (WriteSSTFlexible s2 w2 filter_content) (\<lambda>(st, w3, s3).
      if \<not> StatusNoError st then Inr (st, s3) else
      if entry_set = [] then Inl OobRead else
      rbind (WriteSSTFileFooter s3 w3
          \<lparr>min_key_size = of_nat (length (hd entry_set)),
           max_key_offset = data_block_size - of_nat (length (last entry_set)),
           max_key_size = of_nat (length (last entry_set)), data_blk_size = data_block_size,
           index_blk_size = index_block_size, flexible_blk_size = of_nat (length filter_content)\<rparr>)
        (\<lambda>(st, w4, s4). Inr (st, s4)))))))"

definition str_bytes :: "string \<Rightarrow> bytes" where
  "str_bytes = map (\<lambda>c. of_nat (of_char c))"

definition bytes_str :: "bytes \<Rightarrow> string" where
  "bytes_str = map (\<lambda>b. char_of (unat b))"

lemma bytes_str_str_bytes [simp]: "bytes_str (str_bytes x) = x"
proof -
  have "unat (of_nat (of_char c) :: byte) = of_char c" for c :: char
    by (simp add: unat_of_nat take_bit_nat_eq_self)
  then show ?thesis by (simp add: bytes_str_def str_bytes_def comp_def)
qed

definition WriteSSTFile :: "os \<Rightarrow> string \<Rightarrow> bytes list \<Rightarrow> (Status \<times> os) res" where
  "WriteSSTFile = WriteSSTFile_filter (\<lambda>_. Inr (str_bytes ''TODO''))"

text \<open>The overloads on \<open>const char*\<close> entries.\<close>

fun entry_seqs :: "bytes list \<Rightarrow> bytes list res" where
  "entry_seqs [] = Inr []"
| "entry_seqs (e # es) = rbind (EntryData e) (\<lambda>x. rmap ((#) x) (entry_seqs es))"

definition WriteSSTFile_ptrs ::
    "(bytes list \<Rightarrow> bytes res) \<Rightarrow> os \<Rightarrow> string \<Rightarrow> bytes list \<Rightarrow> (Status \<times> os) res" where
  "WriteSSTFile_ptrs create s fname entry_set =
     rbind (entry_seqs entry_set) (WriteSSTFile_filter create s fname)"

definition WriteSSTFile_ptrs_plain :: "os \<Rightarrow> string \<Rightarrow> bytes list \<Rightarrow> (Status \<times> os) res" where
  "WriteSSTFile_ptrs_plain s fname entry_set = rbind (entry_seqs entry_set) (WriteSSTFile s fname)"

definition WriteBatch_ptrs :: "os \<Rightarrow> writer \<Rightarrow> bytes list \<Rightarrow> (Status \<times> writer \<times> os) res" where
  "WriteBatch_ptrs s w entries = rbind (entry_seqs entries) (WriteBatch_all s w)"

section \<open>Reading\<close>

text \<open>Each reader takes a \<open>SequentialReader\<close> from the pool and puts it back;
  \<open>readers_.back()\<close> of an empty pool is undefined.\<close>

definition with_reader :: "nat \<Rightarrow> 'a res \<Rightarrow> 'a res" where
  "with_reader readers m = (if readers = 0 then Inl OobRead else m)"

definition ReadSSTFooter :: "nat \<Rightarrow> os \<Rightarrow> string \<Rightarrow> (Status \<times> Footer option \<times> os) res" where
  "ReadSSTFooter readers s f =
     with_reader readers
      (let sz = FlieSize s f; (st, bs, s1) = Reader_Read s f kSSTFooterSize (sz - int kSSTFooterSize) in
       if StatusNoError st then rmap (\<lambda>footer. (st, Some footer, s1)) (Footer_of bs)
       else Inr (st, None, s1))"

definition ReadSSTFooter_keys ::
    "nat \<Rightarrow> os \<Rightarrow> string \<Rightarrow> (Status \<times> Footer option \<times> bytes \<times> bytes \<times> os) res" where
  "ReadSSTFooter_keys readers s f =
     with_reader readers
      (let sz = FlieSize s f; (st, bs, s1) = Reader_Read s f kSSTFooterSize (sz - int kSSTFooterSize) in
       if \<not> StatusNoError st then Inr (st, None, [], [], s1)
       else rbind (Footer_of bs) (\<lambda>footer.
         let (st2, min_key, s2) = Reader_Read s1 f (unat (min_key_size footer)) 0 in
         if \<not> StatusNoError st2 then Inr (st2, Some footer, min_key, [], s2)
         else
           let (st3, max_key, s3) =
             Reader_Read s2 f (unat (max_key_size footer)) (int (unat (max_key_offset footer)))
           in Inr (st3, Some footer, min_key, max_key, s3)))"

fun ReadSSTFooter_group ::
    "nat \<Rightarrow> os \<Rightarrow> string list \<Rightarrow> (Status \<times> (Footer option \<times> bytes \<times> bytes) list \<times> os) res" where
  "ReadSSTFooter_group readers s [] = Inr (NoError, [], s)"
| "ReadSSTFooter_group readers s (f # fs) =
     rbind (ReadSSTFooter_keys readers s f) (\<lambda>(st, footer, min_key, max_key, s1).
     if \<not> StatusNoError st then Inr (st, [], s1)
     else rmap (\<lambda>(st', rest, s2). (st', (footer, min_key, max_key) # rest, s2))
       (ReadSSTFooter_group readers s1 fs))"

definition ReadSSTBoundary :: "nat \<Rightarrow> os \<Rightarrow> string \<Rightarrow> (Status \<times> (bytes \<times> bytes) \<times> os) res" where
  "ReadSSTBoundary readers s f =
     rmap (\<lambda>(st, footer, min_key, max_key, s1). (st, (min_key, max_key), s1))
       (ReadSSTFooter_keys readers s f)"

fun ReadSSTGroupBoundary ::
    "nat \<Rightarrow> os \<Rightarrow> string list \<Rightarrow> (Status \<times> (bytes \<times> bytes) list \<times> os) res" where
  "ReadSSTGroupBoundary readers s [] = Inr (NoError, [], s)"
| "ReadSSTGroupBoundary readers s (f # fs) =
     rbind (ReadSSTFooter_keys readers s f) (\<lambda>(st, footer, min_key, max_key, s1).
     if \<not> StatusNoError st then Inr (st, [], s1)
     else rmap (\<lambda>(st', rest, s2). (st', (min_key, max_key) # rest, s2))
       (ReadSSTGroupBoundary readers s1 fs))"

definition ReadSSTFlexible :: "nat \<Rightarrow> os \<Rightarrow> string \<Rightarrow> Footer \<Rightarrow> (Status \<times> bytes \<times> os) res" where
  "ReadSSTFlexible readers s f footer =
     with_reader readers
      (Inr (Reader_Read s f (unat (flexible_blk_size footer))
        (int (unat (data_blk_size footer + index_blk_size footer)))))"

fun read_offsets :: "nat \<Rightarrow> bytes \<Rightarrow> nat \<Rightarrow> u32 list res" where
  "read_offsets 0 bs pos = Inr []"
| "read_offsets (Suc n) bs pos =
     rbind (rd_u32 bs pos) (\<lambda>w. rmap ((#) w) (read_offsets n bs (pos + 4)))"

definition ReadSSTIndex :: "nat \<Rightarrow> os \<Rightarrow> string \<Rightarrow> Footer \<Rightarrow> (Status \<times> u32 list \<times> os) res" where
  "ReadSSTIndex readers s f footer =
     with_reader readers
      (let (st, bs, s1) =
         Reader_Read s f (unat (index_blk_size footer)) (int (unat (data_blk_size footer)))
       in if \<not> StatusNoError st then Inr (st, [], s1)
          else rbind (rd_u32 bs 0) (\<lambda>data_blk_count.
            rmap (\<lambda>offs. (st, offs, s1)) (read_offsets (unat data_blk_count) bs 4)))"

text \<open>\<open>ReadSSTDataBlock\<close>: \<open>is_merge\<close> tells whether the allocator is a \<open>MergeAllocator\<close>, whose
  \<open>Reallocate\<close> works; the base class returns a null pointer, and that early return does not
  put the reader back. The result carries the entries appended to \<open>entry_set\<close>, the
  allocator and the number of readers.\<close>

definition ReadSSTDataBlock ::
    "bool \<Rightarrow> nat \<Rightarrow> os \<Rightarrow> string \<Rightarrow> allocator \<Rightarrow> bytes list \<Rightarrow> nat \<Rightarrow> int \<Rightarrow> int \<Rightarrow>
      (Status \<times> bytes list \<times> allocator \<times> nat \<times> os) res" where
  "ReadSSTDataBlock is_merge readers s f ma entry_set block_size block_offset reuse_block_id =
     with_reader readers
      (let (st, data_content, s1) = Reader_Read s f block_size block_offset in
       if \<not> StatusNoError st then Inr (st, entry_set, ma, readers, s1)
       else if reuse_block_id = - 1 then
         let (_, ma1) = Allocate ma (length data_content) in
         rbind (split_frames EntryData data_content) (\<lambda>es.
         let entry_set' = entry_set @ es in
         Inr (st, entry_set', RefLast ma1 (int (length entry_set') - 1), readers, s1))
       else if is_merge then
         rbind (Merge_Reallocate ma (length data_content) (nat reuse_block_id)) (\<lambda>(_, ma1).
         rbind (split_frames EntryData data_content) (\<lambda>es.
         let entry_set' = entry_set @ es in
         rmap (\<lambda>ma2. (st, entry_set', ma2, readers, s1))
           (RefBlock ma1 (int (length entry_set') - 1) (nat reuse_block_id))))
       else Inr (FileIOError ''Memory in MemAllocator/MergeAllocator not allocated.'',
         entry_set, ma, readers - 1, s1))"

definition ReadSSTDataAll ::
    "nat \<Rightarrow> os \<Rightarrow> string \<Rightarrow> allocator \<Rightarrow> bytes list \<Rightarrow> nat \<Rightarrow> int \<Rightarrow>
      (Status \<times> bytes list \<times> allocator \<times> os) res" where
  "ReadSSTDataAll readers s f ma entry_set n offset =
     with_reader readers
      (let (st, data_content, s1) = Reader_Read s f n offset in
       if \<not> StatusNoError st then Inr (st, entry_set, ma, s1)
       else
         let (_, ma1) = Allocate ma (length data_content) in
         rbind (split_frames EntryData data_content) (\<lambda>es.
         let entry_set' = entry_set @ es in
         Inr (st, entry_set', RefLast ma1 (int (length entry_set') - 1), s1)))"

end
