(* ===== verification/SSTProofs.thy ===== *)
theory SSTProofs
  imports SSTFile
begin

text \<open>
  The layout of a data file as a function of its entries, that the writer produces it, and
  that the readers recover every part of it.
\<close>

section \<open>The layout\<close>

definition total_size :: "bytes list \<Rightarrow> nat" where
  "total_size es = length (concat es)"

lemma total_size_simps [simp]:
  "total_size [] = 0" "total_size (e # es) = length e + total_size es" "total_size (xs @ ys) = total_size xs + total_size ys"
  by (simp_all add: total_size_def)

text \<open>A block is closed by the entry that takes it above \<open>kDefaultDataBlkSize\<close>.\<close>

fun cut_blocks :: "bytes list \<Rightarrow> bytes list \<Rightarrow> bytes list list" where
  "cut_blocks acc [] = (if acc = [] then [] else [acc])"
| "cut_blocks acc (e # es) =
     (if total_size acc + length e > kDefaultDataBlkSize then (acc @ [e]) # cut_blocks [] es
      else cut_blocks (acc @ [e]) es)"

definition blocks :: "bytes list \<Rightarrow> bytes list list" where
  "blocks = cut_blocks []"

fun block_starts :: "nat \<Rightarrow> bytes list list \<Rightarrow> nat list" where
  "block_starts off [] = []"
| "block_starts off (b # bs) = off # block_starts (off + total_size b) bs"

definition sst_offsets :: "bytes list \<Rightarrow> u32 list" where
  "sst_offsets es = map of_nat (block_starts 0 (blocks es))"

definition sst_footer :: "bytes list \<Rightarrow> bytes \<Rightarrow> Footer" where
  "sst_footer es flex =
     \<lparr>min_key_size = of_nat (length (hd es)), max_key_offset = of_nat (total_size es - length (last es)),
      max_key_size = of_nat (length (last es)), data_blk_size = of_nat (total_size es),
      index_blk_size = of_nat ((length (blocks es) + 1) * 4), flexible_blk_size = of_nat (length flex)\<rparr>"

definition sst_image :: "bytes list \<Rightarrow> bytes \<Rightarrow> bytes" where
  "sst_image es flex =
     concat es @ index_bytes (sst_offsets es) @ flex @ Footer_bytes (sst_footer es flex)"

definition SST_fits :: "bytes list \<Rightarrow> bytes \<Rightarrow> bool" where
  "SST_fits es flex \<longleftrightarrow> total_size es + (length (blocks es) + 1) * 4 + length flex < 2 ^ 32"

lemma length_block_starts [simp]: "length (block_starts off bs) = length bs"
  by (induction bs arbitrary: off) auto

lemma concat_cut: "concat (cut_blocks acc es) = acc @ es"
  by (induction es arbitrary: acc) auto

lemma concat_blocks: "concat (blocks es) = es"
  by (simp add: blocks_def concat_cut)

lemma block_starts_append:
  "block_starts off (xs @ ys) = block_starts off xs @ block_starts (off + total_size (concat xs)) ys"
  by (induction xs arbitrary: off) (auto simp: add.assoc)

section \<open>Writing the data blocks\<close>

lemma transfers_refl: "length (buffer w) \<le> kMaxBufferSize w \<Longrightarrow> transfers f s w NoError s w []"
  by (simp add: transfers_def)

lemma data_loop_writes:
  assumes "es = pre @ acc @ rest" "total_size es < 2 ^ 32"
    and "dbfile w = Some d" "buffer w = []" "0 < kMaxBufferSize w"
  shows "\<exists>st sp off' offs' w' s'.
    data_loop es (length pre + length acc) (length pre) (of_nat (total_size acc)) (of_nat (total_size pre)) offs w s
      = Inr (st, sp, off', offs', w', s') \<and>
    (\<exists>data. transfers (file_name d) s w st s' w' data \<and>
      (StatusNoError st \<longrightarrow> buffer w' = [] \<and> (\<exists>bs acc'. acc @ rest = concat bs @ acc' \<and>
        cut_blocks acc rest = bs @ cut_blocks acc' [] \<and> data = concat (concat bs) \<and> sp = length pre + length (concat bs) \<and>
        off' = of_nat (total_size pre + total_size (concat bs)) \<and>
        offs' = offs @ map of_nat (block_starts (total_size pre) bs))))"
  using assms
proof (induction rest arbitrary: pre acc offs w s)
  case Nil
  have "data_loop es (length pre + length acc) (length pre) (of_nat (total_size acc))
      (of_nat (total_size pre)) offs w s = Inr (NoError, length pre, of_nat (total_size pre), offs, w, s)"
    by (subst data_loop.simps) (simp add: Nil.prems(1))
  moreover have "transfers (file_name d) s w NoError s w []"
    using Nil.prems(4) by (simp add: transfers_refl)
  moreover have "acc @ [] = concat [] @ acc \<and> cut_blocks acc [] = [] @ cut_blocks acc []" by simp
  ultimately show ?case
    using Nil.prems(4) by (intro exI conjI impI; (assumption | force))
next
  case (Cons e rest)
  let ?i = "length pre + length acc"
  have i: "?i < length es" "es ! ?i = e"
    using Cons.prems(1) by (auto simp: nth_append)
  have t: "total_size acc + length e < 2 ^ 32" "total_size pre + total_size acc + length e < 2 ^ 32"
    using Cons.prems(1,2) by simp_all
  then have u: "unat (of_nat (total_size acc) :: u32) = total_size acc"
    by (intro unat_of_nat_u32) simp
  show ?case
  proof (cases "total_size acc + length e > kDefaultDataBlkSize")
    case True
    let ?b = "acc @ [e]"
    have slice: "take (?i + 1 - length pre) (drop (length pre) es) = ?b"
      using Cons.prems(1) by simp
    have buf: "length (buffer w) \<le> kMaxBufferSize w" using Cons.prems(4) by simp
    have to: "?i + 1 \<le> length es" using i by simp
    obtain st w1 s1 where wb: "WriteBatch s w es (length pre) (?i + 1) = Inr (st, w1, s1)"
      "transfers (file_name d) s w st s1 w1 (concat ?b)" "StatusNoError st \<longrightarrow> buffer w1 = []"
      using WriteBatch_transfers [OF Cons.prems(3) buf Cons.prems(5) to, of s "length pre"]
      unfolding slice by blast
    show ?thesis
    proof (cases "StatusNoError st")
      case False
      then show ?thesis
        using wb True i u by (auto simp: data_loop.simps [of es ?i] Let_def)
    next
      case ok: True
      have off: "of_nat (total_size pre) + (of_nat (total_size acc) + of_nat (length e)) =
          (of_nat (total_size (pre @ ?b)) :: u32)" by (simp add: add.assoc)
      have pos: "length (pre @ ?b) + length ([] :: bytes list) = ?i + 1" "length (pre @ ?b) = ?i + 1"
        by simp_all
      have "es = (pre @ ?b) @ [] @ rest" using Cons.prems(1) by simp
      note IH = Cons.IH [OF this Cons.prems(2), of w1]
      have "dbfile w1 = Some d" "buffer w1 = []" "0 < kMaxBufferSize w1"
        using transfers_buffer [OF wb(2) Cons.prems(3)] wb(3) ok Cons.prems(5) by simp_all
      from IH [OF this, of "offs @ [of_nat (total_size pre)]" s1] obtain st' sp off' offs' w' s' data where r:
        "data_loop es (?i + 1) (?i + 1) 0 (of_nat (total_size (pre @ ?b))) (offs @ [of_nat (total_size pre)]) w1 s1
          = Inr (st', sp, off', offs', w', s')"
        "transfers (file_name d) s1 w1 st' s' w' data"
        "StatusNoError st' \<longrightarrow> buffer w' = [] \<and> (\<exists>bs acc'. [] @ rest = concat bs @ acc' \<and>
          cut_blocks [] rest = bs @ cut_blocks acc' [] \<and> data = concat (concat bs) \<and>
          sp = length (pre @ ?b) + length (concat bs) \<and>
          off' = of_nat (total_size (pre @ ?b) + total_size (concat bs)) \<and>
          offs' = (offs @ [of_nat (total_size pre)]) @ map of_nat (block_starts (total_size (pre @ ?b)) bs))"
        unfolding pos total_size_simps(1) list.size(3) add_0_right
        unfolding semiring_1_class.of_nat_0 by blast
      have step: "data_loop es ?i (length pre) (of_nat (total_size acc)) (of_nat (total_size pre)) offs w s
          = Inr (st', sp, off', offs', w', s')"
        by (subst data_loop.simps)
          (simp only: i if_True Let_def u True wb(1) rbind.simps prod.case ok not_True_eq_False
            if_False off r(1))
      have tr: "transfers (file_name d) s w st' s' w' (concat ?b @ data)"
        using transfers_trans [OF wb(2) ok r(2)] .
      have "\<exists>bs acc'. acc @ e # rest = concat bs @ acc' \<and> cut_blocks acc (e # rest) = bs @ cut_blocks acc' [] \<and>
          concat ?b @ data = concat (concat bs) \<and> sp = length pre + length (concat bs) \<and>
          off' = of_nat (total_size pre + total_size (concat bs)) \<and>
          offs' = offs @ map of_nat (block_starts (total_size pre) bs)" if ok': "StatusNoError st'"
      proof -
        obtain bs acc' where b: "[] @ rest = concat bs @ acc'" "cut_blocks [] rest = bs @ cut_blocks acc' []"
          "data = concat (concat bs)" "sp = length (pre @ ?b) + length (concat bs)"
          "off' = of_nat (total_size (pre @ ?b) + total_size (concat bs))"
          "offs' = (offs @ [of_nat (total_size pre)]) @ map of_nat (block_starts (total_size (pre @ ?b)) bs)"
          using r(3) ok' by blast
        then show ?thesis
          using True by (intro exI [of _ "?b # bs"] exI [of _ acc']) (auto simp: add.assoc)
      qed
      with step tr r(3) show ?thesis by blast
    qed
  next
    case False
    have "es = pre @ (acc @ [e]) @ rest" using Cons.prems(1) by simp
    note IH = Cons.IH [OF this Cons.prems(2-5), of offs s]
    have "data_loop es ?i (length pre) (of_nat (total_size acc)) (of_nat (total_size pre)) offs w s =
        data_loop es (length pre + length (acc @ [e])) (length pre) (of_nat (total_size (acc @ [e])))
          (of_nat (total_size pre)) offs w s"
      using False i u by (simp add: data_loop.simps [of es ?i] Let_def)
    then show ?thesis using IH False by simp
  qed
qed

lemma foldl_sizes:
  "foldl (\<lambda>off e. off + of_nat (length e)) (of_nat n :: u32) es = of_nat (n + total_size es)"
proof (induction es arbitrary: n)
  case (Cons e es)
  then show ?case using Cons.IH [of "n + length e"] by (simp add: add.assoc)
qed simp

lemma WriteSSTData_writes:
  assumes "total_size es < 2 ^ 32" "dbfile w = Some d" "buffer w = []" "0 < kMaxBufferSize w"
  shows "\<exists>st offs sz w' s'. WriteSSTData s w es = Inr (st, offs, sz, w', s') \<and>
    transfers (file_name d) s w st s' w' (concat es) \<and>
    (StatusNoError st \<longrightarrow> buffer w' = [] \<and> offs = sst_offsets es \<and> sz = of_nat (total_size es))"
proof -
  have nil: "es = [] @ [] @ es" by simp
  obtain st sp off offs w1 s1 data where l:
    "data_loop es 0 0 0 0 [] w s = Inr (st, sp, off, offs, w1, s1)"
    "transfers (file_name d) s w st s1 w1 data"
    "StatusNoError st \<longrightarrow> buffer w1 = [] \<and> (\<exists>bs acc. es = concat bs @ acc \<and> cut_blocks [] es = bs @ cut_blocks acc [] \<and>
      data = concat (concat bs) \<and> sp = length (concat bs) \<and> off = of_nat (total_size (concat bs)) \<and>
      offs = map of_nat (block_starts 0 bs))"
    using data_loop_writes [of es "[]" "[]" es w d "[]" s, OF nil assms]
    unfolding list.size(3) total_size_simps(1) append_Nil add_0
    unfolding semiring_1_class.of_nat_0 by blast
  show ?thesis
  proof (cases "StatusNoError st")
    case False
    then show ?thesis using l(1) transfers_error [OF l(2)] by (simp add: WriteSSTData_def)
  next
    case ok: True
    then obtain bs acc where b: "es = concat bs @ acc" "cut_blocks [] es = bs @ cut_blocks acc []"
      "data = concat (concat bs)" "sp = length (concat bs)" "off = of_nat (total_size (concat bs))"
      "offs = map of_nat (block_starts 0 bs)" and buf: "buffer w1 = []"
      using l(3) by blast
    show ?thesis
    proof (cases "acc = []")
      case True
      then have "offs = sst_offsets es" "sz = of_nat (total_size es) \<longleftrightarrow> sz = off" for sz
        using b by (simp_all add: sst_offsets_def blocks_def)
      moreover have "data = concat es" "sp = length es" using b True by simp_all
      ultimately show ?thesis using l(1,2) ok buf by (simp add: WriteSSTData_def)
    next
      case False
      have sp: "sp \<noteq> length es" "drop sp es = acc"
        using False by (simp add: b(4), subst b(1), simp) (subst b(1), simp add: b(4))
      note tb = transfers_buffer [OF l(2) assms(2)]
      have d1: "dbfile w1 = Some d" "length (buffer w1) \<le> kMaxBufferSize w1" "0 < kMaxBufferSize w1"
        using tb assms(4) by simp_all
      from WriteBatch_transfers [OF d1 order_refl, of s1 es sp]
      obtain st2 w2 s2 where wb: "WriteBatch s1 w1 es sp (length es) = Inr (st2, w2, s2)"
        "transfers (file_name d) s1 w1 st2 s2 w2 (concat acc)" "StatusNoError st2 \<longrightarrow> buffer w2 = []"
        using sp(2) by auto
      have tr: "transfers (file_name d) s w st2 s2 w2 (concat es)"
        using transfers_trans [OF l(2) ok wb(2)] unfolding b(3) by (subst b(1)) simp
      have size_es: "total_size es = total_size (concat bs) + total_size acc" by (subst b(1)) simp
      have offs: "offs @ [off] = sst_offsets es"
        using False b by (simp add: sst_offsets_def blocks_def block_starts_append)
      have sz: "foldl (\<lambda>off e. off + of_nat (length e)) off (drop sp es) = of_nat (total_size es)"
        unfolding sp(2) b(5) foldl_sizes size_es ..
      show ?thesis
        using l(1) ok sp(1) wb(1,3) tr offs sz by (simp add: WriteSSTData_def)
    qed
  qed
qed

section \<open>Writing a file\<close>

lemma DBFile_new_append:
  assumes "DBFile_new s f kAppend = (d, s')"
  shows "file_name d = f" "content s' f = content s f" "g \<noteq> f \<Longrightarrow> files s' g = files s g"
    "read_results s' = read_results s" "open_results s = [] \<Longrightarrow> open_results s' = []"
proof -
  obtain ok s1 where o: "os_open s f kAppend = (ok, s1)" by fastforce
  then have "d = \<lparr>file_name = f, file_mode = kAppend, is_open = ok\<rparr>" "s' = s1"
    using assms by (auto simp: DBFile_new_def DBFile_Open_def)
  then show "file_name d = f" "content s' f = content s f" "g \<noteq> f \<Longrightarrow> files s' g = files s g"
    "read_results s' = read_results s" "open_results s = [] \<Longrightarrow> open_results s' = []"
    using os_open_append_files [OF o] by simp_all
qed

lemma WriteSSTFile_writes:
  assumes "create es = Inr flex" "es \<noteq> []" "SST_fits es flex"
  shows "\<exists>st s'. WriteSSTFile_filter create s f es = Inr (st, s') \<and>
    (StatusNoError st \<longrightarrow> content s' f = content s f @ sst_image es flex) \<and>
    (open_results s = [] \<longrightarrow> StatusNoError st \<and> open_results s' = []) \<and>
    (\<forall>g. g \<noteq> f \<longrightarrow> files s' g = files s g) \<and> read_results s' = read_results s"
proof -
  obtain d s0 where d: "DBFile_new s f kAppend = (d, s0)" by fastforce
  note d0 = DBFile_new_append [OF d]
  let ?w0 = "Writer_new d kDefaultWriterBufferSize"
  have w0: "dbfile ?w0 = Some d" "buffer ?w0 = []" "0 < kMaxBufferSize ?w0"
    "kMaxBufferSize ?w0 = kDefaultWriterBufferSize"
    by (simp_all add: Writer_new_def kDefaultWriterBufferSize_def)
  have size: "total_size es < 2 ^ 32" using assms(3) by (simp add: SST_fits_def)
  have result: ?thesis if "WriteSSTFile_filter create s f es = Inr (st, s')"
    "transfers f s0 ?w0 st s' w' (sst_image es flex)" "StatusNoError st \<longrightarrow> buffer w' = []" for st s' w'
    using that d0 w0 by (auto simp: transfers_def)
  obtain st1 offs sz w1 s1 where 1: "WriteSSTData s0 ?w0 es = Inr (st1, offs, sz, w1, s1)"
    "transfers f s0 ?w0 st1 s1 w1 (concat es)"
    "StatusNoError st1 \<longrightarrow> buffer w1 = [] \<and> offs = sst_offsets es \<and> sz = of_nat (total_size es)"
    using WriteSSTData_writes [OF size w0(1-3), of s0] d0(1) by auto
  show ?thesis
  proof (cases "StatusNoError st1")
    case False
    then show ?thesis
      using 1(1) d transfers_error [OF 1(2) False] by (intro result [of st1 s1 w1]) (simp_all add: WriteSSTFile_filter_def)
  next
    case ok1: True
    then have o: "offs = sst_offsets es" "sz = of_nat (total_size es)" "buffer w1 = []" using 1(3) by simp_all
    have w1: "dbfile w1 = Some d" "0 < kMaxBufferSize w1"
      using transfers_buffer [OF 1(2) w0(1)] w0(3) by simp_all
    obtain st2 w2 s2 where 2: "WriteSSTIndex s1 w1 offs = Inr (st2, w2, s2)"
      "transfers f s1 w1 st2 s2 w2 (index_bytes offs)" "StatusNoError st2 \<longrightarrow> buffer w2 = []"
      using WriteFragment_transfers [OF w1 o(3), of s1 "index_bytes offs"] d0(1) by (auto simp: WriteSSTIndex_def)
    note t2 = transfers_trans [OF 1(2) ok1 2(2)]
    show ?thesis
    proof (cases "StatusNoError st2")
      case False
      then show ?thesis
        using 1(1) 2(1) ok1 d transfers_error [OF t2 False] by (intro result [of st2 s2 w2]) (simp_all add: WriteSSTFile_filter_def)
    next
      case ok2: True
      have w2: "dbfile w2 = Some d" "0 < kMaxBufferSize w2" "buffer w2 = []"
        using transfers_buffer [OF 2(2) w1(1)] w1(2) 2(3) ok2 by simp_all
      obtain st3 w3 s3 where 3: "WriteSSTFlexible s2 w2 flex = Inr (st3, w3, s3)"
        "transfers f s2 w2 st3 s3 w3 flex" "StatusNoError st3 \<longrightarrow> buffer w3 = []"
        using WriteFragment_transfers [OF w2, of s2 flex] d0(1) by (auto simp: WriteSSTFlexible_def)
      note t3 = transfers_trans [OF t2 ok2 3(2)]
      show ?thesis
      proof (cases "StatusNoError st3")
        case False
        then show ?thesis
          using 1(1) 2(1) 3(1) ok1 ok2 d assms(1) transfers_error [OF t3 False]
          by (intro result [of st3 s3 w3]) (simp_all add: WriteSSTFile_filter_def)
      next
        case ok3: True
        have w3: "dbfile w3 = Some d" "0 < kMaxBufferSize w3" "buffer w3 = []"
          using transfers_buffer [OF 3(2) w2(1)] w2(2) 3(3) ok3 by simp_all
        obtain st4 w4 s4 where 4: "WriteSSTFileFooter s3 w3 (sst_footer es flex) = Inr (st4, w4, s4)"
          "transfers f s3 w3 st4 s4 w4 (Footer_bytes (sst_footer es flex))" "StatusNoError st4 \<longrightarrow> buffer w4 = []"
          using WriteFragment_transfers [OF w3, of s3 "Footer_bytes (sst_footer es flex)"] d0(1)
          by (auto simp: WriteSSTFileFooter_def)
        have "length (last es) \<le> total_size es"
          using assms(2) by (induction es) auto
        then have "sst_footer es flex =
          \<lparr>min_key_size = of_nat (length (hd es)), max_key_offset = sz - of_nat (length (last es)),
           max_key_size = of_nat (length (last es)), data_blk_size = sz,
           index_blk_size = of_nat ((length offs + 1) * 4), flexible_blk_size = of_nat (length flex)\<rparr>"
          by (simp add: sst_footer_def o of_nat_diff sst_offsets_def)
        with 4(1) have "WriteSSTFile_filter create s f es = Inr (st4, s4)"
          using 1(1) 2(1) 3(1) ok1 ok2 ok3 d assms(1,2) by (simp add: WriteSSTFile_filter_def)
        moreover have "transfers f s0 ?w0 st4 s4 w4 (sst_image es flex)"
          using transfers_trans [OF t3 ok3 4(2)] by (simp add: sst_image_def o(1))
        ultimately show ?thesis using 4(3) by (rule result)
      qed
    qed
  qed
qed

section \<open>Reading a file\<close>

definition quiet :: "os \<Rightarrow> bool" where
  "quiet s \<longleftrightarrow> open_results s = [] \<and> read_results s = []"

text \<open>When the system calls succeed, a read inside the file is its slice.\<close>

lemma Reader_Read_quiet:
  assumes "quiet s" "files s f = Some c" "0 \<le> off" "nat off + n \<le> length c"
  shows "Reader_Read s f n off = (NoError, take n (drop (nat off) c), s)"
proof -
  have "s\<lparr>open_results := tl (open_results s)\<rparr> = s" "s\<lparr>open_results := []\<rparr> = s"
    using assms(1) by (simp_all add: quiet_def)
  then have "DBFile_new s f kReadOnly = (\<lparr>file_name = f, file_mode = kReadOnly, is_open = True\<rparr>, s)"
    using assms(1,2) by (simp add: DBFile_new_def DBFile_Open_def os_open_def quiet_def)
  then show ?thesis
    using assms by (auto simp: Reader_Read_def IsCorrectlyOpened_def InternalRead_def os_read_def
        content_def quiet_def min_def)
qed

lemma length_index_bytes [simp]: "length (index_bytes offs) = (length offs + 1) * 4"
proof -
  have "length (concat (map (le_bytes 4) offs)) = 4 * length offs"
    by (induction offs) auto
  then show ?thesis by (simp add: index_bytes_def)
qed

lemma length_sst_offsets [simp]: "length (sst_offsets es) = length (blocks es)"
  by (simp add: sst_offsets_def)

lemma length_sst_image:
  "length (sst_image es flex) = total_size es + (length (blocks es) + 1) * 4 + length flex + 24"
  by (simp add: sst_image_def total_size_def kSSTFooterSize_def)

lemma footer_unat:
  assumes "SST_fits es flex" "es \<noteq> []"
  shows "unat (min_key_size (sst_footer es flex)) = length (hd es)"
    "unat (max_key_offset (sst_footer es flex)) = total_size es - length (last es)"
    "unat (max_key_size (sst_footer es flex)) = length (last es)"
    "unat (data_blk_size (sst_footer es flex)) = total_size es"
    "unat (index_blk_size (sst_footer es flex)) = (length (blocks es) + 1) * 4"
    "unat (flexible_blk_size (sst_footer es flex)) = length flex"
    "unat (data_blk_size (sst_footer es flex) + index_blk_size (sst_footer es flex)) =
      total_size es + (length (blocks es) + 1) * 4"
proof -
  have "length (hd es) \<le> total_size es" "length (last es) \<le> total_size es"
    using assms(2) by (induction es) auto
  then have b: "length (hd es) < 2 ^ 32" "total_size es - length (last es) < 2 ^ 32"
    "length (last es) < 2 ^ 32" "total_size es < 2 ^ 32" "(length (blocks es) + 1) * 4 < 2 ^ 32"
    "length flex < 2 ^ 32" "total_size es + (length (blocks es) + 1) * 4 < 2 ^ 32"
    using assms(1) by (simp_all add: SST_fits_def)
  show "unat (min_key_size (sst_footer es flex)) = length (hd es)"
    "unat (max_key_offset (sst_footer es flex)) = total_size es - length (last es)"
    "unat (max_key_size (sst_footer es flex)) = length (last es)"
    "unat (data_blk_size (sst_footer es flex)) = total_size es"
    "unat (index_blk_size (sst_footer es flex)) = (length (blocks es) + 1) * 4"
    "unat (flexible_blk_size (sst_footer es flex)) = length flex"
    unfolding sst_footer_def Footer.simps using b by (auto intro!: unat_of_nat_u32 simp del: of_nat_mult of_nat_add)
  have "data_blk_size (sst_footer es flex) + index_blk_size (sst_footer es flex) =
      of_nat (total_size es + (length (blocks es) + 1) * 4)"
    by (simp add: sst_footer_def)
  then show "unat (data_blk_size (sst_footer es flex) + index_blk_size (sst_footer es flex)) =
      total_size es + (length (blocks es) + 1) * 4"
    using b(7) unat_of_nat_u32 by (simp only:)
qed

text \<open>The parts of the image.\<close>

lemma slice_append: "length a = n \<Longrightarrow> length b = m \<Longrightarrow> take m (drop n (a @ b @ c)) = b"
  by simp

lemma image_data: "take (total_size es) (sst_image es flex) = concat es"
  by (simp add: sst_image_def total_size_def)

lemma image_index:
  "take ((length (blocks es) + 1) * 4) (drop (total_size es) (sst_image es flex)) =
    index_bytes (sst_offsets es)"
  unfolding sst_image_def by (rule slice_append) (simp_all add: total_size_def)

lemma image_flex:
  "take (length flex) (drop (total_size es + (length (blocks es) + 1) * 4) (sst_image es flex)) = flex"
proof -
  have "sst_image es flex = (concat es @ index_bytes (sst_offsets es)) @ flex @ Footer_bytes (sst_footer es flex)"
    by (simp add: sst_image_def)
  then show ?thesis by (simp only:) (rule slice_append; simp add: total_size_def)
qed

lemma image_footer:
  "take 24 (drop (length (sst_image es flex) - 24) (sst_image es flex)) = Footer_bytes (sst_footer es flex)"
proof -
  have "sst_image es flex = (concat es @ index_bytes (sst_offsets es) @ flex) @ Footer_bytes (sst_footer es flex) @ []"
    by (simp add: sst_image_def)
  then show ?thesis by (simp only:) (rule slice_append; simp add: kSSTFooterSize_def)
qed

lemma image_slice:
  assumes "es = pre @ mid @ post"
  shows "take (total_size mid) (drop (total_size pre) (sst_image es flex)) = concat mid"
proof -
  have "sst_image es flex = concat pre @ concat mid @ (concat post @ index_bytes (sst_offsets es) @ flex @ Footer_bytes (sst_footer es flex))"
    using assms by (simp add: sst_image_def)
  then show ?thesis by (simp only:) (rule slice_append; simp add: total_size_def)
qed

lemma read_offsets_index:
  "read_offsets (length ws) (pre @ concat (map (le_bytes 4) ws) @ post) (length pre) = Inr ws"
proof (induction ws arbitrary: pre)
  case (Cons w ws)
  have "rd_u32 (pre @ le_bytes 4 w @ (concat (map (le_bytes 4) ws) @ post)) (length pre) = Inr w"
    using rd_u32_skip [of pre "length pre" "length pre"] rd_u32_le_bytes by simp
  moreover have "read_offsets (length ws) ((pre @ le_bytes 4 w) @ concat (map (le_bytes 4) ws) @ post)
      (length (pre @ le_bytes 4 w)) = Inr ws" by (rule Cons.IH)
  ultimately show ?case by simp
qed simp

section \<open>Round trip\<close>

text \<open>A file with the image of \<open>es\<close>, read while the system calls succeed.\<close>

definition sst_at :: "os \<Rightarrow> string \<Rightarrow> bytes list \<Rightarrow> bytes \<Rightarrow> bool" where
  "sst_at s f es flex \<longleftrightarrow> quiet s \<and> files s f = Some (sst_image es flex) \<and>
     es \<noteq> [] \<and> SST_fits es flex"

lemma sst_read:
  assumes "sst_at s f es flex" "n + off \<le> length (sst_image es flex)"
  shows "Reader_Read s f n (int off) = (NoError, take n (drop off (sst_image es flex)), s)"
  using Reader_Read_quiet [of s f "sst_image es flex" "int off" n] assms
  by (simp add: sst_at_def add.commute)

lemma footer_read:
  assumes "sst_at s f es flex"
  shows "Reader_Read s f kSSTFooterSize (FlieSize s f - int kSSTFooterSize) =
    (NoError, Footer_bytes (sst_footer es flex), s)"
proof -
  let ?n = "length (sst_image es flex)"
  have n: "24 \<le> ?n" by (simp add: length_sst_image)
  then have "FlieSize s f - int kSSTFooterSize = int (?n - 24)"
    using assms by (simp add: FlieSize_def sst_at_def kSSTFooterSize_def of_nat_diff)
  moreover have "Reader_Read s f 24 (int (?n - 24)) = (NoError, Footer_bytes (sst_footer es flex), s)"
    using sst_read [OF assms, of 24 "?n - 24"] n by (simp only: image_footer le_add_diff_inverse)
  ultimately show ?thesis by (simp add: kSSTFooterSize_def)
qed

lemma ReadSSTFooter_image:
  assumes "sst_at s f es flex" "0 < readers"
  shows "ReadSSTFooter readers s f = Inr (NoError, Some (sst_footer es flex), s)"
  using footer_read [OF assms(1)] assms(2) Footer_of_bytes [of _ "[]"]
  by (simp add: ReadSSTFooter_def with_reader_def)

lemma first_last_image:
  assumes "es \<noteq> []"
  shows "take (length (hd es)) (sst_image es flex) = hd es"
    "take (length (last es)) (drop (total_size es - length (last es)) (sst_image es flex)) = last es"
    "length (hd es) \<le> total_size es" "length (last es) \<le> total_size es"
proof -
  have h: "es = [] @ [hd es] @ tl es" using assms by simp
  from image_slice [OF h] show "take (length (hd es)) (sst_image es flex) = hd es" by simp
  have l: "es = butlast es @ [last es] @ []" using assms by simp
  then have "total_size es = total_size (butlast es) + length (last es)"
    by (metis append_Nil2 total_size_simps add_0_right)
  with image_slice [OF l] show
    "take (length (last es)) (drop (total_size es - length (last es)) (sst_image es flex)) = last es" by simp
  show "length (hd es) \<le> total_size es" "length (last es) \<le> total_size es"
    using assms by (induction es) auto
qed

lemma ReadSSTFooter_keys_image:
  assumes "sst_at s f es flex" "0 < readers"
  shows "ReadSSTFooter_keys readers s f = Inr (NoError, Some (sst_footer es flex), hd es, last es, s)"
proof -
  have ne: "es \<noteq> []" "SST_fits es flex" using assms(1) by (simp_all add: sst_at_def)
  note fl = first_last_image [OF ne(1)]
  have "Reader_Read s f (length (hd es)) 0 = (NoError, hd es, s)"
    using sst_read [OF assms(1), of "length (hd es)" 0] fl by (simp add: length_sst_image)
  moreover have "Reader_Read s f (length (last es)) (int (total_size es - length (last es))) = (NoError, last es, s)"
    using sst_read [OF assms(1), of "length (last es)" "total_size es - length (last es)"] fl
    by (simp add: length_sst_image)
  ultimately show ?thesis
    using footer_read [OF assms(1)] assms(2) Footer_of_bytes [of "sst_footer es flex" "[]"]
      footer_unat [OF ne(2,1)]
    by (simp add: ReadSSTFooter_keys_def with_reader_def)
qed

lemma ReadSSTFlexible_image:
  assumes "sst_at s f es flex" "0 < readers"
  shows "ReadSSTFlexible readers s f (sst_footer es flex) = Inr (NoError, flex, s)"
proof -
  have ne: "es \<noteq> []" "SST_fits es flex" using assms(1) by (simp_all add: sst_at_def)
  show ?thesis
    using sst_read [OF assms(1), of "length flex" "total_size es + (length (blocks es) + 1) * 4"] assms(2)
    unfolding ReadSSTFlexible_def with_reader_def footer_unat [OF ne(2,1)] image_flex
    by (simp add: length_sst_image)
qed

lemma ReadSSTIndex_image:
  assumes "sst_at s f es flex" "0 < readers"
  shows "ReadSSTIndex readers s f (sst_footer es flex) = Inr (NoError, sst_offsets es, s)"
proof -
  have ne: "es \<noteq> []" "SST_fits es flex" using assms(1) by (simp_all add: sst_at_def)
  let ?n = "of_nat (length (sst_offsets es)) :: u32"
  have "length (sst_offsets es) < 2 ^ 32" using ne(2) by (simp add: SST_fits_def)
  then have n: "unat ?n = length (sst_offsets es)" by (intro unat_of_nat_u32) simp
  have r: "Reader_Read s f ((length (blocks es) + 1) * 4) (int (total_size es)) = (NoError, index_bytes (sst_offsets es), s)"
    using sst_read [OF assms(1), of "(length (blocks es) + 1) * 4" "total_size es"]
    unfolding image_index by (simp add: length_sst_image)
  have "rd_u32 (index_bytes (sst_offsets es)) 0 = Inr ?n"
    unfolding index_bytes_def by (rule rd_u32_le_bytes)
  moreover have "read_offsets (unat ?n) (index_bytes (sst_offsets es)) 4 = Inr (sst_offsets es)"
    using read_offsets_index [of "sst_offsets es" "le_bytes 4 ?n" "[]"] n by (simp add: index_bytes_def)
  ultimately show ?thesis
    using r assms(2) unfolding ReadSSTIndex_def with_reader_def footer_unat [OF ne(2,1)] by simp
qed

lemma ReadSSTDataAll_image:
  assumes "sst_at s f es flex" "0 < readers" "\<forall>e\<in>set es. is_entry e"
  shows "\<exists>ma'. ReadSSTDataAll readers s f ma acc (unat (data_blk_size (sst_footer es flex))) 0 =
    Inr (NoError, acc @ es, ma', s)"
proof -
  have ne: "es \<noteq> []" "SST_fits es flex" using assms(1) by (simp_all add: sst_at_def)
  have "Reader_Read s f (total_size es) 0 = (NoError, concat es, s)"
    using sst_read [OF assms(1), of "total_size es" 0] image_data [of es flex] by (simp add: length_sst_image)
  then show ?thesis
    using assms(2) entry_frame.split_concat [OF assms(3)]
    unfolding ReadSSTDataAll_def with_reader_def footer_unat [OF ne(2,1)] by (simp add: split_beta)
qed

text \<open>The \<open>k\<close>-th block lies between its offset and the next (or the end of the data).\<close>

lemma block_position:
  assumes "k < length bs"
  shows "block_starts off bs ! k = off + total_size (concat (take k bs))"
  using assms
proof (induction bs arbitrary: off k)
  case (Cons b bs)
  then show ?case by (cases k) auto
qed simp

lemma ReadSSTDataBlock_block:
  assumes "sst_at s f es flex" "0 < readers" "\<forall>e\<in>set es. is_entry e" "k < length (blocks es)"
  shows "ReadSSTDataBlock is_merge readers s f ma acc (total_size (blocks es ! k))
      (int (unat (sst_offsets es ! k))) (- 1) = Inr (NoError, acc @ blocks es ! k,
        RefLast (snd (Allocate ma (total_size (blocks es ! k)))) (int (length (acc @ blocks es ! k)) - 1), readers, s)"
proof -
  let ?b = "blocks es ! k" and ?pre = "concat (take k (blocks es))"
  have es: "es = ?pre @ ?b @ concat (drop (Suc k) (blocks es))"
    using concat_blocks [of es] id_take_nth_drop [OF assms(4)] by (metis concat.simps(2) concat_append)
  have size: "total_size es = total_size ?pre + total_size ?b + total_size (concat (drop (Suc k) (blocks es)))"
    by (subst es) simp
  have "total_size es < 2 ^ 32" using assms(1) by (simp add: sst_at_def SST_fits_def)
  then have "total_size ?pre < 2 ^ 32" using size by simp
  then have off: "unat (sst_offsets es ! k) = total_size ?pre"
    using assms(4) by (simp add: sst_offsets_def block_position unat_of_nat_u32)
  have "Reader_Read s f (total_size ?b) (int (total_size ?pre)) = (NoError, concat ?b, s)"
    using sst_read [OF assms(1), of "total_size ?b" "total_size ?pre"] size
    unfolding image_slice [OF es] by (simp add: length_sst_image)
  moreover have "\<forall>e\<in>set ?b. is_entry e" using assms(3) es by (metis Un_iff set_append)
  then have "split_frames EntryData (concat ?b) = Inr ?b" by (rule entry_frame.split_concat)
  ultimately show ?thesis
    using assms(2) off by (simp add: ReadSSTDataBlock_def with_reader_def split_beta total_size_def)
qed

lemma ReadSSTDataBlock_image:
  assumes "sst_at s f es flex" "0 < readers" "\<forall>e\<in>set es. is_entry e" "k < length (blocks es)"
  shows "\<exists>ma'. ReadSSTDataBlock is_merge readers s f ma acc (total_size (blocks es ! k))
      (int (unat (sst_offsets es ! k))) (- 1) = Inr (NoError, acc @ blocks es ! k, ma', readers, s)"
  using ReadSSTDataBlock_block [OF assms] by blast

section \<open>Properties\<close>

definition block_ok :: "bytes list \<Rightarrow> bool" where
  "block_ok b \<longleftrightarrow> b \<noteq> [] \<and> total_size (butlast b) \<le> kDefaultDataBlkSize"

lemma cut_blocks_ok:
  "total_size acc \<le> kDefaultDataBlkSize \<Longrightarrow> list_all block_ok (cut_blocks acc es)"
proof (induction acc es rule: cut_blocks.induct)
  case (1 acc)
  have "total_size (butlast acc) \<le> total_size acc"
    by (cases acc rule: rev_cases) simp_all
  with 1 show ?case by (auto simp: block_ok_def)
qed (auto simp: block_ok_def)

text \<open>C29. \<open>WriteSSTData\<close> cuts the entries into consecutive non-empty blocks, each of which
  exceeds \<open>kDefaultDataBlkSize\<close> at most by its last entry; on success it has appended the
  entries without gaps, returns the start of every block and the total size.\<close>

theorem WriteSSTData_blocks:
  assumes "total_size es < 2 ^ 32" "dbfile w = Some d" "buffer w = []" "0 < kMaxBufferSize w"
  shows "\<exists>st offs sz w' s' bs. WriteSSTData s w es = Inr (st, offs, sz, w', s') \<and>
    concat bs = es \<and> list_all block_ok bs \<and>
    (StatusNoError st \<longrightarrow> content s' (file_name d) = content s (file_name d) @ concat es \<and>
      offs = map of_nat (block_starts 0 bs) \<and> sz = of_nat (total_size es))"
proof -
  obtain st offs sz w' s' where r: "WriteSSTData s w es = Inr (st, offs, sz, w', s')"
    "transfers (file_name d) s w st s' w' (concat es)"
    "StatusNoError st \<longrightarrow> buffer w' = [] \<and> offs = sst_offsets es \<and> sz = of_nat (total_size es)"
    using WriteSSTData_writes [OF assms] by blast
  have "list_all block_ok (blocks es)" unfolding blocks_def by (rule cut_blocks_ok) simp
  with r assms(3) concat_blocks [of es] show ?thesis
    by (intro exI [of _ st] exI [of _ offs] exI [of _ sz] exI [of _ w'] exI [of _ s'] exI [of _ "blocks es"])
      (auto simp: transfers_def sst_offsets_def)
qed

theorem WriteSSTData_blocks_witness:
  "\<exists>st offs sz w' s' (bs :: bytes list list). WriteSSTData
      \<lparr>files = Map.empty, open_results = [], write_results = [3, -1], read_results = []\<rparr>
      \<lparr>kMaxBufferSize = 2, buffer = [], dbfile = Some \<lparr>file_name = ''f'', file_mode = kAppend, is_open = True\<rparr>\<rparr>
      [[1, 2, 3], [4, 5]] = Inr (st, offs, sz, w', s') \<and> concat bs = [[1, 2, 3], [4, 5]]"
  using WriteSSTData_blocks [of "[[1, 2, 3], [4, 5]]"
      "\<lparr>kMaxBufferSize = 2, buffer = [], dbfile = Some \<lparr>file_name = ''f'', file_mode = kAppend, is_open = True\<rparr>\<rparr>"
      "\<lparr>file_name = ''f'', file_mode = kAppend, is_open = True\<rparr>"
      "\<lparr>files = Map.empty, open_results = [], write_results = [3, -1], read_results = []\<rparr>"]
  by auto

text \<open>C5. Round trip of a data file: a non-empty set of entries of less than 4 GB written to a
  file that does not exist yet, with any pattern of short or failing \<open>write\<close> calls, can be
  read back in every way the database reads it: footer with smallest and largest entry,
  index, filter, all entries at once, and each block by its index entry.\<close>

theorem sst_write_read:
  assumes "create es = Inr flex" "es \<noteq> []" "\<forall>e\<in>set es. is_entry e" "SST_fits es flex"
    and "open_results s = []" "read_results s = []" "files s f = None" "0 < readers"
  shows "\<exists>st s' footer. WriteSSTFile_filter create s f es = Inr (st, s') \<and> StatusNoError st \<and>
    ReadSSTFooter_keys readers s' f = Inr (NoError, Some footer, hd es, last es, s') \<and>
    ReadSSTIndex readers s' f footer = Inr (NoError, sst_offsets es, s') \<and>
    ReadSSTFlexible readers s' f footer = Inr (NoError, flex, s') \<and>
    (\<exists>ma'. ReadSSTDataAll readers s' f ma [] (unat (data_blk_size footer)) 0 = Inr (NoError, es, ma', s')) \<and>
    (\<forall>k<length (sst_offsets es). \<exists>ma'.
      ReadSSTDataBlock is_merge readers s' f ma [] (total_size (blocks es ! k))
        (int (unat (sst_offsets es ! k))) (- 1) = Inr (NoError, blocks es ! k, ma', readers, s'))"
proof -
  obtain st s' where w: "WriteSSTFile_filter create s f es = Inr (st, s')" "StatusNoError st"
    "content s' f = content s f @ sst_image es flex" "open_results s' = []" "read_results s' = []"
    using WriteSSTFile_writes [of create es flex s f] assms(1,2,4,5,6) by auto
  have "content s' f = sst_image es flex" using w(3) assms(7) by (simp add: content_def)
  moreover have "sst_image es flex \<noteq> []" using length_sst_image [of es flex] by auto
  ultimately have "files s' f = Some (sst_image es flex)"
    by (cases "files s' f") (auto simp: content_def)
  then have at: "sst_at s' f es flex"
    using w(4,5) assms(2,4) by (simp add: sst_at_def quiet_def)
  show ?thesis
    using w(1,2) ReadSSTFooter_keys_image [OF at assms(8)] ReadSSTIndex_image [OF at assms(8)]
      ReadSSTFlexible_image [OF at assms(8)] ReadSSTDataAll_image [OF at assms(8,3), of ma "[]"]
      ReadSSTDataBlock_image [OF at assms(8,3), of _ is_merge ma "[]"]
    by (intro exI [of _ st] exI [of _ s'] exI [of _ "sst_footer es flex"]) simp
qed

theorem sst_write_read_witness:
  "\<exists>st s'. WriteSSTFile
      \<lparr>files = Map.empty, open_results = [], write_results = [3, -1], read_results = []\<rparr> ''00.tdb''
      [entry_bytes [97] [1] 0 kInsert, entry_bytes [98] [] 1 kDelete] = Inr (st, s') \<and> StatusNoError st"
proof -
  let ?es = "[entry_bytes [97] [1] 0 kInsert, entry_bytes [98] [] 1 kDelete]"
  have e: "\<forall>e\<in>set ?es. is_entry e" by (auto simp: fits_def)
  have "SizeOfVarint 1 \<le> 10" "SizeOfVarint 0 \<le> 10" using SizeOfVarint_bounds by blast+
  then have t: "total_size ?es \<le> 1000" by (simp add: length_entry_bytes)
  have "length (blocks ?es) \<le> 2" by (simp add: blocks_def)
  with t have "SST_fits ?es (str_bytes ''TODO'')" by (simp add: SST_fits_def str_bytes_def)
  then show ?thesis
    using sst_write_read [of "\<lambda>_. Inr (str_bytes ''TODO'')" ?es "str_bytes ''TODO''"
        "\<lparr>files = Map.empty, open_results = [], write_results = [3, -1], read_results = []\<rparr>" "''00.tdb''" 4, OF refl _ e]
    unfolding WriteSSTFile_def by simp blast
qed

end
