(* ===== verification/SkipListModel.thy ===== *)
theory SkipListModel
  imports Interfaces
begin

text \<open>
  The skip list of \<open>include/table/skiplist.h\<close>, with its nodes in an explicit store: node
  addresses are indices into \<open>nodes\<close>, address 0 is \<open>head_\<close>, and \<open>tail_\<close> (which is only ever
  compared against) is the pointer \<open>Tail\<close>. An element of a \<open>nnext\<close> or \<open>last_node\<close> array that
  has not been written yet is \<open>None\<close>; using it is the fault \<open>Uninit\<close>. The comparator is the
  pair of functions \<open>ge\<close> (\<open>GreaterOrEquals\<close>) and \<open>eq\<close> (\<open>Equal\<close>). \<open>rand()\<close> is a list of the
  values the calls return.

  The walk along one level is bounded by the number of nodes; the lemmas show the bound is
  never reached on a well-formed list.
\<close>

section \<open>State\<close>

datatype ptr = Tail | Node nat

record 'k SkipListNode =
  nkey :: 'k
  nnext :: "ptr option list"

record 'k SkipList =
  nodes :: "'k SkipListNode list"
  sl_levels :: nat
  sl_size :: nat
  last_node :: "nat option list"

definition kMaxLevels :: nat where
  "kMaxLevels = 12"

text \<open>The constructor initialises \<open>head_->nnext[i]\<close> for \<open>i < kMaxLevels\<close> only, although the
  array has \<open>kMaxLevels + 1\<close> elements.\<close>

definition SkipList_new :: "'k \<Rightarrow> 'k SkipList" where
  "SkipList_new last_key =
     \<lparr>nodes = [\<lparr>nkey = last_key, nnext = replicate kMaxLevels (Some Tail) @ [None]\<rparr>],
      sl_levels = 0, sl_size = 0, last_node = replicate (kMaxLevels + 1) None\<rparr>"

section \<open>Operations\<close>

definition node_key :: "'k SkipList \<Rightarrow> nat \<Rightarrow> 'k res" where
  "node_key sl a = rmap nkey (rd (nodes sl) a)"

definition get_next :: "'k SkipList \<Rightarrow> nat \<Rightarrow> nat \<Rightarrow> ptr res" where
  "get_next sl a i =
     rbind (rd (nodes sl) a) (\<lambda>n.
     rbind (rd (nnext n) i) (\<lambda>p. case p of None \<Rightarrow> Inl Uninit | Some q \<Rightarrow> Inr q))"

definition set_next :: "'k SkipList \<Rightarrow> nat \<Rightarrow> nat \<Rightarrow> ptr \<Rightarrow> 'k SkipList res" where
  "set_next sl a i p =
     rbind (rd (nodes sl) a) (\<lambda>n.
     if i < length (nnext n)
     then Inr (sl\<lparr>nodes := (nodes sl)[a := n\<lparr>nnext := (nnext n)[i := Some p]\<rparr>]\<rparr>)
     else Inl OobWrite)"

text \<open>The inner \<open>while\<close> of \<open>Get\<close> and \<open>Search\<close> at level \<open>i\<close>.\<close>

fun advance :: "('k \<Rightarrow> 'k \<Rightarrow> bool res) \<Rightarrow> 'k SkipList \<Rightarrow> 'k \<Rightarrow> nat \<Rightarrow> nat \<Rightarrow> nat \<Rightarrow> nat res" where
  "advance ge sl key i 0 before = Inl OutOfFuel"
| "advance ge sl key i (Suc fuel) before =
     rbind (get_next sl before i) (\<lambda>p.
     case p of
       Tail \<Rightarrow> Inr before
     | Node a \<Rightarrow>
         rbind (node_key sl a) (\<lambda>k.
         rbind (ge k key) (\<lambda>g.
         if g then Inr before else advance ge sl key i fuel a)))"

abbreviation walk_fuel :: "'k SkipList \<Rightarrow> nat" where
  "walk_fuel sl \<equiv> length (nodes sl)"

text \<open>The loop \<open>for (int i = sl_levels; i >= 0; --i)\<close>; the first argument is \<open>i + 1\<close>.\<close>

fun Get_loop :: "('k \<Rightarrow> 'k \<Rightarrow> bool res) \<Rightarrow> 'k SkipList \<Rightarrow> 'k \<Rightarrow> nat \<Rightarrow> nat \<Rightarrow> nat res" where
  "Get_loop ge sl key 0 before = Inr before"
| "Get_loop ge sl key (Suc i) before =
     rbind (advance ge sl key i (walk_fuel sl) before) (Get_loop ge sl key i)"

definition SkipList_Get ::
    "('k \<Rightarrow> 'k \<Rightarrow> bool res) \<Rightarrow> ('k \<Rightarrow> 'k \<Rightarrow> bool res) \<Rightarrow> 'k SkipList \<Rightarrow> 'k \<Rightarrow> nat option res" where
  "SkipList_Get ge eq sl key =
     rbind (Get_loop ge sl key (sl_levels sl + 1) 0) (\<lambda>before.
     rbind (node_key sl before) (\<lambda>k.
     rbind (eq k key) (\<lambda>e. Inr (if e then Some before else None))))"

fun Search_loop ::
    "('k \<Rightarrow> 'k \<Rightarrow> bool res) \<Rightarrow> 'k SkipList \<Rightarrow> 'k \<Rightarrow> nat \<Rightarrow> nat \<Rightarrow> (nat \<times> 'k SkipList) res" where
  "Search_loop ge sl key 0 before = Inr (before, sl)"
| "Search_loop ge sl key (Suc i) before =
     rbind (advance ge sl key i (walk_fuel sl) before) (\<lambda>b.
     if i < length (last_node sl)
     then Search_loop ge (sl\<lparr>last_node := (last_node sl)[i := Some b]\<rparr>) key i b
     else Inl OobWrite)"

definition Search ::
    "('k \<Rightarrow> 'k \<Rightarrow> bool res) \<Rightarrow> 'k SkipList \<Rightarrow> 'k \<Rightarrow> (ptr \<times> 'k SkipList) res" where
  "Search ge sl key =
     rbind (Search_loop ge sl key (sl_levels sl + 1) 0) (\<lambda>(before, sl').
     rmap (\<lambda>p. (p, sl')) (get_next sl' before 0))"

text \<open>\<open>neko::SelectedInProb1DivdN\<close> and \<open>RandomLevel\<close> on the values of \<open>rand()\<close>.\<close>

definition RandomUniform :: "nat \<Rightarrow> nat \<Rightarrow> nat" where
  "RandomUniform r n = r mod n"

definition SelectedInProb1DivdN :: "nat \<Rightarrow> nat \<Rightarrow> bool" where
  "SelectedInProb1DivdN r n \<longleftrightarrow> RandomUniform r n = 0"

fun RandomLevel_loop :: "nat list \<Rightarrow> nat \<Rightarrow> nat res" where
  "RandomLevel_loop [] lev = Inl OutOfFuel"
| "RandomLevel_loop (r # rs) lev =
     (if SelectedInProb1DivdN r 4 then RandomLevel_loop rs (lev + 1) else Inr lev)"

definition RandomLevel :: "nat list \<Rightarrow> nat res" where
  "RandomLevel rs = rmap (\<lambda>lev. if lev \<le> kMaxLevels then lev else kMaxLevels) (RandomLevel_loop rs 0)"

text \<open>The linking loop of \<open>Insert\<close>, for \<open>n\<close> levels from \<open>i\<close> up.\<close>

fun link_levels :: "'k SkipList \<Rightarrow> nat \<Rightarrow> nat \<Rightarrow> nat \<Rightarrow> 'k SkipList res" where
  "link_levels sl new i 0 = Inr sl"
| "link_levels sl new i (Suc n) =
     rbind (rd (last_node sl) i) (\<lambda>l. case l of None \<Rightarrow> Inl Uninit | Some b \<Rightarrow>
     rbind (get_next sl b i) (\<lambda>p.
     rbind (set_next sl new i p) (\<lambda>sl1.
     rbind (set_next sl1 b i (Node new)) (\<lambda>sl2.
     link_levels sl2 new (Suc i) n))))"

definition SkipList_Insert ::
    "('k \<Rightarrow> 'k \<Rightarrow> bool res) \<Rightarrow> 'k SkipList \<Rightarrow> 'k \<Rightarrow> nat list \<Rightarrow> 'k SkipList res" where
  "SkipList_Insert ge sl key rs =
     rbind (Search ge sl key) (\<lambda>(node, sl1).
     rbind (RandomLevel rs) (\<lambda>lev.
     let raised = lev > sl_levels sl1;
         level = (if raised then sl_levels sl1 + 1 else lev);
         sl2 = (if raised
                then sl1\<lparr>sl_levels := level, last_node := (last_node sl1)[level := Some 0]\<rparr>
                else sl1);
         new = length (nodes sl2);
         sl3 = sl2\<lparr>nodes := nodes sl2 @ [\<lparr>nkey = key, nnext = replicate (level + 1) None\<rparr>]\<rparr>
     in rmap (\<lambda>sl4. sl4\<lparr>sl_size := sl_size sl4 + 1\<rparr>) (link_levels sl3 new 0 (level + 1))))"

text \<open>\<open>EntrySet\<close> follows level 0 from the head.\<close>

fun EntrySet_loop :: "'k SkipList \<Rightarrow> nat \<Rightarrow> ptr \<Rightarrow> 'k list res" where
  "EntrySet_loop sl fuel Tail = Inr []"
| "EntrySet_loop sl 0 (Node a) = Inl OutOfFuel"
| "EntrySet_loop sl (Suc fuel) (Node a) =
     rbind (node_key sl a) (\<lambda>k.
     rbind (get_next sl a 0) (\<lambda>p. rmap ((#) k) (EntrySet_loop sl fuel p)))"

definition EntrySet :: "'k SkipList \<Rightarrow> 'k list res" where
  "EntrySet sl = rbind (get_next sl 0 0) (EntrySet_loop sl (walk_fuel sl))"

text \<open>\<open>NodeCount\<close> and \<open>IsNodeAscend\<close>; \<open>gt\<close> is the comparator's \<open>Greater\<close>.\<close>

fun NodeCount_loop :: "'k SkipList \<Rightarrow> nat \<Rightarrow> ptr \<Rightarrow> nat \<Rightarrow> nat res" where
  "NodeCount_loop sl fuel Tail count = Inr count"
| "NodeCount_loop sl 0 (Node a) count = Inl OutOfFuel"
| "NodeCount_loop sl (Suc fuel) (Node a) count =
     rbind (get_next sl a 0) (\<lambda>p. NodeCount_loop sl fuel p (count + 1))"

definition NodeCount :: "'k SkipList \<Rightarrow> nat res" where
  "NodeCount sl = rmap (\<lambda>count. count + 1) (NodeCount_loop sl (walk_fuel sl) (Node 0) 0)"

fun IsNodeAscend_loop :: "('k \<Rightarrow> 'k \<Rightarrow> bool res) \<Rightarrow> 'k SkipList \<Rightarrow> nat \<Rightarrow> nat \<Rightarrow> bool res" where
  "IsNodeAscend_loop gt sl 0 p = Inl OutOfFuel"
| "IsNodeAscend_loop gt sl (Suc fuel) p =
     rbind (get_next sl p 0) (\<lambda>q. case q of
       Tail \<Rightarrow> Inr True
     | Node a \<Rightarrow>
         rbind (node_key sl p) (\<lambda>k. rbind (node_key sl a) (\<lambda>k'.
         rbind (gt k k') (\<lambda>g.
         if g then Inr False else IsNodeAscend_loop gt sl fuel a))))"

definition IsNodeAscend :: "('k \<Rightarrow> 'k \<Rightarrow> bool res) \<Rightarrow> 'k SkipList \<Rightarrow> bool res" where
  "IsNodeAscend gt sl = IsNodeAscend_loop gt sl (walk_fuel sl) 0"

text \<open>The destructor; \<open>freed\<close> are the nodes that have been deleted, in order. \<open>next_[0]\<close> is read
  from nodes that must still be there. \<open>tail_\<close> is deleted last.\<close>

fun free_nodes :: "'k SkipList \<Rightarrow> nat \<Rightarrow> nat list \<Rightarrow> nat \<Rightarrow> ptr \<Rightarrow> nat list res" where
  "free_nodes sl fuel freed delete_node Tail =
     (if delete_node \<in> set freed then Inl UseAfterFree else Inr (freed @ [delete_node]))"
| "free_nodes sl 0 freed delete_node (Node next_node) = Inl OutOfFuel"
| "free_nodes sl (Suc fuel) freed delete_node (Node next_node) =
     (if delete_node \<in> set freed \<or> next_node \<in> set (freed @ [delete_node]) then Inl UseAfterFree
      else rbind (get_next sl next_node 0) (free_nodes sl fuel (freed @ [delete_node]) next_node))"

definition SkipList_delete :: "'k SkipList \<Rightarrow> nat list res" where
  "SkipList_delete sl = rbind (get_next sl 0 0) (free_nodes sl (walk_fuel sl) [] 0)"

section \<open>The store as a function, and chains through it\<close>

text \<open>The content of \<open>next_[i]\<close> of the node at \<open>a\<close>, if there is such an element and it has
  been written.\<close>

definition cell :: "'k SkipList \<Rightarrow> nat \<Rightarrow> nat \<Rightarrow> ptr option" where
  "cell sl i a =
     (if a < length (nodes sl) \<and> i < length (nnext (nodes sl ! a)) then nnext (nodes sl ! a) ! i
      else None)"

definition keyat :: "'k SkipList \<Rightarrow> nat \<Rightarrow> 'k" where
  "keyat sl a = nkey (nodes sl ! a)"

definition height :: "'k SkipList \<Rightarrow> nat \<Rightarrow> nat" where
  "height sl a = length (nnext (nodes sl ! a))"

fun chain :: "(nat \<Rightarrow> ptr option) \<Rightarrow> ptr option \<Rightarrow> nat list \<Rightarrow> bool" where
  "chain f p [] \<longleftrightarrow> p = Some Tail"
| "chain f p (a # as) \<longleftrightarrow> p = Some (Node a) \<and> chain f (f a) as"

lemma store_update [simp]:
  "cell (sl\<lparr>last_node := ln\<rparr>) = cell sl" "keyat (sl\<lparr>last_node := ln\<rparr>) = keyat sl"
  "height (sl\<lparr>last_node := ln\<rparr>) = height sl"
  "cell (sl\<lparr>sl_levels := l\<rparr>) = cell sl" "keyat (sl\<lparr>sl_levels := l\<rparr>) = keyat sl"
  "height (sl\<lparr>sl_levels := l\<rparr>) = height sl"
  "cell (sl\<lparr>sl_size := n\<rparr>) = cell sl" "keyat (sl\<lparr>sl_size := n\<rparr>) = keyat sl"
  "height (sl\<lparr>sl_size := n\<rparr>) = height sl"
  by (simp_all add: cell_def keyat_def height_def fun_eq_iff)

text \<open>A node appended with no level written yet.\<close>

lemma cell_append:
  "cell (sl\<lparr>nodes := nodes sl @ [\<lparr>nkey = k, nnext = replicate n None\<rparr>]\<rparr>) i a = cell sl i a"
  by (auto simp: cell_def nth_append)

lemma keyat_append:
  "a < length (nodes sl) \<Longrightarrow> keyat (sl\<lparr>nodes := nodes sl @ [n]\<rparr>) a = keyat sl a"
  "keyat (sl\<lparr>nodes := nodes sl @ [n]\<rparr>) (length (nodes sl)) = nkey n"
  by (simp_all add: keyat_def nth_append)

lemma height_append:
  "a < length (nodes sl) \<Longrightarrow> height (sl\<lparr>nodes := nodes sl @ [n]\<rparr>) a = height sl a"
  "height (sl\<lparr>nodes := nodes sl @ [n]\<rparr>) (length (nodes sl)) = length (nnext n)"
  by (simp_all add: height_def nth_append)

lemma cell_SomeD: "cell sl i a = Some p \<Longrightarrow> a < length (nodes sl) \<and> i < height sl a"
  by (auto simp: cell_def height_def split: if_splits)

lemma get_next_cell [res_simps]: "cell sl i a = Some p \<Longrightarrow> get_next sl a i = Inr p"
  by (auto simp: cell_def get_next_def rd_def split: if_splits)

lemma node_key_keyat [res_simps]: "a < length (nodes sl) \<Longrightarrow> node_key sl a = Inr (keyat sl a)"
  by (simp add: node_key_def keyat_def rd_def)

lemma chain_SomeE: "chain f p us \<Longrightarrow> \<exists>q. p = Some q"
  by (cases us) auto

lemma chain_append:
  "chain f (f s) (us @ vs) \<Longrightarrow> chain f (f (last (s # us))) vs"
proof (induction us arbitrary: s)
  case (Cons u us)
  then show ?case using Cons.IH [of u] by simp
qed simp

lemma chain_cong: "chain f p us \<Longrightarrow> (\<And>a. a \<in> set us \<Longrightarrow> g a = f a) \<Longrightarrow> chain g p us"
  by (induction us arbitrary: p) auto

text \<open>Linking \<open>new\<close> in behind \<open>last (s # us)\<close>.\<close>

lemma chain_splice:
  assumes "chain f (f s) (us @ vs)" "distinct (s # us @ vs)" "new \<notin> set (s # us @ vs)"
    and "b = last (s # us)" "g = f(new := f b, b := Some (Node new))"
  shows "chain g (g s) (us @ new # vs)"
  using assms
proof (induction us arbitrary: s)
  case Nil
  have "chain g (f s) vs"
    by (rule chain_cong [of f]) (use Nil.prems in auto)
  then show ?case using Nil.prems(3-5) by simp
next
  case (Cons u us)
  have "b \<noteq> s" using Cons.prems by auto
  then have "g s = f s" using Cons.prems by auto
  moreover have "chain g (g u) (us @ new # vs)"
    using Cons.prems by (intro Cons.IH) auto
  ultimately show ?case using Cons.prems by simp
qed

text \<open>What \<open>set_next\<close> does to the store.\<close>

definition same_frame :: "'k SkipList \<Rightarrow> 'k SkipList \<Rightarrow> bool" where
  "same_frame sl sl' \<longleftrightarrow> length (nodes sl') = length (nodes sl) \<and>
     sl_levels sl' = sl_levels sl \<and> sl_size sl' = sl_size sl \<and> last_node sl' = last_node sl \<and>
     (\<forall>a. a < length (nodes sl) \<longrightarrow> keyat sl' a = keyat sl a \<and> height sl' a = height sl a)"

lemma same_frame_refl [simp]: "same_frame sl sl"
  by (simp add: same_frame_def)

lemma same_frame_trans [trans]: "same_frame a b \<Longrightarrow> same_frame b c \<Longrightarrow> same_frame a c"
  by (simp add: same_frame_def)

lemma set_next_cell:
  assumes "a < length (nodes sl)" "i < height sl a"
  obtains sl' where "set_next sl a i p = Inr sl'" "same_frame sl sl'"
    "cell sl' i = (cell sl i)(a := Some p)" "\<And>j. j \<noteq> i \<Longrightarrow> cell sl' j = cell sl j"
proof
  let ?sl = "sl\<lparr>nodes := (nodes sl)[a := (nodes sl ! a)\<lparr>nnext := (nnext (nodes sl ! a))[i := Some p]\<rparr>]\<rparr>"
  show "set_next sl a i p = Inr ?sl"
    using assms by (simp add: set_next_def rd_def height_def)
  show "same_frame sl ?sl"
    using assms(1) by (auto simp: same_frame_def keyat_def height_def nth_list_update)
  show "cell ?sl i = (cell sl i)(a := Some p)"
    using assms by (auto simp: fun_eq_iff cell_def height_def nth_list_update)
  show "cell ?sl j = cell sl j" if "j \<noteq> i" for j
    using that assms(1) by (auto simp: fun_eq_iff cell_def height_def nth_list_update)
qed

lemma link_levels_cell:
  assumes "new < length (nodes sl)" "i + n \<le> height sl new"
    and "\<And>j. i \<le> j \<Longrightarrow> j < i + n \<Longrightarrow>
      j < length (last_node sl) \<and> last_node sl ! j = Some (b j) \<and> b j \<noteq> new \<and> cell sl j (b j) \<noteq> None"
  shows "\<exists>sl'. link_levels sl new i n = Inr sl' \<and> same_frame sl sl' \<and>
    (\<forall>j. cell sl' j = (if i \<le> j \<and> j < i + n
      then (cell sl j)(new := cell sl j (b j), b j := Some (Node new)) else cell sl j))"
  using assms
proof (induction n arbitrary: i sl)
  case 0
  show ?case by (intro exI [of _ sl]) auto
next
  case (Suc n)
  from Suc.prems(3) [of i] obtain p where p: "cell sl i (b i) = Some p"
    and l: "i < length (last_node sl)" "last_node sl ! i = Some (b i)" "b i \<noteq> new" by auto
  obtain sl1 where s1: "set_next sl new i p = Inr sl1" "same_frame sl sl1"
    "cell sl1 i = (cell sl i)(new := Some p)" "\<And>j. j \<noteq> i \<Longrightarrow> cell sl1 j = cell sl j"
    using Suc.prems by (auto intro: set_next_cell [of new sl i p])
  have "b i < length (nodes sl1)" "i < height sl1 (b i)"
    using s1(2) cell_SomeD [OF p] by (auto simp: same_frame_def)
  then obtain sl2 where s2: "set_next sl1 (b i) i (Node new) = Inr sl2" "same_frame sl1 sl2"
    "cell sl2 i = (cell sl1 i)(b i := Some (Node new))" "\<And>j. j \<noteq> i \<Longrightarrow> cell sl2 j = cell sl1 j"
    by (auto intro: set_next_cell [of "b i" sl1 i "Node new"])
  have fr: "same_frame sl sl2" using s1(2) s2(2) by (rule same_frame_trans)
  then have "new < length (nodes sl2)" "Suc i + n \<le> height sl2 new"
    using Suc.prems by (auto simp: same_frame_def)
  moreover have "j < length (last_node sl2) \<and> last_node sl2 ! j = Some (b j) \<and> b j \<noteq> new \<and>
      cell sl2 j (b j) \<noteq> None" if "Suc i \<le> j" "j < Suc i + n" for j
    using Suc.prems(3) [of j] fr s1(4) [of j] s2(4) [of j] that by (auto simp: same_frame_def)
  ultimately obtain sl' where s': "link_levels sl2 new (Suc i) n = Inr sl'" "same_frame sl2 sl'"
    "\<forall>j. cell sl' j = (if Suc i \<le> j \<and> j < Suc i + n
      then (cell sl2 j)(new := cell sl2 j (b j), b j := Some (Node new)) else cell sl2 j)"
    using Suc.IH [of sl2 "Suc i"] by blast
  have "link_levels sl new i (Suc n) = Inr sl'"
    using l p s1(1) s2(1) s'(1) by (simp add: rd_def res_simps)
  moreover have "same_frame sl sl'" using fr s'(2) by (rule same_frame_trans)
  moreover have "cell sl' j = (if i \<le> j \<and> j < i + Suc n
      then (cell sl j)(new := cell sl j (b j), b j := Some (Node new)) else cell sl j)" for j
    using s'(3) s1(3,4) s2(3,4) p l(3) by (cases "j = i") (auto simp: fun_upd_def)
  ultimately show ?case by blast
qed

lemma link_levels_add:
  "link_levels sl new i (n + m) = rbind (link_levels sl new i n) (\<lambda>sl'. link_levels sl' new (i + n) m)"
proof (induction n arbitrary: sl i)
  case (Suc n)
  show ?case
    by (cases "rd (last_node sl) i")
      (auto simp: Suc.IH rbind_assoc split: option.splits intro!: rbind_cong)
qed simp

lemma get_next_uninit:
  "cell sl i a = None \<Longrightarrow> a < length (nodes sl) \<Longrightarrow> i < height sl a \<Longrightarrow> get_next sl a i = Inl Uninit"
  by (simp add: get_next_def cell_def rd_def height_def)

lemma last_filter_split:
  assumes "\<And>x. P x \<Longrightarrow> Q x"
  shows "\<exists>pre us. filter Q A = pre @ us \<and> last (s # pre) = last (s # filter P A)"
proof (induction A rule: rev_induct)
  case (snoc x A)
  then obtain pre us where ps: "filter Q A = pre @ us" "last (s # pre) = last (s # filter P A)"
    by blast
  show ?case
  proof (cases "P x")
    case True
    with assms show ?thesis by (intro exI [of _ "filter Q (A @ [x])"] exI [of _ "[]"]) auto
  next
    case False
    with ps show ?thesis
      by (intro exI [of _ pre] exI [of _ "us @ filter Q [x]"]) auto
  qed
qed simp

end
