(* ===== verification/SkipListProofs.thy ===== *)
theory SkipListProofs
  imports SkipListModel Comparators "HOL-Library.Multiset"
begin

text \<open>
  The skip list refines a sorted list: \<open>shape\<close> is the invariant of the linked structure,
  \<open>holds\<close> relates it to the list of its keys. Inside \<open>key_order\<close>, for any comparator that
  keeps the contract, \<open>Insert\<close> is insertion behind the strictly smaller keys, \<open>Get\<close> looks at
  the last of them, and no walk runs out of its bound or reads an unwritten pointer.
\<close>

section \<open>Specification on lists\<close>

definition insert_key :: "('k \<Rightarrow> 'k \<Rightarrow> bool) \<Rightarrow> 'k \<Rightarrow> 'k list \<Rightarrow> 'k list" where
  "insert_key le k ks =
     takeWhile (\<lambda>x. \<not> le k x) ks @ k # dropWhile (\<lambda>x. \<not> le k x) ks"

definition find_key :: "('k \<Rightarrow> 'k \<Rightarrow> bool) \<Rightarrow> ('k \<Rightarrow> 'k \<Rightarrow> bool) \<Rightarrow> 'k \<Rightarrow> 'k list \<Rightarrow> 'k option" where
  "find_key le same k ks =
     (let below = takeWhile (\<lambda>x. \<not> le k x) ks in
      if below \<noteq> [] \<and> same (last below) k then Some (last below) else None)"

section \<open>The invariant\<close>

definition shape :: "'k \<Rightarrow> 'k SkipList \<Rightarrow> nat list \<Rightarrow> bool" where
  "shape dummy sl xs \<longleftrightarrow>
     distinct xs \<and> set xs = {1..<length (nodes sl)} \<and> nodes sl \<noteq> [] \<and>
     sl_size sl = length xs \<and> sl_levels sl < kMaxLevels \<and>
     keyat sl 0 = dummy \<and> height sl 0 = kMaxLevels + 1 \<and> cell sl kMaxLevels 0 = None \<and>
     length (last_node sl) = kMaxLevels + 1 \<and>
     (\<forall>a\<in>set xs. 0 < height sl a \<and> height sl a \<le> sl_levels sl + 1) \<and>
     (\<forall>i<kMaxLevels. chain (cell sl i) (cell sl i 0) (filter (\<lambda>a. i < height sl a) xs))"

lemma shape_lengths:
  assumes "shape dummy sl xs"
  shows "length (nodes sl) = Suc (length xs)"
proof -
  have "length xs = card (set xs)"
    using assms by (auto simp: shape_def dest: distinct_card)
  then show ?thesis using assms by (cases "nodes sl") (auto simp: shape_def)
qed

lemma shape_heights:
  "shape dummy sl xs \<Longrightarrow> a \<in> set xs \<Longrightarrow> 0 < height sl a \<and> height sl a \<le> Suc (sl_levels sl)"
  by (simp add: shape_def)

lemma shape_addr: "shape dummy sl xs \<Longrightarrow> a \<in> set xs \<Longrightarrow> a < length (nodes sl)"
  by (auto simp: shape_def)

lemma shape_head:
  assumes "shape dummy sl xs"
  shows "keyat sl 0 = dummy" "0 < length (nodes sl)" "sl_levels sl < kMaxLevels"
  using assms by (auto simp: shape_def)

lemma shape_last_node:
  "shape dummy sl xs \<Longrightarrow> length ln = kMaxLevels + 1 \<Longrightarrow> shape dummy (sl\<lparr>last_node := ln\<rparr>) xs"
  by (simp add: shape_def)

lemma shape_new: "shape dummy (SkipList_new dummy) []"
  by (auto simp: shape_def SkipList_new_def kMaxLevels_def cell_def keyat_def height_def nth_append)

context key_order
begin

definition holds :: "'k SkipList \<Rightarrow> 'k list \<Rightarrow> bool" where
  "holds sl ks \<longleftrightarrow> (\<exists>xs. shape sentinel sl xs \<and> ks = map (keyat sl) xs) \<and>
     (\<forall>k\<in>set ks. valid k) \<and> sorted_wrt le ks"

lemma holds_new: "holds (SkipList_new sentinel) []"
  using shape_new by (auto simp: holds_def)

lemma advance_chain:
  assumes "chain (cell sl i) (cell sl i s) (us @ vs)" "valid key" "length us < fuel"
    and "\<And>a. a \<in> set us \<Longrightarrow> valid (keyat sl a) \<and> \<not> le key (keyat sl a)"
    and "vs \<noteq> [] \<Longrightarrow> valid (keyat sl (hd vs)) \<and> le key (keyat sl (hd vs))"
  shows "advance ge sl key i fuel s = Inr (last (s # us))"
  using assms
proof (induction us arbitrary: s fuel)
  case Nil
  then obtain f where f: "fuel = Suc f" by (cases fuel) auto
  show ?case
  proof (cases vs)
    case Nil
    with Nil.prems f show ?thesis by (simp add: res_simps)
  next
    case (Cons v vs')
    with Nil.prems(1) obtain q where "cell sl i s = Some (Node v)" "cell sl i v = Some q"
      by (auto dest: chain_SomeE)
    with Cons f Nil.prems show ?thesis
      by (simp add: res_simps ge_valid cell_SomeD [of sl i v q])
  qed
next
  case (Cons u us)
  then obtain f where f: "fuel = Suc f" by (cases fuel) auto
  from Cons.prems(1) obtain q where "cell sl i s = Some (Node u)" "cell sl i u = Some q"
    "chain (cell sl i) (cell sl i u) (us @ vs)"
    using chain_SomeE by fastforce
  with Cons.prems f Cons.IH [of u f] show ?case
    by (simp add: res_simps ge_valid cell_SomeD [of sl i u q])
qed


text \<open>The node in front of which \<open>key\<close> belongs, per level.\<close>

definition pred_at :: "'k SkipList \<Rightarrow> nat list \<Rightarrow> nat \<Rightarrow> nat" where
  "pred_at sl A i = last (0 # filter (\<lambda>a. i < height sl a) A)"

text \<open>\<open>split_at\<close>: the addresses cut at \<open>key\<close>.\<close>

definition split_at :: "'k SkipList \<Rightarrow> 'k \<Rightarrow> nat list \<Rightarrow> nat list \<Rightarrow> bool" where
  "split_at sl key A B \<longleftrightarrow>
     (\<forall>a\<in>set A. valid (keyat sl a) \<and> \<not> le key (keyat sl a)) \<and>
     (\<forall>b\<in>set B. valid (keyat sl b) \<and> le key (keyat sl b))"

lemma advance_level:
  assumes "shape sentinel sl (A @ B)" "split_at sl key A B" "valid key" "i < kMaxLevels"
  shows "advance ge sl key i (walk_fuel sl) (pred_at sl A (Suc i)) = Inr (pred_at sl A i)"
proof -
  let ?h = "\<lambda>a. i < height sl a"
  obtain pre us where pu: "filter ?h A = pre @ us" "last (0 # pre) = pred_at sl A (Suc i)"
    using last_filter_split [of "\<lambda>a. Suc i < height sl a" ?h A 0] by (auto simp: pred_at_def)
  have "chain (cell sl i) (cell sl i 0) (pre @ us @ filter ?h B)"
    using assms(1,4) pu(1) by (auto simp: shape_def)
  then have c: "chain (cell sl i) (cell sl i (last (0 # pre))) (us @ filter ?h B)"
    by (rule chain_append)
  have "length us \<le> length A" using pu(1) by (metis add_leD2 length_append length_filter_le)
  then have "length us < walk_fuel sl"
    using shape_lengths [OF assms(1)] by simp
  moreover have "set us \<subseteq> set A" using pu(1) by (metis filter_is_subset set_append sup.boundedE)
  moreover have "filter ?h B \<noteq> [] \<Longrightarrow> hd (filter ?h B) \<in> set B"
    by (meson filter_is_subset hd_in_set subsetD)
  ultimately have "advance ge sl key i (walk_fuel sl) (last (0 # pre)) = Inr (last (last (0 # pre) # us))"
    using assms(2,3) by (intro advance_chain [OF c]) (auto simp: split_at_def)
  moreover have "last (last (0 # pre) # us) = pred_at sl A i"
    using pu(1) by (cases us rule: rev_cases) (simp_all add: pred_at_def)
  ultimately show ?thesis using pu(2) by simp
qed

lemma Get_loop_pred:
  assumes "shape sentinel sl (A @ B)" "split_at sl key A B" "valid key" "n \<le> kMaxLevels"
  shows "Get_loop ge sl key n (pred_at sl A n) = Inr (pred_at sl A 0)"
  using assms(4) by (induction n) (simp_all add: advance_level [OF assms(1-3)])

lemma Search_loop_pred:
  assumes "shape sentinel sl (A @ B)" "split_at sl key A B" "valid key" "n \<le> kMaxLevels"
  shows "\<exists>ln. Search_loop ge sl key n (pred_at sl A n) = Inr (pred_at sl A 0, sl\<lparr>last_node := ln\<rparr>) \<and>
    length ln = kMaxLevels + 1 \<and>
    (\<forall>i. ln ! i = (if i < n then Some (pred_at sl A i) else last_node sl ! i))"
  using assms(1,2,4)
proof (induction n arbitrary: sl)
  case 0
  then show ?case by (intro exI [of _ "last_node sl"]) (simp add: shape_def)
next
  case (Suc n)
  let ?ln = "(last_node sl)[n := Some (pred_at sl A n)]"
  let ?sl = "sl\<lparr>last_node := ?ln\<rparr>"
  have len: "length (last_node sl) = kMaxLevels + 1" using Suc.prems(1) by (simp add: shape_def)
  have "shape sentinel ?sl (A @ B)" "split_at ?sl key A B" and p: "pred_at ?sl A = pred_at sl A"
    using Suc.prems len by (simp_all add: shape_last_node split_at_def pred_at_def fun_eq_iff)
  then obtain ln where ln: "Search_loop ge ?sl key n (pred_at sl A n) = Inr (pred_at sl A 0, ?sl\<lparr>last_node := ln\<rparr>)"
    "length ln = kMaxLevels + 1"
    "\<forall>i. ln ! i = (if i < n then Some (pred_at sl A i) else ?ln ! i)"
    using Suc.IH [of ?sl] Suc.prems(3) by auto
  have "ln ! i = (if i < Suc n then Some (pred_at sl A i) else last_node sl ! i)" for i
    using ln(3) len Suc.prems(3) by (auto simp: nth_list_update less_Suc_eq)
  moreover have "Search_loop ge sl key (Suc n) (pred_at sl A (Suc n)) = Inr (pred_at sl A 0, sl\<lparr>last_node := ln\<rparr>)"
    using ln(1) len Suc.prems(3) by (simp add: advance_level [OF Suc.prems(1,2) assms(3)])
  ultimately show ?case using ln(2) by blast
qed

lemma holdsE:
  assumes "holds sl ks" "valid key"
  obtains A B where "shape sentinel sl (A @ B)" "split_at sl key A B"
    "takeWhile (\<lambda>x. \<not> le key x) ks = map (keyat sl) A"
    "dropWhile (\<lambda>x. \<not> le key x) ks = map (keyat sl) B" "ks = map (keyat sl) (A @ B)"
    "\<And>a. a \<in> set (A @ B) \<Longrightarrow> valid (keyat sl a)"
    "sorted_wrt le (map (keyat sl) (A @ B))"
proof -
  let ?P = "\<lambda>a. \<not> le key (keyat sl a)"
  from assms(1) obtain xs where xs: "shape sentinel sl xs" "ks = map (keyat sl) xs"
    "\<forall>k\<in>set ks. valid k" "sorted_wrt le ks" by (auto simp: holds_def)
  let ?A = "takeWhile ?P xs" and ?B = "dropWhile ?P xs"
  have "le key (keyat sl b)" if b: "b \<in> set ?B" for b
  proof -
    obtain x B where B: "?B = x # B" using b by (cases ?B) auto
    have "sorted_wrt le (map (keyat sl) (?A @ ?B))" using xs(2,4) by simp
    then have "sorted_wrt le (map (keyat sl) (x # B))"
      unfolding B map_append sorted_wrt_append by blast
    moreover have "le key (keyat sl x)" using hd_dropWhile [of ?P xs] B by simp
    ultimately have "le key (keyat sl x)" "b = x \<or> le (keyat sl x) (keyat sl b)"
      using b B by auto
    moreover have "x \<in> set ?B" "b \<in> set ?B" using B b by auto
    then have "x \<in> set xs" "b \<in> set xs" by (auto dest: set_dropWhileD)
    ultimately show ?thesis
      using le_trans [of key "keyat sl x" "keyat sl b"] assms(2) xs(2,3) by auto
  qed
  moreover have "\<not> le key (keyat sl a)" "a \<in> set xs" if "a \<in> set ?A" for a
    using set_takeWhileD [OF that] by simp_all
  moreover have "b \<in> set xs" if "b \<in> set ?B" for b using that by (rule set_dropWhileD)
  moreover have "valid (keyat sl a)" if "a \<in> set xs" for a using that xs(2,3) by simp
  ultimately have "split_at sl key ?A ?B" unfolding split_at_def by blast
  moreover have "takeWhile (\<lambda>x. \<not> le key x) ks = map (keyat sl) ?A"
    "dropWhile (\<lambda>x. \<not> le key x) ks = map (keyat sl) ?B"
    unfolding xs(2) by (simp_all add: takeWhile_map dropWhile_map comp_def)
  moreover have "shape sentinel sl (?A @ ?B)" "ks = map (keyat sl) (?A @ ?B)"
    "\<And>a. a \<in> set (?A @ ?B) \<Longrightarrow> valid (keyat sl a)" "sorted_wrt le (map (keyat sl) (?A @ ?B))"
    using xs by simp_all
  ultimately show ?thesis using that by blast
qed

lemma pred_at_0:
  assumes "shape sentinel sl (A @ B)"
  shows "pred_at sl A 0 = last (0 # A)"
proof -
  have "filter (\<lambda>a. 0 < height sl a) A = A"
    using assms by (auto simp: shape_def filter_id_conv)
  then show ?thesis by (simp add: pred_at_def)
qed

lemma pred_at_top:
  assumes "shape sentinel sl (A @ B)" "i \<ge> Suc (sl_levels sl)"
  shows "pred_at sl A i = 0"
proof -
  have "filter (\<lambda>a. i < height sl a) A = []"
    unfolding filter_empty_conv using assms shape_heights [OF assms(1)] by fastforce
  then show ?thesis by (simp add: pred_at_def)
qed

lemma Get_holds:
  assumes "holds sl ks" "valid key"
  shows "\<exists>r. SkipList_Get ge eq sl key = Inr r \<and> map_option (keyat sl) r = find_key le same key ks \<and>
    (\<forall>a. r = Some a \<longrightarrow> node_key sl a = Inr (keyat sl a))"
proof -
  obtain A B where AB: "shape sentinel sl (A @ B)" "split_at sl key A B"
    "takeWhile (\<lambda>x. \<not> le key x) ks = map (keyat sl) A" "\<And>a. a \<in> set (A @ B) \<Longrightarrow> valid (keyat sl a)"
    using holdsE [OF assms] by metis
  have g: "Get_loop ge sl key (Suc (sl_levels sl)) 0 = Inr (last (0 # A))"
    using Get_loop_pred [OF AB(1,2) assms(2), of "sl_levels sl + 1"] pred_at_top [OF AB(1) order_refl]
      pred_at_0 [OF AB(1)] shape_head [OF AB(1)] by (simp del: Get_loop.simps)
  have k: "last (0 # A) < walk_fuel sl"
    using AB(1) by (cases "A = []") (auto simp: shape_def dest: last_in_set)
  show ?thesis
  proof (cases "A = []")
    case True
    then show ?thesis
      using k AB(3) assms(2) shape_head [OF AB(1)]
      by (simp add: SkipList_Get_def g res_simps eq_sentinel find_key_def del: Get_loop.simps)
  next
    case False
    then have "eq (keyat sl (last A)) key = Inr (same (keyat sl (last A)) key)"
      using AB(4) assms(2) by (intro eq_valid) auto
    then show ?thesis
      using False k AB(3)
      by (simp add: SkipList_Get_def g res_simps find_key_def last_map del: Get_loop.simps)
  qed
qed

text \<open>Linking a node of \<open>level + 1\<close> levels behind its predecessors keeps the shape.\<close>

lemma link_shape:
  assumes "shape sentinel sl (A @ B)" "split_at sl key A B"
    and n: "nodes sl3 = nodes sl @ [\<lparr>nkey = key, nnext = replicate (level + 1) None\<rparr>]"
    and l: "sl_levels sl \<le> sl_levels sl3" "level \<le> sl_levels sl3" "sl_levels sl3 < kMaxLevels"
    and z: "sl_size sl3 = sl_size sl"
    and ln: "length (last_node sl3) = kMaxLevels + 1"
      "\<And>i. i \<le> level \<Longrightarrow> last_node sl3 ! i = Some (pred_at sl A i)"
  shows "\<exists>sl'. link_levels sl3 (length (nodes sl)) 0 (level + 1) = Inr sl' \<and>
    shape sentinel (sl'\<lparr>sl_size := sl_size sl' + 1\<rparr>) (A @ length (nodes sl) # B) \<and>
    (\<forall>a<length (nodes sl). keyat sl' a = keyat sl a) \<and> keyat sl' (length (nodes sl)) = key"
proof -
  let ?new = "length (nodes sl)"
  have c3: "cell sl3 = cell sl"
    by (auto simp: fun_eq_iff cell_def n nth_append simp del: replicate.simps replicate_Suc)
  have k3: "a < ?new \<Longrightarrow> keyat sl3 a = keyat sl a \<and> height sl3 a = height sl a"
    "keyat sl3 ?new = key" "height sl3 ?new = level + 1" for a
    by (simp_all add: keyat_def height_def n nth_append)
  have ch: "chain (cell sl i) (cell sl i 0) (filter (\<lambda>a. i < height sl a) A @ filter (\<lambda>a. i < height sl a) B)"
    if "i < kMaxLevels" for i
    using assms(1) that by (simp add: shape_def)
  have set: "set (A @ B) = {1..<?new}" "distinct (A @ B)" "nodes sl \<noteq> []"
    using assms(1) by (simp_all add: shape_def)
  have "cell sl i (pred_at sl A i) \<noteq> None" if "i < kMaxLevels" for i
    using chain_SomeE [OF chain_append [OF ch [OF that]]] by (auto simp: pred_at_def)
  moreover from this have "pred_at sl A i \<noteq> ?new" if "i < kMaxLevels" for i
    using that cell_SomeD by fastforce
  ultimately have "j < length (last_node sl3) \<and> last_node sl3 ! j = Some (pred_at sl A j) \<and>
      pred_at sl A j \<noteq> ?new \<and> cell sl3 j (pred_at sl A j) \<noteq> None" if "j < 0 + (level + 1)" for j
    using that l(2,3) ln c3 by simp
  moreover have "?new < length (nodes sl3)" "0 + (level + 1) \<le> height sl3 ?new"
    using n k3(3) by simp_all
  ultimately have "\<exists>sl'. link_levels sl3 ?new 0 (level + 1) = Inr sl' \<and> same_frame sl3 sl' \<and>
    (\<forall>j. cell sl' j = (if 0 \<le> j \<and> j < 0 + (level + 1)
      then (cell sl3 j)(?new := cell sl3 j (pred_at sl A j), pred_at sl A j := Some (Node ?new))
      else cell sl3 j))"
    by (intro link_levels_cell)
  then obtain sl' where s': "link_levels sl3 ?new 0 (level + 1) = Inr sl'" "same_frame sl3 sl'"
    and cells: "\<forall>j. cell sl' j = (if 0 \<le> j \<and> j < 0 + (level + 1)
      then (cell sl3 j)(?new := cell sl3 j (pred_at sl A j), pred_at sl A j := Some (Node ?new))
      else cell sl3 j)"
    by (elim exE conjE)
  have s'3: "cell sl' j = (if j < level + 1
    then (cell sl j)(?new := cell sl j (pred_at sl A j), pred_at sl A j := Some (Node ?new))
    else cell sl j)" for j
    using cells [rule_format, of j] unfolding c3 by simp
  have fr: "a < ?new \<Longrightarrow> keyat sl' a = keyat sl a \<and> height sl' a = height sl a"
    "keyat sl' ?new = key" "height sl' ?new = level + 1" "length (nodes sl') = Suc ?new" for a
    using s'(2) k3 n by (auto simp: same_frame_def)
  have flt: "filter (\<lambda>a. i < height sl' a) A = filter (\<lambda>a. i < height sl a) A"
    "filter (\<lambda>a. i < height sl' a) B = filter (\<lambda>a. i < height sl a) B" for i
    using shape_addr [OF assms(1)] fr(1) by (auto intro!: filter_cong)
  have "chain (cell sl' i) (cell sl' i 0) (filter (\<lambda>a. i < height sl' a) (A @ ?new # B))"
    if "i < kMaxLevels" for i
  proof (cases "i < level + 1")
    case True
    have new: "0 \<notin> set (A @ B)" "?new \<notin> set (0 # A @ B)" using set by auto
    have "chain (cell sl' i) (cell sl' i 0)
        (filter (\<lambda>a. i < height sl a) A @ ?new # filter (\<lambda>a. i < height sl a) B)"
      by (rule chain_splice [OF ch [OF that]])
        (use new set(2) True s'3 [of i] in \<open>auto simp: pred_at_def\<close>)
    with True show ?thesis by (simp add: flt fr)
  next
    case False
    with ch [OF that] show ?thesis by (simp add: flt fr s'3)
  qed
  moreover have "\<forall>a\<in>set (A @ ?new # B). 0 < height sl' a \<and> height sl' a \<le> sl_levels sl' + 1"
  proof (rule ballI)
    fix a assume a: "a \<in> set (A @ ?new # B)"
    show "0 < height sl' a \<and> height sl' a \<le> sl_levels sl' + 1"
    proof (cases "a = ?new")
      case False
      then have "a \<in> set (A @ B)" "a < ?new" using a set(1) by auto
      then show ?thesis
        using shape_heights [OF assms(1)] fr(1) [of a] l(1) s'(2) by (fastforce simp: same_frame_def)
    qed (use fr l(2) s'(2) in \<open>simp add: same_frame_def\<close>)
  qed
  moreover have "distinct (A @ ?new # B)" using set(1,2) by auto
  moreover have "set (A @ ?new # B) = {1..<length (nodes sl')}"
    using set(1,3) fr(4) by (auto simp: atLeastLessThanSuc Suc_le_eq)
  moreover have "sl_size sl' + 1 = length (A @ ?new # B)" "keyat sl' 0 = sentinel"
    "height sl' 0 = kMaxLevels + 1" "cell sl' kMaxLevels 0 = None"
    "length (last_node sl') = kMaxLevels + 1" "sl_levels sl' < kMaxLevels" "nodes sl' \<noteq> []"
    using assms(1) s'(2) l(2,3) z ln(1) s'3 [of kMaxLevels] fr(1) [of 0] fr(4)
    by (auto simp: shape_def same_frame_def)
  ultimately have "shape sentinel (sl'\<lparr>sl_size := sl_size sl' + 1\<rparr>) (A @ ?new # B)"
    unfolding shape_def store_update by (intro conjI allI impI) (simp_all del: set_append set_simps)
  with s'(1) fr show ?thesis
    by (intro exI [of _ sl'] conjI allI impI) simp_all
qed

lemma pred_linked:
  assumes "shape sentinel sl (A @ B)" "i < kMaxLevels"
  shows "\<exists>p. cell sl i (pred_at sl A i) = Some p"
proof -
  have "chain (cell sl i) (cell sl i 0) (filter (\<lambda>a. i < height sl a) A @ filter (\<lambda>a. i < height sl a) B)"
    using assms by (simp add: shape_def)
  then show ?thesis unfolding pred_at_def by (rule chain_SomeE [OF chain_append])
qed

lemma Insert_search:
  assumes AB: "shape sentinel sl (A @ B)" "split_at sl key A B" and key: "valid key"
  obtains ln p0 where "Search ge sl key = Inr (p0, sl\<lparr>last_node := ln\<rparr>)"
    "length ln = kMaxLevels + 1" "\<And>i. i \<le> sl_levels sl \<Longrightarrow> ln ! i = Some (pred_at sl A i)"
proof -
  obtain ln where ln: "Search_loop ge sl key (Suc (sl_levels sl)) 0 = Inr (pred_at sl A 0, sl\<lparr>last_node := ln\<rparr>)"
    "length ln = kMaxLevels + 1" "\<And>i. i \<le> sl_levels sl \<Longrightarrow> ln ! i = Some (pred_at sl A i)"
    using Search_loop_pred [OF AB key, of "sl_levels sl + 1"] pred_at_top [OF AB(1) order_refl]
      shape_head [OF AB(1)] by (auto simp: less_Suc_eq_le simp del: Search_loop.simps)
  obtain p0 where "cell sl 0 (pred_at sl A 0) = Some p0"
    using pred_linked [OF AB(1), of 0] by (auto simp: kMaxLevels_def)
  then have "Search ge sl key = Inr (p0, sl\<lparr>last_node := ln\<rparr>)"
    by (simp add: Search_def ln(1) res_simps del: Search_loop.simps)
  with ln that show ?thesis by blast
qed

lemma Insert_shape:
  assumes AB: "shape sentinel sl (A @ B)" "split_at sl key A B" and key: "valid key"
    and lev: "RandomLevel rs = Inr lev"
    and low: "sl_levels sl + 1 < kMaxLevels \<or> lev \<le> sl_levels sl"
  shows "\<exists>sl'. SkipList_Insert ge sl key rs = Inr sl' \<and>
    shape sentinel sl' (A @ length (nodes sl) # B) \<and>
    (\<forall>a<length (nodes sl). keyat sl' a = keyat sl a) \<and> keyat sl' (length (nodes sl)) = key"
proof -
  let ?raised = "lev > sl_levels sl"
  let ?level = "if ?raised then sl_levels sl + 1 else lev"
  obtain ln p0 where search: "Search ge sl key = Inr (p0, sl\<lparr>last_node := ln\<rparr>)"
    and ln: "length ln = kMaxLevels + 1" "\<And>i. i \<le> sl_levels sl \<Longrightarrow> ln ! i = Some (pred_at sl A i)"
    using Insert_search [OF AB key] by metis
  define sl2 where "sl2 = (if ?raised
    then sl\<lparr>sl_levels := ?level, last_node := ln[?level := Some 0]\<rparr> else sl\<lparr>last_node := ln\<rparr>)"
  let ?sl3 = "sl2\<lparr>nodes := nodes sl2 @ [\<lparr>nkey = key, nnext = replicate (?level + 1) None\<rparr>]\<rparr>"
  have last: "last_node ?sl3 ! i = Some (pred_at sl A i)" if "i \<le> ?level" for i
    using that ln shape_head(3) [OF AB(1)] low pred_at_top [OF AB(1), of i]
    by (auto simp: sl2_def nth_list_update le_Suc_eq split: if_splits)
  have "\<exists>sl'. link_levels ?sl3 (length (nodes sl)) 0 (?level + 1) = Inr sl' \<and>
    shape sentinel (sl'\<lparr>sl_size := sl_size sl' + 1\<rparr>) (A @ length (nodes sl) # B) \<and>
    (\<forall>a<length (nodes sl). keyat sl' a = keyat sl a) \<and> keyat sl' (length (nodes sl)) = key"
    using shape_head(3) [OF AB(1)] low ln(1) last
    by (intro link_shape [OF AB]) (auto simp: sl2_def)
  then obtain sl' where sl': "link_levels ?sl3 (length (nodes sl)) 0 (?level + 1) = Inr sl'"
    "shape sentinel (sl'\<lparr>sl_size := sl_size sl' + 1\<rparr>) (A @ length (nodes sl) # B)"
    "\<forall>a<length (nodes sl). keyat sl' a = keyat sl a" "keyat sl' (length (nodes sl)) = key"
    by blast
  have "SkipList_Insert ge sl key rs = Inr (sl'\<lparr>sl_size := sl_size sl' + 1\<rparr>)"
    using search lev sl'(1)
    by (cases ?raised) (simp_all add: SkipList_Insert_def Let_def sl2_def del: link_levels.simps)
  with sl' show ?thesis by auto
qed

text \<open>At the top of the tower the insertion reads \<open>head_->next_[kMaxLevels]\<close>, which the
  constructor does not write.\<close>

lemma Insert_top_level:
  assumes AB: "shape sentinel sl (A @ B)" "split_at sl key A B" and key: "valid key"
    and lev: "RandomLevel rs = Inr lev" "lev > sl_levels sl" "sl_levels sl + 1 = kMaxLevels"
  shows "SkipList_Insert ge sl key rs = Inl Uninit"
proof -
  let ?new = "length (nodes sl)"
  obtain ln p0 where search: "Search ge sl key = Inr (p0, sl\<lparr>last_node := ln\<rparr>)"
    and ln: "length ln = kMaxLevels + 1" "\<And>i. i \<le> sl_levels sl \<Longrightarrow> ln ! i = Some (pred_at sl A i)"
    using Insert_search [OF AB key] by metis
  define sl2 where "sl2 = sl\<lparr>sl_levels := kMaxLevels, last_node := ln[kMaxLevels := Some 0]\<rparr>"
  define sl3 where "sl3 = sl2\<lparr>nodes := nodes sl2 @ [\<lparr>nkey = key, nnext = replicate (kMaxLevels + 1) None\<rparr>]\<rparr>"
  have n: "length (nodes sl3) = Suc ?new" "height sl3 ?new = kMaxLevels + 1"
    "0 < ?new" "height sl3 0 = height sl 0"
    using shape_head(2) [OF AB(1)] by (simp_all add: sl3_def sl2_def height_def nth_append)
  have c: "cell sl3 = cell sl"
    by (auto simp: sl3_def sl2_def cell_def fun_eq_iff nth_append
        simp del: replicate.simps replicate_Suc)
  have "last_node sl3 ! j = Some (pred_at sl A j)" if "j < kMaxLevels" for j
    using that lev ln by (simp add: sl3_def sl2_def)
  moreover have "length (last_node sl3) = kMaxLevels + 1"
    "last_node sl3 ! kMaxLevels = Some 0" using ln(1) by (simp_all add: sl3_def sl2_def)
  moreover have "pred_at sl A j \<noteq> ?new \<and> cell sl3 j (pred_at sl A j) \<noteq> None" if "j < kMaxLevels" for j
    using pred_linked [OF AB(1) that] cell_SomeD unfolding c by fastforce
  ultimately obtain sl4 where sl4: "link_levels sl3 ?new 0 kMaxLevels = Inr sl4" "same_frame sl3 sl4"
    "cell sl4 kMaxLevels = cell sl3 kMaxLevels"
    using link_levels_cell [of ?new sl3 0 kMaxLevels "pred_at sl A"] n by auto
  have "get_next sl4 0 kMaxLevels = Inl Uninit"
    using sl4(2,3) n AB(1) unfolding c by (intro get_next_uninit) (auto simp: shape_def same_frame_def)
  moreover have "last_node sl4 ! kMaxLevels = Some 0" "length (last_node sl4) = kMaxLevels + 1"
    using sl4(2) ln(1) by (simp_all add: same_frame_def sl3_def sl2_def)
  ultimately have "link_levels sl3 ?new 0 (kMaxLevels + 1) = Inl Uninit"
    unfolding link_levels_add sl4(1) by (simp add: rd_def)
  then show ?thesis
    using search lev
    by (simp add: SkipList_Insert_def Let_def sl3_def sl2_def del: link_levels.simps)
qed

lemma insert_key_cong:
  assumes "split_at sl key A B"
  shows "insert_key le key (map (keyat sl) (A @ B)) = map (keyat sl) A @ key # map (keyat sl) B"
proof -
  let ?P = "\<lambda>x. \<not> le key x"
  have A: "\<And>x. x \<in> set (map (keyat sl) A) \<Longrightarrow> ?P x" using assms by (auto simp: split_at_def)
  have B: "takeWhile ?P (map (keyat sl) B) = []" "dropWhile ?P (map (keyat sl) B) = map (keyat sl) B"
    using assms by (cases B; simp add: split_at_def)+
  show ?thesis
    unfolding insert_key_def map_append
    by (subst takeWhile_append2 [OF A], assumption, subst dropWhile_append2 [OF A], assumption)
      (simp add: B)
qed

text \<open>\<open>Insert\<close> refines insertion into the sorted list, as long as the tower of levels is
  not about to reach \<open>kMaxLevels\<close>.\<close>

lemma Insert_holds:
  assumes "holds sl ks" "valid key" "RandomLevel rs = Inr lev"
    and "sl_levels sl + 1 < kMaxLevels \<or> lev \<le> sl_levels sl"
  shows "\<exists>sl'. SkipList_Insert ge sl key rs = Inr sl' \<and> holds sl' (insert_key le key ks)"
proof -
  obtain A B where AB: "shape sentinel sl (A @ B)" "split_at sl key A B"
    "ks = map (keyat sl) (A @ B)" "\<And>a. a \<in> set (A @ B) \<Longrightarrow> valid (keyat sl a)"
    "sorted_wrt le (map (keyat sl) (A @ B))"
    using holdsE [OF assms(1,2)] by metis
  obtain sl' where sl': "SkipList_Insert ge sl key rs = Inr sl'"
    "shape sentinel sl' (A @ length (nodes sl) # B)"
    "\<forall>a<length (nodes sl). keyat sl' a = keyat sl a" "keyat sl' (length (nodes sl)) = key"
    using Insert_shape [OF AB(1,2) assms(2-4)] by blast
  have m: "map (keyat sl') A = map (keyat sl) A" "map (keyat sl') B = map (keyat sl) B"
    using shape_addr [OF AB(1)] sl'(3) by auto
  have "sorted_wrt le (map (keyat sl) A @ key # map (keyat sl) B)"
    using AB(2,5) assms(2) le_total by (fastforce simp: sorted_wrt_append split_at_def)
  then have "holds sl' (insert_key le key ks)"
    unfolding holds_def AB(3) insert_key_cong [OF AB(2)]
    using sl'(2,4) m AB(4) assms(2) by auto
  with sl'(1) show ?thesis by blast
qed

lemma EntrySet_loop_chain:
  "chain (cell sl 0) (Some p) us \<Longrightarrow> length us \<le> fuel \<Longrightarrow> EntrySet_loop sl fuel p = Inr (map (keyat sl) us)"
proof (induction us arbitrary: p fuel)
  case (Cons u us)
  then obtain f q where "fuel = Suc f" "cell sl 0 u = Some q" "p = Node u"
    by (cases fuel) (auto dest: chain_SomeE)
  with Cons show ?case by (simp add: res_simps cell_SomeD [of sl 0 u q])
qed simp

lemma holds_chain0:
  assumes "shape dummy sl xs"
  shows "chain (cell sl 0) (cell sl 0 0) xs"
proof -
  have "filter (\<lambda>a. 0 < height sl a) xs = xs"
    using assms by (auto simp: shape_def filter_id_conv)
  moreover have "\<forall>i<kMaxLevels. chain (cell sl i) (cell sl i 0) (filter (\<lambda>a. i < height sl a) xs)"
    using assms by (simp add: shape_def)
  then have "chain (cell sl 0) (cell sl 0 0) (filter (\<lambda>a. 0 < height sl a) xs)"
    by (auto simp: kMaxLevels_def)
  ultimately show ?thesis by simp
qed

lemma EntrySet_holds: "holds sl ks \<Longrightarrow> EntrySet sl = Inr ks"
proof -
  assume "holds sl ks"
  then obtain xs where xs: "shape sentinel sl xs" "ks = map (keyat sl) xs" by (auto simp: holds_def)
  then obtain p where "cell sl 0 0 = Some p" "chain (cell sl 0) (Some p) xs"
    using holds_chain0 [OF xs(1)] chain_SomeE by metis
  then show ?thesis
    using xs shape_lengths [OF xs(1)] by (simp add: EntrySet_def res_simps EntrySet_loop_chain)
qed

lemma NodeCount_loop_chain:
  "chain (cell sl 0) (Some p) us \<Longrightarrow> length us \<le> fuel \<Longrightarrow> NodeCount_loop sl fuel p n = Inr (n + length us)"
proof (induction us arbitrary: p fuel n)
  case (Cons u us)
  then obtain f q where "fuel = Suc f" "cell sl 0 u = Some q" "p = Node u"
    by (cases fuel) (auto dest: chain_SomeE)
  with Cons show ?case by (simp add: res_simps)
qed simp

lemma NodeCount_holds:
  assumes "holds sl ks"
  shows "NodeCount sl = Inr (length ks + 2) \<and> sl_size sl = length ks"
proof -
  from assms obtain xs where xs: "shape sentinel sl xs" "ks = map (keyat sl) xs" by (auto simp: holds_def)
  then have "chain (cell sl 0) (Some (Node 0)) (0 # xs)"
    using holds_chain0 [OF xs(1)] by simp
  then show ?thesis
    using NodeCount_loop_chain [of sl "Node 0" "0 # xs" "walk_fuel sl" 0] shape_lengths [OF xs(1)] xs
    by (simp add: NodeCount_def shape_def)
qed

lemma free_nodes_chain:
  "chain (cell sl 0) (Some p) us \<Longrightarrow> length us \<le> fuel \<Longrightarrow> distinct (freed @ a # us) \<Longrightarrow>
    free_nodes sl fuel freed a p = Inr (freed @ a # us)"
proof (induction us arbitrary: p fuel freed a)
  case (Cons u us)
  then obtain f q where "fuel = Suc f" "cell sl 0 u = Some q" "p = Node u"
    by (cases fuel) (auto dest: chain_SomeE)
  with Cons.prems Cons.IH [of q f "freed @ [a]" u] show ?case by (simp add: res_simps)
qed simp

lemma delete_holds:
  assumes "holds sl ks"
  shows "\<exists>freed. SkipList_delete sl = Inr freed \<and> distinct freed \<and> set freed = {..<length (nodes sl)}"
proof -
  from assms obtain xs where xs: "shape sentinel sl xs" by (auto simp: holds_def)
  then obtain p where p: "cell sl 0 0 = Some p" "chain (cell sl 0) (Some p) xs"
    using holds_chain0 [OF xs(1)] chain_SomeE by metis
  have "distinct (0 # xs)" "set (0 # xs) = {..<length (nodes sl)}" using xs by (auto simp: shape_def)
  moreover from this have "SkipList_delete sl = Inr (0 # xs)"
    using p free_nodes_chain [OF p(2), of "walk_fuel sl" "[]" 0] shape_lengths [OF xs]
    by (simp add: SkipList_delete_def res_simps)
  ultimately show ?thesis by blast
qed

lemma Insert_top_level_holds:
  assumes "holds sl ks" "valid key" "RandomLevel rs = Inr lev" "lev > sl_levels sl"
    and "sl_levels sl + 1 = kMaxLevels"
  shows "SkipList_Insert ge sl key rs = Inl Uninit"
proof -
  obtain A B where "shape sentinel sl (A @ B)" "split_at sl key A B"
    using holdsE [OF assms(1,2)] by metis
  then show ?thesis using Insert_top_level assms(2-5) by blast
qed

lemma holds_sorted: "holds sl ks \<Longrightarrow> sorted_wrt le ks"
  by (simp add: holds_def)

lemma holds_valid: "holds sl ks \<Longrightarrow> k \<in> set ks \<Longrightarrow> valid k"
  by (simp add: holds_def)

end

context strict_key_order
begin

lemma IsNodeAscend_chain:
  assumes "chain (cell sl 0) (cell sl 0 p) us" "length us < fuel" "p < length (nodes sl)"
    and "\<And>a. a \<in> set us \<Longrightarrow> valid (keyat sl a)" "keyat sl p = sentinel \<or> valid (keyat sl p)"
    and "sorted_wrt le (map (keyat sl) us)"
    and "valid (keyat sl p) \<Longrightarrow> \<forall>a\<in>set us. le (keyat sl p) (keyat sl a)"
  shows "IsNodeAscend_loop gt sl fuel p = Inr True"
  using assms
proof (induction us arbitrary: p fuel)
  case Nil
  then show ?case by (cases fuel) (auto simp: get_next_cell)
next
  case (Cons u us)
  then obtain f q where f: "fuel = Suc f" and u: "cell sl 0 p = Some (Node u)" "cell sl 0 u = Some q"
    using chain_SomeE by (cases fuel) fastforce+
  have "gt (keyat sl p) (keyat sl u) = Inr False"
    using Cons.prems(4-7) gt_sentinel gt_valid by auto
  moreover have "u < length (nodes sl)" using cell_SomeD [OF u(2)] by simp
  moreover have "IsNodeAscend_loop gt sl f u = Inr True"
    using Cons.prems f cell_SomeD [OF u(2)] by (intro Cons.IH) auto
  ultimately show ?case
    using f Cons.prems(3) by (simp add: get_next_cell [OF u(1)] node_key_keyat)
qed

lemma IsNodeAscend_holds:
  assumes "holds sl ks"
  shows "IsNodeAscend gt sl = Inr True"
proof -
  from assms obtain xs where xs: "shape sentinel sl xs" "ks = map (keyat sl) xs"
    "\<forall>k\<in>set ks. valid k" "sorted_wrt le ks" by (auto simp: holds_def)
  have "le sentinel y" if "valid sentinel" "valid y" for y
    using gt_valid [OF that] gt_sentinel [OF that(2)] by simp
  then show ?thesis
    unfolding IsNodeAscend_def
    by (intro IsNodeAscend_chain [OF holds_chain0 [OF xs(1)]])
      (use xs shape_lengths [OF xs(1)] shape_head [OF xs(1)] in auto)
qed

end

section \<open>Properties\<close>

text \<open>A run of insertions, each with the values \<open>rand()\<close> returns to it.\<close>

fun insert_all :: "bytes SkipList \<Rightarrow> (bytes \<times> nat list) list \<Rightarrow> bytes SkipList res" where
  "insert_all sl [] = Inr sl"
| "insert_all sl ((e, rs) # ops) =
     rbind (SkipList_Insert IEC_GreaterOrEquals sl e rs) (\<lambda>sl'. insert_all sl' ops)"

lemma mset_insert_key: "mset (insert_key le k ks) = add_mset k (mset ks)"
  by (induction ks) (auto simp: insert_key_def)

lemma insert_all_holds:
  assumes "iec.holds sl ks"
    and "\<forall>(e, rs)\<in>set ops. ordered_entry e \<and> (\<exists>lev<kMaxLevels. RandomLevel rs = Inr lev)"
  shows "\<exists>sl' ks'. insert_all sl ops = Inr sl' \<and> iec.holds sl' ks' \<and>
    mset ks' = mset ks + mset (map fst ops)"
  using assms
proof (induction ops arbitrary: sl ks)
  case Nil
  then show ?case by auto
next
  case (Cons op ops)
  obtain e rs where op: "op = (e, rs)" by (cases op)
  with Cons.prems obtain lev where e: "ordered_entry e" "RandomLevel rs = Inr lev" "lev < kMaxLevels"
    by auto
  have "sl_levels sl < kMaxLevels"
    using Cons.prems(1) shape_head(3) by (auto simp: iec.holds_def)
  with e(3) have "sl_levels sl + 1 < kMaxLevels \<or> lev \<le> sl_levels sl" by linarith
  then obtain sl1 where sl1: "SkipList_Insert IEC_GreaterOrEquals sl e rs = Inr sl1"
    "iec.holds sl1 (insert_key (\<lambda>x y. ent_le (ent_of x) (ent_of y)) e ks)"
    using iec.Insert_holds [OF Cons.prems(1) e(1,2)] by blast
  obtain sl' ks' where "insert_all sl1 ops = Inr sl'" "iec.holds sl' ks'"
    "mset ks' = mset (insert_key (\<lambda>x y. ent_le (ent_of x) (ent_of y)) e ks) + mset (map fst ops)"
    using Cons.IH [OF sl1(2)] Cons.prems(2) by auto
  with op sl1(1) show ?case by (auto simp: mset_insert_key)
qed

text \<open>C11. Any run of insertions into a new skip list, whatever the random heights below the
  top level, succeeds (no walk is cut short, no unwritten pointer is read) and leaves a list
  that holds exactly the inserted entries in the order of key and id; the counters and the
  self-check of the class agree, and the destructor deletes every node once.\<close>

theorem skiplist_inserts_sort:
  assumes "\<forall>(e, rs)\<in>set ops. ordered_entry e \<and> (\<exists>lev<kMaxLevels. RandomLevel rs = Inr lev)"
  shows "\<exists>sl es. insert_all (SkipList_new invalid_key) ops = Inr sl \<and>
    EntrySet sl = Inr es \<and> mset es = mset (map fst ops) \<and>
    sorted_wrt (\<lambda>x y. ent_le (ent_of x) (ent_of y)) es \<and>
    sl_size sl = length ops \<and> NodeCount sl = Inr (length ops + 2) \<and>
    IsNodeAscend IEC_Greater sl = Inr True \<and>
    (\<exists>freed. SkipList_delete sl = Inr freed \<and> distinct freed \<and> set freed = {..<length (nodes sl)})"
proof -
  obtain sl es where r: "insert_all (SkipList_new invalid_key) ops = Inr sl" "iec.holds sl es"
    "mset es = mset (map fst ops)"
    using insert_all_holds [OF iec.holds_new assms] by auto
  from r(3) have "length es = length ops" by (metis length_map size_mset)
  with r show ?thesis
    using iec.EntrySet_holds iec.holds_sorted iec.NodeCount_holds iec.IsNodeAscend_holds iec.delete_holds
    by metis
qed

theorem skiplist_inserts_sort_witness:
  "\<exists>sl es. insert_all (SkipList_new invalid_key)
      [(entry_bytes [98] [1] 0 kInsert, [4, 8, 1]), (entry_bytes [97] [] 1 kDelete, [3])] = Inr sl \<and>
    EntrySet sl = Inr es \<and> sl_size sl = 2"
proof -
  have "ordered_entry (entry_bytes [98] [1] 0 kInsert)" "ordered_entry (entry_bytes [97] [] 1 kDelete)"
    by (auto simp: fits_def)
  moreover have "RandomLevel [4, 8, 1] = Inr 2" "RandomLevel [3] = Inr 0"
    by (simp_all add: RandomLevel_def SelectedInProb1DivdN_def RandomUniform_def kMaxLevels_def)
  ultimately show ?thesis
    using skiplist_inserts_sort [of "[(entry_bytes [98] [1] 0 kInsert, [4, 8, 1]),
      (entry_bytes [97] [] 1 kDelete, [3])]"]
    by (auto simp: kMaxLevels_def numeral_2_eq_2)
qed

text \<open>How the number of levels in use grows.\<close>

lemma link_levels_levels: "link_levels sl new i n = Inr sl' \<Longrightarrow> sl_levels sl' = sl_levels sl"
  by (induction n arbitrary: sl i)
    (auto simp: res_simps set_next_def split: option.splits if_splits)

lemma Search_loop_levels: "Search_loop gq sl key n b = Inr (r, sl') \<Longrightarrow> sl_levels sl' = sl_levels sl"
  by (induction n arbitrary: sl b) (auto simp: res_simps split: if_splits)

lemma Insert_levels:
  "SkipList_Insert gq sl key rs = Inr sl' \<Longrightarrow> RandomLevel rs = Inr lev \<Longrightarrow>
    sl_levels sl' = (if lev > sl_levels sl then sl_levels sl + 1 else sl_levels sl)"
  by (auto simp: SkipList_Insert_def Search_def Let_def res_simps
      dest!: Search_loop_levels link_levels_levels simp del: link_levels.simps Search_loop.simps
      split: if_splits)

lemma insert_all_top:
  assumes "iec.holds sl ks" "\<forall>(e, rs)\<in>set ops. ordered_entry e \<and> RandomLevel rs = Inr kMaxLevels"
    and "sl_levels sl + length ops = kMaxLevels" "ops \<noteq> []"
  shows "insert_all sl ops = Inl Uninit"
  using assms
proof (induction ops arbitrary: sl ks)
  case (Cons op ops)
  obtain e rs where op: "op = (e, rs)" "ordered_entry e" "RandomLevel rs = Inr kMaxLevels"
    using Cons.prems(2) by (cases op) auto
  show ?case
  proof (cases "ops = []")
    case True
    with op Cons.prems(1,3) show ?thesis
      by (simp add: iec.Insert_top_level_holds [OF Cons.prems(1) op(2,3)])
  next
    case False
    then have low: "sl_levels sl + 1 < kMaxLevels" using Cons.prems(3) by (cases ops) auto
    then obtain sl1 where sl1: "SkipList_Insert IEC_GreaterOrEquals sl e rs = Inr sl1"
      "iec.holds sl1 (insert_key (\<lambda>x y. ent_le (ent_of x) (ent_of y)) e ks)"
      using iec.Insert_holds [OF Cons.prems(1) op(2,3)] by blast
    have "sl_levels sl1 = sl_levels sl + 1"
      using Insert_levels [OF sl1(1) op(3)] low by simp
    then show ?thesis
      using Cons.IH [OF sl1(2)] Cons.prems(2,3) False op(1) sl1(1) by simp
  qed
qed simp

text \<open>The top level is unusable: once twelve insertions have drawn the height
  \<open>kMaxLevels\<close>, the twelfth copies \<open>head_->next_[12]\<close>, which the constructor (its loop runs
  to \<open>kMaxLevels - 1\<close>) never initialises.\<close>

theorem skiplist_top_level_uninitialised:
  assumes "\<forall>(e, rs)\<in>set ops. ordered_entry e \<and> RandomLevel rs = Inr kMaxLevels"
    and "length ops = kMaxLevels"
  shows "insert_all (SkipList_new invalid_key) ops = Inl Uninit"
proof (rule insert_all_top [OF iec.holds_new assms(1)])
  show "sl_levels (SkipList_new invalid_key) + length ops = kMaxLevels"
    by (simp add: SkipList_new_def assms(2))
  show "ops \<noteq> []" using assms(2) by (auto simp: kMaxLevels_def)
qed

lemma RandomLevel_loop_zeros: "RandomLevel_loop (replicate n 0 @ [1]) lev = Inr (lev + n)"
  by (induction n arbitrary: lev) (simp_all add: SelectedInProb1DivdN_def RandomUniform_def)

theorem skiplist_top_level_uninitialised_witness:
  "insert_all (SkipList_new invalid_key)
     (replicate 12 (entry_bytes [97] [] 1 kInsert, replicate 13 0 @ [1])) = Inl Uninit"
proof (rule skiplist_top_level_uninitialised)
  have "RandomLevel (replicate 13 0 @ [1]) = Inr kMaxLevels"
    by (simp only: RandomLevel_def RandomLevel_loop_zeros) (simp add: kMaxLevels_def)
  then show "\<forall>(e, rs)\<in>set (replicate 12 (entry_bytes [97] [] 1 kInsert, replicate 13 0 @ [1])).
      ordered_entry e \<and> RandomLevel rs = Inr kMaxLevels"
    by (auto simp: fits_def)
qed (simp add: kMaxLevels_def)

end
