(* ===== verification/DbTable.thy ===== *)
theory DbTable
  imports SkipListProofs MemAllocator
begin

text \<open>
  The memory table of \<open>src/table/db_table.cc\<close>: a skip list of entries, two allocators (one
  for entries, one for query keys) and the next entry id. A fresh buffer of the allocator
  is \<open>fresh_buffer\<close>; \<open>EncodeInternal\<close> overwrites all of it. The table lock is not state of
  this sequential model.

  The table refines a map from keys to the latest operation on the key.
\<close>

section \<open>State and operations\<close>

record table =
  skl :: "bytes SkipList"
  mem_allocator :: allocator
  query_allocator :: allocator
  entry_id :: u64

definition TCTable_new :: "u64 \<Rightarrow> table" where
  "TCTable_new first_entry_id =
     \<lparr>skl = SkipList_new invalid_key, mem_allocator = MemAllocator_default,
      query_allocator = MemAllocator_default, entry_id = first_entry_id\<rparr>"

definition fresh_buffer :: "nat \<Rightarrow> bytes" where
  "fresh_buffer n = replicate n 0"

definition key_entry_size :: "bytes \<Rightarrow> nat" where
  "key_entry_size key = SizeOfVarint (of_nat (length key)) + length key + 9"

definition insert_entry_size :: "bytes \<Rightarrow> bytes \<Rightarrow> nat" where
  "insert_entry_size key val =
     SizeOfVarint (of_nat (length key)) + length key + 9 +
     SizeOfVarint (of_nat (length val)) + length val"

text \<open>The part \<open>Insert\<close> and \<open>Delete\<close> share: allocate, encode with \<open>entry_id_++\<close>, insert.\<close>

definition TCTable_put :: "table \<Rightarrow> nat \<Rightarrow> bytes \<Rightarrow> bytes \<Rightarrow> OpType \<Rightarrow> nat list \<Rightarrow> (Status \<times> table) res" where
  "TCTable_put t n key val op rs =
     (let (_, ma) = Allocate (mem_allocator t) n; t1 = t\<lparr>mem_allocator := ma\<rparr> in
      rbind (EncodeInternal key val (entry_id t1) op (fresh_buffer n)) (\<lambda>(enc, internal_entry).
      let t2 = t1\<lparr>entry_id := entry_id t1 + 1\<rparr> in
      if StatusNoError enc
      then rmap (\<lambda>sl. (NoError, t2\<lparr>skl := sl\<rparr>))
             (SkipList_Insert IEC_GreaterOrEquals (skl t2) internal_entry rs)
      else Inr (NoError, t2)))"

definition TCTable_Insert :: "table \<Rightarrow> bytes \<Rightarrow> bytes \<Rightarrow> nat list \<Rightarrow> (Status \<times> table) res" where
  "TCTable_Insert t key val rs = TCTable_put t (insert_entry_size key val) key val kInsert rs"

definition TCTable_Delete :: "table \<Rightarrow> bytes \<Rightarrow> nat list \<Rightarrow> (Status \<times> table) res" where
  "TCTable_Delete t key rs = TCTable_put t (key_entry_size key) key [] kDelete rs"

text \<open>\<open>Get(const char*)\<close>: the empty sequence stands for "not found".\<close>

definition TCTable_Get_entry :: "table \<Rightarrow> bytes \<Rightarrow> bytes res" where
  "TCTable_Get_entry t internal_entry =
     rbind (SkipList_Get IEC_GreaterOrEquals IEC_Equal (skl t) internal_entry) (\<lambda>the_node.
     case the_node of
       None \<Rightarrow> Inr []
     | Some a \<Rightarrow>
         rbind (node_key (skl t) a) (\<lambda>e.
         rbind (EntryOpType e) (\<lambda>op. if op = kInsert then EntryValue e else Inr [])))"

definition query_entry :: "table \<Rightarrow> bytes \<Rightarrow> ((Status \<times> bytes) \<times> table) res" where
  "query_entry t key =
     (let n = key_entry_size key; (_, qa) = Allocate (query_allocator t) n in
      rmap (\<lambda>r. (r, t\<lparr>query_allocator := qa\<rparr>)) (EncodeInternal key [] (0 - 1) kDelete (fresh_buffer n)))"

definition TCTable_Get :: "table \<Rightarrow> bytes \<Rightarrow> (bytes \<times> table) res" where
  "TCTable_Get t key =
     rbind (query_entry t key) (\<lambda>((enc, internal_entry), t1).
     if StatusNoError enc
     then rmap (\<lambda>v. (v, t1)) (TCTable_Get_entry t1 internal_entry)
     else Inr ([], t1))"

definition TCTable_ContainsKey :: "table \<Rightarrow> bytes \<Rightarrow> (bool \<times> table) res" where
  "TCTable_ContainsKey t key =
     rbind (query_entry t key) (\<lambda>((enc, internal_entry), t1).
     if StatusNoError enc
     then rbind (SkipList_Get IEC_GreaterOrEquals IEC_Equal (skl t1) internal_entry) (\<lambda>the_node.
       case the_node of
         None \<Rightarrow> Inr (False, t1)
       | Some a \<Rightarrow>
           rbind (node_key (skl t1) a) (\<lambda>e.
           rbind (EntryOpType e) (\<lambda>op. Inr (op = kInsert, t1))))
     else Inr (False, t1))"

definition TCTable_EntrySet :: "table \<Rightarrow> bytes list res" where
  "TCTable_EntrySet t = EntrySet (skl t)"

definition TCTable_MemUsage :: "table \<Rightarrow> u32" where
  "TCTable_MemUsage t = MemUsage (mem_allocator t)"

section \<open>The entries of a key in a sorted list\<close>

abbreviation le_entry :: "bytes \<Rightarrow> bytes \<Rightarrow> bool" where
  "le_entry x y \<equiv> ent_le (ent_of x) (ent_of y)"

abbreviation same_key :: "bytes \<Rightarrow> bytes \<Rightarrow> bool" where
  "same_key x y \<equiv> fst (ent_of x) = fst (ent_of y)"

lemma ent_le_key: "ent_le a b \<Longrightarrow> key_le (fst a) (fst b)"
  by (auto simp: ent_le_def split: if_splits)

text \<open>A query carries the largest id, so the entries below it end with the newest entry of
  its key, if there is one.\<close>

lemma sorted_wrt_last:
  "sorted_wrt R xs \<Longrightarrow> (\<And>x. R x x) \<Longrightarrow> x \<in> set xs \<Longrightarrow> R x (last xs)"
  by (induction xs) (auto split: if_splits)

lemma find_key_newest:
  assumes sorted: "sorted_wrt le_entry es"
    and ids: "\<And>e. e \<in> set es \<Longrightarrow> snd (ent_of e) < snd (ent_of q)"
  shows "case find_key le_entry same_key q es of
      None \<Rightarrow> \<forall>e\<in>set es. \<not> same_key e q
    | Some e \<Rightarrow> e \<in> set es \<and> same_key e q \<and> (\<forall>x\<in>set es. same_key x q \<longrightarrow> snd (ent_of x) \<le> snd (ent_of e))"
proof -
  let ?P = "\<lambda>x. \<not> le_entry q x"
  let ?A = "takeWhile ?P es"
  have inA: "x \<in> set ?A" if "x \<in> set es" "same_key x q" for x
  proof (rule ccontr)
    assume "x \<notin> set ?A"
    with that(1) have x: "x \<in> set (dropWhile ?P es)"
      by (metis Un_iff set_append takeWhile_dropWhile_id)
    then obtain y ys where d: "dropWhile ?P es = y # ys" by (cases "dropWhile ?P es") auto
    have "sorted_wrt le_entry (?A @ dropWhile ?P es)" using sorted by simp
    then have "sorted_wrt le_entry (y # ys)" unfolding d sorted_wrt_append by blast
    with x d have "y = x \<or> le_entry y x" by auto
    moreover have "le_entry q y" using hd_dropWhile [of ?P es] d by simp
    ultimately have "le_entry q x" using ent_le_trans by blast
    then have "snd (ent_of q) \<le> snd (ent_of x)" using that(2) by (simp add: ent_le_def)
    then show False using ids [OF that(1)] by simp
  qed
  have below: "\<not> le_entry q x" "x \<in> set es" if "x \<in> set ?A" for x
    using set_takeWhileD [OF that] by auto
  have "sorted_wrt le_entry (?A @ dropWhile ?P es)" using sorted by simp
  then have "sorted_wrt le_entry ?A" unfolding sorted_wrt_append by blast
  then have last: "le_entry x (last ?A)" if "x \<in> set ?A" for x
    by (rule sorted_wrt_last [OF _ ent_le_refl that])
  show ?thesis
  proof (cases "?A \<noteq> [] \<and> same_key (last ?A) q")
    case True
    then have "snd (ent_of x) \<le> snd (ent_of (last ?A))" if "x \<in> set es" "same_key x q" for x
      using last [OF inA [OF that]] that(2) by (simp add: ent_le_def)
    with True below(2) [of "last ?A"] show ?thesis by (auto simp: find_key_def Let_def)
  next
    case False
    have "\<not> same_key x q" if x: "x \<in> set es" for x
    proof
      assume s: "same_key x q"
      have l: "last ?A \<in> set ?A" using inA [OF x s] by (cases ?A rule: rev_cases) auto
      have "key_le (fst (ent_of q)) (fst (ent_of (last ?A)))"
        using ent_le_key [OF last [OF inA [OF x s]]] unfolding s .
      moreover have "key_le (fst (ent_of (last ?A))) (fst (ent_of q))"
        using below(1) [OF l] ent_le_total [of "ent_of q" "ent_of (last ?A)"] ent_le_key by blast
      ultimately have "same_key (last ?A) q" by (metis key_le_antisym)
      with False l show False by auto
    qed
    with False show ?thesis by (auto simp: find_key_def Let_def)
  qed
qed

section \<open>Refinement of a map\<close>

text \<open>\<open>Some (Some v)\<close>: inserted with value \<open>v\<close>; \<open>Some None\<close>: deleted; \<open>None\<close>: never used.\<close>

type_synonym key_map = "bytes \<Rightarrow> bytes option option"

definition newest :: "bytes list \<Rightarrow> bytes \<Rightarrow> bytes \<Rightarrow> bool" where
  "newest es key e \<longleftrightarrow> e \<in> set es \<and> fst (ent_of e) = key \<and>
     (\<forall>x\<in>set es. fst (ent_of x) = key \<longrightarrow> x = e \<or> snd (ent_of x) < snd (ent_of e))"

fun describes :: "bytes option \<Rightarrow> bytes \<Rightarrow> bool" where
  "describes (Some v) e \<longleftrightarrow> EntryOpType e = Inr kInsert \<and> EntryValue e = Inr v"
| "describes None e \<longleftrightarrow> EntryOpType e = Inr kDelete"

definition table_rel :: "table \<Rightarrow> key_map \<Rightarrow> bool" where
  "table_rel t m \<longleftrightarrow> (\<exists>es. iec.holds (skl t) es \<and>
     (\<forall>e\<in>set es. snd (ent_of e) < entry_id t) \<and>
     (\<forall>key. case m key of
        None \<Rightarrow> \<forall>e\<in>set es. fst (ent_of e) \<noteq> key
      | Some d \<Rightarrow> \<exists>e. newest es key e \<and> describes d e))"

lemma table_rel_new: "table_rel (TCTable_new n) (\<lambda>_. None)"
  using iec.holds_new by (auto simp: table_rel_def TCTable_new_def)

lemma set_insert_key: "set (insert_key le k ks) = insert k (set ks)"
  using arg_cong [OF mset_insert_key, of set_mset le k ks] by simp

lemma EncodeInternal_fresh:
  "length (entry_bytes key val eid op) = n \<Longrightarrow>
    EncodeInternal key val eid op (fresh_buffer n) = Inr (NoError, entry_bytes key val eid op)"
  by (simp add: EncodeInternal_def fresh_buffer_def codec_simps)

lemma less_Suc_word:
  assumes "(i :: u64) < - 1"
  shows "x < i + 1 \<longleftrightarrow> x < i \<or> x = i"
proof -
  have "unat (- 1 :: u64) = 2 ^ 64 - 1"
    by transfer (simp add: take_bit_minus_one_eq_mask mask_eq_exp_minus_1)
  with assms have "unat i < 2 ^ 64 - 1" by (simp only: word_less_nat_alt)
  then have "unat (i + 1) = unat i + 1" by (simp add: unat_word_ariths)
  then show ?thesis by (auto simp: word_less_nat_alt less_Suc_eq intro: word_unat_eq_iff [THEN iffD2])
qed

lemma put_rel:
  assumes t: "table_rel t m" and key: "fits key" "fits val" "key \<noteq> []"
    and n: "length (entry_bytes key val (entry_id t) op) = n"
    and id: "entry_id t < - 1"
    and rs: "RandomLevel rs = Inr lev" "lev < kMaxLevels"
  shows "\<exists>t'. TCTable_put t n key val op rs = Inr (NoError, t') \<and> entry_id t' = entry_id t + 1 \<and>
    table_rel t' (m(key \<mapsto> (if op = kInsert then Some val else None)))"
proof -
  let ?e = "entry_bytes key val (entry_id t) op"
  let ?d = "if op = kInsert then Some val else None"
  from t obtain es where es: "iec.holds (skl t) es" "\<forall>e\<in>set es. snd (ent_of e) < entry_id t"
    "\<forall>key. case m key of None \<Rightarrow> \<forall>e\<in>set es. fst (ent_of e) \<noteq> key
      | Some d \<Rightarrow> \<exists>e. newest es key e \<and> describes d e"
    by (auto simp: table_rel_def)
  have e: "ordered_entry ?e" "ent_of ?e = (key, entry_id t)" using key by auto
  have "sl_levels (skl t) < kMaxLevels" using es(1) shape_head(3) by (auto simp: iec.holds_def)
  with rs(2) have "sl_levels (skl t) + 1 < kMaxLevels \<or> lev \<le> sl_levels (skl t)" by linarith
  then obtain sl where sl: "SkipList_Insert IEC_GreaterOrEquals (skl t) ?e rs = Inr sl"
    "iec.holds sl (insert_key le_entry ?e es)"
    using iec.Insert_holds [OF es(1) e(1) rs(1)] by blast
  obtain p ma where a: "Allocate (mem_allocator t) n = (p, ma)" by fastforce
  let ?t = "t\<lparr>mem_allocator := ma, entry_id := entry_id t + 1, skl := sl\<rparr>"
  have put: "TCTable_put t n key val op rs = Inr (NoError, ?t)"
    by (simp add: TCTable_put_def a EncodeInternal_fresh [OF n] sl(1))
  have less: "x < entry_id t + 1 \<longleftrightarrow> x < entry_id t \<or> x = entry_id t" for x
    using id by (rule less_Suc_word)
  have desc: "describes ?d ?e"
    using key EntryOpType_entry [of key val "entry_id t" op "[]"] EntryValue_entry [of key val "entry_id t" "[]"]
    by (cases op) auto
  have "table_rel ?t (m(key \<mapsto> ?d))"
    unfolding table_rel_def
  proof (intro exI [of _ "insert_key le_entry ?e es"] conjI allI)
    show "iec.holds (skl ?t) (insert_key le_entry ?e es)" using sl(2) by simp
    show "\<forall>x\<in>set (insert_key le_entry ?e es). snd (ent_of x) < entry_id ?t"
      using es(2) e(2) less by (simp add: set_insert_key)
  next
    fix k
    show "case (m(key \<mapsto> ?d)) k of None \<Rightarrow> \<forall>x\<in>set (insert_key le_entry ?e es). fst (ent_of x) \<noteq> k
      | Some d \<Rightarrow> \<exists>x. newest (insert_key le_entry ?e es) k x \<and> describes d x"
    proof (cases "k = key")
      case True
      then show ?thesis
        using es(2) e(2) desc by (auto simp: newest_def set_insert_key intro!: exI [of _ ?e])
    next
      case False
      then show ?thesis
        using es(3) [rule_format, of k] e(2)
        by (auto simp: newest_def set_insert_key split: option.splits)
    qed
  qed
  with put show ?thesis by auto
qed

lemma length_insert_entry [simp]:
  "length (entry_bytes key val eid kInsert) = insert_entry_size key val"
  by (simp add: length_entry_bytes insert_entry_size_def)

lemma length_delete_entry [simp]: "length (entry_bytes key val eid kDelete) = key_entry_size key"
  by (simp add: length_entry_bytes key_entry_size_def)

lemma query_entry_eq:
  "\<exists>t1. query_entry t key = Inr ((NoError, entry_bytes key [] (- 1) kDelete), t1) \<and> skl t1 = skl t"
  by (cases "Allocate (query_allocator t) (key_entry_size key)")
    (simp add: query_entry_def EncodeInternal_fresh)

text \<open>The search for a key finds its newest entry.\<close>

lemma table_search:
  assumes t: "table_rel t m" and key: "fits key" "key \<noteq> []"
  shows "\<exists>r. SkipList_Get IEC_GreaterOrEquals IEC_Equal (skl t) (entry_bytes key [] (- 1) kDelete) = Inr r \<and>
    (case m key of None \<Rightarrow> r = None
     | Some d \<Rightarrow> \<exists>a e. r = Some a \<and> node_key (skl t) a = Inr e \<and> describes d e)"
proof -
  let ?q = "entry_bytes key [] (- 1) kDelete"
  from t obtain es where es: "iec.holds (skl t) es" "\<forall>e\<in>set es. snd (ent_of e) < entry_id t"
    "\<forall>key. case m key of None \<Rightarrow> \<forall>e\<in>set es. fst (ent_of e) \<noteq> key
      | Some d \<Rightarrow> \<exists>e. newest es key e \<and> describes d e"
    by (auto simp: table_rel_def)
  have q: "ordered_entry ?q" "ent_of ?q = (key, - 1)" using key by (auto simp: fits_def)
  obtain r where r: "SkipList_Get IEC_GreaterOrEquals IEC_Equal (skl t) ?q = Inr r"
    "map_option (keyat (skl t)) r = find_key le_entry same_key ?q es"
    "\<forall>a. r = Some a \<longrightarrow> node_key (skl t) a = Inr (keyat (skl t) a)"
    using iec.Get_holds [OF es(1) q(1)] by blast
  have "snd (ent_of e) < snd (ent_of ?q)" if "e \<in> set es" for e
  proof -
    have "snd (ent_of e) < entry_id t" using es(2) that by blast
    also have "\<dots> \<le> - 1" by (rule word_n1_ge)
    finally show ?thesis using q(2) by simp
  qed
  note found = find_key_newest [OF iec.holds_sorted [OF es(1)] this]
  show ?thesis
  proof (cases r)
    case None
    then have "\<forall>e\<in>set es. fst (ent_of e) \<noteq> key" using r(2) found q(2) by simp
    then have "m key = None"
      using es(3) [rule_format, of key] by (auto simp: newest_def split: option.splits)
    with None r(1) show ?thesis by simp
  next
    case (Some a)
    let ?e = "keyat (skl t) a"
    from Some r(2) have "find_key le_entry same_key ?q es = Some ?e" by simp
    with found q(2) have e: "?e \<in> set es" "fst (ent_of ?e) = key"
      "\<forall>x\<in>set es. fst (ent_of x) = key \<longrightarrow> snd (ent_of x) \<le> snd (ent_of ?e)" by simp_all
    note k = es(3) [rule_format, of key]
    have "m key \<noteq> None"
    proof
      assume "m key = None"
      with k have "\<forall>e\<in>set es. fst (ent_of e) \<noteq> key" by (simp only: option.case)
      with e(1,2) show False by blast
    qed
    then obtain d where m: "m key = Some d" by blast
    with k obtain e' where d: "newest es key e'" "describes d e'" by (simp only: option.case) blast
    then have e': "e' \<in> set es" "fst (ent_of e') = key" "?e = e' \<or> snd (ent_of ?e) < snd (ent_of e')"
      using e(1,2) by (simp_all add: newest_def)
    have "snd (ent_of e') \<le> snd (ent_of ?e)" using e(3) e'(1,2) by blast
    with e'(3) have "e' = ?e" by auto
    with d(2) have "describes d ?e" by simp
    with m Some r(1,3) show ?thesis by simp
  qed
qed

definition lookup_value :: "bytes option option \<Rightarrow> bytes" where
  "lookup_value r = (case r of Some (Some v) \<Rightarrow> v | _ \<Rightarrow> [])"

definition lookup_live :: "bytes option option \<Rightarrow> bool" where
  "lookup_live r = (case r of Some (Some v) \<Rightarrow> True | _ \<Rightarrow> False)"

lemma Get_entry_rel:
  assumes "table_rel t m" "fits key" "key \<noteq> []"
  shows "TCTable_Get_entry t (entry_bytes key [] (- 1) kDelete) = Inr (lookup_value (m key))"
proof -
  obtain r where r: "SkipList_Get IEC_GreaterOrEquals IEC_Equal (skl t) (entry_bytes key [] (- 1) kDelete) = Inr r"
    "case m key of None \<Rightarrow> r = None
     | Some d \<Rightarrow> \<exists>a e. r = Some a \<and> node_key (skl t) a = Inr e \<and> describes d e"
    using table_search [OF assms] by blast
  consider "m key = None" | "m key = Some None" | v where "m key = Some (Some v)"
    by (metis option.exhaust)
  then show ?thesis
    by cases (use r in \<open>auto simp: TCTable_Get_entry_def lookup_value_def\<close>)
qed

lemma Get_rel:
  assumes "table_rel t m" "fits key" "key \<noteq> []"
  shows "\<exists>t1. TCTable_Get t key = Inr (lookup_value (m key), t1) \<and> skl t1 = skl t"
proof -
  obtain t1 where t1: "query_entry t key = Inr ((NoError, entry_bytes key [] (- 1) kDelete), t1)"
    "skl t1 = skl t"
    using query_entry_eq by blast
  then have "TCTable_Get_entry t1 (entry_bytes key [] (- 1) kDelete) = Inr (lookup_value (m key))"
    using Get_entry_rel [OF assms] unfolding TCTable_Get_entry_def by (simp only:)
  with t1 show ?thesis by (auto simp: TCTable_Get_def)
qed

lemma ContainsKey_rel:
  assumes "table_rel t m" "fits key" "key \<noteq> []"
  shows "\<exists>t1. TCTable_ContainsKey t key = Inr (lookup_live (m key), t1) \<and> skl t1 = skl t"
proof -
  obtain t1 where t1: "query_entry t key = Inr ((NoError, entry_bytes key [] (- 1) kDelete), t1)"
    "skl t1 = skl t"
    using query_entry_eq by blast
  obtain r where r: "SkipList_Get IEC_GreaterOrEquals IEC_Equal (skl t) (entry_bytes key [] (- 1) kDelete) = Inr r"
    "case m key of None \<Rightarrow> r = None
     | Some d \<Rightarrow> \<exists>a e. r = Some a \<and> node_key (skl t) a = Inr e \<and> describes d e"
    using table_search [OF assms] by blast
  consider "m key = None" | "m key = Some None" | v where "m key = Some (Some v)"
    by (metis option.exhaust)
  then show ?thesis
    by cases (use r t1 in \<open>auto simp: TCTable_ContainsKey_def lookup_live_def\<close>)
qed

section \<open>Properties\<close>

text \<open>The client's operations, their meaning on the map, and a run of them (each with the
  values \<open>rand()\<close> returns to it).\<close>

datatype table_op = OpInsert bytes bytes | OpDelete bytes

fun op_key :: "table_op \<Rightarrow> bytes" where
  "op_key (OpInsert key val) = key"
| "op_key (OpDelete key) = key"

fun op_val :: "table_op \<Rightarrow> bytes" where
  "op_val (OpInsert key val) = val"
| "op_val (OpDelete key) = []"

fun apply_op :: "key_map \<Rightarrow> table_op \<Rightarrow> key_map" where
  "apply_op m (OpInsert key val) = m(key \<mapsto> Some val)"
| "apply_op m (OpDelete key) = m(key \<mapsto> None)"

fun run_op :: "table \<Rightarrow> table_op \<Rightarrow> nat list \<Rightarrow> (Status \<times> table) res" where
  "run_op t (OpInsert key val) rs = TCTable_Insert t key val rs"
| "run_op t (OpDelete key) rs = TCTable_Delete t key rs"

fun run_table :: "table \<Rightarrow> (table_op \<times> nat list) list \<Rightarrow> table res" where
  "run_table t [] = Inr t"
| "run_table t ((op, rs) # ops) = rbind (run_op t op rs) (\<lambda>(st, t'). run_table t' ops)"

definition good_op :: "table_op \<times> nat list \<Rightarrow> bool" where
  "good_op = (\<lambda>(op, rs). op_key op \<noteq> [] \<and> fits (op_key op) \<and> fits (op_val op) \<and>
     (\<exists>lev<kMaxLevels. RandomLevel rs = Inr lev))"

lemma run_op_rel:
  assumes "table_rel t m" "good_op (op, rs)" "entry_id t < - 1"
  shows "\<exists>t'. run_op t op rs = Inr (NoError, t') \<and> entry_id t' = entry_id t + 1 \<and>
    table_rel t' (apply_op m op)"
proof -
  from assms(2) obtain lev where lev: "RandomLevel rs = Inr lev" "lev < kMaxLevels"
    and k: "op_key op \<noteq> []" "fits (op_key op)" "fits (op_val op)" by (auto simp: good_op_def)
  show ?thesis
  proof (cases op)
    case (OpInsert key val)
    then show ?thesis
      using put_rel [OF assms(1) _ _ _ refl assms(3) lev, of key val kInsert] k
      by (simp add: TCTable_Insert_def)
  next
    case (OpDelete key)
    then show ?thesis
      using put_rel [OF assms(1) _ _ _ refl assms(3) lev, of key "[]" kDelete] k
      by (simp add: TCTable_Delete_def)
  qed
qed

lemma run_table_rel:
  assumes "table_rel t m" "\<forall>x\<in>set ops. good_op x" "unat (entry_id t) + length ops < 2 ^ 64"
  shows "\<exists>t'. run_table t ops = Inr t' \<and> table_rel t' (foldl apply_op m (map fst ops))"
  using assms
proof (induction ops arbitrary: t m)
  case (Cons op ops)
  obtain o' rs where op: "op = (o', rs)" by (cases op)
  have "unat (- 1 :: u64) = 2 ^ 64 - 1"
    by transfer (simp add: take_bit_minus_one_eq_mask mask_eq_exp_minus_1)
  then have id: "entry_id t < - 1" using Cons.prems(3) by (simp add: word_less_nat_alt)
  then obtain t1 where t1: "run_op t o' rs = Inr (NoError, t1)" "entry_id t1 = entry_id t + 1"
    "table_rel t1 (apply_op m o')"
    using run_op_rel [OF Cons.prems(1) _ id, of o' rs] Cons.prems(2) op by auto
  have "unat (entry_id t1) = unat (entry_id t) + 1"
    using Cons.prems(3) by (simp add: t1(2) unat_word_ariths)
  then show ?case
    using Cons.IH [OF t1(3)] Cons.prems(2,3) op t1(1) by simp
qed simp

text \<open>C4. The memory table is a map from keys to their latest operation: after any sequence
  of insertions and deletions (non-empty keys, sizes below 2^48, heights below the top
  level, ids that do not run out) each operation has succeeded, and \<open>Get\<close> and \<open>ContainsKey\<close>
  answer as the map does; a deleted key reads as the empty sequence.\<close>

theorem table_refines_map:
  assumes "\<forall>x\<in>set ops. good_op x" "unat first_id + length ops < 2 ^ 64"
    and "key \<noteq> []" "fits key" "latest = foldl apply_op (\<lambda>_. None) (map fst ops) key"
  shows "\<exists>t t1 t2. run_table (TCTable_new first_id) ops = Inr t \<and>
    TCTable_Get t key = Inr (lookup_value latest, t1) \<and>
    TCTable_ContainsKey t key = Inr (lookup_live latest, t2)"
proof -
  obtain t where t: "run_table (TCTable_new first_id) ops = Inr t"
    "table_rel t (foldl apply_op (\<lambda>_. None) (map fst ops))"
    using run_table_rel [OF table_rel_new assms(1)] assms(2) by (auto simp: TCTable_new_def)
  with Get_rel [OF t(2) assms(4,3)] ContainsKey_rel [OF t(2) assms(4,3)] show ?thesis
    unfolding assms(5) by blast
qed

theorem table_refines_map_witness:
  "\<exists>t t1 t2. run_table (TCTable_new 5)
      [(OpInsert [107] [1], [3]), (OpInsert [107] [2, 2], [4, 1]), (OpDelete [108], [1])] = Inr t \<and>
    TCTable_Get t [107] = Inr ([2, 2], t1) \<and> TCTable_ContainsKey t [107] = Inr (True, t2)"
proof -
  have "RandomLevel [3] = Inr 0" "RandomLevel [4, 1] = Inr 1" "RandomLevel [1] = Inr 0"
    by (simp_all add: RandomLevel_def SelectedInProb1DivdN_def RandomUniform_def kMaxLevels_def)
  then show ?thesis
    using table_refines_map [of "[(OpInsert [107] [1], [3]), (OpInsert [107] [2, 2], [4, 1]),
      (OpDelete [108], [1])]" 5 "[107]" "Some (Some [2, 2])"]
    by (simp add: good_op_def fits_def lookup_value_def lookup_live_def kMaxLevels_def)
qed

text \<open>The empty key is taken for the sentinel: looking it up in an empty table
  matches the dummy head node, and the one-byte \<open>invalid_key_\<close> is decoded as an entry, which
  reads past its end.\<close>

theorem empty_key_lookup_overreads:
  "TCTable_Get (TCTable_new first_id) [] = Inl OobRead \<and>
   TCTable_ContainsKey (TCTable_new first_id) [] = Inl OobRead"
proof -
  let ?q = "entry_bytes [] [] (- 1) kDelete"
  obtain t1 where t1: "query_entry (TCTable_new first_id) [] = Inr ((NoError, ?q), t1)"
    "skl t1 = SkipList_new invalid_key"
    using query_entry_eq [of "TCTable_new first_id" "[]"] by (auto simp: TCTable_new_def)
  have "rd ?q 0 = Inr 0"
    using rd_entry_0 [of "[]" "[]" "- 1" kDelete "[]"] by (auto simp: fits_def)
  then have "IEC_Equal invalid_key ?q = Inr True"
    by (simp add: IEC_Equal_def invalid_key_def)
  then have g: "SkipList_Get IEC_GreaterOrEquals IEC_Equal (SkipList_new invalid_key) ?q = Inr (Some 0)"
    by (simp add: SkipList_Get_def SkipList_new_def get_next_def node_key_def kMaxLevels_def
        eval_nat_numeral rd_def)
  have n: "node_key (SkipList_new invalid_key) 0 = Inr [0]"
    by (simp add: SkipList_new_def node_key_def invalid_key_def rd_def)
  have "DecodeVarint64 [0] = Inr 0" using DecodeVarint64_Encode_small [of 0 "[]"]
    by (simp add: EncodeVarint64_leb128 leb128.simps)
  then have "EntryOpType [0] = Inl OobRead"
    by (simp add: EntryOpType_def SizeOfVarint_def SizeOfVarint_shift.simps rd_def)
  with g n t1 show ?thesis
    by (simp add: TCTable_Get_def TCTable_Get_entry_def TCTable_ContainsKey_def)
qed

end
