(* ===== verification/DatabaseIO.thy ===== *)
theory DatabaseIO
  imports SSTProofs DbTable
begin

text \<open>
  \<open>TCIO\<close> (\<open>include/io/io.h\<close>, \<open>src/io/io.cc\<close>): the database directory, the names of the data
  files, the MANIFEST and the operations that change both. The object's state is the
  directory, the next file id and the number of readers in the pool; the log and the mutex
  around the file id are left out.
\<close>

section \<open>State and file names\<close>

record TCIO =
  kDatabaseDir :: string
  file_id :: u64
  reader_pool :: nat

definition hex_digit :: "nat \<Rightarrow> char" where
  "hex_digit n = ''0123456789ABCDEF'' ! n"

text \<open>\<open>sprintf(buf, "%016lX", id)\<close>\<close>

definition hex16 :: "u64 \<Rightarrow> string" where
  "hex16 i = map (\<lambda>k. hex_digit (unat i div 16 ^ k mod 16)) (rev [0..<16])"

definition next_basename :: "TCIO \<Rightarrow> string \<times> TCIO" where
  "next_basename io = (hex16 (file_id io), io\<lparr>file_id := file_id io + 1\<rparr>)"

definition kManifestFilename :: string where
  "kManifestFilename = ''MANIFEST''"

definition kLogFilename :: string where
  "kLogFilename = ''LOG''"

definition sst_path :: "TCIO \<Rightarrow> string \<Rightarrow> string res" where
  "sst_path io base = PathJoin (kDatabaseDir io) (base @ ''.tdb'')"

section \<open>MANIFEST\<close>

definition WriteManifest :: "os \<Rightarrow> TCIO \<Rightarrow> Manifest \<Rightarrow> (Status \<times> os) res" where
  "WriteManifest s io manifest =
     rbind (PathJoin (kDatabaseDir io) kManifestFilename) (\<lambda>path.
     let (d, s0) = DBFile_new s path kNewFile in
     rmap (\<lambda>(st, w1, s1). (st, s1))
       (WriteFragment s0 (Writer_new d kDefaultWriterBufferSize) (str_bytes (Manifest_Encode manifest))))"

definition ReadManifest :: "os \<Rightarrow> TCIO \<Rightarrow> (Status \<times> Manifest option \<times> os) res" where
  "ReadManifest s io =
     (if reader_pool io = 0 then Inr (FileIOError ''No available Reader.'', None, s)
      else rbind (PathJoin (kDatabaseDir io) kManifestFilename) (\<lambda>path.
        let (st, manifest_content, s1) = Reader_ReadEntire s path in
        if StatusNoError st
        then rmap (\<lambda>m. (st, Some m, s1)) (Manifest_Decode (bytes_str manifest_content))
        else Inr (st, None, s1)))"

text \<open>\<open>BuildMetadataFile\<close> writes a file that is missing; \<open>create_file\<close> is its repeated part.\<close>

definition create_file :: "os \<Rightarrow> string \<Rightarrow> string \<Rightarrow> (Status \<times> os) res" where
  "create_file s path text =
     (let (d, s0) = DBFile_new s path kNewFile in
      rmap (\<lambda>(st, w1, s1). (st, s1))
        (WriteFragment s0 (Writer_new d kDefaultWriterBufferSize) (str_bytes text)))"

definition BuildMetadataFile :: "os \<Rightarrow> TCIO \<Rightarrow> (Status \<times> os) res" where
  "BuildMetadataFile s io =
     rbind (PathJoin (kDatabaseDir io) kManifestFilename) (\<lambda>mpath.
     rbind (PathJoin (kDatabaseDir io) kLogFilename) (\<lambda>lpath.
     rbind (if files s mpath = None then create_file s mpath (mpath @ [newline] @ lpath)
            else Inr (NoError, s)) (\<lambda>(st, s1).
     if \<not> StatusNoError st then Inr (st, s1)
     else if files s1 lpath = None then create_file s1 lpath (''Created new database.'' @ [newline])
     else Inr (st, s1))))"

text \<open>The constructor, once the directory exists: ids start at 0, four readers.\<close>

definition TCIO_new :: "os \<Rightarrow> string \<Rightarrow> (TCIO \<times> os) res" where
  "TCIO_new s dir =
     (let io = \<lparr>kDatabaseDir = dir, file_id = 0, reader_pool = 4\<rparr> in
      rbind (BuildMetadataFile s io) (\<lambda>(st, s1).
      if StatusNoError st then Inr (io, s1) else Inl AssertFail))"

section \<open>Data files and the manifest together\<close>

definition WriteNewSSTFile_filter ::
    "(bytes list \<Rightarrow> bytes res) \<Rightarrow> os \<Rightarrow> TCIO \<Rightarrow> bytes list \<Rightarrow> (Status \<times> string \<times> TCIO \<times> os) res" where
  "WriteNewSSTFile_filter create s io entry_set =
     (let (file_basename, io1) = next_basename io in
      rbind (sst_path io1 file_basename) (\<lambda>path.
      rmap (\<lambda>(st, s1). (st, file_basename, io1, s1)) (WriteSSTFile_filter create s path entry_set)))"

definition WriteNewSSTFile ::
    "os \<Rightarrow> TCIO \<Rightarrow> bytes list \<Rightarrow> (Status \<times> string \<times> TCIO \<times> os) res" where
  "WriteNewSSTFile s io entry_set =
     (let (file_basename, io1) = next_basename io in
      rbind (sst_path io1 file_basename) (\<lambda>path.
      rmap (\<lambda>(st, s1). (st, file_basename, io1, s1)) (WriteSSTFile s path entry_set)))"

text \<open>Merge items are an entry, the number of its source and the block of the allocator it
  lives in; \<open>Unref\<close> takes an unsigned block number, so a negative one is past every block.\<close>

type_synonym merge_item = "bytes \<times> int \<times> int"

definition unref_item :: "allocator \<Rightarrow> merge_item \<Rightarrow> allocator" where
  "unref_item ma it = (if snd (snd it) < 0 then ma else snd (Unref ma (nat (snd (snd it)))))"

definition WriteMergeSSTFile_filter ::
    "(bytes list \<Rightarrow> bytes res) \<Rightarrow> os \<Rightarrow> TCIO \<Rightarrow> allocator \<Rightarrow> merge_item list \<Rightarrow>
      (Status \<times> string \<times> allocator \<times> TCIO \<times> os) res" where
  "WriteMergeSSTFile_filter create s io ma item_set =
     rmap (\<lambda>(st, file_basename, io1, s1).
         (st, file_basename, ReleaseIdleSpace (foldl unref_item ma item_set), io1, s1))
       (WriteNewSSTFile_filter create s io (map fst item_set))"

definition WriteMergeSSTFile ::
    "os \<Rightarrow> TCIO \<Rightarrow> allocator \<Rightarrow> merge_item list \<Rightarrow>
      (Status \<times> string \<times> allocator \<times> TCIO \<times> os) res" where
  "WriteMergeSSTFile s io ma item_set =
     rmap (\<lambda>(st, file_basename, io1, s1).
         (st, file_basename, ReleaseIdleSpace (foldl unref_item ma item_set), io1, s1))
       (WriteNewSSTFile s io (map fst item_set))"

definition WriteLevel0File ::
    "(bytes list \<Rightarrow> bytes res) \<Rightarrow> os \<Rightarrow> TCIO \<Rightarrow> table \<Rightarrow> Manifest \<Rightarrow>
      (Status \<times> Manifest \<times> TCIO \<times> os) res" where
  "WriteLevel0File create s io immutable manifest =
     (let (file_basename, io1) = next_basename io in
      rbind (sst_path io1 file_basename) (\<lambda>path.
      rbind (TCTable_EntrySet immutable) (\<lambda>entries.
      rbind (WriteSSTFile_ptrs create s path entries) (\<lambda>(st, s1).
      if \<not> StatusNoError st then Inr (st, manifest, io1, s1)
      else
        let levels = (if data_files manifest = [] then [[]] else data_files manifest);
            manifest1 = manifest\<lparr>data_files := levels[0 := levels ! 0 @ [file_basename]]\<rparr>
        in rmap (\<lambda>(st, s2). (st, manifest1, io1, s2)) (WriteManifest s1 io1 manifest1)))))"

text \<open>\<open>UpdateManifest\<close>: \<open>compact_file_index\<close> lists the compacted files as level and subscript,
  those of \<open>current_level\<close> first. A subscript into a missing level is undefined.\<close>

definition UpdateManifest ::
    "os \<Rightarrow> TCIO \<Rightarrow> Manifest \<Rightarrow> (int \<times> int) list \<Rightarrow> string list \<Rightarrow> nat \<Rightarrow> int \<Rightarrow>
      (Status \<times> Manifest \<times> os) res" where
  "UpdateManifest s io old_manifest compact_file_index new_files current_level insert_index =
     (let remove_points = map snd (takeWhile (\<lambda>p. fst p = int current_level) compact_file_index);
          rest = dropWhile (\<lambda>p. fst p = int current_level) compact_file_index
      in if \<exists>p\<in>set remove_points. p < 0 then Inl OobRead else
      rbind (rd (data_files old_manifest) current_level) (\<lambda>level_files.
      rbind (Remove level_files (map nat remove_points)) (\<lambda>kept.
      let cleaned = (data_files old_manifest)[current_level := kept];
          levels = (if length cleaned \<le> current_level + 1 then cleaned @ [[]] else cleaned)
      in rbind (rd levels (current_level + 1)) (\<lambda>next_files.
      if rest = [] \<and> insert_index \<noteq> 0 \<and> insert_index \<noteq> int (length next_files) then Inl AssertFail else
      let boundary = (if rest = [] then (insert_index, insert_index)
                      else (snd (hd rest), snd (last compact_file_index) + 1))
      in rbind (RearrangeFilesInManifest next_files boundary new_files) (\<lambda>(ok, next_files1).
      if \<not> ok then Inr (UndefinedError [], old_manifest, s)
      else
        let manifest = old_manifest\<lparr>data_files := levels[current_level + 1 := next_files1]\<rparr>
        in rmap (\<lambda>(st, s1). (st, if StatusNoError st then manifest else old_manifest, s1))
             (WriteManifest s io manifest))))))"

section \<open>File names\<close>

lemma hex_digit_inj:
  assumes "a < 16" "b < 16" "hex_digit a = hex_digit b"
  shows "a = b"
proof -
  have "distinct ''0123456789ABCDEF''" by simp
  then show ?thesis
    using assms nth_eq_iff_index_eq [of "''0123456789ABCDEF''" a b] by (simp add: hex_digit_def)
qed

lemma digits_determine:
  "(\<And>k. k < m \<Longrightarrow> a div 16 ^ k mod 16 = b div 16 ^ k mod (16::nat)) \<Longrightarrow> a mod 16 ^ m = b mod 16 ^ m"
proof (induction m)
  case (Suc m)
  have "a mod 16 ^ Suc m = 16 ^ m * (a div 16 ^ m mod 16) + a mod 16 ^ m" for a :: nat
    using mod_mult2_eq [of a "16 ^ m" 16] by (simp add: mult.commute)
  with Suc show ?case by simp
qed simp

lemma hex16_inj: "hex16 i = hex16 j \<longleftrightarrow> i = j"
proof
  assume h: "hex16 i = hex16 j"
  have "unat i div 16 ^ k mod 16 = unat j div 16 ^ k mod 16" if "k < 16" for k
  proof (rule hex_digit_inj)
    show "hex_digit (unat i div 16 ^ k mod 16) = hex_digit (unat j div 16 ^ k mod 16)"
      using h that unfolding hex16_def map_eq_conv by simp
  qed simp_all
  then have "unat i mod 16 ^ 16 = unat j mod 16 ^ 16" by (rule digits_determine)
  moreover have "unat x mod 16 ^ 16 = unat x" for x :: u64
    using unat_less_u64 [of x] by simp
  ultimately have "unat i = unat j" by metis
  then show "i = j" by (simp add: word_unat_eq_iff)
qed simp

lemma good_name_hex16: "good_name (hex16 i)"
proof -
  have "hex_digit n \<in> set ''0123456789ABCDEF''" if "n < 16" for n
    unfolding hex_digit_def using that by (intro nth_mem) simp
  then have "c \<in> set ''0123456789ABCDEF''" if "c \<in> set (hex16 i)" for c
    using that by (auto simp: hex16_def simp del: set_simps list.set)
  moreover have "newline \<notin> set ''0123456789ABCDEF''" "CHR '';'' \<notin> set ''0123456789ABCDEF''"
    by (simp_all add: newline_def)
  moreover have "hex16 i \<noteq> []" by (simp add: hex16_def)
  ultimately show ?thesis unfolding good_name_def by blast
qed

lemma sst_path_inj: "sst_path io a = Inr p \<Longrightarrow> sst_path io b = Inr q \<Longrightarrow> p = q \<longleftrightarrow> a = b"
  unfolding sst_path_def using PathJoin_inj by fastforce

lemma sst_path_manifest:
  assumes "sst_path io a = Inr p" "PathJoin (kDatabaseDir io) kManifestFilename = Inr q"
  shows "p \<noteq> q"
proof -
  have "last (a @ ''.tdb'') \<noteq> last kManifestFilename" by (simp add: kManifestFilename_def)
  then show ?thesis using PathJoin_inj [OF assms [unfolded sst_path_def]] by metis
qed

lemma sst_path_dir:
  assumes "sst_path io a = Inr p"
  shows "\<exists>q. PathJoin (kDatabaseDir io) b = Inr q"
  using assms by (cases "last (kDatabaseDir io) = CHR ''/''")
    (auto simp: sst_path_def PathJoin_def split: if_splits)

section \<open>Writing and reading the MANIFEST\<close>

lemma DBFile_new_newfile:
  assumes "DBFile_new s f kNewFile = (d, s')" "open_results s = []"
  shows "file_name d = f" "content s' f = []" "g \<noteq> f \<Longrightarrow> files s' g = files s g"
    "read_results s' = read_results s" "open_results s' = []"
  using assms by (auto simp: DBFile_new_def DBFile_Open_def os_open_def content_def Let_def)

lemma create_file_writes:
  assumes "open_results s = []" "text \<noteq> []"
  shows "\<exists>st s'. create_file s f text = Inr (st, s') \<and> StatusNoError st \<and>
    files s' f = Some (str_bytes text) \<and> (\<forall>g. g \<noteq> f \<longrightarrow> files s' g = files s g) \<and>
    open_results s' = [] \<and> read_results s' = read_results s"
proof -
  obtain d s0 where d: "DBFile_new s f kNewFile = (d, s0)" by fastforce
  note n = DBFile_new_newfile [OF d assms(1)]
  let ?w = "Writer_new d kDefaultWriterBufferSize"
  have w: "dbfile ?w = Some d" "0 < kMaxBufferSize ?w" "buffer ?w = []"
    by (simp_all add: Writer_new_def kDefaultWriterBufferSize_def)
  obtain st w' s' where r: "WriteFragment s0 ?w (str_bytes text) = Inr (st, w', s')"
    "transfers (file_name d) s0 ?w st s' w' (str_bytes text)" "StatusNoError st \<longrightarrow> buffer w' = []"
    using WriteFragment_transfers [OF w, of s0 "str_bytes text"] by blast
  have st: "StatusNoError st" "open_results s' = []" "read_results s' = read_results s"
    using r(2) n(4,5) by (simp_all add: transfers_def)
  have "content s' f = str_bytes text" using r(2,3) st(1) n(1,2) w(3) by (simp add: transfers_def)
  moreover have "str_bytes text \<noteq> []" using assms(2) by (simp add: str_bytes_def)
  ultimately have "files s' f = Some (str_bytes text)" by (auto simp: content_def split: option.splits)
  moreover have "files s' g = files s g" if "g \<noteq> f" for g
    using r(2) n(1,3) that by (simp add: transfers_def)
  ultimately show ?thesis using d r(1) st by (simp add: create_file_def)
qed

lemma WriteManifest_eq:
  "PathJoin (kDatabaseDir io) kManifestFilename = Inr path \<Longrightarrow>
    WriteManifest s io m = create_file s path (Manifest_Encode m)"
  by (simp add: WriteManifest_def create_file_def)

lemma Manifest_Encode_nonempty: "Manifest_Encode m \<noteq> []"
  by (simp add: Manifest_Encode_def)

lemma WriteManifest_writes:
  assumes "open_results s = []" "PathJoin (kDatabaseDir io) kManifestFilename = Inr path"
  shows "\<exists>st s'. WriteManifest s io m = Inr (st, s') \<and> StatusNoError st \<and>
    files s' path = Some (str_bytes (Manifest_Encode m)) \<and> (\<forall>g. g \<noteq> path \<longrightarrow> files s' g = files s g) \<and>
    open_results s' = [] \<and> read_results s' = read_results s"
  using create_file_writes [OF assms(1) Manifest_Encode_nonempty] WriteManifest_eq [OF assms(2)] by metis

lemma ReadEntire_quiet:
  assumes "quiet s" "files s f = Some c"
  shows "Reader_ReadEntire s f = (NoError, c, s)"
  using Reader_Read_quiet [of s f c 0 "length c"] assms
  by (auto simp: Reader_ReadEntire_def Reader_Read_def content_def DBFile_new_def DBFile_Open_def os_open_def
      IsCorrectlyOpened_def quiet_def split: if_splits)

lemma ReadManifest_reads:
  assumes "quiet s" "PathJoin (kDatabaseDir io) kManifestFilename = Inr path"
    and "files s path = Some (str_bytes t)" "0 < reader_pool io" "Manifest_Decode t = Inr m"
  shows "ReadManifest s io = Inr (NoError, Some m, s)"
  using ReadEntire_quiet [OF assms(1,3)] assms by (simp add: ReadManifest_def)

text \<open>A new database has an empty manifest.\<close>

lemma Split_two_lines:
  assumes "newline \<notin> set a" "newline \<notin> set b" "b \<noteq> []"
  shows "Split (a @ [newline] @ b) newline = [a, b]"
  using Split_terminated [of "[a]" newline b] Split_last [of newline b] assms
  by (simp add: terminated_def)

lemma BuildMetadataFile_fresh:
  assumes "open_results s = []" "PathJoin (kDatabaseDir io) kManifestFilename = Inr mpath"
    and "PathJoin (kDatabaseDir io) kLogFilename = Inr lpath" "files s mpath = None" "mpath \<noteq> lpath"
  shows "\<exists>st s'. BuildMetadataFile s io = Inr (st, s') \<and> StatusNoError st \<and>
    files s' mpath = Some (str_bytes (mpath @ [newline] @ lpath)) \<and>
    (\<forall>f. f \<noteq> mpath \<longrightarrow> f \<noteq> lpath \<longrightarrow> files s' f = files s f) \<and>
    open_results s' = [] \<and> read_results s' = read_results s"
proof -
  obtain st s1 where 1: "create_file s mpath (mpath @ [newline] @ lpath) = Inr (st, s1)" "StatusNoError st"
    "files s1 mpath = Some (str_bytes (mpath @ [newline] @ lpath))" "open_results s1 = []"
    "read_results s1 = read_results s" "\<forall>g. g \<noteq> mpath \<longrightarrow> files s1 g = files s g"
    using create_file_writes [OF assms(1), of "mpath @ [newline] @ lpath" mpath] by auto
  obtain st2 s2 where 2: "create_file s1 lpath (''Created new database.'' @ [newline]) = Inr (st2, s2)"
    "StatusNoError st2" "files s2 mpath = files s1 mpath" "open_results s2 = []"
    "read_results s2 = read_results s1" "\<forall>g. g \<noteq> lpath \<longrightarrow> files s2 g = files s1 g"
    using create_file_writes [OF 1(4), of "''Created new database.'' @ [newline]" lpath] assms(5) by auto
  show ?thesis
    using assms 1 2 by (cases "files s1 lpath = None") (simp_all add: BuildMetadataFile_def)
qed

text \<open>Reading the boundary keys of an image that lies behind something else.\<close>

lemma footer_keys_behind:
  assumes "quiet s" "files s f = Some (old @ sst_image es flex)" "es \<noteq> []" "SST_fits es flex"
    and "length (hd es) \<le> length old" "0 < readers"
  shows "\<exists>max_key. ReadSSTFooter_keys readers s f =
    Inr (NoError, Some (sst_footer es flex), take (length (hd es)) old, max_key, s)"
proof -
  let ?c = "old @ sst_image es flex"
  have "24 \<le> length (sst_image es flex)" by (simp add: length_sst_image)
  then obtain m where m: "length (sst_image es flex) = m + 24" by (metis le_add_diff_inverse2)
  then have "take 24 (drop m (sst_image es flex)) = Footer_bytes (sst_footer es flex)"
    using image_footer [of es flex] m by (simp add: kSSTFooterSize_def)
  then have "Reader_Read s f 24 (int (length old + m)) = (NoError, Footer_bytes (sst_footer es flex), s)"
    using Reader_Read_quiet [OF assms(1,2), of "int (length old + m)" 24] m
    by (simp del: of_nat_add add: kSSTFooterSize_def)
  moreover have "FlieSize s f - 24 = int (length old + m)"
    using assms(2) m by (simp add: FlieSize_def)
  ultimately have foot: "Reader_Read s f 24 (FlieSize s f - 24) = (NoError, Footer_bytes (sst_footer es flex), s)"
    by simp
  have mn: "Reader_Read s f (length (hd es)) 0 = (NoError, take (length (hd es)) old, s)"
    using Reader_Read_quiet [OF assms(1,2), of 0 "length (hd es)"] assms(5) by simp
  have "length (last es) \<le> total_size es" using first_last_image(4) [OF assms(3)] .
  then have "\<exists>bs. Reader_Read s f (length (last es)) (int (total_size es - length (last es))) = (NoError, bs, s)"
    using Reader_Read_quiet [OF assms(1,2), of "int (total_size es - length (last es))" "length (last es)"]
    by (simp add: length_sst_image)
  then show ?thesis
    using foot mn assms(6) Footer_of_bytes [of "sst_footer es flex" "[]"] footer_unat [OF assms(4,3)]
    by (auto simp: ReadSSTFooter_keys_def with_reader_def kSSTFooterSize_def)
qed

section \<open>Data files on level 0\<close>

lemma entry_seqs_entries: "\<forall>e\<in>set es. is_entry e \<Longrightarrow> entry_seqs es = Inr es"
  using entry_frame.item_frame [where rest = "[]"] by (induction es) auto

text \<open>Writing a data file under the next name, with the file system before and after.\<close>

lemma WriteSSTFile_at:
  assumes "create es = Inr flex" "es \<noteq> []" "SST_fits es flex" "quiet s" "files s f = None"
  shows "\<exists>st s'. WriteSSTFile_filter create s f es = Inr (st, s') \<and> StatusNoError st \<and>
    sst_at s' f es flex \<and> (\<forall>g. g \<noteq> f \<longrightarrow> files s' g = files s g)"
proof -
  from assms(4) have q: "open_results s = []" "read_results s = []" by (simp_all add: quiet_def)
  obtain st s' where r: "WriteSSTFile_filter create s f es = Inr (st, s')"
    "StatusNoError st \<longrightarrow> content s' f = content s f @ sst_image es flex"
    "StatusNoError st \<and> open_results s' = []" "\<forall>g. g \<noteq> f \<longrightarrow> files s' g = files s g"
    "read_results s' = read_results s"
    using WriteSSTFile_writes [of create es flex s f] assms(1-3) q by blast
  then have "content s' f = sst_image es flex" using assms(5) by (simp add: content_def)
  moreover have "sst_image es flex \<noteq> []" using length_sst_image [of es flex] by auto
  ultimately have "files s' f = Some (sst_image es flex)" by (auto simp: content_def split: option.splits)
  then show ?thesis using r q assms(2,3) by (auto simp: sst_at_def quiet_def)
qed

lemma sst_at_keep:
  "sst_at s f es flex \<Longrightarrow> files s' f = files s f \<Longrightarrow> quiet s' \<Longrightarrow> sst_at s' f es flex"
  by (simp add: sst_at_def)

definition push_level0 :: "Manifest \<Rightarrow> string \<Rightarrow> Manifest" where
  "push_level0 m f =
     m\<lparr>data_files := (case data_files m of [] \<Rightarrow> [[f]] | l # ls \<Rightarrow> (l @ [f]) # ls)\<rparr>"

lemma good_push_level0: "good_manifest m \<Longrightarrow> good_name f \<Longrightarrow> good_manifest (push_level0 m f)"
  by (auto simp: good_manifest_def push_level0_def split: list.splits)

lemma Level0_writes:
  assumes "TCTable_EntrySet t = Inr es" "\<forall>e\<in>set es. is_entry e" "es \<noteq> []"
    and "create es = Inr flex" "SST_fits es flex" "quiet s"
    and "sst_path io (hex16 (file_id io)) = Inr p" "files s p = None"
    and "PathJoin (kDatabaseDir io) kManifestFilename = Inr mpath"
  shows "\<exists>st s'. WriteLevel0File create s io t man =
      Inr (st, push_level0 man (hex16 (file_id io)), io\<lparr>file_id := file_id io + 1\<rparr>, s') \<and> StatusNoError st \<and>
    sst_at s' p es flex \<and>
    files s' mpath = Some (str_bytes (Manifest_Encode (push_level0 man (hex16 (file_id io))))) \<and>
    (\<forall>g. g \<noteq> p \<longrightarrow> g \<noteq> mpath \<longrightarrow> files s' g = files s g)"
proof -
  let ?io = "io\<lparr>file_id := file_id io + 1\<rparr>" and ?b = "hex16 (file_id io)"
  let ?m = "push_level0 man ?b"
  obtain st s1 where w: "WriteSSTFile_filter create s p es = Inr (st, s1)" "StatusNoError st"
    "sst_at s1 p es flex" "\<forall>g. g \<noteq> p \<longrightarrow> files s1 g = files s g"
    using WriteSSTFile_at [where create = create and es = es, OF assms(4,3,5,6,8)] by blast
  have q1: "open_results s1 = []" "read_results s1 = []" using w(3) by (simp_all add: sst_at_def quiet_def)
  obtain st2 s2 where m: "WriteManifest s1 ?io ?m = Inr (st2, s2)" "StatusNoError st2"
    "files s2 mpath = Some (str_bytes (Manifest_Encode ?m))"
    "\<forall>g. g \<noteq> mpath \<longrightarrow> files s2 g = files s1 g" "open_results s2 = []" "read_results s2 = []"
    using WriteManifest_writes [OF q1(1), of ?io mpath ?m] assms(9) q1(2) by auto
  have "p \<noteq> mpath" using sst_path_manifest assms(7,9) by blast
  then have "sst_at s2 p es flex"
    using sst_at_keep [OF w(3), of s2] m(4-6) by (simp add: quiet_def)
  moreover have "man\<lparr>data_files := (if data_files man = [] then [[]] else data_files man)
      [0 := (if data_files man = [] then [[]] else data_files man) ! 0 @ [?b]]\<rparr> = ?m"
    by (cases "data_files man") (simp_all add: push_level0_def)
  moreover have "sst_path ?io ?b = Inr p" using assms(7) by (simp add: sst_path_def)
  ultimately show ?thesis
    using assms(1) entry_seqs_entries [OF assms(2)] w m
    by (auto simp: WriteLevel0File_def next_basename_def WriteSSTFile_ptrs_def)
qed

lemma table_rel_entries:
  assumes "table_rel t m"
  shows "\<exists>es. TCTable_EntrySet t = Inr es \<and> (\<forall>e\<in>set es. ordered_entry e) \<and> sorted_wrt le_entry es"
  using assms iec.EntrySet_holds by (auto simp: table_rel_def TCTable_EntrySet_def iec.holds_def)

section \<open>Updating the manifest after a compaction\<close>

definition level_files :: "Manifest \<Rightarrow> nat \<Rightarrow> string list" where
  "level_files m l = (if l < length (data_files m) then data_files m ! l else [])"

text \<open>The manifest after the files \<open>cur\<close> of \<open>level\<close> and the files \<open>a\<close> to \<open>b\<close> of the next level have
  been replaced by \<open>new_files\<close> in the next level.\<close>

definition compacted :: "Manifest \<Rightarrow> nat \<Rightarrow> nat list \<Rightarrow> nat \<Rightarrow> nat \<Rightarrow> int \<Rightarrow> string list \<Rightarrow> Manifest" where
  "compacted m level cur a b insert_index new_files =
     (let next = level_files m (level + 1);
          next' = (if a < b then take a next @ new_files @ drop b next
                   else if insert_index = 0 then new_files @ next else next @ new_files);
          levels = (if level + 1 < length (data_files m) then data_files m else data_files m @ [[]])
      in m\<lparr>data_files :=
           levels[level := nths (level_files m level) {i. i \<notin> set cur}, level + 1 := next']\<rparr>)"

lemma takeWhile_levels:
  fixes l :: int
  shows "takeWhile (\<lambda>p. fst p = l) (map (\<lambda>i. (l, int i)) cur @ map (\<lambda>i. (l + 1, int i)) nxt) =
      map (\<lambda>i. (l, int i)) cur"
    "dropWhile (\<lambda>p. fst p = l) (map (\<lambda>i. (l, int i)) cur @ map (\<lambda>i. (l + 1, int i)) nxt) =
      map (\<lambda>i. (l + 1, int i)) nxt"
    "takeWhile (\<lambda>p. fst p = l) (map (\<lambda>i. (l, int i)) cur) = map (\<lambda>i. (l, int i)) cur"
    "dropWhile (\<lambda>p. fst p = l) (map (\<lambda>i. (l, int i)) cur) = []"
  by (induction cur, (cases nxt; simp)+)

lemma UpdateManifest_eq:
  assumes "level < length (data_files man)" "sorted_wrt (<) cur"
    and "\<forall>i\<in>set cur. i < length (data_files man ! level)"
    and "a \<le> b" "b \<le> length (level_files man (level + 1))"
    and "a = b \<Longrightarrow> insert_index = 0 \<or> insert_index = int (length (level_files man (level + 1)))"
  shows "UpdateManifest s io man
      (map (\<lambda>i. (int level, int i)) cur @ map (\<lambda>i. (int level + 1, int i)) [a..<b])
      new_files level insert_index =
    (let man' = compacted man level cur a b insert_index new_files in
     rmap (\<lambda>(st, s1). (st, if StatusNoError st then man' else man, s1)) (WriteManifest s io man'))"
proof -
  let ?L = "data_files man"
  let ?kept = "nths (?L ! level) {i. i \<notin> set cur}"
  define nxt where "nxt = level_files man (level + 1)"
  define levels where "levels = (if level + 1 < length ?L then ?L else ?L @ [[]])"
  have rm: "Remove (?L ! level) cur = Inr ?kept" using Remove_deletes assms(2,3) by blast
  have kept: "(if length (?L[level := ?kept]) \<le> level + 1 then ?L[level := ?kept] @ [[]] else ?L[level := ?kept]) =
      levels[level := ?kept]"
    using assms(1) by (simp add: list_update_append levels_def)
  have len: "level + 1 < length (levels[level := ?kept])" using assms(1) by (simp add: levels_def)
  have nxt: "rd (levels[level := ?kept]) (level + 1) = Inr nxt"
    using len assms(1) by (auto simp: rd_def level_files_def nth_append nxt_def levels_def)
  have lst: "a < b \<Longrightarrow> last (map (\<lambda>i. (int level, int i)) cur @ map (\<lambda>i. (int level + 1, int i)) [a..<b]) =
      (int level + 1, int (b - 1))"
    by (simp add: last_map last_append)
  have rd: "rd ?L level = Inr (?L ! level)" using assms(1) by (simp add: rd_def)
  have man': "compacted man level cur a b insert_index new_files = man\<lparr>data_files := levels[level := ?kept, level + 1 :=
      if a < b then take a nxt @ new_files @ drop b nxt
      else if insert_index = 0 then new_files @ nxt else nxt @ new_files]\<rparr>"
    using assms(1) by (simp add: compacted_def nxt_def levels_def level_files_def [of man level] Let_def)
  consider "a < b" | "a = b" "insert_index = 0" | "a = b" "insert_index = int (length nxt)"
    using assms(4,6) unfolding nxt_def by (metis le_neq_implies_less)
  then show ?thesis
  proof cases
    case 1
    then have "RearrangeFilesInManifest nxt (int a, int (b - 1) + 1) new_files =
        Inr (True, take a nxt @ new_files @ drop b nxt)"
      using assms(5) by (simp add: RearrangeFilesInManifest_def nxt_def)
    then show ?thesis
      using 1 rm nxt lst kept rd
      by (simp add: UpdateManifest_def takeWhile_levels comp_def man' Let_def hd_map del: upt_Suc)
  next
    case 2
    then have "RearrangeFilesInManifest nxt (0, 0) new_files = Inr (True, new_files @ nxt)"
      by (simp add: RearrangeFilesInManifest_def)
    then show ?thesis
      using 2 rm nxt kept rd man' by (simp add: UpdateManifest_def takeWhile_levels comp_def Let_def)
  next
    case 3
    then have "RearrangeFilesInManifest nxt (insert_index, insert_index) new_files =
        Inr (True, if insert_index = 0 then new_files @ nxt else nxt @ new_files)"
      by (simp add: RearrangeFilesInManifest_def)
    then show ?thesis
      using 3 rm nxt kept rd man' by (simp add: UpdateManifest_def takeWhile_levels comp_def Let_def)
  qed
qed

lemma all_update: "\<forall>x\<in>set xs. P x \<Longrightarrow> P y \<Longrightarrow> \<forall>x\<in>set (xs[i := y]). P x"
  using set_update_subset_insert by fastforce

lemma good_compacted:
  assumes "good_manifest man" "\<forall>f\<in>set new_files. good_name f" "level < length (data_files man)"
  shows "good_manifest (compacted man level cur a b insert_index new_files)"
proof -
  let ?P = "\<lambda>l. \<forall>f\<in>set l. good_name f"
  have L: "\<forall>l\<in>set (data_files man). ?P l" using assms(1) by (simp add: good_manifest_def)
  then have l: "?P (level_files man l)" for l by (auto simp: level_files_def)
  let ?nxt = "level_files man (level + 1)"
  have sub: "?P ys" if "?P xs" "set ys \<subseteq> set xs" for xs ys using that by blast
  have "?P (take a ?nxt)" "?P (drop b ?nxt)" and k: "?P (nths (level_files man level) I)" for I
    using sub [OF l set_take_subset] sub [OF l set_drop_subset] sub [OF l set_nths_subset] by simp_all
  then have parts: "?P (take a ?nxt @ new_files @ drop b ?nxt)" "?P (new_files @ ?nxt)" "?P (?nxt @ new_files)"
    using l [of "level + 1"] assms(2) by (simp_all only: set_append ball_Un simp_thms)
  have if_P: "?P (if c then x else y)" if "?P x" "?P y" for c x y using that by simp
  let ?levels = "if level + 1 < length (data_files man) then data_files man else data_files man @ [[]]"
  have "\<forall>x\<in>set ?levels. ?P x" using L by simp
  then have "\<forall>x\<in>set (?levels[level := nths (level_files man level) {i. i \<notin> set cur}, level + 1 :=
      if a < b then take a ?nxt @ new_files @ drop b ?nxt
      else if insert_index = 0 then new_files @ ?nxt else ?nxt @ new_files]). ?P x"
    by (intro all_update if_P parts k)
  then show ?thesis using assms(1) by (simp add: good_manifest_def compacted_def Let_def)
qed

section \<open>Properties\<close>

text \<open>C14. Flushing a table is durable: when the system calls succeed, \<open>WriteLevel0File\<close>
  succeeds, the MANIFEST read back names the new file last on level 0 and nothing else has
  changed in it, and the new file, under a name not used before, holds the boundary keys and
  all entries of the table.\<close>

theorem WriteLevel0File_durable:
  assumes "TCTable_EntrySet t = Inr es" "\<forall>e\<in>set es. is_entry e" "es \<noteq> []"
    and "create es = Inr flex" "SST_fits es flex" "quiet s"
    and "sst_path io (hex16 (file_id io)) = Inr p" "files s p = None"
    and "good_manifest man" "0 < reader_pool io"
  shows "\<exists>st man' io' s' footer ma'. WriteLevel0File create s io t man = Inr (st, man', io', s') \<and> StatusNoError st \<and>
    man' = push_level0 man (hex16 (file_id io)) \<and> ReadManifest s' io' = Inr (NoError, Some man', s') \<and>
    ReadSSTFooter_keys (reader_pool io) s' p = Inr (NoError, Some footer, hd es, last es, s') \<and>
    ReadSSTDataAll (reader_pool io) s' p ma [] (unat (data_blk_size footer)) 0 = Inr (NoError, es, ma', s')"
proof -
  obtain mpath where mp: "PathJoin (kDatabaseDir io) kManifestFilename = Inr mpath"
    using sst_path_dir [OF assms(7)] by blast
  let ?io = "io\<lparr>file_id := file_id io + 1\<rparr>" and ?m = "push_level0 man (hex16 (file_id io))"
  obtain st s' where w: "WriteLevel0File create s io t man = Inr (st, ?m, ?io, s')" "StatusNoError st"
    "sst_at s' p es flex" "files s' mpath = Some (str_bytes (Manifest_Encode ?m))"
    using Level0_writes [where create = create, OF assms(1-8) mp, of man] by blast
  have "Manifest_Decode (Manifest_Encode ?m) = Inr ?m"
    by (intro Manifest_Decode_Encode good_push_level0 assms(9) good_name_hex16)
  then have "ReadManifest s' ?io = Inr (NoError, Some ?m, s')"
    using w(3,4) mp assms(10) by (intro ReadManifest_reads) (simp_all add: sst_at_def)
  then show ?thesis
    using w ReadSSTFooter_keys_image [OF w(3) assms(10)]
      ReadSSTDataAll_image [where acc = "[]", OF w(3) assms(10,2)] by fastforce
qed

theorem WriteLevel0File_durable_witness:
  "\<exists>t st man' io' s'. TCTable_EntrySet t = Inr [entry_bytes [107] [1] 0 kInsert] \<and>
    WriteLevel0File (\<lambda>_. Inr [7])
      \<lparr>files = Map.empty, open_results = [], write_results = [3, -1], read_results = []\<rparr>
      \<lparr>kDatabaseDir = ''db'', file_id = 0, reader_pool = 4\<rparr> t
      \<lparr>path_to_manifest = ''db/MANIFEST'', path_to_log = ''db/LOG'', data_files = []\<rparr> = Inr (st, man', io', s') \<and>
    StatusNoError st \<and> data_files man' = [[hex16 0]]"
proof -
  let ?e = "entry_bytes [107] [1] 0 kInsert"
  let ?s = "\<lparr>files = Map.empty, open_results = [], write_results = [3, -1], read_results = []\<rparr> :: os"
  let ?io = "\<lparr>kDatabaseDir = ''db'', file_id = 0, reader_pool = 4\<rparr>"
  let ?man = "\<lparr>path_to_manifest = ''db/MANIFEST'', path_to_log = ''db/LOG'', data_files = []\<rparr> :: Manifest"
  have e: "ordered_entry ?e" by (auto simp: fits_def)
  have lev: "RandomLevel [3] = Inr 0"
    by (simp add: RandomLevel_def SelectedInProb1DivdN_def RandomUniform_def kMaxLevels_def)
  from iec.Insert_holds [OF iec.holds_new e lev] obtain sl
    where sl: "iec.holds sl (insert_key le_entry ?e [])" by auto
  have es: "TCTable_EntrySet ((TCTable_new 0)\<lparr>skl := sl\<rparr>) = Inr [?e]"
    using iec.EntrySet_holds [OF sl] by (simp add: TCTable_EntrySet_def insert_key_def)
  have "SizeOfVarint 1 \<le> 10" using SizeOfVarint_bounds by blast
  then have "SST_fits [?e] [7]" by (simp add: SST_fits_def blocks_def length_entry_bytes)
  moreover have "\<forall>e\<in>set [?e]. is_entry e" using ordered_is_entry [OF e] by simp
  moreover have "sst_path ?io (hex16 (file_id ?io)) = Inr (''db/'' @ hex16 0 @ ''.tdb'')"
    by (simp add: sst_path_def PathJoin_def)
  moreover have "good_manifest ?man" by (simp add: good_manifest_def newline_def)
  ultimately have "\<exists>st man' io' s'. WriteLevel0File (\<lambda>_. Inr [7]) ?s ?io ((TCTable_new 0)\<lparr>skl := sl\<rparr>) ?man =
      Inr (st, man', io', s') \<and> StatusNoError st \<and> man' = push_level0 ?man (hex16 (file_id ?io))"
    using WriteLevel0File_durable [where create = "\<lambda>_. Inr [7]" and s = ?s and io = ?io and man = ?man, OF es]
    by (fastforce simp: quiet_def)
  then show ?thesis using es by (fastforce simp: push_level0_def)
qed

text \<open>C24. \<open>UpdateManifest\<close> replaces the compacted files by the new ones: the files of the
  lower level named by ascending subscripts disappear, the contiguous run \<open>a\<close> to \<open>b\<close> of the
  next level gives way to the new files (which go to the front or the back when the run is
  empty), every other level stays, and the MANIFEST on disk reads back as the manifest in
  memory.\<close>

theorem UpdateManifest_replaces:
  assumes "level < length (data_files man)" "sorted_wrt (<) cur"
    and "\<forall>i\<in>set cur. i < length (data_files man ! level)"
    and "a \<le> b" "b \<le> length (level_files man (level + 1))"
    and "a = b \<Longrightarrow> insert_index = 0 \<or> insert_index = int (length (level_files man (level + 1)))"
    and "good_manifest man" "\<forall>f\<in>set new_files. good_name f"
    and "quiet s" "kDatabaseDir io \<noteq> []" "0 < reader_pool io"
  shows "\<exists>st s'. UpdateManifest s io man
      (map (\<lambda>i. (int level, int i)) cur @ map (\<lambda>i. (int level + 1, int i)) [a..<b])
      new_files level insert_index = Inr (st, compacted man level cur a b insert_index new_files, s') \<and>
    StatusNoError st \<and>
    ReadManifest s' io = Inr (NoError, Some (compacted man level cur a b insert_index new_files), s')"
proof -
  let ?m = "compacted man level cur a b insert_index new_files"
  obtain mpath where mp: "PathJoin (kDatabaseDir io) kManifestFilename = Inr mpath"
    using assms(10) by (cases "last (kDatabaseDir io) = CHR ''/''") (auto simp: PathJoin_def)
  obtain st s' where w: "WriteManifest s io ?m = Inr (st, s')" "StatusNoError st"
    "files s' mpath = Some (str_bytes (Manifest_Encode ?m))" "quiet s'"
    using WriteManifest_writes [of s io mpath ?m] assms(9) mp by (auto simp: quiet_def)
  have "Manifest_Decode (Manifest_Encode ?m) = Inr ?m"
    using good_compacted assms(1,7,8) by (intro Manifest_Decode_Encode) blast
  then have "ReadManifest s' io = Inr (NoError, Some ?m, s')"
    using w(3,4) mp assms(11) by (intro ReadManifest_reads)
  then show ?thesis
    using UpdateManifest_eq [of level man cur a b insert_index s io new_files] assms(1-6) w(1,2)
    by (simp add: Let_def)
qed

theorem UpdateManifest_replaces_witness:
  "\<exists>st s' man'. UpdateManifest
      \<lparr>files = Map.empty, open_results = [], write_results = [], read_results = []\<rparr>
      \<lparr>kDatabaseDir = ''db'', file_id = 9, reader_pool = 4\<rparr>
      \<lparr>path_to_manifest = ''m'', path_to_log = ''l'', data_files = [[''0'', ''1'', ''2''], [''3'', ''4'', ''5'']]\<rparr>
      [(0, 0), (0, 2), (1, 1)] [''8''] 0 0 = Inr (st, man', s') \<and> StatusNoError st \<and>
    data_files man' = [[''1''], [''3'', ''8'', ''5'']]"
proof -
  let ?s = "\<lparr>files = Map.empty, open_results = [], write_results = [], read_results = []\<rparr> :: os"
  let ?io = "\<lparr>kDatabaseDir = ''db'', file_id = 9, reader_pool = 4\<rparr>"
  let ?man = "\<lparr>path_to_manifest = ''m'', path_to_log = ''l'',
    data_files = [[''0'', ''1'', ''2''], [''3'', ''4'', ''5'']]\<rparr> :: Manifest"
  have "good_manifest ?man" by (simp add: good_manifest_def good_name_def newline_def)
  then have "\<exists>st s'. UpdateManifest ?s ?io ?man
      (map (\<lambda>i. (int 0, int i)) [0, 2] @ map (\<lambda>i. (int 0 + 1, int i)) [1..<2]) [''8''] 0 0 =
      Inr (st, compacted ?man 0 [0, 2] 1 2 0 [''8''], s') \<and> StatusNoError st"
    using UpdateManifest_replaces [where s = ?s and io = ?io and man = ?man and level = 0 and cur = "[0, 2]" and a = 1
        and b = 2 and new_files = "[''8'']" and insert_index = 0]
    by (fastforce simp: quiet_def level_files_def good_name_def newline_def)
  moreover have "data_files (compacted ?man 0 [0, 2] 1 2 0 [''8'']) = [[''1''], [''3'', ''8'', ''5'']]"
    by (simp add: compacted_def level_files_def nths_Cons)
  ultimately show ?thesis by (fastforce simp: upt_rec)
qed

text \<open>A restarted database counts its files from 0 again, and a data file whose name is taken
  is opened for appending: the image of the new entries goes behind the old contents, and a
  reader of the boundary keys gets the first bytes of the old file.\<close>

theorem restart_appends_to_old_file:
  assumes "TCIO_new s0 dir = Inr (io, s)" "quiet s"
    and "sst_path io (hex16 0) = Inr p" "files s p = Some old" "old \<noteq> []"
    and "create es = Inr flex" "es \<noteq> []" "SST_fits es flex" "length (hd es) \<le> length old"
  shows "\<exists>st io' s' footer max_key. WriteNewSSTFile_filter create s io es = Inr (st, hex16 0, io', s') \<and>
    StatusNoError st \<and> files s' p = Some (old @ sst_image es flex) \<and>
    ReadSSTFooter_keys (reader_pool io) s' p =
      Inr (NoError, Some footer, take (length (hd es)) old, max_key, s')"
proof -
  have io: "io = \<lparr>kDatabaseDir = dir, file_id = 0, reader_pool = 4\<rparr>"
    using assms(1) by (auto simp: TCIO_new_def Let_def res_simps split: if_splits prod.splits)
  from assms(2) have q: "open_results s = []" "read_results s = []" by (simp_all add: quiet_def)
  obtain st s' where w: "WriteSSTFile_filter create s p es = Inr (st, s')" "StatusNoError st"
    "content s' p = content s p @ sst_image es flex" "open_results s' = []" "read_results s' = read_results s"
    using WriteSSTFile_writes [where create = create and es = es, OF assms(6-8), of s p] q by blast
  have "content s p = old" using assms(4) by (simp add: content_def)
  with w(3) assms(5) have f: "files s' p = Some (old @ sst_image es flex)"
    by (auto simp: content_def split: option.splits)
  have q': "quiet s'" using w q by (simp add: quiet_def)
  have "sst_path (io\<lparr>file_id := 1\<rparr>) (hex16 0) = Inr p" using assms(3) by (simp add: sst_path_def)
  then have "WriteNewSSTFile_filter create s io es = Inr (st, hex16 0, io\<lparr>file_id := 1\<rparr>, s')"
    using w(1) io by (simp add: WriteNewSSTFile_filter_def next_basename_def)
  moreover have "\<exists>max_key. ReadSSTFooter_keys (reader_pool io) s' p =
      Inr (NoError, Some (sst_footer es flex), take (length (hd es)) old, max_key, s')"
    using footer_keys_behind [OF q' f assms(7,8,9)] io by simp
  ultimately show ?thesis using w(2) f by blast
qed

theorem restart_appends_to_old_file_witness:
  "\<exists>io s p. TCIO_new \<lparr>files = [''db/0000000000000000.tdb'' \<mapsto> replicate 12 9],
      open_results = [], write_results = [], read_results = []\<rparr> ''db'' = Inr (io, s) \<and>
    sst_path io (hex16 0) = Inr p \<and>
    (\<exists>st io' s' footer max_key. WriteNewSSTFile_filter (\<lambda>_. Inr [7]) s io [entry_bytes [98] [] 1 kDelete] =
      Inr (st, hex16 0, io', s') \<and>
      ReadSSTFooter_keys 4 s' p = Inr (NoError, Some footer, replicate 11 9, max_key, s'))"
proof -
  let ?old = "replicate 12 (9 :: byte)"
  let ?f = "''db/0000000000000000.tdb''"
  let ?s0 = "\<lparr>files = [?f \<mapsto> ?old], open_results = [], write_results = [], read_results = []\<rparr> :: os"
  let ?io = "\<lparr>kDatabaseDir = ''db'', file_id = 0, reader_pool = 4\<rparr>"
  obtain st s where b: "BuildMetadataFile ?s0 ?io = Inr (st, s)" "StatusNoError st" "quiet s" "files s ?f = Some ?old"
    using BuildMetadataFile_fresh [of ?s0 ?io "''db/MANIFEST''" "''db/LOG''"]
    by (auto simp: PathJoin_def kManifestFilename_def kLogFilename_def quiet_def)
  then have n: "TCIO_new ?s0 ''db'' = Inr (?io, s)" by (simp add: TCIO_new_def)
  have h: "hex16 0 = ''0000000000000000''"
    by (simp add: hex16_def hex_digit_def map_replicate_const) (simp add: numeral_eq_Suc)
  have p: "sst_path ?io (hex16 0) = Inr ?f" by (simp add: sst_path_def PathJoin_def h)
  let ?es = "[entry_bytes [98] [] 1 kDelete]"
  have "SizeOfVarint 1 \<le> 10" using SizeOfVarint_bounds by blast
  moreover have "length (hd ?es) = 11" by (simp add: length_entry_bytes SizeOfVarint_def SizeOfVarint_shift.simps)
  ultimately have fits: "SST_fits ?es [7]" "length (hd ?es) \<le> length ?old"
    by (simp_all add: SST_fits_def blocks_def length_entry_bytes)
  have ne: "?old \<noteq> []" "?es \<noteq> []" "reader_pool ?io = 4" by simp_all
  obtain st io' s' footer max_key where r:
    "WriteNewSSTFile_filter (\<lambda>_. Inr [7]) s ?io ?es = Inr (st, hex16 0, io', s')"
    "ReadSSTFooter_keys 4 s' ?f = Inr (NoError, Some footer, take (length (hd ?es)) ?old, max_key, s')"
    using restart_appends_to_old_file [where create = "\<lambda>_. Inr [7]" and es = ?es,
        OF n b(3) p b(4) ne(1) refl ne(2) fits] unfolding ne(3) by blast
  have "take (length (hd ?es)) ?old = replicate 11 9" using \<open>length (hd ?es) = 11\<close> by simp
  note r2 = r(2) [unfolded this]
  show ?thesis by (intro exI conjI) (rule n, rule p, rule r(1), rule r2)
qed

end
