(* ===== verification/MergeModel.thy ===== *)
theory MergeModel
  imports DatabaseIO
begin

text \<open>
  The multi-way merge of a compaction: \<open>TCDB::MultiwayMerge\<close> and \<open>TCDB::IterMerge\<close>
  (\<open>src/table/db.cc\<close>).

  An entry is a pointer into a block of the \<open>MergeAllocator\<close>: the model carries its bytes, the
  block it lies in, the number of its file and the block number the code recorded for it.
  Every access goes through \<open>touch\<close>, which faults when the block has been released.
  \<open>std::priority_queue\<close> is the list of its elements with a least one in front.
\<close>

section \<open>The priority queue\<close>

text \<open>\<open>gt\<close> is the comparison functor, so that the front is a least element.\<close>

fun pq_push :: "('a \<Rightarrow> 'a \<Rightarrow> bool res) \<Rightarrow> 'a \<Rightarrow> 'a list \<Rightarrow> 'a list res" where
  "pq_push gt x [] = Inr [x]"
| "pq_push gt x (y # ys) =
     rbind (gt y x) (\<lambda>g. if g then Inr (x # y # ys) else rmap ((#) y) (pq_push gt x ys))"

fun pq_push_all :: "('a \<Rightarrow> 'a \<Rightarrow> bool res) \<Rightarrow> 'a list \<Rightarrow> 'a list \<Rightarrow> 'a list res" where
  "pq_push_all gt [] q = Inr q"
| "pq_push_all gt (x # xs) q = rbind (pq_push gt x q) (pq_push_all gt xs)"

section \<open>State\<close>

type_synonym queue_item = "(bytes \<times> nat) \<times> int \<times> int"

abbreviation item_entry :: "queue_item \<Rightarrow> bytes" where
  "item_entry it \<equiv> fst (fst it)"

abbreviation item_file :: "queue_item \<Rightarrow> int" where
  "item_file it \<equiv> fst (snd it)"

definition merge_greater :: "queue_item \<Rightarrow> queue_item \<Rightarrow> bool res" where
  "merge_greater x y = MergeComparator_call (item_entry x, snd x) (item_entry y, snd y)"

definition live :: "allocator \<Rightarrow> queue_item \<Rightarrow> bool" where
  "live pool it \<longleftrightarrow> snd (fst it) < length (block_ptr pool) \<and> block_ptr pool ! snd (fst it) \<noteq> None"

definition touch :: "allocator \<Rightarrow> queue_item list \<Rightarrow> 'a res \<Rightarrow> 'a res" where
  "touch pool its m = (if list_all (live pool) its then m else Inl UseAfterFree)"

record merge_state =
  queue :: "queue_item list"
  pool :: allocator
  file_entry_in_queue :: "int list"
  index_block_ptr :: "nat list"
  output_buffer :: "queue_item list"
  current_sst_size :: u32
  new_files :: "string list"
  merge_io :: TCIO
  merge_os :: os

section \<open>Reading blocks into the queue\<close>

text \<open>The entries of a block that \<open>ReadSSTDataBlock\<close> has put at the address \<open>Allocate\<close> gave.\<close>

definition push_block ::
    "allocator \<Rightarrow> allocator \<Rightarrow> nat \<Rightarrow> bytes list \<Rightarrow> int \<Rightarrow> int \<Rightarrow> queue_item list \<Rightarrow> queue_item list res" where
  "push_block before after n entry_set file_num block_id q =
     (let new = map (\<lambda>e. ((e, fst (fst (Allocate before n))), file_num, block_id)) entry_set in
      touch after (q @ new) (pq_push_all merge_greater new q))"

fun merge_init ::
    "nat \<Rightarrow> os \<Rightarrow> allocator \<Rightarrow> string list \<Rightarrow> nat \<Rightarrow> queue_item list \<Rightarrow> int list \<Rightarrow> u32 list list \<Rightarrow>
      (Status \<times> queue_item list \<times> allocator \<times> int list \<times> u32 list list \<times> os) res" where
  "merge_init readers s ma [] i q counts index_list = Inr (NoError, q, ma, counts, index_list, s)"
| "merge_init readers s ma (f # fs) i q counts index_list =
     rbind (ReadSSTFooter readers s f) (\<lambda>(st, footer, s1).
     if \<not> StatusNoError st then Inr (st, q, ma, counts, index_list, s1)
     else rbind (case footer of None \<Rightarrow> Inl Uninit | Some ft \<Rightarrow> Inr ft) (\<lambda>ft.
     rbind (ReadSSTIndex readers s1 f ft) (\<lambda>(st, offs, s2).
     if \<not> StatusNoError st then Inr (st, q, ma, counts, index_list, s2)
     else
       let index_block = offs @ [data_blk_size ft] in
       rbind (rd index_block 1) (\<lambda>b. rbind (rd index_block 0) (\<lambda>a.
       rbind (ReadSSTDataBlock True readers s2 f ma [] (unat (b - a)) 0 (- 1)) (\<lambda>(st, entry_set, ma1, rs, s3).
       if \<not> StatusNoError st then Inr (st, q, ma1, counts, index_list @ [index_block], s3)
       else
         rbind (push_block ma ma1 (unat (b - a)) entry_set (int i) (int i + 1) q) (\<lambda>q1.
         merge_init readers s3 ma1 fs (i + 1) q1 (counts @ [int (length entry_set)])
           (index_list @ [index_block]))))))))"

section \<open>The merge loop\<close>

definition write_output ::
    "(bytes list \<Rightarrow> bytes res) \<Rightarrow> merge_state \<Rightarrow> (Status \<times> string \<times> merge_state) res" where
  "write_output create m =
     touch (pool m) (output_buffer m)
      (rmap (\<lambda>(st, file_basename, ma, io, s).
           (st, file_basename, m\<lparr>pool := ma, merge_io := io, merge_os := s\<rparr>))
        (WriteMergeSSTFile_filter create (merge_os m) (merge_io m) (pool m)
          (map (\<lambda>it. (item_entry it, snd it)) (output_buffer m))))"

text \<open>Pop the front and append it to the output buffer, or replace the last entry there when it
  has the same key.\<close>

definition take_entry :: "merge_state \<Rightarrow> queue_item \<Rightarrow> merge_state res" where
  "take_entry m pq_item =
     touch (pool m) (queue m)
      (let m1 = m\<lparr>queue := tl (queue m)\<rparr>; out = output_buffer m in
       if out \<noteq> [] then
         touch (pool m) [last out, pq_item]
          (rbind (IEC_Equal (item_entry (last out)) (item_entry pq_item)) (\<lambda>b.
           if b then Inr (m1\<lparr>pool := unref_item (pool m) (item_entry (last out), snd (last out)),
               output_buffer := butlast out @ [pq_item]\<rparr>)
           else Inr (m1\<lparr>output_buffer := out @ [pq_item]\<rparr>)))
       else Inr (m1\<lparr>output_buffer := [pq_item]\<rparr>))"

text \<open>When the last entry of a block has left the queue, read the next block of its file. The
  differences and offsets pass through \<open>int\<close>.\<close>

definition refill ::
    "nat \<Rightarrow> string list \<Rightarrow> u32 list list \<Rightarrow> Status \<Rightarrow> queue_item \<Rightarrow> merge_state \<Rightarrow> (Status \<times> merge_state) res" where
  "refill readers fs index_list ret pq_item m =
     (let n = nat (item_file pq_item) in
      rbind (rd (file_entry_in_queue m) n) (\<lambda>c.
      let m1 = m\<lparr>file_entry_in_queue := (file_entry_in_queue m)[n := c - 1]\<rparr> in
      if c - 1 \<noteq> 0 then Inr (ret, m1)
      else
        rbind (rd (index_block_ptr m1) n) (\<lambda>k. rbind (rd index_list n) (\<lambda>index_block.
        if index_block \<noteq> [] \<and> length index_block - 1 \<le> k then Inr (ret, m1)
        else
          rbind (rd index_block (k + 1)) (\<lambda>b. rbind (rd index_block k) (\<lambda>a.
          rbind (rd fs n) (\<lambda>f.
          let block_size = unat (scast (b - a) :: u64) in
          rbind (ReadSSTDataBlock True readers (merge_os m1) f (pool m1) [] block_size (sint a) (- 1))
            (\<lambda>(st, entry_set, ma, rs, s).
          if \<not> StatusNoError st then Inr (st, m1\<lparr>pool := ma, merge_os := s\<rparr>)
          else
            rbind (push_block (pool m1) ma block_size entry_set (item_file pq_item)
                (sint (BlockCount ma - 1)) (queue m1)) (\<lambda>q.
            Inr (st, m1\<lparr>pool := ma, merge_os := s, queue := q, index_block_ptr := (index_block_ptr m1)[n := k + 1],
              file_entry_in_queue :=
                (file_entry_in_queue m1)[n := c - 1 + int (length entry_set)]\<rparr>))))))))))"

text \<open>What the loop still has to do: unread blocks, queued entries, buffered entries.\<close>

definition blocks_left :: "u32 list list \<Rightarrow> merge_state \<Rightarrow> nat" where
  "blocks_left index_list m = sum_list (map2 (\<lambda>ib k. length ib - k) index_list (index_block_ptr m))"

text \<open>A file of no entries is not written: \<open>front()\<close> of the empty vector is undefined. So each
  pass of the loop takes an entry, starts a block or empties the buffer.\<close>

lemma WriteSSTFile_empty:
  assumes "WriteSSTFile_filter create s f [] = Inr (st, s')"
  shows "\<not> StatusNoError st"
  using assms
  by (auto simp: WriteSSTFile_filter_def Let_def res_simps split: prod.splits if_splits)

lemma write_output_nonempty:
  assumes "write_output create m = Inr (st, f, m')" "StatusNoError st"
  shows "output_buffer m \<noteq> []" "queue m' = queue m" "index_block_ptr m' = index_block_ptr m"
  using assms WriteSSTFile_empty
  by (auto simp: write_output_def touch_def WriteMergeSSTFile_filter_def WriteNewSSTFile_filter_def
      Let_def res_simps split: prod.splits if_splits)

lemma take_entry_progress:
  assumes "take_entry m it = Inr m'"
  shows "queue m' = tl (queue m)" "index_block_ptr m' = index_block_ptr m"
  using assms by (auto simp: take_entry_def touch_def Let_def res_simps split: if_splits)

lemma blocks_left_step:
  "k < length il \<Longrightarrow> k < length ps \<Longrightarrow> ps ! k < length (il ! k) \<Longrightarrow>
    sum_list (map2 (\<lambda>ib k. length ib - k) il (ps[k := Suc (ps ! k)])) <
    (sum_list (map2 (\<lambda>ib k. length ib - k) il ps) :: nat)"
proof (induction il arbitrary: k ps)
  case (Cons ib il)
  then show ?case
    using Cons.IH [of "k - 1" "tl ps"] by (cases ps; cases k) auto
qed simp

lemma refill_progress:
  assumes "refill readers fs index_list ret it m = Inr (st, m')" "StatusNoError st"
  shows "blocks_left index_list m' < blocks_left index_list m \<or>
    queue m' = queue m \<and> index_block_ptr m' = index_block_ptr m"
proof -
  let ?n = "nat (item_file it)"
  consider "queue m' = queue m \<and> index_block_ptr m' = index_block_ptr m"
    | k index_block where "index_block_ptr m' = (index_block_ptr m)[?n := k + 1]"
      "rd (index_block_ptr m) ?n = Inr k" "rd index_list ?n = Inr index_block" "k + 1 < length index_block"
    using assms
    by (auto simp: refill_def Let_def res_simps rd_def split: prod.splits if_splits)
  then show ?thesis
  proof cases
    case 2
    then have "blocks_left index_list m' < blocks_left index_list m"
      unfolding blocks_left_def using blocks_left_step [of ?n index_list "index_block_ptr m"]
      by (auto simp: rd_def split: if_splits)
    then show ?thesis by blast
  qed simp
qed

function IterMerge_loop ::
    "(bytes list \<Rightarrow> bytes res) \<Rightarrow> nat \<Rightarrow> string list \<Rightarrow> u32 list list \<Rightarrow> Status \<Rightarrow> merge_state \<Rightarrow>
      (Status \<times> merge_state) res" where
  "IterMerge_loop create readers fs index_list ret m =
     (case queue m of
        [] \<Rightarrow> Inr (ret, m)
      | pq_item # q \<Rightarrow>
          let sz = current_sst_size m + of_nat (length (item_entry pq_item)) in
          if of_nat kApproximateSSTFileSize \<le>s sz then
            rbind (write_output create m) (\<lambda>(st, file_basename, m1).
            if \<not> StatusNoError st then Inr (st, m1)
            else IterMerge_loop create readers fs index_list st
              (m1\<lparr>new_files := new_files m1 @ [file_basename], pool := ReleaseIdleSpace (pool m1),
                 output_buffer := [], current_sst_size := 0\<rparr>))
          else
            rbind (take_entry (m\<lparr>current_sst_size := sz\<rparr>) pq_item) (\<lambda>m1.
            rbind (refill readers fs index_list ret pq_item m1) (\<lambda>(st, m2).
            if \<not> StatusNoError st then Inr (st, m2)
            else IterMerge_loop create readers fs index_list st m2)))"
  by pat_completeness auto
termination
proof (relation "measures [\<lambda>(c, r, fs, il, ret, m). blocks_left il m, \<lambda>(c, r, fs, il, ret, m). length (queue m),
    \<lambda>(c, r, fs, il, ret, m). length (output_buffer m)]", goal_cases)
  case 1
  show ?case by simp
next
  case (2 create readers fs index_list ret m it q sz r st y f m1)
  then show ?case
    using write_output_nonempty [of create m st f m1] by (simp add: blocks_left_def)
next
  case (3 create readers fs index_list ret m it q sz m1 r st m2)
  then show ?case
    using refill_progress [of readers fs index_list ret it m1 st m2]
      take_entry_progress [of "m\<lparr>current_sst_size := sz\<rparr>" it m1] by (auto simp: blocks_left_def)
qed

declare IterMerge_loop.simps [simp del]

text \<open>The flush of what is left at the end.\<close>

definition IterMerge ::
    "(bytes list \<Rightarrow> bytes res) \<Rightarrow> nat \<Rightarrow> string list \<Rightarrow> u32 list list \<Rightarrow> merge_state \<Rightarrow>
      (Status \<times> merge_state) res" where
  "IterMerge create readers fs index_list m =
     rbind (IterMerge_loop create readers fs index_list NoError m) (\<lambda>(st, m1).
     if StatusNoError st \<and> output_buffer m1 \<noteq> [] then
       rmap (\<lambda>(st, file_basename, m2).
          (st, if StatusNoError st then m2\<lparr>new_files := new_files m2 @ [file_basename]\<rparr> else m2))
         (write_output create m1)
     else Inr (st, m1))"

definition MultiwayMerge ::
    "(bytes list \<Rightarrow> bytes res) \<Rightarrow> os \<Rightarrow> TCIO \<Rightarrow> string list \<Rightarrow> (Status \<times> string list \<times> TCIO \<times> os) res" where
  "MultiwayMerge create s io compact_file_abs_path =
     rbind (merge_init (reader_pool io) s MergeAllocator_new compact_file_abs_path 0 [] [] [])
      (\<lambda>(st, q, ma, counts, index_list, s1).
     if \<not> StatusNoError st then Inr (st, [], io, s1)
     else
       rmap (\<lambda>(st, m). (st, new_files m, merge_io m, merge_os m))
        (IterMerge create (reader_pool io) compact_file_abs_path index_list
          \<lparr>queue = q, pool = ma, file_entry_in_queue = counts,
           index_block_ptr = replicate (length index_list) 1, output_buffer = [], current_sst_size = 0,
           new_files = [], merge_io = io, merge_os = s1\<rparr>))"

end
