(* ===== verification/SSTSearch.thy ===== *)
theory SSTSearch
  imports DatabaseIO
begin

text \<open>
  Point lookups in data files: \<open>TCDB::GetFromSST\<close>, \<open>GetFromSSTv2\<close> and \<open>SearchLevel\<close>
  (\<open>src/table/db.cc\<close>). \<open>contains\<close> is \<open>filter_->ContainsKey\<close>. A result entry is written through a
  reference: the operations take its old value and return the new one. \<open>query_buffer_\<close> is the
  allocator the found entry is copied into.
\<close>

section \<open>One file\<close>

fun find_equal :: "bytes \<Rightarrow> bytes list \<Rightarrow> bytes option res" where
  "find_equal query_key [] = Inr None"
| "find_equal query_key (e # es) =
     rbind (IEC_Equal e query_key) (\<lambda>b. if b then Inr (Some e) else find_equal query_key es)"

text \<open>\<open>entry_set.back()\<close> of an empty vector is undefined.\<close>

definition vec_back :: "'a list \<Rightarrow> 'a res" where
  "vec_back xs = (if xs = [] then Inl OobRead else Inr (last xs))"

text \<open>The binary search over the blocks between \<open>l\<close> and \<open>r\<close>.\<close>

function search_blocks ::
    "nat \<Rightarrow> os \<Rightarrow> allocator \<Rightarrow> allocator \<Rightarrow> bytes \<Rightarrow> bytes \<Rightarrow> string \<Rightarrow> u32 list \<Rightarrow> Status \<Rightarrow> int \<Rightarrow> int \<Rightarrow>
      (Status \<times> bytes \<times> allocator \<times> os) res" where
  "search_blocks readers s qa qb query_key ret_entry f index_block ret l r =
     (if l \<le> r then
        let mid = (l + r) div 2 in
        rbind (rd index_block (nat (mid + 1))) (\<lambda>next_off. rbind (rd index_block (nat mid)) (\<lambda>off.
        rbind (ReadSSTDataBlock False readers s f qa [] (unat (next_off - off)) (int (unat off)) (- 1))
          (\<lambda>(st, entry_set, qa1, rs, s1).
        if \<not> StatusNoError st then Inr (st, ret_entry, qb, s1)
        else rbind (find_equal query_key entry_set) (\<lambda>found.
          case found of
            Some e \<Rightarrow> Inr (st, e, snd (Allocate qb (length e)), s1)
          | None \<Rightarrow>
              rbind (vec_back entry_set) (\<lambda>back. rbind (QC_Greater query_key back) (\<lambda>g.
              if g then search_blocks readers s1 qa1 qb query_key ret_entry f index_block st (mid + 1) r
              else search_blocks readers s1 qa1 qb query_key ret_entry f index_block st l (mid - 1)))))))
      else Inr (ret, ret_entry, qb, s))"
  by pat_completeness auto
termination
  by (relation "measure (\<lambda>(readers, s, qa, qb, q, re, f, ib, ret, l, r). nat (r - l + 1))") auto

declare search_blocks.simps [simp del]

definition QueryAllocator_new :: allocator where
  "QueryAllocator_new = MemAllocator_new 0"

definition GetFromSST ::
    "(bytes \<Rightarrow> bytes \<Rightarrow> bool res) \<Rightarrow> nat \<Rightarrow> os \<Rightarrow> allocator \<Rightarrow> bytes \<Rightarrow> bytes \<Rightarrow> string \<Rightarrow> Footer \<Rightarrow>
      (Status \<times> bytes \<times> allocator \<times> os) res" where
  "GetFromSST contains readers s qb query_key ret_entry f footer =
     rbind (EntryKey query_key) (\<lambda>query_key_value.
     rbind (ReadSSTFlexible readers s f footer) (\<lambda>(st, flt, s1).
     if \<not> StatusNoError st then Inr (st, ret_entry, qb, s1)
     else rbind (contains query_key_value flt) (\<lambda>b.
     if \<not> b then Inr (st, ret_entry, qb, s1)
     else rbind (ReadSSTIndex readers s1 f footer) (\<lambda>(st, offs, s2).
     if \<not> StatusNoError st then Inr (st, ret_entry, qb, s2)
     else
       let index_block = offs @ [data_blk_size footer] in
       search_blocks readers s2 QueryAllocator_new qb query_key ret_entry f index_block st
         0 (int (length index_block) - 2)))))"

text \<open>The version that reads the whole file and searches its entries.\<close>

function search_entries :: "bytes \<Rightarrow> bytes list \<Rightarrow> int \<Rightarrow> int \<Rightarrow> bytes option res" where
  "search_entries query_key entry_set l r =
     (if l \<le> r then
        let mid = (l + r) div 2 in
        rbind (rd entry_set (nat mid)) (\<lambda>e.
        rbind (IEC_Equal e query_key) (\<lambda>b.
        if b then Inr (Some e)
        else rbind (QC_Greater query_key e) (\<lambda>g.
          if g then search_entries query_key entry_set (mid + 1) r
          else search_entries query_key entry_set l (mid - 1))))
      else Inr None)"
  by pat_completeness auto
termination
  by (relation "measure (\<lambda>(q, es, l, r). nat (r - l + 1))") auto

declare search_entries.simps [simp del]

definition GetFromSSTv2 ::
    "(bytes \<Rightarrow> bytes \<Rightarrow> bool res) \<Rightarrow> nat \<Rightarrow> os \<Rightarrow> allocator \<Rightarrow> bytes \<Rightarrow> bytes \<Rightarrow> string \<Rightarrow> Footer \<Rightarrow>
      (Status \<times> bytes \<times> allocator \<times> os) res" where
  "GetFromSSTv2 contains readers s qb query_key ret_entry f footer =
     rbind (EntryKey query_key) (\<lambda>query_key_value.
     rbind (ReadSSTFlexible readers s f footer) (\<lambda>(st, flt, s1).
     if \<not> StatusNoError st then Inr (st, ret_entry, qb, s1)
     else rbind (contains query_key_value flt) (\<lambda>b.
     if \<not> b then Inr (st, ret_entry, qb, s1)
     else rbind (ReadSSTIndex readers s1 f footer) (\<lambda>(st, offs, s2).
     if \<not> StatusNoError st then Inr (st, ret_entry, qb, s2)
     else rbind (ReadSSTDataAll readers s2 f QueryAllocator_new [] (unat (data_blk_size footer)) 0)
       (\<lambda>(st, entry_set, qa, s3).
     if \<not> StatusNoError st then Inr (st, ret_entry, qb, s3)
     else rbind (search_entries query_key entry_set 0 (int (length entry_set) - 1)) (\<lambda>found.
       case found of
         None \<Rightarrow> Inr (st, ret_entry, qb, s3)
       | Some e \<Rightarrow> Inr (st, e, snd (Allocate qb (length e)), s3)))))))"

section \<open>One level\<close>

definition in_range :: "bytes \<Rightarrow> bytes \<Rightarrow> bytes \<Rightarrow> bool res" where
  "in_range query_key iter_min_entry iter_max_entry =
     rbind (QC_LessOrEquals query_key iter_max_entry) (\<lambda>a.
     if a then QC_GreaterOrEquals query_key iter_min_entry else Inr False)"

text \<open>Level 0: every file in order, up to the first result or error.\<close>

fun search_level0 ::
    "(bytes \<Rightarrow> bytes \<Rightarrow> bool res) \<Rightarrow> TCIO \<Rightarrow> os \<Rightarrow> allocator \<Rightarrow> bytes \<Rightarrow> bytes \<Rightarrow> Status \<Rightarrow> string list \<Rightarrow>
      (Status \<times> bytes \<times> allocator \<times> os) res" where
  "search_level0 contains io s qb query_key ret_entry ret [] = Inr (ret, ret_entry, qb, s)"
| "search_level0 contains io s qb query_key ret_entry ret (name # names) =
     rbind (sst_path io name) (\<lambda>f.
     rbind (ReadSSTFooter_keys (reader_pool io) s f) (\<lambda>(st, footer, iter_min_entry, iter_max_entry, s1).
     if \<not> StatusNoError st then Inr (st, ret_entry, qb, s1)
     else rbind (in_range query_key iter_min_entry iter_max_entry) (\<lambda>b.
     if b then
       rbind (case footer of None \<Rightarrow> Inl Uninit
              | Some ft \<Rightarrow> GetFromSST contains (reader_pool io) s1 qb query_key ret_entry f ft)
         (\<lambda>(st, ret_entry, qb, s2).
       if \<not> StatusNoError st \<or> length ret_entry \<noteq> 0 then Inr (st, ret_entry, qb, s2)
       else search_level0 contains io s2 qb query_key ret_entry st names)
     else search_level0 contains io s1 qb query_key ret_entry st names)))"

text \<open>Higher levels: the first file whose range holds the key decides.\<close>

fun search_level_n ::
    "(bytes \<Rightarrow> bytes \<Rightarrow> bool res) \<Rightarrow> TCIO \<Rightarrow> os \<Rightarrow> allocator \<Rightarrow> bytes \<Rightarrow> bytes \<Rightarrow> Status \<Rightarrow> string list \<Rightarrow>
      (Status \<times> bytes \<times> allocator \<times> os) res" where
  "search_level_n contains io s qb query_key ret_entry ret [] = Inr (ret, ret_entry, qb, s)"
| "search_level_n contains io s qb query_key ret_entry ret (name # names) =
     rbind (sst_path io name) (\<lambda>f.
     rbind (ReadSSTFooter_keys (reader_pool io) s f) (\<lambda>(st, footer, iter_min_entry, iter_max_entry, s1).
     if \<not> StatusNoError st then Inr (st, ret_entry, qb, s1)
     else rbind (in_range query_key iter_min_entry iter_max_entry) (\<lambda>b.
     if b then
       (case footer of None \<Rightarrow> Inl Uninit
        | Some ft \<Rightarrow> GetFromSST contains (reader_pool io) s1 qb query_key ret_entry f ft)
     else search_level_n contains io s1 qb query_key ret_entry st names)))"

definition SearchLevel ::
    "(bytes \<Rightarrow> bytes \<Rightarrow> bool res) \<Rightarrow> TCIO \<Rightarrow> os \<Rightarrow> allocator \<Rightarrow> bytes \<Rightarrow> bytes \<Rightarrow> Manifest \<Rightarrow> nat \<Rightarrow>
      (Status \<times> bytes \<times> allocator \<times> os) res" where
  "SearchLevel contains io s qb query_key ret_entry manifest level =
     (if level < length (data_files manifest) then
        (if level = 0
         then search_level0 contains io s qb query_key ret_entry NoError (data_files manifest ! level)
         else search_level_n contains io s qb query_key ret_entry NoError (data_files manifest ! level))
      else Inl AssertFail)"

section \<open>The search finds what the file holds\<close>

text \<open>The entries of a key in a data file sorted by key.\<close>

abbreviation key_ordered :: "bytes \<Rightarrow> bytes \<Rightarrow> bool" where
  "key_ordered x y \<equiv> key_le (fst (ent_of x)) (fst (ent_of y))"

definition sorted_file :: "bytes list \<Rightarrow> bool" where
  "sorted_file es \<longleftrightarrow> (\<forall>e\<in>set es. ordered_entry e) \<and> sorted_wrt key_ordered es"

lemma sorted_file_entries: "sorted_file es \<Longrightarrow> \<forall>e\<in>set es. is_entry e"
  by (auto simp: sorted_file_def ordered_is_entry)

lemma le_entry_key: "le_entry x y \<Longrightarrow> key_ordered x y"
  by (rule ent_le_key)

lemma sorted_entries_file:
  assumes "sorted_wrt le_entry es" "\<forall>e\<in>set es. ordered_entry e"
  shows "sorted_file es"
  unfolding sorted_file_def using assms(2) le_entry_key sorted_wrt_mono_rel [OF _ assms(1), of key_ordered] by blast

lemma find_equal_find:
  "\<forall>e\<in>set es. ordered_entry e \<Longrightarrow> ordered_entry q \<Longrightarrow> find_equal q es = Inr (find (\<lambda>e. same_key e q) es)"
  by (induction es) (auto simp: compare_ordered)

text \<open>Blocks of a sorted file are sorted, each and against each other.\<close>

lemma sorted_wrt_concat:
  assumes "sorted_wrt R (concat bs)" "j < length bs"
  shows "sorted_wrt R (bs ! j)"
    and "i < j \<Longrightarrow> x \<in> set (bs ! i) \<Longrightarrow> y \<in> set (bs ! j) \<Longrightarrow> R x y"
proof -
  have "concat bs = concat (take j bs) @ bs ! j @ concat (drop (Suc j) bs)"
    by (subst id_take_nth_drop [OF assms(2)]) simp
  with assms(1) have s: "sorted_wrt R (bs ! j)"
    "\<forall>x\<in>set (concat (take j bs)). \<forall>y\<in>set (bs ! j). R x y"
    by (auto simp: sorted_wrt_append)
  show "sorted_wrt R (bs ! j)" by (rule s(1))
  assume "i < j" "x \<in> set (bs ! i)" "y \<in> set (bs ! j)"
  moreover from this have "bs ! i \<in> set (take j bs)"
    using assms(2) nth_mem [of i "take j bs"] by simp
  ultimately have "x \<in> set (concat (take j bs))" by auto
  with s(2) \<open>y \<in> set (bs ! j)\<close> show "R x y" by blast
qed

lemma block_of_entry:
  shows "i < length (blocks es) \<Longrightarrow> e \<in> set (blocks es ! i) \<Longrightarrow> e \<in> set es"
    and "e \<in> set es \<Longrightarrow> \<exists>i<length (blocks es). e \<in> set (blocks es ! i)"
proof -
  have e: "e \<in> set es \<longleftrightarrow> (\<exists>b\<in>set (blocks es). e \<in> set b)"
    by (subst concat_blocks [of es, symmetric]) simp
  show "e \<in> set es" if "i < length (blocks es)" "e \<in> set (blocks es ! i)"
    unfolding e using that nth_mem by blast
  show "\<exists>i<length (blocks es). e \<in> set (blocks es ! i)" if "e \<in> set es"
    using that unfolding e by (metis in_set_conv_nth)
qed

lemma blocks_nonempty: "i < length (blocks es) \<Longrightarrow> blocks es ! i \<noteq> []"
  using cut_blocks_ok [of "[]" es] by (simp add: blocks_def list_all_length block_ok_def)

text \<open>The index with the size of the data behind it gives the extent of every block.\<close>

lemma index_entry:
  assumes "k \<le> length (blocks es)"
  shows "rd (sst_offsets es @ [of_nat (total_size es)]) k = Inr (of_nat (total_size (concat (take k (blocks es)))))"
proof (cases "k = length (blocks es)")
  case True
  then show ?thesis by (simp add: rd_def nth_append concat_blocks)
next
  case False
  then show ?thesis
    using assms by (simp add: rd_def nth_append sst_offsets_def block_position)
qed

lemma block_extent:
  assumes "SST_fits es flex" "k < length (blocks es)"
  shows "unat (of_nat (total_size (concat (take (Suc k) (blocks es)))) -
      of_nat (total_size (concat (take k (blocks es)))) :: u32) = total_size (blocks es ! k)"
proof -
  have t: "concat (take (Suc k) (blocks es)) = concat (take k (blocks es)) @ blocks es ! k"
    using assms(2) by (simp add: take_Suc_conv_app_nth)
  have "es = concat (take (Suc k) (blocks es)) @ concat (drop (Suc k) (blocks es))"
    by (metis append_take_drop_id concat_append concat_blocks)
  then have "total_size (concat (take (Suc k) (blocks es))) \<le> total_size es"
    by (metis le_add1 total_size_simps(3))
  then have "total_size (blocks es ! k) < 2 ^ 32"
    using assms(1) t by (simp add: SST_fits_def)
  then show ?thesis using t by (simp add: unat_of_nat_u32)
qed

lemma read_block:
  assumes "sst_at s f es flex" "0 < readers" "sorted_file es" "k < length (blocks es)"
  shows "\<exists>qa'. ReadSSTDataBlock False readers s f qa []
      (unat (of_nat (total_size (concat (take (Suc k) (blocks es)))) -
        of_nat (total_size (concat (take k (blocks es)))) :: u32))
      (int (unat (of_nat (total_size (concat (take k (blocks es)))) :: u32))) (- 1) =
    Inr (NoError, blocks es ! k, qa', readers, s)"
proof -
  have "SST_fits es flex" using assms(1) by (simp add: sst_at_def)
  moreover have "sst_offsets es ! k = of_nat (total_size (concat (take k (blocks es))))"
    using assms(4) by (simp add: sst_offsets_def block_position)
  ultimately show ?thesis
    using ReadSSTDataBlock_image [OF assms(1,2) sorted_file_entries [OF assms(3)] assms(4), of False qa "[]"]
      block_extent [of es flex k] assms(4) by simp
qed


text \<open>\<open>block_hit\<close>: the first entry of the key in some block. \<open>outside\<close> is the invariant of the
  bisection: no block outside the interval holds the key.\<close>

definition block_hit :: "bytes list \<Rightarrow> bytes \<Rightarrow> bytes \<Rightarrow> bool" where
  "block_hit es q e \<longleftrightarrow> (\<exists>k<length (blocks es). find (\<lambda>e. same_key e q) (blocks es ! k) = Some e)"

definition outside :: "bytes list \<Rightarrow> bytes \<Rightarrow> int \<Rightarrow> int \<Rightarrow> bool" where
  "outside es q l r \<longleftrightarrow> (\<forall>k<length (blocks es). int k < l \<or> r < int k \<longrightarrow> (\<forall>e\<in>set (blocks es ! k). \<not> same_key e q))"

lemma find_SomeD: "find P xs = Some x \<Longrightarrow> P x \<and> x \<in> set xs"
  by (induction xs) (auto split: if_splits)

lemma block_hit_entry:
  assumes "block_hit es q e"
  shows "e \<in> set es \<and> same_key e q"
proof -
  from assms obtain k where k: "k < length (blocks es)" "find (\<lambda>e. same_key e q) (blocks es ! k) = Some e"
    unfolding block_hit_def by blast
  from find_SomeD [OF k(2)] have e: "same_key e q" "e \<in> set (blocks es ! k)" by blast+
  then have "e \<in> set es" using block_of_entry(1) [OF k(1)] by blast
  with e(1) show ?thesis by blast
qed

lemma outside_empty:
  assumes "outside es q l r" "r < l"
  shows "\<forall>e\<in>set es. \<not> same_key e q"
proof
  fix e
  assume "e \<in> set es"
  then obtain k where k: "k < length (blocks es)" "e \<in> set (blocks es ! k)"
    using block_of_entry(2) by blast
  have "int k < l \<or> r < int k" using assms(2) by linarith
  with assms(1) k show "\<not> same_key e q" unfolding outside_def by metis
qed

lemma outside_step:
  assumes o: "outside es q l r" and s: "sorted_file es" and m: "int m = (l + r) div 2" "m < length (blocks es)"
    and n: "\<forall>e\<in>set (blocks es ! m). \<not> same_key e q"
  shows "\<not> key_ordered q (last (blocks es ! m)) \<Longrightarrow> outside es q (int m + 1) r"
    and "key_ordered q (last (blocks es ! m)) \<Longrightarrow> outside es q l (int m - 1)"
proof -
  let ?b = "\<lambda>k. blocks es ! k" and ?last = "last (blocks es ! m)"
  have cs: "sorted_wrt key_ordered (concat (blocks es))" using s by (simp add: sorted_file_def concat_blocks)
  have last: "?last \<in> set (?b m)" using blocks_nonempty [OF m(2)] by simp
  have in_m: "key_ordered x ?last" if "x \<in> set (?b m)" for x
    using sorted_wrt_last [OF sorted_wrt_concat(1) [OF cs m(2)] _ that] by simp
  show "outside es q (int m + 1) r" if "\<not> key_ordered q ?last"
    unfolding outside_def
  proof (intro allI impI ballI)
    fix k e
    assume k: "k < length (blocks es)" "int k < int m + 1 \<or> r < int k" and e: "e \<in> set (?b k)"
    consider "k = m" | "k < m" | "r < int k" using k by linarith
    then show "\<not> same_key e q"
    proof cases
      case 2
      then have "key_ordered e ?last" using sorted_wrt_concat(2) [OF cs m(2)] e last by blast
      with that show ?thesis by auto
    qed (use n e o k in \<open>auto simp: outside_def\<close>)
  qed
  show "outside es q l (int m - 1)" if q: "key_ordered q ?last"
    unfolding outside_def
  proof (intro allI impI ballI)
    fix k e
    assume k: "k < length (blocks es)" "int k < l \<or> int m - 1 < int k" and e: "e \<in> set (?b k)"
    consider "k = m" | "m < k" | "int k < l" using k by linarith
    then show "\<not> same_key e q"
    proof cases
      case 2
      then have "key_ordered ?last e" using sorted_wrt_concat(2) [OF cs k(1)] e last by blast
      with q n last show ?thesis using key_le_antisym by metis
    qed (use n e o k in \<open>auto simp: outside_def\<close>)
  qed
qed

lemma search_blocks_finds:
  assumes f: "sst_at s f es flex" "0 < readers" "sorted_file es" and q: "ordered_entry q"
  shows "0 \<le> l \<Longrightarrow> r < int (length (blocks es)) \<Longrightarrow> outside es q l r \<Longrightarrow>
    \<exists>e qb'. search_blocks readers s qa qb q ret_entry f (sst_offsets es @ [of_nat (total_size es)]) NoError l r =
      Inr (NoError, e, qb', s) \<and>
      (if \<exists>e\<in>set es. same_key e q then block_hit es q e else e = ret_entry \<and> qb' = qb)"
proof (induction "nat (r - l + 1)" arbitrary: l r qa rule: less_induct)
  case less
  let ?ib = "sst_offsets es @ [of_nat (total_size es)]"
  show ?case
  proof (cases "l \<le> r")
    case False
    then show ?thesis using outside_empty [OF less.prems(3)] by (simp add: search_blocks.simps)
  next
    case True
    obtain m where m: "int m = (l + r) div 2" using True less.prems(1) by (metis nonneg_int_cases pos_imp_zdiv_nonneg_iff zero_less_numeral add_nonneg_nonneg order_trans)
    then have mr: "m < length (blocks es)" "l \<le> int m" "int m \<le> r" using True less.prems(1,2) by linarith+
    have idx: "nat ((l + r) div 2 + 1) = Suc m" "nat ((l + r) div 2) = m" using m by linarith+
    obtain a b qa' where i: "rd ?ib (Suc m) = Inr b" "rd ?ib m = Inr a"
      and rb: "ReadSSTDataBlock False readers s f qa [] (unat (b - a)) (int (unat a)) (- 1) =
        Inr (NoError, blocks es ! m, qa', readers, s)"
      using read_block [OF f mr(1)] index_entry [of "Suc m" es] index_entry [of m es] mr(1) by (meson Suc_leI less_imp_le)
    let ?b = "blocks es ! m"
    have ord: "\<forall>e\<in>set ?b. ordered_entry e" using f(3) block_of_entry(1) [OF mr(1)] by (simp add: sorted_file_def)
    have ne: "?b \<noteq> []" by (rule blocks_nonempty [OF mr(1)])
    have g: "QC_Greater q (last ?b) = Inr (\<not> key_ordered q (last ?b))"
      using ord ne q by (simp add: QC_Greater_def compare_ordered)
    have step: "search_blocks readers s qa qb q ret_entry f ?ib NoError l r =
      (case find (\<lambda>e. same_key e q) ?b of
         Some e \<Rightarrow> Inr (NoError, e, snd (Allocate qb (length e)), s)
       | None \<Rightarrow> if key_ordered q (last ?b)
           then search_blocks readers s qa' qb q ret_entry f ?ib NoError l (int m - 1)
           else search_blocks readers s qa' qb q ret_entry f ?ib NoError (int m + 1) r)"
      using True m
      by (subst search_blocks.simps)
        (cases "find (\<lambda>e. same_key e q) ?b"; cases "key_ordered q (last ?b)";
          simp only: if_True idx i rb find_equal_find [OF ord q] g vec_back_def ne Let_def rbind.simps prod.case
          StatusNoError_simps if_False not_not simp_thms option.case)
    show ?thesis
    proof (cases "find (\<lambda>e. same_key e q) ?b")
      case (Some e)
      then have hit: "block_hit es q e" using mr(1) by (auto simp: block_hit_def)
      then have "\<exists>e\<in>set es. same_key e q" using block_hit_entry by blast
      then show ?thesis using hit unfolding step Some by simp
    next
      case None
      then have n: "\<forall>e\<in>set ?b. \<not> same_key e q" by (auto simp: find_None_iff)
      note o = outside_step [OF less.prems(3) f(3) m mr(1) n]
      show ?thesis
      proof (cases "key_ordered q (last ?b)")
        case True
        have "nat (int m - 1 - l + 1) < nat (r - l + 1)" using mr by linarith
        from less.hyps [OF this less.prems(1) _ o(2) [OF True], of qa'] mr
        show ?thesis unfolding step None using True by simp
      next
        case False
        have "nat (r - (int m + 1) + 1) < nat (r - l + 1)" using mr by linarith
        from less.hyps [OF this _ less.prems(2) o(1) [OF False], of qa'] less.prems(1)
        show ?thesis unfolding step None using False by simp
      qed
    qed
  qed
qed

lemma rd_last: "xs \<noteq> [] \<Longrightarrow> rd (xs @ [x]) (length xs) = Inr x"
  by simp

lemma sst_atD: "sst_at s f es flex \<Longrightarrow> es \<noteq> [] \<and> SST_fits es flex"
  by (simp add: sst_at_def)

lemma search_entries_finds:
  assumes es: "sorted_file es" and q: "ordered_entry q"
  shows "0 \<le> l \<Longrightarrow> r < int (length es) \<Longrightarrow>
    \<forall>k<length es. int k < l \<or> r < int k \<longrightarrow> \<not> same_key (es ! k) q \<Longrightarrow>
    \<exists>x. search_entries q es l r = Inr x \<and>
      (case x of None \<Rightarrow> \<forall>e\<in>set es. \<not> same_key e q | Some e \<Rightarrow> e \<in> set es \<and> same_key e q)"
proof (induction "nat (r - l + 1)" arbitrary: l r rule: less_induct)
  case less
  show ?case
  proof (cases "l \<le> r")
    case False
    then have "\<not> same_key (es ! k) q" if "k < length es" for k
      using less.prems(3) that by (metis not_le order_less_le_trans order_le_less_trans)
    then have "\<forall>e\<in>set es. \<not> same_key e q" by (metis in_set_conv_nth)
    with False show ?thesis by (simp add: search_entries.simps)
  next
    case True
    obtain m where m: "int m = (l + r) div 2"
      using True less.prems(1) by (metis nonneg_int_cases pos_imp_zdiv_nonneg_iff zero_less_numeral add_nonneg_nonneg order_trans)
    then have mr: "m < length es" "l \<le> int m" "int m \<le> r" "nat ((l + r) div 2) = m"
      using True less.prems(1,2) by linarith+
    have sorted: "key_ordered (es ! i) (es ! j)" if "i < j" "j < length es" for i j
      using es that by (auto simp: sorted_file_def sorted_wrt_iff_nth_less)
    have e: "ordered_entry (es ! m)" using es mr(1) by (auto simp: sorted_file_def)
    have step: "search_entries q es l r =
      (if same_key (es ! m) q then Inr (Some (es ! m))
       else if key_ordered q (es ! m) then search_entries q es l (int m - 1) else search_entries q es (int m + 1) r)"
      using True m mr e q
      by (subst search_entries.simps) (simp add: rd_def compare_ordered QC_Greater_def)
    show ?thesis
    proof (cases "same_key (es ! m) q")
      case True
      then show ?thesis unfolding step using mr(1) by auto
    next
      case ns: False
      show ?thesis
      proof (cases "key_ordered q (es ! m)")
        case True
        have "\<not> same_key (es ! k) q" if "k < length es" "int k < l \<or> int m - 1 < int k" for k
        proof -
          consider "k = m" | "m < k" | "int k < l" using \<open>int k < l \<or> int m - 1 < int k\<close> by linarith
          then show ?thesis
          proof cases
            case 2
            with True ns sorted [OF 2 that(1)] show ?thesis using key_le_antisym by metis
          qed (use ns less.prems(3) that in auto)
        qed
        then show ?thesis
          unfolding step using ns True less.hyps [of "int m - 1" l] less.prems(1) mr by simp
      next
        case False
        have "\<not> same_key (es ! k) q" if "k < length es" "int k < int m + 1 \<or> r < int k" for k
        proof -
          consider "k = m" | "k < m" | "r < int k" using \<open>int k < int m + 1 \<or> r < int k\<close> by linarith
          then show ?thesis
          proof cases
            case 2
            with False sorted [OF 2 mr(1)] show ?thesis by metis
          qed (use ns less.prems(3) that in auto)
        qed
        then show ?thesis
          unfolding step using ns False less.hyps [of r "int m + 1"] less.prems(1,2) mr by simp
      qed
    qed
  qed
qed

text \<open>A data file of the level, whose filter was built from its entries.\<close>

definition on_disk :: "(bytes list \<Rightarrow> bytes res) \<Rightarrow> os \<Rightarrow> TCIO \<Rightarrow> string \<Rightarrow> bytes list \<Rightarrow> bool" where
  "on_disk create s io name es \<longleftrightarrow> (\<exists>p flex. sst_path io name = Inr p \<and> sst_at s p es flex \<and>
     create es = Inr flex \<and> sorted_file es)"

definition holds_key :: "bytes \<Rightarrow> bytes list \<Rightarrow> bool" where
  "holds_key q es \<longleftrightarrow> (\<exists>e\<in>set es. same_key e q)"

lemma in_range_file:
  assumes "sorted_file es" "es \<noteq> []" "ordered_entry q"
  shows "in_range q (hd es) (last es) = Inr (key_ordered q (last es) \<and> key_ordered (hd es) q)"
    and "holds_key q es \<Longrightarrow> key_ordered q (last es) \<and> key_ordered (hd es) q"
proof -
  have h: "ordered_entry (hd es)" "ordered_entry (last es)" using assms by (simp_all add: sorted_file_def)
  then show "in_range q (hd es) (last es) = Inr (key_ordered q (last es) \<and> key_ordered (hd es) q)"
    using assms(3) by (simp add: in_range_def compare_ordered)
  assume "holds_key q es"
  then obtain e where e: "e \<in> set es" "same_key e q" by (auto simp: holds_key_def)
  have "sorted_wrt key_ordered es" using assms(1) by (simp add: sorted_file_def)
  then have "key_ordered e (last es)" "key_ordered (hd es) e"
    using sorted_wrt_last [of key_ordered es e] e(1) by (simp, cases es) auto
  with e(2) show "key_ordered q (last es) \<and> key_ordered (hd es) q" by simp
qed

lemma block_hit_nonempty: "sorted_file es \<Longrightarrow> block_hit es q e \<Longrightarrow> e \<noteq> []"
  by (metis block_hit_entry entry_bytes_nonempty ordered_entryE sorted_file_def)

section \<open>Lookups with a filter\<close>

context filter_policy
begin

lemma GetFromSST_finds:
  assumes f: "sst_at s f es flex" "0 < readers" "sorted_file es" and q: "ordered_entry q"
    and c: "create es = Inr flex"
    and k: "\<And>e. ordered_entry e \<Longrightarrow> entry_ok e \<and> key_of e = fst (ent_of e)"
  shows "\<exists>e qb'. GetFromSST contains readers s qb q re f (sst_footer es flex) = Inr (NoError, e, qb', s) \<and>
      (if \<exists>e\<in>set es. same_key e q then block_hit es q e else e = re \<and> qb' = qb)" (is ?get)
    and "\<exists>e qb'. GetFromSSTv2 contains readers s qb q re f (sst_footer es flex) = Inr (NoError, e, qb', s) \<and>
      (if \<exists>e\<in>set es. same_key e q then e \<in> set es \<and> same_key e q else e = re \<and> qb' = qb)" (is ?v2)
proof -
  let ?key = "fst (ent_of q)"
  note ne = sst_atD [OF f(1)]
  have ok: "\<forall>e\<in>set es. entry_ok e" using f(3) k by (auto simp: sorted_file_def)
  obtain b where b: "contains ?key flex = Inr b" using contains_total [OF c] ne by blast
  have absent: "\<forall>e\<in>set es. \<not> same_key e q" if "\<not> b"
    using absent_key [OF c ok, of ?key] b that k f(3) by (auto simp: sorted_file_def)
  note rest = ReadSSTFlexible_image [OF f(1,2)] ReadSSTIndex_image [OF f(1,2)] ordered_EntryKey [OF q]
  have dbs: "data_blk_size (sst_footer es flex) = of_nat (total_size es)" by (simp add: sst_footer_def)
  have "outside es q 0 (int (length (blocks es)) - 1)" by (auto simp: outside_def)
  from search_blocks_finds [OF f q _ _ this, of QueryAllocator_new qb re]
  obtain e qb' where "search_blocks readers s QueryAllocator_new qb q re f (sst_offsets es @ [of_nat (total_size es)])
      NoError 0 (int (length (blocks es)) - 1) = Inr (NoError, e, qb', s)"
    "if \<exists>e\<in>set es. same_key e q then block_hit es q e else e = re \<and> qb' = qb" by auto
  then show ?get
    using absent by (cases b) (auto simp: GetFromSST_def rest b dbs Let_def)
  obtain qa' where all: "ReadSSTDataAll readers s f QueryAllocator_new [] (unat (data_blk_size (sst_footer es flex))) 0 =
      Inr (NoError, es, qa', s)"
    using ReadSSTDataAll_image [OF f(1,2) sorted_file_entries [OF f(3)], of QueryAllocator_new "[]"] by auto
  have "\<forall>k<length es. int k < 0 \<or> int (length es) - 1 < int k \<longrightarrow> \<not> same_key (es ! k) q" by auto
  from search_entries_finds [OF f(3) q _ _ this]
  obtain x where x: "search_entries q es 0 (int (length es) - 1) = Inr x"
    "case x of None \<Rightarrow> \<forall>e\<in>set es. \<not> same_key e q | Some e \<Rightarrow> e \<in> set es \<and> same_key e q" by auto
  show ?v2
    using absent x(2) by (cases b; cases x) (auto simp: GetFromSSTv2_def rest b all x(1))
qed

lemma search_level0_finds:
  assumes "0 < reader_pool io" "ordered_entry q"
    and k: "\<And>e. ordered_entry e \<Longrightarrow> entry_ok e \<and> key_of e = fst (ent_of e)"
  shows "list_all2 (on_disk create s io) names fs \<Longrightarrow>
    \<exists>e qb'. search_level0 contains io s qb q [] NoError names = Inr (NoError, e, qb', s) \<and>
      (case find (holds_key q) fs of None \<Rightarrow> e = [] \<and> qb' = qb | Some es \<Rightarrow> block_hit es q e)"
proof (induction fs arbitrary: names)
  case Nil
  then show ?case by simp
next
  case (Cons es fs)
  then obtain name names' where n: "names = name # names'" "list_all2 (on_disk create s io) names' fs"
    and "on_disk create s io name es" by (auto simp: list_all2_Cons2)
  then obtain p flex where f: "sst_path io name = Inr p" "sst_at s p es flex" "create es = Inr flex" "sorted_file es"
    by (auto simp: on_disk_def)
  have ne: "es \<noteq> []" using sst_atD [OF f(2)] by blast
  note r = in_range_file [OF f(4) ne assms(2)]
  obtain e qb' where g: "GetFromSST contains (reader_pool io) s qb q [] p (sst_footer es flex) = Inr (NoError, e, qb', s)"
    "if holds_key q es then block_hit es q e else e = [] \<and> qb' = qb"
    using GetFromSST_finds(1) [OF f(2) assms(1) f(4) assms(2) f(3) k, of qb "[]"] unfolding holds_key_def by blast
  show ?case
  proof (cases "holds_key q es")
    case True
    then show ?thesis
      using g r(1) r(2) [OF True] block_hit_nonempty [OF f(4)]
      by (simp add: n(1) f(1) ReadSSTFooter_keys_image [OF f(2) assms(1)])
  next
    case False
    then show ?thesis
      using g r(1) Cons.IH [OF n(2)]
      by (cases "key_ordered q (last es) \<and> key_ordered (hd es) q")
        (auto simp add: n(1) f(1) ReadSSTFooter_keys_image [OF f(2) assms(1)])
  qed
qed

lemma search_level_n_finds:
  assumes "0 < reader_pool io" "ordered_entry q"
    and k: "\<And>e. ordered_entry e \<Longrightarrow> entry_ok e \<and> key_of e = fst (ent_of e)"
  shows "list_all2 (on_disk create s io) names fs \<Longrightarrow>
    sorted_wrt (\<lambda>a b. \<not> key_ordered (hd b) (last a)) fs \<Longrightarrow>
    \<exists>e qb'. search_level_n contains io s qb q [] NoError names = Inr (NoError, e, qb', s) \<and>
      (case find (holds_key q) fs of None \<Rightarrow> e = [] \<and> qb' = qb | Some es \<Rightarrow> block_hit es q e)"
proof (induction fs arbitrary: names)
  case Nil
  then show ?case by simp
next
  case (Cons es fs)
  then obtain name names' where n: "names = name # names'" "list_all2 (on_disk create s io) names' fs"
    and "on_disk create s io name es" by (auto simp: list_all2_Cons2)
  then obtain p flex where f: "sst_path io name = Inr p" "sst_at s p es flex" "create es = Inr flex" "sorted_file es"
    by (auto simp: on_disk_def)
  have ne: "es \<noteq> []" using sst_atD [OF f(2)] by blast
  note r = in_range_file [OF f(4) ne assms(2)]
  obtain e qb' where g: "GetFromSST contains (reader_pool io) s qb q [] p (sst_footer es flex) = Inr (NoError, e, qb', s)"
    "if holds_key q es then block_hit es q e else e = [] \<and> qb' = qb"
    using GetFromSST_finds(1) [OF f(2) assms(1) f(4) assms(2) f(3) k, of qb "[]"] unfolding holds_key_def by blast
  show ?case
  proof (cases "key_ordered q (last es) \<and> key_ordered (hd es) q")
    case True
    have "\<not> holds_key q b" if b: "b \<in> set fs" for b
    proof
      assume h: "holds_key q b"
      obtain name' where "on_disk create s io name' b"
        using n(2) b by (metis in_set_conv_nth list_all2_conv_all_nth)
      then have sb: "sorted_file b" "b \<noteq> []" by (auto simp: on_disk_def sst_at_def)
      have "key_ordered (hd b) q" using in_range_file(2) [OF sb assms(2) h] by blast
      then have "key_ordered (hd b) (last es)" using True key_le_trans by blast
      with Cons.prems(2) b show False by simp
    qed
    then have "find (holds_key q) fs = None" by (simp add: find_None_iff)
    then show ?thesis
      using g r(1) True by (simp add: n(1) f(1) ReadSSTFooter_keys_image [OF f(2) assms(1)])
  next
    case False
    then have "\<not> holds_key q es" using r(2) by blast
    then show ?thesis
      using r(1) False Cons.IH [OF n(2)] Cons.prems(2)
      by (auto simp add: n(1) f(1) ReadSSTFooter_keys_image [OF f(2) assms(1)])
  qed
qed

lemma SearchLevel_finds:
  assumes "0 < reader_pool io" "ordered_entry q" "level < length (data_files man)"
    and "list_all2 (on_disk create s io) (data_files man ! level) fs"
    and "level = 0 \<or> sorted_wrt (\<lambda>a b. \<not> key_ordered (hd b) (last a)) fs"
    and "\<And>e. ordered_entry e \<Longrightarrow> entry_ok e \<and> key_of e = fst (ent_of e)"
  shows "\<exists>e qb'. SearchLevel contains io s qb q [] man level = Inr (NoError, e, qb', s) \<and>
      (case find (holds_key q) fs of None \<Rightarrow> e = [] \<and> qb' = qb | Some es \<Rightarrow> block_hit es q e)"
  using search_level0_finds [OF assms(1,2,6,4)] search_level_n_finds [OF assms(1,2,6,4)] assms(3,5)
  by (auto simp: SearchLevel_def)

end

section \<open>Properties\<close>

lemma bloom_entry: "ordered_entry e \<Longrightarrow> is_entry e \<and> entry_key e = fst (ent_of e)"
  by (simp add: ordered_is_entry entry_key_def)

text \<open>A data file whose only block holds all entries, for the witnesses.\<close>

lemma small_blocks:
  assumes "es \<noteq> []" "total_size es \<le> kDefaultDataBlkSize"
  shows "blocks es = [es]"
proof -
  have "cut_blocks acc es = [acc @ es]" if "acc @ es \<noteq> []" "total_size acc + total_size es \<le> kDefaultDataBlkSize" for acc
    using that
  proof (induction es arbitrary: acc)
    case (Cons e es)
    then show ?case using Cons.IH [of "acc @ [e]"] by simp
  qed simp
  from this [of "[]"] show ?thesis using assms by (simp add: blocks_def)
qed

lemma find_sorted_first:
  assumes "sorted_wrt R xs" "find P xs = Some x" "y \<in> set xs" "P y"
  shows "x = y \<or> R x y"
  using assms by (induction xs) (auto split: if_splits dest: find_SomeD)

lemma tiny_file:
  assumes "\<forall>e\<in>set es. ordered_entry e" "es \<noteq> []" "total_size es \<le> 1000"
  shows "\<exists>flex. CreateFilter (\<lambda>_. 8) 6 default_seeds es [] = Inr flex \<and> total_size es \<le> kDefaultDataBlkSize \<and>
    sst_at \<lparr>files = [f \<mapsto> sst_image es flex], open_results = [], write_results = [], read_results = []\<rparr> f es flex"
proof -
  have "\<forall>e\<in>set es. is_entry e" using assms(1) ordered_is_entry by blast
  then obtain flex where c: "CreateFilter (\<lambda>_. 8) 6 default_seeds es [] = Inr flex" "length flex = 8"
    using filter_built [of es "\<lambda>_. 8" 6 default_seeds] by (auto simp: default_seeds_def)
  have t: "total_size es \<le> kDefaultDataBlkSize" using assms(3) by (simp add: kDefaultDataBlkSize_def)
  have "SST_fits es flex" using small_blocks [OF assms(2) t] assms(3) c(2) by (simp add: SST_fits_def)
  with c(1) t assms(2) show ?thesis by (auto simp: sst_at_def quiet_def)
qed

lemma tiny_entries:
  "ordered_entry (entry_bytes [107] [1] 0 kInsert)" "ordered_entry (entry_bytes [107] [2] 1 kInsert)"
  "ordered_entry (entry_bytes [107] [] (- 1) kDelete)" "ent_of (entry_bytes [107] [1] 0 kInsert) = ([107], 0)"
  "ent_of (entry_bytes [107] [2] 1 kInsert) = ([107], 1)" "ent_of (entry_bytes [107] [] (- 1) kDelete) = ([107], - 1)"
  "total_size [entry_bytes [107] [1] 0 kInsert, entry_bytes [107] [2] 1 kInsert] \<le> 1000"
  by (auto simp: fits_def length_entry_bytes SizeOfVarint_def SizeOfVarint_shift.simps)

text \<open>C3. A lookup in a level of well-formed data files returns no entry exactly when no file holds
  the key, and otherwise an entry of the key from the first file that holds it; above level 0
  this needs the key ranges of the files to be disjoint and ascending. The filters were built
  from the files' entries by \<open>CreateFilter\<close>, whatever its parameters.\<close>

theorem SearchLevel_finds_key:
  assumes "0 < reader_pool io" "ordered_entry q" "level < length (data_files man)"
    and "list_all2 (on_disk (\<lambda>es. CreateFilter filter_bytes hash_k seeds es []) s io) (data_files man ! level) fs"
    and "level = 0 \<or> sorted_wrt (\<lambda>a b. \<not> key_ordered (hd b) (last a)) fs"
  shows "\<exists>e qb'. SearchLevel (Filter_ContainsKey hash_k seeds) io s qb q [] man level = Inr (NoError, e, qb', s) \<and>
      (case find (holds_key q) fs of None \<Rightarrow> e = [] | Some es \<Rightarrow> e \<in> set es \<and> EntryKey e = EntryKey q)"
proof -
  obtain e qb' where r: "SearchLevel (Filter_ContainsKey hash_k seeds) io s qb q [] man level = Inr (NoError, e, qb', s)"
    "case find (holds_key q) fs of None \<Rightarrow> e = [] \<and> qb' = qb | Some es \<Rightarrow> block_hit es q e"
    using bloom.SearchLevel_finds [OF assms(1-5) bloom_entry] by blast
  have "case find (holds_key q) fs of None \<Rightarrow> e = [] | Some es \<Rightarrow> e \<in> set es \<and> EntryKey e = EntryKey q"
  proof (cases "find (holds_key q) fs")
    case (Some es)
    then have h: "e \<in> set es" "same_key e q" "es \<in> set fs"
      using r(2) block_hit_entry find_SomeD [OF Some] by auto
    then obtain name where "on_disk (\<lambda>es. CreateFilter filter_bytes hash_k seeds es []) s io name es"
      using assms(4) by (metis in_set_conv_nth list_all2_conv_all_nth)
    then have "ordered_entry e" using h(1) by (auto simp: on_disk_def sorted_file_def)
    then show ?thesis using Some h(1,2) assms(2) by (simp add: ordered_EntryKey)
  qed (use r(2) in simp)
  with r(1) show ?thesis by blast
qed

theorem SearchLevel_finds_key_witness:
  "\<exists>flex e a. SearchLevel (Filter_ContainsKey 6 default_seeds) \<lparr>kDatabaseDir = ''db'', file_id = 1, reader_pool = 4\<rparr>
      \<lparr>files = [''db/0.tdb'' \<mapsto> sst_image [entry_bytes [107] [1] 0 kInsert] flex], open_results = [], write_results = [],
        read_results = []\<rparr> QueryAllocator_new (entry_bytes [107] [] (- 1) kDelete) []
      \<lparr>path_to_manifest = ''m'', path_to_log = ''l'', data_files = [[], [''0'']]\<rparr> 1 = Inr (NoError, e, a,
      \<lparr>files = [''db/0.tdb'' \<mapsto> sst_image [entry_bytes [107] [1] 0 kInsert] flex], open_results = [], write_results = [],
        read_results = []\<rparr>) \<and> e = entry_bytes [107] [1] 0 kInsert"
proof -
  let ?es = "[entry_bytes [107] [1] 0 kInsert]" and ?q = "entry_bytes [107] [] (- 1) kDelete"
  let ?io = "\<lparr>kDatabaseDir = ''db'', file_id = 1, reader_pool = 4\<rparr> :: TCIO"
  let ?man = "\<lparr>path_to_manifest = ''m'', path_to_log = ''l'', data_files = [[], [''0'']]\<rparr> :: Manifest"
  obtain flex where f: "CreateFilter (\<lambda>_. 8) 6 default_seeds ?es [] = Inr flex"
    "sst_at \<lparr>files = [''db/0.tdb'' \<mapsto> sst_image ?es flex], open_results = [], write_results = [], read_results = []\<rparr>
       ''db/0.tdb'' ?es flex"
    using tiny_file [of ?es "''db/0.tdb''"] tiny_entries by auto
  let ?s = "\<lparr>files = [''db/0.tdb'' \<mapsto> sst_image ?es flex], open_results = [], write_results = [], read_results = []\<rparr>"
  have "sst_path ?io ''0'' = Inr ''db/0.tdb''" by (simp add: sst_path_def PathJoin_def)
  then have "on_disk (\<lambda>es. CreateFilter (\<lambda>_. 8) 6 default_seeds es []) ?s ?io ''0'' ?es"
    using f tiny_entries(1) by (auto simp: on_disk_def sorted_file_def)
  then have d: "list_all2 (on_disk (\<lambda>es. CreateFilter (\<lambda>_. 8) 6 default_seeds es []) ?s ?io) (data_files ?man ! 1) [?es]"
    by simp
  have "find (holds_key ?q) [?es] = Some ?es" by (simp add: holds_key_def tiny_entries)
  then show ?thesis
    using SearchLevel_finds_key [OF _ tiny_entries(3) _ d, of QueryAllocator_new] by auto
qed

text \<open>C35. The two lookups, by blocks and over the whole file, return the same entry when no key
  occurs twice in the file, as in the output of a merge.\<close>

theorem sst_lookups_agree:
  assumes "sst_at s f es flex" "0 < readers" "sorted_file es" "distinct (map (\<lambda>e. fst (ent_of e)) es)"
    and "ordered_entry q" "CreateFilter filter_bytes hash_k seeds es [] = Inr flex"
  shows "\<exists>e a b. GetFromSST (Filter_ContainsKey hash_k seeds) readers s qb q re f (sst_footer es flex) =
      Inr (NoError, e, a, s) \<and>
    GetFromSSTv2 (Filter_ContainsKey hash_k seeds) readers s qb q re f (sst_footer es flex) = Inr (NoError, e, b, s)"
proof -
  obtain e a where 1: "GetFromSST (Filter_ContainsKey hash_k seeds) readers s qb q re f (sst_footer es flex) =
      Inr (NoError, e, a, s)"
    "if \<exists>e\<in>set es. same_key e q then block_hit es q e else e = re \<and> a = qb"
    using bloom.GetFromSST_finds(1) [OF assms(1-3,5,6) bloom_entry, of qb re] by blast
  obtain e' b where 2: "GetFromSSTv2 (Filter_ContainsKey hash_k seeds) readers s qb q re f (sst_footer es flex) =
      Inr (NoError, e', b, s)"
    "if \<exists>e\<in>set es. same_key e q then e' \<in> set es \<and> same_key e' q else e' = re \<and> b = qb"
    using bloom.GetFromSST_finds(2) [OF assms(1-3,5,6) bloom_entry, of qb re] by blast
  have "inj_on (\<lambda>e. fst (ent_of e)) (set es)" using assms(4) by (simp add: distinct_map)
  then have "e = e'"
    using 1(2) 2(2) block_hit_entry by (auto simp: inj_on_def split: if_splits)
  with 1(1) 2(1) show ?thesis by blast
qed

theorem sst_lookups_agree_witness:
  "\<exists>flex s e a b. GetFromSST (Filter_ContainsKey 6 default_seeds) 4 s QueryAllocator_new
      (entry_bytes [107] [] (- 1) kDelete) [] ''0'' (sst_footer [entry_bytes [107] [1] 0 kInsert] flex) = Inr (NoError, e, a, s) \<and>
    GetFromSSTv2 (Filter_ContainsKey 6 default_seeds) 4 s QueryAllocator_new
      (entry_bytes [107] [] (- 1) kDelete) [] ''0'' (sst_footer [entry_bytes [107] [1] 0 kInsert] flex) = Inr (NoError, e, b, s)"
proof -
  let ?es = "[entry_bytes [107] [1] 0 kInsert]"
  obtain flex s where f: "CreateFilter (\<lambda>_. 8) 6 default_seeds ?es [] = Inr flex" "sst_at s ''0'' ?es flex"
    using tiny_file [of ?es "''0''"] tiny_entries by auto
  have "sorted_file ?es" using tiny_entries(1) by (simp add: sorted_file_def)
  from sst_lookups_agree [OF f(2) _ this _ tiny_entries(3) f(1), of 4] show ?thesis by fastforce
qed

text \<open>In a file that holds several versions of a key, as every flushed table with an overwritten
  key does, the lookup stops at the first one: it returns the oldest version in the block,
  where the memory table returned the newest.\<close>

theorem sst_lookup_returns_oldest:
  assumes "sst_at s f es flex" "0 < readers" "sorted_wrt le_entry es" "\<forall>e\<in>set es. ordered_entry e"
    and "ordered_entry q" "CreateFilter filter_bytes hash_k seeds es [] = Inr flex"
    and "holds_key q es" "total_size es \<le> kDefaultDataBlkSize"
  shows "\<exists>e a. GetFromSST (Filter_ContainsKey hash_k seeds) readers s qb q re f (sst_footer es flex) =
      Inr (NoError, e, a, s) \<and>
    e \<in> set es \<and> same_key e q \<and> (\<forall>x\<in>set es. same_key x q \<longrightarrow> snd (ent_of e) \<le> snd (ent_of x))"
proof -
  have sf: "sorted_file es" by (rule sorted_entries_file [OF assms(3,4)])
  obtain e a where 1: "GetFromSST (Filter_ContainsKey hash_k seeds) readers s qb q re f (sst_footer es flex) =
      Inr (NoError, e, a, s)" "block_hit es q e"
    using bloom.GetFromSST_finds(1) [OF assms(1,2) sf assms(5,6) bloom_entry, of qb re] assms(7)
    by (auto simp: holds_key_def)
  have "blocks es = [es]" using small_blocks sst_atD [OF assms(1)] assms(8) by blast
  then have f: "find (\<lambda>e. same_key e q) es = Some e" using 1(2) by (simp add: block_hit_def)
  have "snd (ent_of e) \<le> snd (ent_of x)" if "x \<in> set es" "same_key x q" for x
    using find_sorted_first [OF assms(3) f that] block_hit_entry [OF 1(2)] that(2) by (auto simp: ent_le_def)
  with 1 block_hit_entry [OF 1(2)] show ?thesis by blast
qed

theorem sst_lookup_returns_oldest_witness:
  "\<exists>flex s a. GetFromSST (Filter_ContainsKey 6 default_seeds) 4 s QueryAllocator_new
      (entry_bytes [107] [] (- 1) kDelete) [] ''0''
      (sst_footer [entry_bytes [107] [1] 0 kInsert, entry_bytes [107] [2] 1 kInsert] flex) =
    Inr (NoError, entry_bytes [107] [1] 0 kInsert, a, s)"
proof -
  let ?es = "[entry_bytes [107] [1] 0 kInsert, entry_bytes [107] [2] 1 kInsert]"
  obtain flex s where f: "CreateFilter (\<lambda>_. 8) 6 default_seeds ?es [] = Inr flex" "sst_at s ''0'' ?es flex"
    "total_size ?es \<le> kDefaultDataBlkSize"
    using tiny_file [of ?es "''0''"] tiny_entries by auto
  have "sorted_wrt le_entry ?es" "\<forall>e\<in>set ?es. ordered_entry e" "holds_key (entry_bytes [107] [] (- 1) kDelete) ?es"
    using tiny_entries by (auto simp: ent_le_def holds_key_def)
  from sst_lookup_returns_oldest [OF f(2) _ this(1,2) tiny_entries(3) f(1) this(3) f(3), of 4 QueryAllocator_new "[]"]
  show ?thesis using tiny_entries by fastforce
qed

end
