(* ===== verification/MergeProofs.thy ===== *)
theory MergeProofs
  imports MergeModel SSTSearch
begin

text \<open>
  Correctness of the multi-way merge. The proof has four independent parts: the priority queue,
  the memory pool (which blocks are live and what their counters mean), the source files (what
  has been read of them) and the output (what has been written); the loop invariant is their
  conjunction.
\<close>

section \<open>The priority queue\<close>

context strict_key_order
begin

lemma pq_push_sorted:
  "valid x \<Longrightarrow> \<forall>y\<in>set q. valid y \<Longrightarrow> sorted_wrt le q \<Longrightarrow>
    \<exists>q'. pq_push gt x q = Inr q' \<and> mset q' = add_mset x (mset q) \<and> sorted_wrt le q'"
proof (induction q)
  case (Cons y ys)
  show ?case
  proof (cases "le y x")
    case True
    obtain q' where q': "pq_push gt x ys = Inr q'" "mset q' = add_mset x (mset ys)" "sorted_wrt le q'"
      using Cons by auto
    have "set q' = insert x (set ys)" using arg_cong [OF q'(2), of set_mset] by simp
    then have "sorted_wrt le (y # q')" using True Cons.prems(3) q'(3) by simp
    then show ?thesis using q' True Cons.prems by (simp add: gt_valid)
  next
    case False
    then have xy: "le x y" using le_total Cons.prems(1,2) by (metis list.set_intros(1))
    then have "\<forall>z\<in>set ys. le x z" using Cons.prems le_trans by (metis list.set_intros sorted_wrt.simps(2))
    then show ?thesis using False xy Cons.prems by (simp add: gt_valid)
  qed
qed simp

lemma pq_push_all_sorted:
  "\<forall>x\<in>set xs. valid x \<Longrightarrow> \<forall>y\<in>set q. valid y \<Longrightarrow> sorted_wrt le q \<Longrightarrow>
    \<exists>q'. pq_push_all gt xs q = Inr q' \<and> mset q' = mset xs + mset q \<and> sorted_wrt le q'"
proof (induction xs arbitrary: q)
  case (Cons x xs)
  obtain q1 where q1: "pq_push gt x q = Inr q1" "mset q1 = add_mset x (mset q)" "sorted_wrt le q1"
    using pq_push_sorted Cons.prems by (metis list.set_intros(1))
  have "set q1 = insert x (set q)" using arg_cong [OF q1(2), of set_mset] by simp
  then obtain q' where "pq_push_all gt xs q1 = Inr q'" "mset q' = mset xs + mset q1" "sorted_wrt le q'"
    using Cons.IH [of q1] Cons.prems q1(3) by auto
  then show ?case using q1 by simp
qed simp

end

abbreviation le_item :: "queue_item \<Rightarrow> queue_item \<Rightarrow> bool" where
  "le_item x y \<equiv> le_entry (item_entry x) (item_entry y)"

interpretation merge_pq: strict_key_order
  "\<lambda>x y. IEC_GreaterOrEquals (item_entry x) (item_entry y)" "\<lambda>x y. IEC_Equal (item_entry x) (item_entry y)"
  "((invalid_key, 0), 0, 0)" "\<lambda>x. ordered_entry (item_entry x)" le_item
  "\<lambda>x y. same_key (item_entry x) (item_entry y)" merge_greater
  by unfold_locales
    (auto simp: iec.ge_valid iec.eq_valid iec.eq_sentinel iec.gt_valid iec.gt_sentinel ent_le_total merge_greater_def
      MergeComparator_call_def intro: ent_le_trans)

section \<open>The memory pool\<close>

abbreviation item_block :: "queue_item \<Rightarrow> nat" where
  "item_block it \<equiv> snd (fst it)"

text \<open>The counter of a block is the number of entries in use that lie in it, and the recorded block
  numbers are right.\<close>

definition pool_ok :: "allocator \<Rightarrow> queue_item multiset \<Rightarrow> bool" where
  "pool_ok ma M \<longleftrightarrow> kDefaultBlockSize ma = 0 \<and> length (ref_count ma) = length (block_ptr ma) \<and> block_ptr ma \<noteq> [] \<and>
     (\<forall>b<length (ref_count ma). ref_count ma ! b = int (count (image_mset (snd \<circ> fst) M) b)) \<and>
     (\<forall>it\<in>#M. live ma it \<and> snd (snd it) = int (item_block it))"

lemma pool_ok_new: "pool_ok MergeAllocator_new {#}"
  by (simp add: pool_ok_def MergeAllocator_new_def MemAllocator_new_def AllocateFullBlock_def Unref_def)

lemma pool_ok_touch: "pool_ok ma M \<Longrightarrow> set its \<subseteq> set_mset M \<Longrightarrow> touch ma its r = r"
  by (auto simp: touch_def pool_ok_def list_all_iff)

lemma Allocate_block:
  "kDefaultBlockSize ma = 0 \<Longrightarrow> 0 < n \<Longrightarrow> Allocate ma n = AllocateFullBlock ma n"
  by (simp add: Allocate_def kMaxSectorSize_def)

lemma pool_ok_read:
  assumes "pool_ok ma M" "0 < n" "es \<noteq> []"
  shows "fst (fst (Allocate ma n)) = length (block_ptr ma)"
    and "length (block_ptr (RefLast (snd (Allocate ma n)) (int (length es) - 1))) = Suc (length (block_ptr ma))"
    and "pool_ok (RefLast (snd (Allocate ma n)) (int (length es) - 1))
      (M + mset (map (\<lambda>e. ((e, length (block_ptr ma)), f, int (length (block_ptr ma)))) es))"
proof -
  let ?b = "length (block_ptr ma)"
  let ?new = "map (\<lambda>e. ((e, ?b), f, int ?b)) es"
  have d: "kDefaultBlockSize ma = 0" "length (ref_count ma) = ?b" using assms(1) by (simp_all add: pool_ok_def)
  note a = Allocate_block [OF d(1) assms(2)] AllocateFullBlock_def
  show "fst (fst (Allocate ma n)) = ?b" by (simp add: a)
  have m: "RefLast (snd (Allocate ma n)) (int (length es) - 1) =
      ma\<lparr>block_ptr := block_ptr ma @ [Some n], ref_count := ref_count ma @ [int (length es)]\<rparr>" (is "?ma' = ?r")
    using d by (simp add: a RefLast_def ref_back_def nth_append list_update_append)
  show "length (block_ptr ?ma') = Suc ?b" by (simp add: m)
  have "image_mset (snd \<circ> fst) (mset ?new) = replicate_mset (length es) ?b"
    by (induction es) auto
  moreover have "count (image_mset (snd \<circ> fst) M) ?b = 0"
    using assms(1) by (auto simp: pool_ok_def live_def not_in_iff [symmetric])
  ultimately show "pool_ok ?ma' (M + mset ?new)"
    using assms(1) d unfolding m
    by (auto simp: pool_ok_def live_def nth_append less_Suc_eq)
qed

lemma pool_ok_unref:
  assumes "pool_ok ma (add_mset it M)"
  shows "pool_ok (unref_item ma (e, snd it)) M" "length (block_ptr (unref_item ma (e, snd it))) = length (block_ptr ma)"
proof -
  have b: "item_block it < length (ref_count ma)" "snd (snd it) = int (item_block it)"
    using assms by (auto simp: pool_ok_def live_def)
  then have u: "unref_item ma (e, snd it) =
      ma\<lparr>ref_count := (ref_count ma)[item_block it := ref_count ma ! item_block it - 1]\<rparr>"
    by (simp add: unref_item_def Unref_def)
  show "pool_ok (unref_item ma (e, snd it)) M"
    using assms b unfolding u by (auto simp: pool_ok_def live_def nth_list_update)
  show "length (block_ptr (unref_item ma (e, snd it))) = length (block_ptr ma)" by (simp add: u)
qed

lemma pool_ok_unref_all:
  "pool_ok ma (M + mset its) \<Longrightarrow> pool_ok (foldl unref_item ma (map (\<lambda>it. (item_entry it, snd it)) its)) M \<and>
    length (block_ptr (foldl unref_item ma (map (\<lambda>it. (item_entry it, snd it)) its))) = length (block_ptr ma)"
proof (induction its arbitrary: ma)
  case (Cons it its)
  have "pool_ok ma (add_mset it (M + mset its))" using Cons.prems by simp
  note u = pool_ok_unref [OF this, of "item_entry it"]
  from Cons.IH [OF u(1)] u(2) show ?case by simp
qed simp

lemma pool_ok_release:
  assumes "pool_ok ma M"
  shows "pool_ok (ReleaseIdleSpace ma) M" "length (block_ptr (ReleaseIdleSpace ma)) = length (block_ptr ma)"
proof -
  have l: "length (ref_count ma) = length (block_ptr ma)" using assms by (simp add: pool_ok_def)
  then show "length (block_ptr (ReleaseIdleSpace ma)) = length (block_ptr ma)" by (simp add: ReleaseIdleSpace_def)
  have "live (ReleaseIdleSpace ma) it" if "it \<in># M" for it
  proof -
    have "live ma it" "ref_count ma ! item_block it = int (count (image_mset (snd \<circ> fst) M) (item_block it))"
      using assms that l by (auto simp: pool_ok_def live_def)
    moreover have "0 < count (image_mset (snd \<circ> fst) M) (item_block it)"
      using that by (simp add: count_greater_zero_iff)
    ultimately show ?thesis using l by (simp add: live_def ReleaseIdleSpace_def)
  qed
  then show "pool_ok (ReleaseIdleSpace ma) M"
    using assms l by (auto simp: pool_ok_def ReleaseIdleSpace_def zip_eq_Nil_iff)
qed

section \<open>The source files\<close>

text \<open>The files to merge, in the file system \<open>s\<close>.\<close>

definition source :: "os \<Rightarrow> string \<Rightarrow> bytes list \<Rightarrow> bool" where
  "source s f es \<longleftrightarrow> (\<exists>flex. sst_at s f es flex) \<and> sorted_wrt le_entry es \<and> (\<forall>e\<in>set es. ordered_entry e) \<and>
     total_size es < 2 ^ 31"

abbreviation index_of :: "bytes list \<Rightarrow> u32 list" where
  "index_of es \<equiv> sst_offsets es @ [of_nat (total_size es)]"

definition unread :: "bytes list \<Rightarrow> nat \<Rightarrow> bytes list" where
  "unread es k = concat (drop k (blocks es))"

lemma unread_step: "k < length (blocks es) \<Longrightarrow> unread es k = blocks es ! k @ unread es (Suc k)"
  by (simp add: unread_def Cons_nth_drop_Suc [symmetric])

lemma unread_0 [simp]: "unread es 0 = es"
  by (simp add: unread_def concat_blocks)

lemma unread_subset: "set (unread es k) \<subseteq> set es"
proof -
  have "set (unread es k) \<subseteq> set (concat (blocks es))" by (auto simp: unread_def dest: in_set_dropD)
  then show ?thesis by (simp add: concat_blocks)
qed

lemma source_sorted: "source s f es \<Longrightarrow> sorted_file es"
  by (simp add: source_def sorted_entries_file)

text \<open>How far a file has been read: \<open>k\<close> of its blocks, and \<open>c\<close> of their entries are in the queue \<open>Q\<close>.
  A file with unread blocks has entries in the queue, and they are below its unread ones.\<close>

definition file_reading :: "bytes list \<Rightarrow> nat \<Rightarrow> int \<Rightarrow> queue_item list \<Rightarrow> nat \<Rightarrow> bool" where
  "file_reading es k c Q i \<longleftrightarrow> k \<le> length (blocks es) \<and>
     c = int (length (filter (\<lambda>it. item_file it = int i) Q)) \<and> (c = 0 \<longrightarrow> k = length (blocks es)) \<and>
     (\<forall>it\<in>set Q. item_file it = int i \<longrightarrow> (\<forall>e\<in>set (unread es k). le_entry (item_entry it) e))"

definition queue_ok :: "nat \<Rightarrow> queue_item list \<Rightarrow> bool" where
  "queue_ok n Q \<longleftrightarrow> (\<forall>it\<in>set Q. 0 \<le> item_file it \<and> item_file it < int n \<and> ordered_entry (item_entry it)) \<and>
     sorted_wrt le_item Q"

definition reading :: "bytes list list \<Rightarrow> nat list \<Rightarrow> int list \<Rightarrow> queue_item list \<Rightarrow> bool" where
  "reading ess ps cs Q \<longleftrightarrow> length ps = length ess \<and> length cs = length ess \<and>
     (\<forall>i<length ess. file_reading (ess ! i) (ps ! i) (cs ! i) Q i) \<and> queue_ok (length ess) Q"

definition remaining :: "bytes list list \<Rightarrow> nat list \<Rightarrow> queue_item list \<Rightarrow> bytes multiset" where
  "remaining ess ps Q = image_mset item_entry (mset Q) + (\<Sum>i<length ess. mset (unread (ess ! i) (ps ! i)))"

text \<open>The front of the queue is below everything that remains.\<close>

lemma front_least:
  assumes "reading ess ps cs (it # Q)" "e \<in># remaining ess ps (it # Q)"
  shows "le_entry (item_entry it) e"
proof -
  have sorted: "le_item it x" if "x \<in> set (it # Q)" for x
    using assms(1) that by (auto simp: reading_def queue_ok_def)
  have "e \<in> item_entry ` set (it # Q) \<or> (\<exists>i<length ess. e \<in> set (unread (ess ! i) (ps ! i)))"
    using assms(2) unfolding remaining_def by (simp add: set_mset_sum lessThan_def)
  then consider x where "x \<in> set (it # Q)" "e = item_entry x"
    | i where "i < length ess" "e \<in> set (unread (ess ! i) (ps ! i))"
    by (elim disjE imageE exE conjE)
  then show ?thesis
  proof cases
    case 1
    then show ?thesis using sorted by simp
  next
    case 2
    then have f: "file_reading (ess ! i) (ps ! i) (cs ! i) (it # Q) i" using assms(1) by (simp add: reading_def)
    have "ps ! i \<noteq> length (blocks (ess ! i))" using 2 by (auto simp: unread_def)
    then have "int (length (filter (\<lambda>it. item_file it = int i) (it # Q))) \<noteq> 0"
      using f unfolding file_reading_def by argo
    moreover have "xs \<noteq> []" if "int (length xs) \<noteq> 0" for xs :: "queue_item list" using that by auto
    ultimately have "filter (\<lambda>it. item_file it = int i) (it # Q) \<noteq> []" by blast
    then obtain x where x: "x \<in> set (it # Q)" "item_file x = int i"
      unfolding filter_empty_conv by blast
    then have "le_entry (item_entry x) e" using f 2(2) unfolding file_reading_def by blast
    from ent_le_trans [OF sorted [OF x(1)] this] show ?thesis .
  qed
qed

lemma sum_update:
  "(i :: nat) < n \<Longrightarrow> (\<Sum>j<n. f j) = f i + (\<Sum>j\<in>{..<n} - {i}. f j :: 'a::comm_monoid_add)"
  by (rule sum.remove) auto

lemma remaining_update:
  assumes "i < length ess" "length ps = length ess" "k < length (blocks (ess ! i))" "ps ! i = k"
  shows "(\<Sum>j<length ess. mset (unread (ess ! j) (ps ! j))) =
    mset (blocks (ess ! i) ! k) + (\<Sum>j<length ess. mset (unread (ess ! j) (ps[i := Suc k] ! j)))"
proof -
  have "(\<Sum>j\<in>{..<length ess} - {i}. mset (unread (ess ! j) (ps[i := Suc k] ! j))) =
      (\<Sum>j\<in>{..<length ess} - {i}. mset (unread (ess ! j) (ps ! j)))"
    by (rule sum.cong) auto
  then show ?thesis
    using assms by (simp add: sum_update [OF assms(1)] unread_step)
qed

text \<open>Popping the front, when it is not the last entry of its file in the queue or the file has
  been read to its end.\<close>

lemma reading_front:
  assumes "reading ess ps cs (it # Q)" "i = nat (item_file it)"
  shows "i < length ess" "int i = item_file it" "ordered_entry (item_entry it)" "queue_ok (length ess) Q"
    and "cs ! i - 1 = int (length (filter (\<lambda>it. item_file it = int i) Q))"
    and "remaining ess ps (it # Q) = add_mset (item_entry it) (remaining ess ps Q)"
proof -
  show i: "i < length ess" "int i = item_file it" using assms by (auto simp: reading_def queue_ok_def)
  then show "cs ! i - 1 = int (length (filter (\<lambda>it. item_file it = int i) Q))"
    using assms(1) by (simp add: reading_def file_reading_def)
qed (use assms(1) in \<open>simp_all add: remaining_def reading_def queue_ok_def\<close>)

lemma file_reading_other:
  "file_reading es k c (it # Q) j \<Longrightarrow> item_file it \<noteq> int j \<Longrightarrow> file_reading es k c Q j"
  by (simp add: file_reading_def)

lemma reading_pop:
  assumes "reading ess ps cs (it # Q)" "i = nat (item_file it)"
    and "cs ! i - 1 = 0 \<Longrightarrow> ps ! i = length (blocks (ess ! i))"
  shows "reading ess ps (cs[i := cs ! i - 1]) Q"
proof -
  note f = reading_front [OF assms(1,2)]
  have "file_reading (ess ! j) (ps ! j) (cs[i := cs ! i - 1] ! j) Q j" if j: "j < length ess" for j
  proof -
    have r: "file_reading (ess ! j) (ps ! j) (cs ! j) (it # Q) j" using assms(1) j by (simp add: reading_def)
    show ?thesis
    proof (cases "j = i")
      case True
      then show ?thesis
        using r f(2,5) assms(3) j assms(1) by (simp add: file_reading_def reading_def)
    next
      case False
      then show ?thesis using file_reading_other [OF r] f(2) by simp
    qed
  qed
  then show ?thesis using assms(1) f(4) by (simp add: reading_def)
qed

section \<open>Reading a block\<close>

abbreviation block_items :: "bytes list \<Rightarrow> nat \<Rightarrow> int \<Rightarrow> queue_item list" where
  "block_items es b f \<equiv> map (\<lambda>e. ((e, b), f, int b)) es"

abbreviation pool_after :: "allocator \<Rightarrow> bytes list \<Rightarrow> allocator" where
  "pool_after ma es \<equiv> RefLast (snd (Allocate ma (total_size es))) (int (length es) - 1)"

lemma total_size_pos: "es \<noteq> [] \<Longrightarrow> \<forall>e\<in>set es. ordered_entry e \<Longrightarrow> 0 < total_size es"
  by (cases es) (auto simp: entry_bytes_nonempty elim!: ordered_entryE)

lemma push_block_ok:
  assumes p: "pool_ok ma (mset q + M)" and es: "es \<noteq> []" "\<forall>e\<in>set es. ordered_entry e"
    and q: "queue_ok n q" "0 \<le> f" "f < int n"
  shows "\<exists>q'. push_block ma (pool_after ma es) (total_size es) es f (int (length (block_ptr ma))) q = Inr q' \<and>
    mset q' = mset (block_items es (length (block_ptr ma)) f) + mset q \<and> queue_ok n q' \<and>
    pool_ok (pool_after ma es) (mset q' + M)"
proof -
  let ?new = "block_items es (length (block_ptr ma)) f"
  note r = pool_ok_read [OF p total_size_pos [OF es] es(1)]
  have "\<forall>x\<in>set ?new. ordered_entry (item_entry x)" "\<forall>x\<in>set q. ordered_entry (item_entry x)" "sorted_wrt le_item q"
    using es(2) q(1) by (auto simp: queue_ok_def)
  from merge_pq.pq_push_all_sorted [OF this]
  obtain q' where q': "pq_push_all merge_greater ?new q = Inr q'" "mset q' = mset ?new + mset q" "sorted_wrt le_item q'"
    by blast
  have s: "set q' = set ?new \<union> set q" using arg_cong [OF q'(2), of set_mset] by simp
  have ok: "pool_ok (pool_after ma es) (mset q' + M)"
    using r(3) [of f] unfolding q'(2) by (simp add: ac_simps)
  have "push_block ma (pool_after ma es) (total_size es) es f (int (length (block_ptr ma))) q = Inr q'"
    unfolding push_block_def r(1) Let_def
    by (subst pool_ok_touch [OF ok]) (auto simp: s q'(1))
  moreover have "queue_ok n q'" using q es(2) q'(3) unfolding queue_ok_def s by auto
  ultimately show ?thesis using q'(2) ok by blast
qed

lemma length_filter_mset: "length (filter P xs) = size (filter_mset P (mset xs))"
  by (metis mset_filter size_mset)

lemma file_reading_block:
  assumes "sorted_wrt le_entry es" "k < length (blocks es)" "filter (\<lambda>it. item_file it = int i) Q = []"
    and "mset Q' = mset (block_items (blocks es ! k) b (int i)) + mset Q"
  shows "file_reading es (Suc k) (int (length (blocks es ! k))) Q' i"
proof -
  let ?new = "block_items (blocks es ! k) b (int i)"
  have "length (filter (\<lambda>it. item_file it = int i) Q') =
      length (filter (\<lambda>it. item_file it = int i) ?new) + length (filter (\<lambda>it. item_file it = int i) Q)"
    unfolding length_filter_mset assms(4) by simp
  also have "\<dots> = length (blocks es ! k)" using assms(3) by (simp add: filter_map comp_def)
  finally have c: "length (filter (\<lambda>it. item_file it = int i) Q') = length (blocks es ! k)" .
  have s: "set Q' = set ?new \<union> set Q" using arg_cong [OF assms(4), of set_mset] by simp
  have "es = concat (take k (blocks es)) @ blocks es ! k @ unread es (Suc k)"
    using concat_blocks [of es] by (metis assms(2) concat_append append_take_drop_id unread_def unread_step)
  then have o: "\<forall>x\<in>set (blocks es ! k). \<forall>e\<in>set (unread es (Suc k)). le_entry x e"
    using assms(1) by (metis sorted_wrt_append)
  have "\<forall>e\<in>set (unread es (Suc k)). le_entry (item_entry it) e" if "it \<in> set Q'" "item_file it = int i" for it
  proof -
    have "it \<in> set ?new" using that assms(3) unfolding s filter_empty_conv by blast
    then show ?thesis using o by auto
  qed
  then show ?thesis
    using assms(2) c blocks_nonempty [OF assms(2)] by (simp add: file_reading_def)
qed

lemma file_reading_keep:
  assumes "file_reading es k c Q j" "mset Q' = mset new + mset Q" "\<forall>it\<in>set new. item_file it \<noteq> int j"
  shows "file_reading es k c Q' j"
proof -
  have "filter_mset (\<lambda>it. item_file it = int j) (mset new) = {#}" using assms(3) by (simp add: filter_mset_eq_conv filter_mset_eq_mempty_iff)
  then have "length (filter (\<lambda>it. item_file it = int j) Q') = length (filter (\<lambda>it. item_file it = int j) Q)"
    unfolding length_filter_mset assms(2) by simp
  moreover have "set Q' = set new \<union> set Q" using arg_cong [OF assms(2), of set_mset] by simp
  ultimately show ?thesis using assms(1,3) unfolding file_reading_def by auto
qed

text \<open>The block of a source file, as the merge reads it.\<close>

lemma source_block:
  assumes "source s f es" "0 < readers" "k < length (blocks es)"
  shows "rd (index_of es) (k + 1) = Inr (of_nat (total_size (concat (take (Suc k) (blocks es)))))"
    and "rd (index_of es) k = Inr (of_nat (total_size (concat (take k (blocks es)))))"
    and "ReadSSTDataBlock True readers s f ma [] (unat (scast (of_nat (total_size (concat (take (Suc k) (blocks es)))) -
        of_nat (total_size (concat (take k (blocks es)))) :: u32) :: u64))
      (sint (of_nat (total_size (concat (take k (blocks es)))) :: u32)) (- 1) =
    Inr (NoError, blocks es ! k, pool_after ma (blocks es ! k), readers, s)"
    and "unat (scast (of_nat (total_size (concat (take (Suc k) (blocks es)))) -
        of_nat (total_size (concat (take k (blocks es)))) :: u32) :: u64) = total_size (blocks es ! k)"
proof -
  obtain flex where f: "sst_at s f es flex" using assms(1) by (auto simp: source_def)
  show "rd (index_of es) (k + 1) = Inr (of_nat (total_size (concat (take (Suc k) (blocks es)))))"
    "rd (index_of es) k = Inr (of_nat (total_size (concat (take k (blocks es)))))"
    using index_entry [of "Suc k" es] index_entry [of k es] assms(3) by simp_all
  let ?a = "total_size (concat (take k (blocks es)))" and ?b = "total_size (blocks es ! k)"
  have t: "total_size (concat (take (Suc k) (blocks es))) = ?a + ?b"
    using assms(3) by (simp add: take_Suc_conv_app_nth)
  have "es = concat (take (Suc k) (blocks es)) @ concat (drop (Suc k) (blocks es))"
    by (metis append_take_drop_id concat_append concat_blocks)
  then have "?a + ?b \<le> total_size es" by (metis le_add1 t total_size_simps(3))
  then have b: "?a < 2 ^ 31" "?b < 2 ^ 31" using assms(1) by (simp_all add: source_def)
  have small: "sint (of_nat n :: u32) = int n" if "n < 2 ^ 31" for n
    using that by (simp add: signed_of_nat signed_take_bit_int_eq_self)
  have u: "unat (scast (of_nat (?a + ?b) - of_nat ?a :: u32) :: u64) = ?b"
  proof -
    have "(scast (of_nat ?b :: u32) :: u64) = of_nat ?b"
      using b(2) by (transfer fixing: es k) (simp add: signed_take_bit_int_eq_self)
    then show ?thesis using b(2) by (simp add: unat_of_nat_u64)
  qed
  then show "unat (scast (of_nat (total_size (concat (take (Suc k) (blocks es)))) - of_nat ?a :: u32) :: u64) = ?b"
    unfolding t .
  have "int (unat (sst_offsets es ! k)) = int ?a"
    using assms(3) b(1) by (simp add: sst_offsets_def block_position unat_of_nat_u32)
  then show "ReadSSTDataBlock True readers s f ma [] (unat (scast (of_nat (total_size (concat (take (Suc k) (blocks es)))) -
        of_nat ?a :: u32) :: u64)) (sint (of_nat ?a :: u32)) (- 1) =
    Inr (NoError, blocks es ! k, pool_after ma (blocks es ! k), readers, s)"
    using ReadSSTDataBlock_block [OF f assms(2) sorted_file_entries [OF source_sorted [OF assms(1)]] assms(3), of True ma "[]"]
    unfolding t u small [OF b(1)] by simp
qed

section \<open>The start of the merge\<close>

lemma queue_ok_mono: "queue_ok n q \<Longrightarrow> n \<le> n' \<Longrightarrow> queue_ok n' q"
  by (force simp: queue_ok_def)

lemma source_nonempty: "source s f es \<Longrightarrow> es \<noteq> [] \<and> blocks es \<noteq> []"
  using sst_atD concat_blocks [of es] by (force simp: source_def)

lemma init_block:
  assumes "source s f es" "0 < readers"
  shows "\<exists>ft. ReadSSTFooter readers s f = Inr (NoError, Some ft, s) \<and> ReadSSTIndex readers s f ft = Inr (NoError, sst_offsets es, s) \<and>
    data_blk_size ft = of_nat (total_size es)"
    and "\<exists>a b. rd (index_of es) 1 = Inr b \<and> rd (index_of es) 0 = Inr a \<and> unat (b - a) = total_size (blocks es ! 0) \<and>
      ReadSSTDataBlock True readers s f ma [] (unat (b - a)) 0 (- 1) =
        Inr (NoError, blocks es ! 0, pool_after ma (blocks es ! 0), readers, s)"
proof -
  obtain flex where f: "sst_at s f es flex" using assms(1) by (auto simp: source_def)
  show "\<exists>ft. ReadSSTFooter readers s f = Inr (NoError, Some ft, s) \<and> ReadSSTIndex readers s f ft = Inr (NoError, sst_offsets es, s) \<and>
    data_blk_size ft = of_nat (total_size es)"
    using ReadSSTFooter_image [OF f assms(2)] ReadSSTIndex_image [OF f assms(2)] by (auto simp: sst_footer_def)
  have k: "0 < length (blocks es)" using source_nonempty [OF assms(1)] by simp
  have "SST_fits es flex" using f by (simp add: sst_at_def)
  note b = block_extent [OF this k]
  have "sst_offsets es ! 0 = 0" using k by (simp add: sst_offsets_def block_position)
  then show "\<exists>a b. rd (index_of es) 1 = Inr b \<and> rd (index_of es) 0 = Inr a \<and> unat (b - a) = total_size (blocks es ! 0) \<and>
      ReadSSTDataBlock True readers s f ma [] (unat (b - a)) 0 (- 1) =
        Inr (NoError, blocks es ! 0, pool_after ma (blocks es ! 0), readers, s)"
    using ReadSSTDataBlock_block [OF f assms(2) sorted_file_entries [OF source_sorted [OF assms(1)]] k, of True ma "[]"]
      index_entry [of "Suc 0" es] index_entry [of 0 es] k b
    by (intro exI [of _ "0 :: u32"] exI [of _ "of_nat (total_size (concat (take (Suc 0) (blocks es)))) :: u32"] conjI) simp_all
qed

lemma remaining_snoc:
  assumes "length ps = length ess" "mset q' = mset (block_items (blocks es ! 0) b f) + mset q" "blocks es \<noteq> []"
    and "remaining ess ps q = mset (concat ess)"
  shows "remaining (ess @ [es]) (ps @ [1]) q' = mset (concat (ess @ [es]))"
proof -
  have "(\<Sum>j<length ess. mset (unread ((ess @ [es]) ! j) ((ps @ [1]) ! j))) =
      (\<Sum>j<length ess. mset (unread (ess ! j) (ps ! j)))"
    using assms(1) by (intro sum.cong) (simp_all add: nth_append)
  moreover have "mset es = mset (blocks es ! 0) + mset (unread es 1)"
    using unread_step [of 0 es] assms(3) by (metis One_nat_def length_greater_0_conv mset_append unread_0)
  moreover have "image_mset item_entry (mset q') = mset (blocks es ! 0) + image_mset item_entry (mset q)"
    unfolding assms(2) by (simp add: image_mset.compositionality comp_def flip: mset_map)
  ultimately show ?thesis
    using assms(1,4) by (simp add: remaining_def nth_append lessThan_Suc ac_simps)
qed

lemma merge_init_ok:
  "list_all2 (source s) fs ess \<Longrightarrow> 0 < readers \<Longrightarrow> reading ess0 (replicate i 1) cs q \<Longrightarrow> length ess0 = i \<Longrightarrow>
    pool_ok ma (mset q) \<Longrightarrow> length (block_ptr ma) = Suc i \<Longrightarrow> remaining ess0 (replicate i 1) q = mset (concat ess0) \<Longrightarrow>
    \<exists>q' ma' cs'. merge_init readers s ma fs i q cs (map index_of ess0) =
        Inr (NoError, q', ma', cs', map index_of (ess0 @ ess), s) \<and>
      reading (ess0 @ ess) (replicate (i + length ess) 1) cs' q' \<and> pool_ok ma' (mset q') \<and>
      length (block_ptr ma') = Suc (i + length ess) \<and>
      remaining (ess0 @ ess) (replicate (i + length ess) 1) q' = mset (concat (ess0 @ ess))"
proof (induction fs arbitrary: ess ess0 i q cs ma)
  case Nil
  then show ?case by simp
next
  case (Cons f fs)
  then obtain es ess' where ess: "ess = es # ess'" "source s f es" "list_all2 (source s) fs ess'"
    by (auto simp: list_all2_Cons1)
  obtain ft where ft: "ReadSSTFooter readers s f = Inr (NoError, Some ft, s)"
    "ReadSSTIndex readers s f ft = Inr (NoError, sst_offsets es, s)" "data_blk_size ft = of_nat (total_size es)"
    using init_block(1) [OF ess(2) Cons.prems(2)] by blast
  obtain a b where ab: "rd (index_of es) 1 = Inr b" "rd (index_of es) 0 = Inr a"
    "unat (b - a) = total_size (blocks es ! 0)"
    "ReadSSTDataBlock True readers s f ma [] (unat (b - a)) 0 (- 1) =
        Inr (NoError, blocks es ! 0, pool_after ma (blocks es ! 0), readers, s)"
    using init_block(2) [OF ess(2) Cons.prems(2)] by blast
  let ?blk = "blocks es ! 0"
  have k: "0 < length (blocks es)" using source_nonempty [OF ess(2)] by simp
  have o: "\<forall>e\<in>set ?blk. ordered_entry e"
    using ess(2) block_of_entry(1) [OF k] by (simp add: source_def)
  have q: "queue_ok i q" using Cons.prems(3,4) by (simp add: reading_def)
  have p: "pool_ok ma (mset q + {#})" using Cons.prems(5) by simp
  obtain q' where q': "push_block ma (pool_after ma ?blk) (total_size ?blk) ?blk (int i) (int (length (block_ptr ma))) q = Inr q'"
    "mset q' = mset (block_items ?blk (length (block_ptr ma)) (int i)) + mset q" "queue_ok (Suc i) q'"
    "pool_ok (pool_after ma ?blk) (mset q' + {#})"
    using push_block_ok [OF p blocks_nonempty [OF k] o queue_ok_mono [OF q], of "Suc i" "int i"] by auto
  have none: "filter (\<lambda>it. item_file it = int i) q = []"
    using q by (auto simp: queue_ok_def filter_empty_conv)
  have rep: "replicate (Suc i) 1 = replicate i 1 @ [1 :: nat]" by (simp add: replicate_append_same)
  have "file_reading ((ess0 @ [es]) ! j) ((replicate i 1 @ [1]) ! j) ((cs @ [int (length ?blk)]) ! j) q' j" if "j < Suc i" for j
  proof (cases "j = i")
    case True
    have "length cs = i" using Cons.prems(3,4) by (simp add: reading_def)
    then show ?thesis
      using file_reading_block [OF _ k none q'(2)] ess(2) True Cons.prems(4) by (simp add: source_def nth_append)
  next
    case False
    then have "file_reading (ess0 ! j) (replicate i 1 ! j) (cs ! j) q j" "length cs = i"
      using Cons.prems(3,4) that by (simp_all add: reading_def)
    from file_reading_keep [OF this(1) q'(2)] this(2) show ?thesis
      using False that Cons.prems(4) by (auto simp: nth_append)
  qed
  then have r: "reading (ess0 @ [es]) (replicate (Suc i) 1) (cs @ [int (length ?blk)]) q'"
    using Cons.prems(3,4) q'(3) unfolding rep by (simp add: reading_def)
  have rem: "remaining (ess0 @ [es]) (replicate (Suc i) 1) q' = mset (concat (ess0 @ [es]))"
    unfolding rep using remaining_snoc [OF _ q'(2) _ Cons.prems(7)] source_nonempty [OF ess(2)] Cons.prems(4) by simp
  have len: "length (block_ptr (pool_after ma ?blk)) = Suc (Suc i)"
    using pool_ok_read(2) [OF Cons.prems(5) total_size_pos [OF blocks_nonempty [OF k] o] blocks_nonempty [OF k]]
      Cons.prems(6) by simp
  have blk: "int (length (block_ptr ma)) = int i + 1" using Cons.prems(6) by simp
  have il: "map index_of ess0 @ [index_of es] = map index_of (ess0 @ [es])" by simp
  have step: "merge_init readers s ma (f # fs) i q cs (map index_of ess0) =
      merge_init readers s (pool_after ma ?blk) fs (Suc i) q' (cs @ [int (length ?blk)]) (map index_of (ess0 @ [es]))"
    unfolding merge_init.simps
    by (simp only: ft rbind.simps prod.case StatusNoError_simps not_True_eq_False if_False option.case Let_def ab(1-3)
        ab(4) [unfolded ab(3)]
        q'(1) [unfolded blk] il add_0_right Suc_eq_plus1)
  have "pool_ok (pool_after ma ?blk) (mset q')" using q'(4) by simp
  from Cons.IH [OF ess(3) Cons.prems(2) r _ this len rem]
  show ?case unfolding step ess(1) using Cons.prems(4) by simp
qed

section \<open>Keeping the newest entry of each key\<close>

definition compact_step :: "bytes list \<Rightarrow> bytes \<Rightarrow> bytes list" where
  "compact_step out e = (if out \<noteq> [] \<and> same_key (last out) e then butlast out @ [e] else out @ [e])"

definition compact :: "bytes list \<Rightarrow> bytes list" where
  "compact = foldl compact_step []"

lemma compact_simps [simp]: "compact [] = []" "compact (xs @ [e]) = compact_step (compact xs) e"
  by (simp_all add: compact_def)

definition key_strict :: "bytes \<Rightarrow> bytes \<Rightarrow> bool" where
  "key_strict x y \<longleftrightarrow> le_entry x y \<and> \<not> same_key x y"

lemma key_strict_trans:
  assumes "key_strict x y" "le_entry y z"
  shows "key_strict x z"
proof -
  have "\<not> same_key x z"
  proof
    assume "same_key x z"
    then have "key_ordered y x" using ent_le_key [OF assms(2)] by simp
    moreover have "key_ordered x y" using assms(1) ent_le_key by (auto simp: key_strict_def)
    ultimately have "same_key x y" by (rule key_le_antisym [symmetric])
    with assms(1) show False by (simp add: key_strict_def)
  qed
  then show ?thesis
    using assms ent_le_trans [of "ent_of x" "ent_of y" "ent_of z"] by (auto simp: key_strict_def)
qed

lemma compact_nonempty: "xs \<noteq> [] \<Longrightarrow> compact xs \<noteq> [] \<and> last (compact xs) = last xs"
  by (cases xs rule: rev_cases) (auto simp: compact_step_def)

lemma compact_size: "total_size (compact xs) \<le> total_size xs"
proof (induction xs rule: rev_induct)
  case (snoc e xs)
  have "total_size (butlast out) \<le> total_size out" for out :: "bytes list"
    by (cases out rule: rev_cases) simp_all
  from this [of "compact xs"] snoc show ?case by (auto simp: compact_step_def)
qed simp

lemma compact_subset: "set (compact xs) \<subseteq> set xs"
  by (induction xs rule: rev_induct) (auto simp: compact_step_def dest: in_set_butlastD)

lemma compact_newest:
  "sorted_wrt le_entry xs \<Longrightarrow> sorted_wrt key_strict (compact xs) \<and>
    (\<forall>e\<in>set xs. \<exists>x\<in>set (compact xs). same_key x e \<and> le_entry e x)"
proof (induction xs rule: rev_induct)
  case (snoc e xs)
  let ?out = "compact xs"
  have IH: "sorted_wrt key_strict ?out" "\<forall>e\<in>set xs. \<exists>x\<in>set ?out. same_key x e \<and> le_entry e x"
    using snoc by (auto simp: sorted_wrt_append)
  have le: "le_entry x e" if "x \<in> set ?out" for x
    using snoc.prems compact_subset [of xs] that by (auto simp: sorted_wrt_append)
  show ?case
  proof (cases "?out = []")
    case True
    then have "xs = []" using compact_nonempty by blast
    then show ?thesis unfolding compact_simps True by (simp add: compact_step_def)
  next
    case False
    then obtain ys y where out: "?out = ys @ [y]" by (metis append_butlast_last_id)
    have ys: "key_strict x e" if "x \<in> set ys" for x
      using IH(1) that le [of y] key_strict_trans unfolding out by (auto simp: sorted_wrt_append)
    show ?thesis
    proof (cases "same_key y e")
      case True
      have "\<exists>x\<in>set (ys @ [e]). same_key x d \<and> le_entry d x" if d: "d \<in> set (xs @ [e])" for d
      proof (cases "d \<in> set xs")
        case d: True
        then obtain x where x: "x \<in> set ?out" "same_key x d" "le_entry d x" using IH(2) by blast
        show ?thesis
        proof (cases "x = y")
          case xy: True
          have "le_entry d e" using x(3) xy le [of y] ent_le_trans out by auto
          then show ?thesis using x xy True by auto
        qed (use x out in auto)
      qed (use d in auto)
      then show ?thesis
        using IH(1) True ys unfolding compact_simps out by (auto simp: compact_step_def sorted_wrt_append)
    next
      case False
      then have "key_strict y e" using le out by (simp add: key_strict_def)
      then show ?thesis
        using IH ys False unfolding compact_simps out by (auto simp: compact_step_def sorted_wrt_append)
    qed
  qed
qed simp

lemma sorted_wrt_distinct: "sorted_wrt (\<lambda>x y. f x \<noteq> f y) xs \<Longrightarrow> distinct (map f xs)"
  by (induction xs) auto

lemma compact_file:
  assumes "sorted_wrt le_entry xs" "\<forall>e\<in>set xs. ordered_entry e"
  shows "sorted_file (compact xs)" "distinct (map (\<lambda>e. fst (ent_of e)) (compact xs))"
proof -
  have s: "sorted_wrt key_strict (compact xs)" using compact_newest [OF assms(1)] by blast
  have "sorted_wrt le_entry (compact xs)"
    by (rule sorted_wrt_mono_rel [OF _ s]) (simp add: key_strict_def)
  then show "sorted_file (compact xs)"
    using assms(2) compact_subset [of xs] by (intro sorted_entries_file) auto
  have "sorted_wrt (\<lambda>x y. \<not> same_key x y) (compact xs)"
    by (rule sorted_wrt_mono_rel [OF _ s]) (simp add: key_strict_def)
  then show "distinct (map (\<lambda>e. fst (ent_of e)) (compact xs))" by (rule sorted_wrt_distinct)
qed

section \<open>The steps of the loop\<close>

lemma take_entry_ok:
  assumes "queue m = it # Q" "pool_ok (pool m) (mset (it # Q) + mset (output_buffer m))"
    and "ordered_entry (item_entry it)" "\<forall>x\<in>set (output_buffer m). ordered_entry (item_entry x)"
  shows "\<exists>ma out. take_entry m it = Inr (m\<lparr>queue := Q, pool := ma, output_buffer := out\<rparr>) \<and>
    map item_entry out = compact_step (map item_entry (output_buffer m)) (item_entry it) \<and>
    set out \<subseteq> insert it (set (output_buffer m)) \<and>
    pool_ok ma (mset Q + mset out) \<and> length (block_ptr ma) = length (block_ptr (pool m))"
proof -
  let ?out = "output_buffer m"
  have "set (it # Q) \<subseteq> set_mset (mset (it # Q) + mset ?out)" by auto
  from pool_ok_touch [OF assms(2) this] have t1: "touch (pool m) (queue m) r = r" for r :: "merge_state res"
    unfolding assms(1) .
  show ?thesis
  proof (cases "?out = []")
    case True
    then show ?thesis
      using assms(1,2) unfolding take_entry_def t1
      by (intro exI [of _ "pool m"] exI [of _ "[it]"]) (simp add: compact_step_def)
  next
    case False
    have "set [last ?out, it] \<subseteq> set_mset (mset (it # Q) + mset ?out)" using False by simp
    note t2 = pool_ok_touch [OF assms(2) this]
    have o: "ordered_entry (item_entry (last ?out))" using assms(4) False by simp
    have l: "last (map item_entry ?out) = item_entry (last ?out)" using False by (rule last_map)
    have out: "mset ?out = add_mset (last ?out) (mset (butlast ?out))"
      using False by (metis append_butlast_last_id mset.simps(2) mset_append union_mset_add_mset_right add.right_neutral mset.simps(1))
    show ?thesis
    proof (cases "same_key (item_entry (last ?out)) (item_entry it)")
      case True
      let ?ma = "unref_item (pool m) (item_entry (last ?out), snd (last ?out))"
      have "pool_ok (pool m) (add_mset (last ?out) (mset Q + mset (butlast ?out @ [it])))"
        using assms(2) unfolding out by (simp add: ac_simps)
      note u = pool_ok_unref [OF this, of "item_entry (last ?out)"]
      have "take_entry m it = Inr (m\<lparr>queue := Q, pool := ?ma, output_buffer := butlast ?out @ [it]\<rparr>)"
        unfolding take_entry_def t1 Let_def t2 using False True o assms(1,3) by (simp add: compare_ordered)
      then show ?thesis
        using u True False l by (intro exI [of _ ?ma] exI [of _ "butlast ?out @ [it]"])
          (auto simp: compact_step_def map_butlast dest: in_set_butlastD)
    next
      case ns: False
      have "take_entry m it = Inr (m\<lparr>queue := Q, output_buffer := ?out @ [it]\<rparr>)"
        unfolding take_entry_def t1 Let_def t2 using False ns o assms(1,3) by (simp add: compare_ordered)
      moreover have "pool_ok (pool m) (mset Q + mset (?out @ [it]))" using assms(2) by simp
      ultimately show ?thesis
        using ns False l by (intro exI [of _ "pool m"] exI [of _ "?out @ [it]"]) (simp add: compact_step_def)
    qed
  qed
qed

lemma sint_small: "n < 2 ^ 31 \<Longrightarrow> sint (of_nat n :: u32) = int n"
  by (simp add: signed_of_nat signed_take_bit_int_eq_self)

lemma block_id_last:
  assumes "length (block_ptr ma') = Suc n" "n < 2 ^ 31"
  shows "sint (BlockCount ma' - 1) = int n"
  using assms by (simp add: BlockCount_def sint_small)

lemma refill_ok:
  assumes r: "reading ess ps cs (it # Q)" "list_all2 (source (merge_os m)) fs ess" "0 < readers"
    and m: "queue m = Q" "file_entry_in_queue m = cs" "index_block_ptr m = ps"
    and p: "pool_ok (pool m) (mset Q + M)" "length (block_ptr (pool m)) = Suc (sum_list ps)"
    and b: "Suc (sum_list (map (length \<circ> blocks) ess)) < 2 ^ 31"
    and ret: "StatusNoError ret"
  shows "\<exists>st Q' ps' cs' ma. refill readers fs (map index_of ess) ret it m =
      Inr (st, m\<lparr>queue := Q', pool := ma, index_block_ptr := ps', file_entry_in_queue := cs'\<rparr>) \<and> StatusNoError st \<and>
    reading ess ps' cs' Q' \<and> remaining ess ps' Q' = remaining ess ps Q \<and>
    pool_ok ma (mset Q' + M) \<and> length (block_ptr ma) = Suc (sum_list ps')"
proof -
  define i where "i = nat (item_file it)"
  note f = reading_front [OF r(1) i_def]
  let ?es = "ess ! i"
  have len: "length ps = length ess" "length cs = length ess" "length fs = length ess"
    using r(1,2) by (simp_all add: reading_def list_all2_lengthD)
  have k: "ps ! i \<le> length (blocks ?es)" using r(1) f(1) by (simp add: reading_def file_reading_def)
  have rds: "rd cs i = Inr (cs ! i)" "rd ps i = Inr (ps ! i)" "rd (map index_of ess) i = Inr (index_of ?es)"
    "rd fs i = Inr (fs ! i)"
    using f(1) len by (simp_all add: rd_def)
  show ?thesis
  proof (cases "cs ! i - 1 \<noteq> 0 \<or> ps ! i = length (blocks ?es)")
    case True
    then have "refill readers fs (map index_of ess) ret it m = Inr (ret, m\<lparr>file_entry_in_queue := cs[i := cs ! i - 1]\<rparr>)"
      by (auto simp: refill_def i_def [symmetric] m Let_def rds)
    moreover have "reading ess ps (cs[i := cs ! i - 1]) Q"
      using reading_pop [OF r(1) i_def] True by blast
    ultimately show ?thesis
      using p ret m by (intro exI [of _ ret] exI [of _ Q] exI [of _ ps] exI [of _ "cs[i := cs ! i - 1]"] exI [of _ "pool m"]) simp
  next
    case False
    then have c: "cs ! i - 1 = 0" and k: "ps ! i < length (blocks ?es)" using k by auto
    have src: "source (merge_os m) (fs ! i) ?es" using r(2) f(1) len by (simp add: list_all2_conv_all_nth)
    note sb = source_block [OF src r(3) k]
    let ?blk = "blocks ?es ! (ps ! i)"
    have ne: "?blk \<noteq> []" by (rule blocks_nonempty [OF k])
    have ord: "\<forall>e\<in>set ?blk. ordered_entry e" using src block_of_entry(1) [OF k] by (simp add: source_def)
    obtain Q' where Q': "push_block (pool m) (pool_after (pool m) ?blk) (total_size ?blk) ?blk (int i)
        (int (length (block_ptr (pool m)))) Q = Inr Q'"
      "mset Q' = mset (block_items ?blk (length (block_ptr (pool m))) (int i)) + mset Q" "queue_ok (length ess) Q'"
      "pool_ok (pool_after (pool m) ?blk) (mset Q' + M)"
      using push_block_ok [OF p(1) ne ord f(4), of "int i"] f(1) by auto
    have l: "length (block_ptr (pool_after (pool m) ?blk)) = Suc (Suc (sum_list ps))"
      using pool_ok_read(2) [OF p(1) total_size_pos [OF ne ord] ne] p(2) by simp
    have "sum_list ps \<le> sum_list (map (length \<circ> blocks) ess)"
      using r(1) len by (intro sum_list_mono2) (auto simp: reading_def file_reading_def)
    then have "Suc (sum_list ps) < 2 ^ 31" using b by simp
    note id = block_id_last [OF l this]
    let ?ps = "ps[i := ps ! i + 1]" and ?cs = "cs[i := int (length ?blk)]" and ?ma = "pool_after (pool m) ?blk"
    have "\<not> (index_of ?es \<noteq> [] \<and> length (index_of ?es) - 1 \<le> ps ! i)" using k by simp
    then have "refill readers fs (map index_of ess) ret it m =
      Inr (NoError, m\<lparr>queue := Q', pool := ?ma, index_block_ptr := ?ps, file_entry_in_queue := ?cs\<rparr>)"
      unfolding refill_def i_def [symmetric] m Let_def rds rbind.simps
      using c f(2) Q'(1) sb id p(2) m
      by (simp add: rds)
    moreover have "reading ess ?ps ?cs Q'"
    proof -
      have "int (length (filter (\<lambda>it. item_file it = int i) Q)) = 0" using f(5) c by simp
      then have none: "filter (\<lambda>it. item_file it = int i) Q = []" by simp
      have "file_reading (ess ! j) (?ps ! j) (?cs ! j) Q' j" if j: "j < length ess" for j
      proof (cases "j = i")
        case True
        then show ?thesis
          using file_reading_block [OF _ k none Q'(2)] src j len by (simp add: source_def)
      next
        case False
        have "file_reading (ess ! j) (ps ! j) (cs ! j) (it # Q) j" using r(1) j by (simp add: reading_def)
        then have "file_reading (ess ! j) (ps ! j) (cs ! j) Q j" using file_reading_other f(2) False by simp
        from file_reading_keep [OF this Q'(2)] False show ?thesis by auto
      qed
      then show ?thesis using len Q'(3) by (simp add: reading_def)
    qed
    moreover have "remaining ess ?ps Q' = remaining ess ps Q"
      using remaining_update [OF f(1) len(1) k refl] unfolding remaining_def Q'(2)
      by (simp add: image_mset.compositionality comp_def ac_simps flip: mset_map)
    moreover have "length (block_ptr ?ma) = Suc (sum_list ?ps)"
      using l f(1) len by (simp add: sum_list_update)
    ultimately show ?thesis using Q'(4) StatusNoError_simps(1) by blast
  qed
qed

end
