(* ===== verification/MergeCorrect.thy ===== *)
theory MergeCorrect
  imports MergeProofs
begin

text \<open>
  The output of the merge and its loop invariant, and the properties of \<open>MultiwayMerge\<close>.

  The entries popped so far are cut into segments: \<open>segs\<close> have been written, one file each, and
  \<open>seg\<close> is the one whose entries are in the output buffer. A file holds the newest entry of every
  key of its segment.
\<close>

section \<open>Writing an output file\<close>

abbreviation sst_limit :: nat where
  "sst_limit \<equiv> kApproximateSSTFileSize"

text \<open>The name of the \<open>j\<close>-th file written from now on.\<close>

definition out_name :: "TCIO \<Rightarrow> nat \<Rightarrow> string" where
  "out_name io j = hex16 (file_id io + of_nat j)"

definition names_free :: "TCIO \<Rightarrow> nat \<Rightarrow> nat \<Rightarrow> os \<Rightarrow> bool" where
  "names_free io a b s \<longleftrightarrow> (\<forall>j. a \<le> j \<longrightarrow> j < b \<longrightarrow> (\<exists>p. sst_path io (out_name io j) = Inr p \<and> files s p = None))"

text \<open>The filter of up to \<open>sst_limit\<close> bytes of entries can be built and the file fits the footer.\<close>

definition filter_fits :: "(bytes list \<Rightarrow> bytes res) \<Rightarrow> bool" where
  "filter_fits create \<longleftrightarrow> (\<forall>es. es \<noteq> [] \<longrightarrow> (\<forall>e\<in>set es. ordered_entry e) \<longrightarrow> total_size es < sst_limit \<longrightarrow>
     (\<exists>flex. create es = Inr flex \<and> SST_fits es flex))"

lemma sst_path_io [simp]: "sst_path (io\<lparr>file_id := i\<rparr>) name = sst_path io name"
  by (simp add: sst_path_def)

lemma out_name_inj:
  assumes "sst_path io (out_name io j) = Inr p" "sst_path io (out_name io k) = Inr p" "j < 2 ^ 64" "k < 2 ^ 64"
  shows "j = k"
proof -
  have "out_name io j = out_name io k" using sst_path_inj [OF assms(1,2)] by simp
  then have "(of_nat j :: u64) = of_nat k" by (simp add: out_name_def hex16_inj)
  then show ?thesis using assms(3,4) by (metis unat_of_nat_u64)
qed

lemma write_output_ok:
  assumes p: "pool_ok (pool m) (mset Q + mset (output_buffer m))"
    and out: "sorted_file (map item_entry (output_buffer m))" "output_buffer m \<noteq> []"
      "total_size (map item_entry (output_buffer m)) < sst_limit"
    and c: "filter_fits create" "quiet (merge_os m)"
    and path: "sst_path (merge_io m) (hex16 (file_id (merge_io m))) = Inr f" "files (merge_os m) f = None"
  shows "\<exists>st ma s'. write_output create m = Inr (st, hex16 (file_id (merge_io m)),
      m\<lparr>pool := ma, merge_io := (merge_io m)\<lparr>file_id := file_id (merge_io m) + 1\<rparr>, merge_os := s'\<rparr>) \<and>
    StatusNoError st \<and> pool_ok ma (mset Q) \<and> length (block_ptr ma) = length (block_ptr (pool m)) \<and> quiet s' \<and>
    on_disk create s' (merge_io m) (hex16 (file_id (merge_io m))) (map item_entry (output_buffer m)) \<and>
    (\<forall>g. g \<noteq> f \<longrightarrow> files s' g = files (merge_os m) g)"
proof -
  let ?es = "map item_entry (output_buffer m)" and ?out = "output_buffer m" and ?io = "merge_io m"
  have ne: "?es \<noteq> []" using out(2) by simp
  have "\<forall>e\<in>set ?es. ordered_entry e" using out(1) by (simp add: sorted_file_def)
  then obtain flex where flex: "create ?es = Inr flex" "SST_fits ?es flex"
    using c(1) ne out(3) unfolding filter_fits_def by blast
  obtain st s' where w: "WriteSSTFile_filter create (merge_os m) f ?es = Inr (st, s')" "StatusNoError st"
    "sst_at s' f ?es flex" "\<forall>g. g \<noteq> f \<longrightarrow> files s' g = files (merge_os m) g"
    using WriteSSTFile_at [where create = create and es = ?es, OF flex(1) ne flex(2) c(2) path(2)] by blast
  let ?ma = "foldl unref_item (pool m) (map (\<lambda>it. (item_entry it, snd it)) ?out)"
  note u = pool_ok_unref_all [OF p]
  have t: "touch (pool m) ?out r = r" for r :: "(Status \<times> string \<times> merge_state) res"
    by (rule pool_ok_touch [OF p]) auto
  have es: "map fst (map (\<lambda>it. (item_entry it, snd it)) ?out) = ?es" by simp
  have "write_output create m = Inr (st, hex16 (file_id ?io),
      m\<lparr>pool := ReleaseIdleSpace ?ma, merge_io := ?io\<lparr>file_id := file_id ?io + 1\<rparr>, merge_os := s'\<rparr>)"
    unfolding write_output_def t WriteMergeSSTFile_filter_def es
    using w(1) path(1) by (simp add: WriteNewSSTFile_filter_def next_basename_def)
  moreover have "on_disk create s' ?io (hex16 (file_id ?io)) ?es"
    using path(1) w(3) flex(1) out(1) by (auto simp: on_disk_def)
  moreover have "quiet s'" using w(3) by (simp add: sst_at_def)
  moreover have "pool_ok (ReleaseIdleSpace ?ma) (mset Q)" "length (block_ptr (ReleaseIdleSpace ?ma)) = length (block_ptr (pool m))"
    using u pool_ok_release [of ?ma "mset Q"] by simp_all
  ultimately show ?thesis
    using w(2,4) by (intro exI [of _ st] exI [of _ "ReleaseIdleSpace ?ma"] exI [of _ s']) blast
qed

section \<open>The loop invariant\<close>

text \<open>What has been written: the segments, the names handed out, the rest of the file system.\<close>

definition written ::
    "(bytes list \<Rightarrow> bytes res) \<Rightarrow> os \<Rightarrow> TCIO \<Rightarrow> nat \<Rightarrow> bytes list list \<Rightarrow> merge_state \<Rightarrow> bool" where
  "written create s0 io n segs m \<longleftrightarrow>
     merge_io m = io\<lparr>file_id := file_id io + of_nat (length segs)\<rparr> \<and>
     new_files m = map (out_name io) [0..<length segs] \<and>
     (\<forall>j<length segs. on_disk create (merge_os m) io (out_name io j) (compact (segs ! j))) \<and>
     names_free io (length segs) n (merge_os m) \<and> quiet (merge_os m) \<and>
     (\<forall>g. (\<forall>j<length segs. sst_path io (out_name io j) \<noteq> Inr g) \<longrightarrow> files (merge_os m) g = files s0 g)"

text \<open>What has been popped: segments of the sorted sequence of all entries.\<close>

definition popped :: "bytes list list \<Rightarrow> bytes multiset \<Rightarrow> bytes list list \<Rightarrow> bytes list \<Rightarrow> bool" where
  "popped ess R segs seg \<longleftrightarrow>
     mset (concat segs @ seg) + R = mset (concat ess) \<and> sorted_wrt le_entry (concat segs @ seg) \<and>
     (\<forall>e\<in>set (concat segs @ seg). \<forall>x\<in>#R. le_entry e x) \<and>
     (\<forall>s\<in>set segs. s \<noteq> [] \<and> total_size s < sst_limit) \<and> total_size seg < sst_limit"

definition merge_inv ::
    "(bytes list \<Rightarrow> bytes res) \<Rightarrow> os \<Rightarrow> TCIO \<Rightarrow> string list \<Rightarrow> bytes list list \<Rightarrow> bytes list list \<Rightarrow> bytes list \<Rightarrow>
      merge_state \<Rightarrow> bool" where
  "merge_inv create s0 io fs ess segs seg m \<longleftrightarrow>
     reading ess (index_block_ptr m) (file_entry_in_queue m) (queue m) \<and>
     list_all2 (source (merge_os m)) fs ess \<and>
     pool_ok (pool m) (mset (queue m) + mset (output_buffer m)) \<and>
     length (block_ptr (pool m)) = Suc (sum_list (index_block_ptr m)) \<and>
     popped ess (remaining ess (index_block_ptr m) (queue m)) segs seg \<and>
     map item_entry (output_buffer m) = compact seg \<and> current_sst_size m = of_nat (total_size seg) \<and>
     written create s0 io (length (concat ess)) segs m"

lemma length_concat_ge: "\<forall>x\<in>set xss. x \<noteq> [] \<Longrightarrow> length xss \<le> length (concat xss)"
proof (induction xss)
  case (Cons a xss)
  then have "1 \<le> length a" by (cases a) auto
  moreover have "length xss \<le> length (concat xss)" using Cons by simp
  ultimately show ?case by simp
qed simp

lemma popped_entries:
  assumes "popped ess R segs seg" "\<forall>e\<in>set (concat ess). ordered_entry e"
  shows "\<forall>e\<in>set (concat segs @ seg). ordered_entry e" "\<forall>e\<in>#R. ordered_entry e" "sorted_wrt le_entry seg"
    "length (concat segs @ seg) \<le> length (concat ess)" "length segs \<le> length (concat segs)"
proof -
  have m: "mset (concat segs @ seg) + R = mset (concat ess)" using assms(1) by (simp add: popped_def)
  have s: "set (concat ess) = set (concat segs @ seg) \<union> set_mset R"
    using arg_cong [OF m, of set_mset] by simp
  then show "\<forall>e\<in>set (concat segs @ seg). ordered_entry e" "\<forall>e\<in>#R. ordered_entry e" using assms(2) by blast+
  show "sorted_wrt le_entry seg" using assms(1) by (simp add: popped_def sorted_wrt_append)
  have "length (concat segs @ seg) + size R = length (concat ess)"
    using arg_cong [OF m, of size] by simp
  then show "length (concat segs @ seg) \<le> length (concat ess)" by simp
  show "length segs \<le> length (concat segs)"
    using assms(1) by (intro length_concat_ge) (simp add: popped_def)
qed

lemma popped_take:
  assumes "popped ess (add_mset e R) segs seg" "\<forall>x\<in>#R. le_entry e x" "total_size seg + length e < sst_limit"
  shows "popped ess R segs (seg @ [e])"
  using assms by (auto simp: popped_def sorted_wrt_append)

lemma popped_flush:
  assumes "popped ess R segs seg" "seg \<noteq> []"
  shows "popped ess R (segs @ [seg]) []"
  using assms by (auto simp: popped_def kApproximateSSTFileSize_def)

lemma source_keep: "source s f es \<Longrightarrow> files s' f = files s f \<Longrightarrow> quiet s' \<Longrightarrow> source s' f es"
  using sst_at_keep by (fastforce simp: source_def)

lemma on_disk_keep:
  assumes "on_disk create s io name es" "quiet s'"
    and "\<And>p. sst_path io name = Inr p \<Longrightarrow> files s' p = files s p"
  shows "on_disk create s' io name es"
  using assms sst_at_keep by (fastforce simp: on_disk_def)

text \<open>Writing the buffer keeps the invariant, with the segment finished.\<close>

lemma write_inv:
  assumes inv: "merge_inv create s0 io fs ess segs seg m" and seg: "seg \<noteq> []"
    and c: "filter_fits create" "\<forall>e\<in>set (concat ess). ordered_entry e" "length (concat ess) < 2 ^ 64"
  shows "\<exists>st name m1. write_output create m = Inr (st, name, m1) \<and> StatusNoError st \<and> queue m1 = queue m \<and>
    merge_inv create s0 io fs ess (segs @ [seg]) [] (m1\<lparr>new_files := new_files m1 @ [name],
       pool := ReleaseIdleSpace (pool m1), output_buffer := [], current_sst_size := 0\<rparr>) \<and>
    written create s0 io (length (concat ess)) (segs @ [seg]) (m1\<lparr>new_files := new_files m1 @ [name]\<rparr>)"
proof -
  let ?n = "length (concat ess)" and ?k = "length segs"
  have pp: "popped ess (remaining ess (index_block_ptr m) (queue m)) segs seg"
    and w: "written create s0 io ?n segs m" and es: "map item_entry (output_buffer m) = compact seg"
    and po: "pool_ok (pool m) (mset (queue m) + mset (output_buffer m))"
    and src: "list_all2 (source (merge_os m)) fs ess"
    using inv by (simp_all add: merge_inv_def)
  note pe = popped_entries [OF pp c(2)]
  have k: "?k < ?n" using pe(4,5) seg by (cases seg) auto
  have io: "merge_io m = io\<lparr>file_id := file_id io + of_nat ?k\<rparr>" using w by (simp add: written_def)
  then have name: "hex16 (file_id (merge_io m)) = out_name io ?k" by (simp add: out_name_def)
  obtain f where f: "sst_path io (out_name io ?k) = Inr f" "files (merge_os m) f = None"
    using w k by (auto simp: written_def names_free_def)
  have f': "sst_path (merge_io m) (hex16 (file_id (merge_io m))) = Inr f" using f(1) name io by simp
  have "total_size (compact seg) < sst_limit"
    using compact_size [of seg] pp by (simp add: popped_def)
  moreover have "output_buffer m \<noteq> []" using es seg compact_nonempty by (metis list.simps(8))
  moreover have "sorted_file (map item_entry (output_buffer m))"
    using compact_file(1) [OF pe(3)] pe(1) es by simp
  ultimately obtain st ma s' where r: "write_output create m = Inr (st, hex16 (file_id (merge_io m)),
      m\<lparr>pool := ma, merge_io := (merge_io m)\<lparr>file_id := file_id (merge_io m) + 1\<rparr>, merge_os := s'\<rparr>)"
    "StatusNoError st" "pool_ok ma (mset (queue m))" "length (block_ptr ma) = length (block_ptr (pool m))" "quiet s'"
    "on_disk create s' (merge_io m) (hex16 (file_id (merge_io m))) (map item_entry (output_buffer m))"
    "\<forall>g. g \<noteq> f \<longrightarrow> files s' g = files (merge_os m) g"
    using write_output_ok [OF po _ _ _ c(1) _ f' f(2)] w es by (auto simp: written_def)
  have disk: "on_disk create s' io (out_name io j) (compact ((segs @ [seg]) ! j))" if j: "j < Suc ?k" for j
  proof (cases "j = ?k")
    case True
    have "on_disk create s' io (out_name io ?k) (compact seg)"
      using r(6) unfolding name es by (simp add: on_disk_def io)
    then show ?thesis using True by simp
  next
    case False
    then have "on_disk create (merge_os m) io (out_name io j) (compact (segs ! j))" "j < ?k"
      using w j by (simp_all add: written_def)
    moreover have "p \<noteq> f" if "sst_path io (out_name io j) = Inr p" for p
      using out_name_inj [OF that, of ?k] f(1) False k c(3) j by auto
    ultimately show ?thesis using on_disk_keep [OF _ r(5)] r(7) by (simp add: nth_append)
  qed
  have free: "names_free io (Suc ?k) ?n s'"
    unfolding names_free_def
  proof (intro allI impI)
    fix j
    assume j: "Suc ?k \<le> j" "j < ?n"
    then obtain p where p: "sst_path io (out_name io j) = Inr p" "files (merge_os m) p = None"
      using w unfolding written_def names_free_def by (meson Suc_leD)
    have "p \<noteq> f" using out_name_inj [OF p(1), of ?k] f(1) k c(3) j by auto
    then show "\<exists>p. sst_path io (out_name io j) = Inr p \<and> files s' p = None" using p r(7) by auto
  qed
  let ?m1 = "m\<lparr>pool := ma, merge_io := (merge_io m)\<lparr>file_id := file_id (merge_io m) + 1\<rparr>, merge_os := s'\<rparr>"
  have "files s' g = files s0 g" if "\<forall>j<Suc ?k. sst_path io (out_name io j) \<noteq> Inr g" for g
    using that w r(7) f(1) by (auto simp: written_def)
  then have wr: "written create s0 io ?n (segs @ [seg]) (?m1\<lparr>new_files := new_files m @ [out_name io ?k]\<rparr>)"
    using w disk free r(5) by (simp add: written_def io ac_simps)
  have "list_all2 (source s') fs ess"
  proof (rule list_all2_mono [OF src])
    fix g es
    assume s: "source (merge_os m) g es"
    then have "files (merge_os m) g \<noteq> None" by (auto simp: source_def sst_at_def)
    then have "g \<noteq> f" using f(2) by auto
    then show "source s' g es" using source_keep [OF s _ r(5)] r(7) by simp
  qed
  then have "merge_inv create s0 io fs ess (segs @ [seg]) [] (?m1\<lparr>new_files := new_files m @ [out_name io ?k],
       pool := ReleaseIdleSpace ma, output_buffer := [], current_sst_size := 0\<rparr>)"
    using inv wr pool_ok_release [OF r(3)] r(4) popped_flush [OF pp seg]
    by (simp add: merge_inv_def written_def)
  then show ?thesis using r(1,2) wr unfolding name by auto
qed

section \<open>The loop\<close>

lemma limit_test:
  assumes "a < sst_limit" "b < sst_limit"
  shows "of_nat sst_limit \<le>s (of_nat a + of_nat b :: u32) \<longleftrightarrow> sst_limit \<le> a + b"
proof -
  have "sint (of_nat (a + b) :: u32) = int (a + b)" "sint (of_nat sst_limit :: u32) = int sst_limit"
    using assms by (intro sint_small; simp add: kApproximateSSTFileSize_def)+
  then show ?thesis unfolding word_sle_eq by (simp, linarith)
qed

lemma reading_done:
  assumes "reading ess ps cs []"
  shows "remaining ess ps [] = {#}"
proof -
  have "unread (ess ! i) (ps ! i) = []" if "i < length ess" for i
    using assms that by (simp add: reading_def file_reading_def unread_def)
  then show ?thesis by (simp add: remaining_def)
qed

lemma take_inv:
  assumes inv: "merge_inv create s0 io fs ess segs seg m" and q: "queue m = it # Q"
    and fit: "total_size seg + length (item_entry it) < sst_limit"
    and c: "\<forall>e\<in>set (concat ess). ordered_entry e" "0 < readers" "Suc (sum_list (map (length \<circ> blocks) ess)) < 2 ^ 31"
    and sz: "sz = current_sst_size m + of_nat (length (item_entry it))" and ret: "StatusNoError ret"
  shows "\<exists>m1 st m2. take_entry (m\<lparr>current_sst_size := sz\<rparr>) it = Inr m1 \<and>
    refill readers fs (map index_of ess) ret it m1 = Inr (st, m2) \<and> StatusNoError st \<and>
    merge_inv create s0 io fs ess segs (seg @ [item_entry it]) m2"
proof -
  let ?e = "item_entry it" and ?ps = "index_block_ptr m" and ?cs = "file_entry_in_queue m"
  have r: "reading ess ?ps ?cs (it # Q)" and src: "list_all2 (source (merge_os m)) fs ess"
    and po: "pool_ok (pool m) (mset (it # Q) + mset (output_buffer m))"
    and pp: "popped ess (remaining ess ?ps (it # Q)) segs seg"
    and es: "map item_entry (output_buffer m) = compact seg"
    using inv q by (simp_all add: merge_inv_def)
  note f = reading_front [OF r refl]
  have ord: "\<forall>x\<in>set (output_buffer m). ordered_entry (item_entry x)"
  proof -
    have "set (map item_entry (output_buffer m)) \<subseteq> set seg" unfolding es by (rule compact_subset)
    then show ?thesis using popped_entries(1) [OF pp c(1)] by auto
  qed
  have "popped ess (remaining ess ?ps Q) segs (seg @ [?e])"
    using popped_take [OF pp [unfolded f(6)] _ fit] front_least [OF r] f(6) by simp
  moreover obtain ma out where t: "take_entry (m\<lparr>current_sst_size := sz\<rparr>) it =
      Inr (m\<lparr>current_sst_size := sz, queue := Q, pool := ma, output_buffer := out\<rparr>)"
    "map item_entry out = compact_step (map item_entry (output_buffer m)) ?e"
    "pool_ok ma (mset Q + mset out)" "length (block_ptr ma) = length (block_ptr (pool m))"
    using take_entry_ok [of "m\<lparr>current_sst_size := sz\<rparr>" it Q] q po f(3) ord by auto
  let ?m1 = "m\<lparr>current_sst_size := sz, queue := Q, pool := ma, output_buffer := out\<rparr>"
  have l: "length (block_ptr (pool ?m1)) = Suc (sum_list ?ps)" using t(4) inv by (simp add: merge_inv_def)
  obtain st Q' ps' cs' ma' where rf: "refill readers fs (map index_of ess) ret it ?m1 =
      Inr (st, ?m1\<lparr>queue := Q', pool := ma', index_block_ptr := ps', file_entry_in_queue := cs'\<rparr>)" "StatusNoError st"
    "reading ess ps' cs' Q'" "remaining ess ps' Q' = remaining ess ?ps Q"
    "pool_ok ma' (mset Q' + mset out)" "length (block_ptr ma') = Suc (sum_list ps')"
    using refill_ok [OF r, of ?m1 fs readers "mset out" ret] src c(2,3) t(3) l ret by auto
  ultimately have "merge_inv create s0 io fs ess segs (seg @ [?e])
      (?m1\<lparr>queue := Q', pool := ma', index_block_ptr := ps', file_entry_in_queue := cs'\<rparr>)"
    using inv src t(2) es sz by (simp add: merge_inv_def written_def)
  then show ?thesis using t(1) rf(1,2) by blast
qed

lemma IterMerge_loop_ok:
  assumes c: "filter_fits create" "\<forall>e\<in>set (concat ess). ordered_entry e" "length (concat ess) < 2 ^ 64" "0 < readers"
    "Suc (sum_list (map (length \<circ> blocks) ess)) < 2 ^ 31" "\<forall>e\<in>set (concat ess). length e < sst_limit"
  shows "merge_inv create s0 io fs ess segs seg m \<Longrightarrow> StatusNoError ret \<Longrightarrow>
    \<exists>st segs' seg' m'. IterMerge_loop create readers fs (map index_of ess) ret m = Inr (st, m') \<and> StatusNoError st \<and>
      queue m' = [] \<and> merge_inv create s0 io fs ess segs' seg' m'"
  using c
proof (induction create readers fs "map index_of ess" ret m arbitrary: segs seg rule: IterMerge_loop.induct)
  case (1 create readers fs ret m)
  let ?il = "map index_of ess"
  note inv = "1.prems"(1) and ret = "1.prems"(2) and c = "1.prems"(3-8)
  show ?case
  proof (cases "queue m")
    case Nil
    then have "IterMerge_loop create readers fs ?il ret m = Inr (ret, m)" by (subst IterMerge_loop.simps) simp
    then show ?thesis using inv ret Nil by blast
  next
    case (Cons it Q)
    let ?e = "item_entry it" and ?sz = "current_sst_size m + of_nat (length (item_entry it))"
    have pp: "popped ess (remaining ess (index_block_ptr m) (queue m)) segs seg"
      and sz: "current_sst_size m = of_nat (total_size seg)" using inv by (simp_all add: merge_inv_def)
    have "?e \<in># remaining ess (index_block_ptr m) (queue m)" by (simp add: remaining_def Cons)
    moreover have "mset (concat segs @ seg) + remaining ess (index_block_ptr m) (queue m) = mset (concat ess)"
      using pp by (simp add: popped_def)
    ultimately have "?e \<in># mset (concat ess)" by (metis union_iff)
    then have "?e \<in> set (concat ess)" by (simp only: set_mset_mset)
    then have e: "length ?e < sst_limit" using c(6) by blast
    have "total_size seg < sst_limit" using pp by (simp add: popped_def)
    note lim = limit_test [OF this e]
    show ?thesis
    proof (cases "sst_limit \<le> total_size seg + length ?e")
      case True
      then have "seg \<noteq> []" using e by auto
      from write_inv [OF inv this c(1-3)]
      obtain st name m1 where w: "write_output create m = Inr (st, name, m1)" "StatusNoError st"
        "merge_inv create s0 io fs ess (segs @ [seg]) [] (m1\<lparr>new_files := new_files m1 @ [name],
          pool := ReleaseIdleSpace (pool m1), output_buffer := [], current_sst_size := 0\<rparr>)" by blast
      have full: "of_nat sst_limit \<le>s ?sz" using lim True sz by simp
      have "\<exists>st' segs' seg' m'. IterMerge_loop create readers fs ?il st (m1\<lparr>new_files := new_files m1 @ [name],
          pool := ReleaseIdleSpace (pool m1), output_buffer := [], current_sst_size := 0\<rparr>) = Inr (st', m') \<and>
          StatusNoError st' \<and> queue m' = [] \<and> merge_inv create s0 io fs ess segs' seg' m'"
        using "1.hyps"(1) [OF Cons refl full w(1) refl refl _ w(3) _ c] w(2) by simp
      then show ?thesis
        using w(1,2) full Cons by (subst IterMerge_loop.simps) simp
    next
      case False
      then have full: "\<not> of_nat sst_limit \<le>s ?sz" using lim sz by simp
      obtain m1 st m2 where t: "take_entry (m\<lparr>current_sst_size := ?sz\<rparr>) it = Inr m1"
        "refill readers fs ?il ret it m1 = Inr (st, m2)" "StatusNoError st"
        "merge_inv create s0 io fs ess segs (seg @ [?e]) m2"
        using take_inv [OF inv Cons _ c(2,4,5) refl ret] False by (auto simp: not_le)
      have "\<exists>st' segs' seg' m'. IterMerge_loop create readers fs ?il st m2 = Inr (st', m') \<and>
          StatusNoError st' \<and> queue m' = [] \<and> merge_inv create s0 io fs ess segs' seg' m'"
        using "1.hyps"(2) [OF Cons refl full t(1,2) refl _ t(4) _ c] t(3) by simp
      then show ?thesis
        using t(1-3) full Cons by (subst IterMerge_loop.simps) simp
    qed
  qed
qed

section \<open>The whole merge\<close>

lemma mset_concat_entries: "list_all2 (source s) fs ess \<Longrightarrow> \<forall>e\<in>set (concat ess). ordered_entry e"
  by (induction rule: list_all2_induct) (auto simp: source_def)

definition mergeable :: "(bytes list \<Rightarrow> bytes res) \<Rightarrow> os \<Rightarrow> TCIO \<Rightarrow> string list \<Rightarrow> bytes list list \<Rightarrow> bool" where
  "mergeable create s io fs ess \<longleftrightarrow> list_all2 (source s) fs ess \<and> 0 < reader_pool io \<and> quiet s \<and> filter_fits create \<and>
     length (concat ess) < 2 ^ 64 \<and> Suc (sum_list (map (length \<circ> blocks) ess)) < 2 ^ 31 \<and>
     names_free io 0 (length (concat ess)) s"

lemma MultiwayMerge_start:
  assumes "mergeable create s io fs ess"
  shows "\<exists>q ma counts. merge_init (reader_pool io) s MergeAllocator_new fs 0 [] [] [] =
      Inr (NoError, q, ma, counts, map index_of ess, s) \<and>
    merge_inv create s io fs ess [] [] \<lparr>queue = q, pool = ma, file_entry_in_queue = counts,
      index_block_ptr = replicate (length (map index_of ess)) 1, output_buffer = [], current_sst_size = 0,
      new_files = [], merge_io = io, merge_os = s\<rparr>"
proof -
  have src: "list_all2 (source s) fs ess" and rd: "0 < reader_pool io" and q: "quiet s"
    and nf: "names_free io 0 (length (concat ess)) s"
    using assms by (simp_all add: mergeable_def)
  have 0: "reading [] (replicate 0 1) [] []" "remaining [] (replicate 0 1) [] = mset (concat [])"
    by (simp_all add: reading_def queue_ok_def remaining_def)
  have p: "pool_ok MergeAllocator_new (mset [])" "length (block_ptr MergeAllocator_new) = Suc 0"
    using pool_ok_new by (simp_all add: MergeAllocator_new_def MemAllocator_new_def AllocateFullBlock_def Unref_def)
  from merge_init_ok [OF src rd 0(1) _ p 0(2)]
  obtain q' ma counts where i: "merge_init (reader_pool io) s MergeAllocator_new fs 0 [] [] [] =
      Inr (NoError, q', ma, counts, map index_of ess, s)"
    "reading ess (replicate (length ess) 1) counts q'" "pool_ok ma (mset q')"
    "length (block_ptr ma) = Suc (length ess)" "remaining ess (replicate (length ess) 1) q' = mset (concat ess)"
    by auto
  then show ?thesis
    using src q nf by (intro exI [of _ q'] exI [of _ ma] exI [of _ counts])
      (simp add: merge_inv_def written_def popped_def sum_list_replicate kApproximateSSTFileSize_def)
qed

lemma MultiwayMerge_ok:
  assumes "mergeable create s io fs ess" "\<forall>e\<in>set (concat ess). length e < sst_limit"
  shows "\<exists>st segs s'. MultiwayMerge create s io fs = Inr (st, map (out_name io) [0..<length segs],
      io\<lparr>file_id := file_id io + of_nat (length segs)\<rparr>, s') \<and> StatusNoError st \<and>
    popped ess {#} segs [] \<and> quiet s' \<and>
    (\<forall>j<length segs. on_disk create s' io (out_name io j) (compact (segs ! j))) \<and>
    (\<forall>g. (\<forall>j<length segs. sst_path io (out_name io j) \<noteq> Inr g) \<longrightarrow> files s' g = files s g)"
proof -
  have src: "list_all2 (source s) fs ess" and h: "0 < reader_pool io" "filter_fits create" "length (concat ess) < 2 ^ 64"
    "Suc (sum_list (map (length \<circ> blocks) ess)) < 2 ^ 31"
    using assms(1) by (simp_all only: mergeable_def)
  note ord = mset_concat_entries [OF src]
  obtain q ma counts where i: "merge_init (reader_pool io) s MergeAllocator_new fs 0 [] [] [] =
      Inr (NoError, q, ma, counts, map index_of ess, s)"
    "merge_inv create s io fs ess [] [] \<lparr>queue = q, pool = ma, file_entry_in_queue = counts,
      index_block_ptr = replicate (length (map index_of ess)) 1, output_buffer = [], current_sst_size = 0,
      new_files = [], merge_io = io, merge_os = s\<rparr>" (is "merge_inv _ _ _ _ _ _ _ ?m")
    using MultiwayMerge_start [OF assms(1)] by blast
  obtain st segs seg m' where l: "IterMerge_loop create (reader_pool io) fs (map index_of ess) NoError ?m = Inr (st, m')"
    "StatusNoError st" "queue m' = []" "merge_inv create s io fs ess segs seg m'"
    using IterMerge_loop_ok [OF h(2) ord h(3,1,4) assms(2) i(2)] StatusNoError_simps(1) by blast
  have "reading ess (index_block_ptr m') (file_entry_in_queue m') []" using l(3,4) by (simp add: merge_inv_def)
  from reading_done [OF this] have R: "remaining ess (index_block_ptr m') (queue m') = {#}" unfolding l(3) .
  have pp: "popped ess {#} segs seg" using l(4) unfolding merge_inv_def R by blast
  have es: "map item_entry (output_buffer m') = compact seg" using l(4) by (simp add: merge_inv_def)
  have mm: "MultiwayMerge create s io fs = rmap (\<lambda>(st, m). (st, new_files m, merge_io m, merge_os m))
      (IterMerge create (reader_pool io) fs (map index_of ess) ?m)"
    by (simp add: MultiwayMerge_def i(1))
  have done': ?thesis if r: "IterMerge create (reader_pool io) fs (map index_of ess) ?m = Inr (st', m2)" "StatusNoError st'"
    "popped ess {#} segs' []" "written create s io (length (concat ess)) segs' m2" for st' m2 segs'
    using r unfolding mm by (intro exI [of _ st'] exI [of _ segs'] exI [of _ "merge_os m2"]) (simp add: written_def)
  show ?thesis
  proof (cases "seg = []")
    case True
    then have "output_buffer m' = []" using es by simp
    then have "IterMerge create (reader_pool io) fs (map index_of ess) ?m = Inr (st, m')"
      unfolding IterMerge_def l(1) by simp
    then show ?thesis using done' [OF _ l(2)] pp True l(4) by (simp add: merge_inv_def)
  next
    case False
    then have "output_buffer m' \<noteq> []" using es compact_nonempty by (metis list.simps(8))
    moreover obtain st' name m1 where w: "write_output create m' = Inr (st', name, m1)" "StatusNoError st'"
      "written create s io (length (concat ess)) (segs @ [seg]) (m1\<lparr>new_files := new_files m1 @ [name]\<rparr>)"
      using write_inv [OF l(4) False h(2) ord h(3)] by blast
    ultimately have "IterMerge create (reader_pool io) fs (map index_of ess) ?m =
        Inr (st', m1\<lparr>new_files := new_files m1 @ [name]\<rparr>)"
      unfolding IterMerge_def l(1) using l(2) by simp
    then show ?thesis using done' [OF _ w(2) popped_flush [OF pp False] w(3)] by blast
  qed
qed

lemma entries_size: "\<forall>e\<in>set es. ordered_entry e \<Longrightarrow> length (blocks es) \<le> length es \<and> length es \<le> total_size es"
proof
  assume o: "\<forall>e\<in>set es. ordered_entry e"
  have "\<forall>b\<in>set (blocks es). b \<noteq> []" using blocks_nonempty [of _ es] by (auto simp: in_set_conv_nth)
  from length_concat_ge [OF this] show "length (blocks es) \<le> length es" by (simp add: concat_blocks)
  have "\<forall>e\<in>set es. e \<noteq> []" using o by (metis entry_bytes_nonempty ordered_entryE)
  from length_concat_ge [OF this] show "length es \<le> total_size es" by (simp add: total_size_def)
qed

lemma filter_fits_bloom:
  assumes "\<And>n. 0 < filter_bytes n \<and> filter_bytes n < 2 ^ 31" "hash_k \<le> length seeds"
  shows "filter_fits (\<lambda>es. CreateFilter filter_bytes hash_k seeds es [])"
  unfolding filter_fits_def
proof (intro allI impI)
  fix es :: "bytes list"
  assume es: "es \<noteq> []" "\<forall>e\<in>set es. ordered_entry e" "total_size es < sst_limit"
  have "\<forall>e\<in>set es. is_entry e" using es(2) ordered_is_entry by blast
  then obtain flex where f: "CreateFilter filter_bytes hash_k seeds es [] = Inr flex" "length flex = filter_bytes (length es)"
    using filter_built [where filter_bytes = filter_bytes, OF _ _ assms(2)] assms(1) by blast
  have "length flex < 2 ^ 31" using f(2) assms(1) by simp
  moreover have "length (blocks es) < sst_limit" using entries_size [OF es(2)] es(3) by simp
  ultimately have "SST_fits es flex" using es(3) by (simp add: SST_fits_def kApproximateSSTFileSize_def)
  with f(1) show "\<exists>flex. CreateFilter filter_bytes hash_k seeds es [] = Inr flex \<and> SST_fits es flex" by blast
qed

text \<open>Two files to merge, for the witnesses.\<close>

abbreviation small_filter :: "bytes list \<Rightarrow> bytes res" where
  "small_filter \<equiv> \<lambda>es. CreateFilter (\<lambda>_. 8) 6 default_seeds es []"

lemma example_mergeable:
  assumes "length fs = length ess" "distinct fs" "\<forall>f\<in>set fs. length f = 1" "length ess < 100"
    and "\<forall>es\<in>set ess. es \<noteq> [] \<and> sorted_wrt le_entry es \<and> (\<forall>e\<in>set es. ordered_entry e) \<and> total_size es < 2 ^ 23"
  shows "\<exists>s. mergeable small_filter s \<lparr>kDatabaseDir = ''db'', file_id = 5, reader_pool = 4\<rparr> fs ess"
proof -
  define fx where "fx es = (case small_filter es of Inr x \<Rightarrow> x | Inl _ \<Rightarrow> [])" for es
  let ?s = "\<lparr>files = map_of (zip fs (map (\<lambda>es. sst_image es (fx es)) ess)), open_results = [], write_results = [],
    read_results = []\<rparr>"
  let ?io = "\<lparr>kDatabaseDir = ''db'', file_id = 5, reader_pool = 4\<rparr> :: TCIO"
  have sz: "length (blocks es) < 2 ^ 23" "length es < 2 ^ 23" "SST_fits es (fx es)" if es: "es \<in> set ess" for es
  proof -
    have o: "\<forall>e\<in>set es. ordered_entry e" "total_size es < 2 ^ 23" using assms(5) es by blast+
    show l: "length (blocks es) < 2 ^ 23" "length es < 2 ^ 23" using entries_size [OF o(1)] o(2) by simp_all
    have "\<forall>e\<in>set es. is_entry e" using o(1) ordered_is_entry by blast
    then obtain flex where "small_filter es = Inr flex" "length flex = 8"
      using filter_built [of es "\<lambda>_. 8" 6 default_seeds] by (auto simp: default_seeds_def)
    then show "SST_fits es (fx es)" using l o(2) by (simp add: fx_def SST_fits_def)
  qed
  have "source ?s (fs ! i) (ess ! i)" if i: "i < length ess" for i
  proof -
    have "ess ! i \<in> set ess" using i by simp
    moreover have "map_of (zip fs (map (\<lambda>es. sst_image es (fx es)) ess)) (fs ! i) = Some (sst_image (ess ! i) (fx (ess ! i)))"
      using map_of_zip_nth [of fs "map (\<lambda>es. sst_image es (fx es)) ess" i] assms(1,2) i by simp
    ultimately show ?thesis using assms(5) sz(3) [of "ess ! i"]
      by (fastforce simp: source_def sst_at_def quiet_def)
  qed
  then have src: "list_all2 (source ?s) fs ess" using assms(1) by (simp add: list_all2_conv_all_nth)
  have bound: "sum_list (map f ess) \<le> length ess * 2 ^ 23" if "\<And>es. es \<in> set ess \<Longrightarrow> f es < 2 ^ 23" for f :: "bytes list \<Rightarrow> nat"
    using that by (induction ess) (simp, fastforce)
  have "length (concat ess) \<le> length ess * 2 ^ 23"
    unfolding length_concat using bound [of length] sz(2) by simp
  then have "length (concat ess) < 2 ^ 64" "Suc (sum_list (map (length \<circ> blocks) ess)) < 2 ^ 31"
    using bound [of "length \<circ> blocks"] sz(1) assms(4) by simp_all
  moreover have "names_free ?io 0 n ?s" for n
  proof -
    have "sst_path ?io b = Inr (''db/'' @ b @ ''.tdb'')" for b by (simp add: sst_path_def PathJoin_def)
    moreover have "map_of (zip fs xs) (''db/'' @ b @ ''.tdb'') = None" for b and xs :: "bytes list"
      using assms(3) by (force simp: map_of_eq_None_iff dest: set_zip_leftD)
    ultimately show ?thesis by (simp add: names_free_def)
  qed
  moreover have "filter_fits small_filter" by (rule filter_fits_bloom) (simp_all add: default_seeds_def)
  ultimately show ?thesis using src by (intro exI [of _ ?s]) (simp add: mergeable_def quiet_def)
qed

lemma compact_concat:
  "sorted_wrt le_entry (concat segs) \<Longrightarrow>
    sorted_wrt le_entry (concat (map compact segs)) \<and> set (concat (map compact segs)) \<subseteq> set (concat segs)"
proof (induction segs)
  case (Cons sg segs)
  have s: "sorted_wrt le_entry sg" "sorted_wrt le_entry (concat segs)"
    "\<forall>x\<in>set sg. \<forall>y\<in>set (concat segs). le_entry x y"
    using Cons.prems by (simp_all add: sorted_wrt_append)
  have "sorted_wrt key_strict (compact sg)" using compact_newest [OF s(1)] by blast
  then have c: "sorted_wrt le_entry (compact sg)"
    by (rule sorted_wrt_mono_rel [rotated]) (simp add: key_strict_def)
  note IH = Cons.IH [OF s(2)]
  have "\<forall>x\<in>set (compact sg). \<forall>y\<in>set (concat (map compact segs)). le_entry x y"
    using s(3) compact_subset [of sg] IH by blast
  then show ?case using c IH compact_subset [of sg] by (auto simp: sorted_wrt_append)
qed simp

lemma two_segments:
  assumes "popped [[e1], [e2]] {#} segs []" "\<not> le_entry e2 e1" "sst_limit \<le> length e1 + length e2"
  shows "segs = [[e1], [e2]]"
proof -
  have m: "mset (concat segs) = {#e1, e2#}" and s: "sorted_wrt le_entry (concat segs)"
    and ne: "\<forall>s\<in>set segs. s \<noteq> [] \<and> total_size s < sst_limit"
    using assms(1) by (simp_all add: popped_def)
  have "length (concat segs) = 2" using arg_cong [OF m, of size] by simp
  then obtain a b where ab: "concat segs = [a, b]" by (auto simp: length_Suc_conv numeral_2_eq_2)
  then have "a = e1 \<and> b = e2 \<or> a = e2 \<and> b = e1" using m by (auto simp: add_eq_conv_ex)
  then have c: "concat segs = [e1, e2]" using ab s assms(2) by auto
  then obtain s1 rest where segs: "segs = s1 # rest" by (cases segs) auto
  have "s1 \<noteq> []" "s1 \<noteq> [e1, e2]" using ne assms(3) segs by auto
  then have s1: "s1 = [e1]" using c segs by (auto simp: append_eq_Cons_conv)
  then have "concat rest = [e2]" using c segs by simp
  then obtain s2 rest' where rest: "rest = s2 # rest'" by (cases rest) auto
  have "s2 \<noteq> []" using ne segs rest by simp
  then have "s2 = [e2]" "concat rest' = []" using \<open>concat rest = [e2]\<close> rest by (auto simp: append_eq_Cons_conv)
  moreover have "rest' = []" using \<open>concat rest' = []\<close> ne segs rest by (cases rest') auto
  ultimately show ?thesis using segs rest s1 by simp
qed

text \<open>Writing a file of no entries reaches \<open>front()\<close> of an empty vector.\<close>

lemma write_empty_faults:
  assumes "create [] = Inr flex" "quiet s"
  shows "WriteSSTFile_filter create s f [] = Inl OobRead"
proof -
  obtain d s0 where d: "DBFile_new s f kAppend = (d, s0)" by fastforce
  note d0 = DBFile_new_append [OF d]
  let ?w0 = "Writer_new d kDefaultWriterBufferSize"
  have o0: "open_results s0 = []" using d0(5) assms(2) by (simp add: quiet_def)
  have 1: "WriteSSTData s0 ?w0 [] = Inr (NoError, [], 0, ?w0, s0)"
    by (simp add: WriteSSTData_def data_loop.simps)
  have w0: "dbfile ?w0 = Some d" "0 < kMaxBufferSize ?w0" "buffer ?w0 = []"
    by (simp_all add: Writer_new_def kDefaultWriterBufferSize_def)
  obtain st2 w2 s2 where 2: "WriteSSTIndex s0 ?w0 [] = Inr (st2, w2, s2)"
    "transfers (file_name d) s0 ?w0 st2 s2 w2 (index_bytes [])" "StatusNoError st2 \<longrightarrow> buffer w2 = []"
    using WriteFragment_transfers [OF w0] unfolding WriteSSTIndex_def by blast
  have ok2: "StatusNoError st2" "open_results s2 = []" using 2(2) o0 by (simp_all add: transfers_def)
  have w2: "dbfile w2 = Some d" "0 < kMaxBufferSize w2" "buffer w2 = []"
    using transfers_buffer [OF 2(2) w0(1)] w0(2) 2(3) ok2 by simp_all
  obtain st3 w3 s3 where 3: "WriteSSTFlexible s2 w2 flex = Inr (st3, w3, s3)"
    "transfers (file_name d) s2 w2 st3 s3 w3 flex"
    using WriteFragment_transfers [OF w2] unfolding WriteSSTFlexible_def by blast
  have "StatusNoError st3" using 3(2) ok2(2) by (simp add: transfers_def)
  then show ?thesis using d 1 2(1) ok2(1) 3(1) assms(1) by (simp add: WriteSSTFile_filter_def)
qed

section \<open>Properties\<close>

lemma total_size_mset: "mset xs = mset ys \<Longrightarrow> total_size xs = total_size ys"
  by (metis length_concat mset_map sum_mset_sum_list total_size_def)

lemma total_size_compact: "total_size (concat (map compact segs)) \<le> total_size (concat segs)"
proof (induction segs)
  case (Cons a segs)
  then show ?case using compact_size [of a] by simp
qed simp

text \<open>Everything the merge guarantees of its outputs.\<close>

lemma mset_compact: "mset (compact xs) \<subseteq># mset xs"
proof (induction xs rule: rev_induct)
  case (snoc e xs)
  have "mset (butlast out) \<subseteq># mset out" for out :: "bytes list"
    by (cases out rule: rev_cases) simp_all
  then have "mset (compact_step out e) \<subseteq># mset out + {#e#}" for out
    unfolding compact_step_def by (simp del: add_mset_add_single add: add_mset_add_single [symmetric])
  moreover have "mset (compact xs) + {#e#} \<subseteq># mset xs + {#e#}" using snoc by simp
  ultimately have "mset (compact_step (compact xs) e) \<subseteq># mset xs + {#e#}" by (rule subset_mset.order_trans)
  then show ?case by simp
qed simp

lemma mset_compact_all: "mset (concat (map compact segs)) \<subseteq># mset (concat segs)"
  by (induction segs) (simp_all add: subset_mset.add_mono mset_compact)

lemma MultiwayMerge_outputs:
  assumes "mergeable create s io fs ess" "\<forall>e\<in>set (concat ess). length e < sst_limit"
  shows "\<exists>st outs s'. MultiwayMerge create s io fs = Inr (st, map (out_name io) [0..<length outs],
      io\<lparr>file_id := file_id io + of_nat (length outs)\<rparr>, s') \<and> StatusNoError st \<and> quiet s' \<and>
    (\<forall>j<length outs. on_disk create s' io (out_name io j) (outs ! j) \<and>
      distinct (map (\<lambda>e. fst (ent_of e)) (outs ! j)) \<and> outs ! j \<noteq> [] \<and> total_size (outs ! j) < sst_limit) \<and>
    length outs \<le> length (concat ess) \<and> total_size (concat outs) \<le> total_size (concat ess) \<and>
    mset (concat outs) \<subseteq># mset (concat ess) \<and> sorted_wrt le_entry (concat outs) \<and> set (concat outs) \<subseteq> set (concat ess) \<and>
    (\<forall>e\<in>set (concat ess). \<exists>x\<in>set (concat outs). same_key x e \<and> le_entry e x) \<and>
    (\<forall>g. (\<forall>j<length outs. sst_path io (out_name io j) \<noteq> Inr g) \<longrightarrow> files s' g = files s g)"
proof -
  obtain st segs s' where m: "MultiwayMerge create s io fs = Inr (st, map (out_name io) [0..<length segs],
      io\<lparr>file_id := file_id io + of_nat (length segs)\<rparr>, s')" "StatusNoError st" "popped ess {#} segs []"
    "\<forall>j<length segs. on_disk create s' io (out_name io j) (compact (segs ! j))"
    "\<forall>g. (\<forall>j<length segs. sst_path io (out_name io j) \<noteq> Inr g) \<longrightarrow> files s' g = files s g" "quiet s'"
    using MultiwayMerge_ok [OF assms] by blast
  have "list_all2 (source s) fs ess" using assms(1) by (simp add: mergeable_def)
  note ord = mset_concat_entries [OF this]
  have ms: "mset (concat segs) = mset (concat ess)" and sorted: "sorted_wrt le_entry (concat segs)"
    and size: "\<forall>sg\<in>set segs. sg \<noteq> [] \<and> total_size sg < sst_limit"
    using m(3) by (simp_all add: popped_def)
  have set: "set (concat segs) = set (concat ess)" using arg_cong [OF ms, of set_mset] by (simp only: set_mset_mset)
  let ?outs = "map compact segs"
  have s1: "sorted_wrt le_entry sg \<and> (\<forall>e\<in>set sg. ordered_entry e)" if sg: "sg \<in> set segs" for sg
  proof -
    obtain j where j: "j < length segs" "sg = segs ! j" using sg by (auto simp: in_set_conv_nth)
    have "set sg \<subseteq> set (concat segs)" using sg by auto
    then show ?thesis using sorted_wrt_concat(1) [OF sorted j(1)] j(2) ord set by blast
  qed
  have files: "distinct (map (\<lambda>e. fst (ent_of e)) (compact sg)) \<and> compact sg \<noteq> [] \<and> total_size (compact sg) < sst_limit"
    if "sg \<in> set segs" for sg
    using compact_file(2) s1 [OF that] size that compact_nonempty [of sg] le_less_trans [OF compact_size [of sg]] by auto
  have "length segs \<le> length (concat segs)" using length_concat_ge size by blast
  then have count: "length ?outs \<le> length (concat ess)" using arg_cong [OF ms, of size] by (simp only: size_mset length_map)
  have bytes: "total_size (concat ?outs) \<le> total_size (concat ess)"
    using total_size_compact [of segs] total_size_mset [OF ms] by simp
  have "mset (concat ?outs) \<subseteq># mset (concat ess)" unfolding ms [symmetric] by (rule mset_compact_all)
  moreover have "sorted_wrt le_entry (concat ?outs)" "set (concat ?outs) \<subseteq> set (concat ess)"
    unfolding set [symmetric] using compact_concat [OF sorted] by blast+
  moreover have "\<exists>x\<in>set (concat ?outs). same_key x e \<and> le_entry e x" if e: "e \<in> set (concat ess)" for e
  proof -
    obtain sg where sg: "sg \<in> set segs" "e \<in> set sg" using e set by auto
    then obtain x where "x \<in> set (compact sg)" "same_key x e" "le_entry e x"
      using compact_newest s1 by blast
    then show ?thesis using sg(1) by auto
  qed
  ultimately show ?thesis
    using m(1,2,4,5,6) files count bytes by (intro exI [of _ st] exI [of _ ?outs] exI [of _ s']) simp
qed

text \<open>C2. The merge of sorted data files writes, under the next file names, data files that are
  sorted, each and one after the other, hold no key twice in one file, contain only entries of
  the inputs, and keep the newest entry of every key; every other file is left alone. No fault
  occurs: in particular no entry is read from a released block of the memory pool. The entries
  are smaller than \<open>kApproximateSSTFileSize\<close> each.\<close>

theorem MultiwayMerge_correct:
  assumes "mergeable create s io fs ess" "\<forall>e\<in>set (concat ess). length e < kApproximateSSTFileSize"
  shows "\<exists>st outs s'. MultiwayMerge create s io fs = Inr (st, map (out_name io) [0..<length outs],
      io\<lparr>file_id := file_id io + of_nat (length outs)\<rparr>, s') \<and> StatusNoError st \<and>
    (\<forall>j<length outs. on_disk create s' io (out_name io j) (outs ! j) \<and>
      distinct (map (\<lambda>e. fst (ent_of e)) (outs ! j))) \<and>
    sorted_wrt le_entry (concat outs) \<and> set (concat outs) \<subseteq> set (concat ess) \<and>
    (\<forall>e\<in>set (concat ess). \<exists>x\<in>set (concat outs). same_key x e \<and> le_entry e x) \<and>
    (\<forall>g. (\<forall>j<length (concat ess). sst_path io (out_name io j) \<noteq> Inr g) \<longrightarrow> files s' g = files s g)"
proof -
  obtain st outs s' where m: "MultiwayMerge create s io fs = Inr (st, map (out_name io) [0..<length outs],
      io\<lparr>file_id := file_id io + of_nat (length outs)\<rparr>, s')" "StatusNoError st"
    "\<forall>j<length outs. on_disk create s' io (out_name io j) (outs ! j) \<and> distinct (map (\<lambda>e. fst (ent_of e)) (outs ! j))"
    "sorted_wrt le_entry (concat outs)" "set (concat outs) \<subseteq> set (concat ess)"
    "\<forall>e\<in>set (concat ess). \<exists>x\<in>set (concat outs). same_key x e \<and> le_entry e x"
    "\<forall>g. (\<forall>j<length outs. sst_path io (out_name io j) \<noteq> Inr g) \<longrightarrow> files s' g = files s g" "length outs \<le> length (concat ess)"
    using MultiwayMerge_outputs [OF assms] by blast
  then have "\<forall>g. (\<forall>j<length (concat ess). sst_path io (out_name io j) \<noteq> Inr g) \<longrightarrow> files s' g = files s g"
    by (meson less_le_trans)
  with m show ?thesis by (intro exI [of _ st] exI [of _ outs] exI [of _ s'] conjI)
qed

theorem MultiwayMerge_correct_witness:
  "\<exists>s st outs s'. MultiwayMerge small_filter s \<lparr>kDatabaseDir = ''db'', file_id = 5, reader_pool = 4\<rparr> [''x'', ''y''] =
      Inr (st, map (out_name \<lparr>kDatabaseDir = ''db'', file_id = 5, reader_pool = 4\<rparr>) [0..<length outs],
        \<lparr>kDatabaseDir = ''db'', file_id = 5 + of_nat (length outs), reader_pool = 4\<rparr>, s') \<and>
    set (concat outs) \<subseteq> {entry_bytes [107] [1] 0 kInsert, entry_bytes [107] [2] 1 kInsert} \<and>
    entry_bytes [107] [2] 1 kInsert \<in> set (concat outs)"
proof -
  let ?e1 = "entry_bytes [107] [1] 0 kInsert" and ?e2 = "entry_bytes [107] [2] 1 kInsert"
  let ?io = "\<lparr>kDatabaseDir = ''db'', file_id = 5, reader_pool = 4\<rparr> :: TCIO"
  have l: "length ?e1 < 100" "length ?e2 < 100"
    by (simp_all add: length_entry_bytes SizeOfVarint_def SizeOfVarint_shift.simps)
  obtain s where s: "mergeable small_filter s ?io [''x'', ''y''] [[?e1], [?e2]]"
    using example_mergeable [of "[''x'', ''y'']" "[[?e1], [?e2]]"] tiny_entries l by auto
  have "\<forall>e\<in>set (concat [[?e1], [?e2]]). length e < kApproximateSSTFileSize"
    using l by (simp add: kApproximateSSTFileSize_def)
  from MultiwayMerge_correct [OF s this]
  obtain st outs s' where m: "MultiwayMerge small_filter s ?io [''x'', ''y''] =
      Inr (st, map (out_name ?io) [0..<length outs], ?io\<lparr>file_id := file_id ?io + of_nat (length outs)\<rparr>, s')"
    "set (concat outs) \<subseteq> set (concat [[?e1], [?e2]])"
    "\<forall>e\<in>set (concat [[?e1], [?e2]]). \<exists>x\<in>set (concat outs). same_key x e \<and> le_entry e x" by blast
  then obtain x where "x \<in> set (concat outs)" "le_entry ?e2 x" by auto
  moreover have "\<not> le_entry ?e2 ?e1" using tiny_entries by (simp add: ent_le_def)
  ultimately have "?e2 \<in> set (concat outs)" using m(2) by auto
  then show ?thesis using m(1,2) by (intro exI [of _ s] exI [of _ st] exI [of _ outs] exI [of _ s']) simp
qed

text \<open>C30. The outputs of a merge are bounded: every file holds something and stays below
  \<open>kApproximateSSTFileSize\<close> bytes of entries, there are at most as many files as entries in the
  inputs, and together they are no larger than the inputs.\<close>

theorem merge_outputs_bounded:
  assumes "mergeable create s io fs ess" "\<forall>e\<in>set (concat ess). length e < kApproximateSSTFileSize"
  shows "\<exists>st outs io' s'. MultiwayMerge create s io fs = Inr (st, map (out_name io) [0..<length outs], io', s') \<and>
    (\<forall>j<length outs. on_disk create s' io (out_name io j) (outs ! j) \<and> outs ! j \<noteq> [] \<and>
      total_size (outs ! j) < kApproximateSSTFileSize) \<and>
    length outs \<le> length (concat ess) \<and> total_size (concat outs) \<le> total_size (concat ess) \<and>
    file_id io' = file_id io + of_nat (length outs)"
proof -
  obtain st outs s' where "MultiwayMerge create s io fs = Inr (st, map (out_name io) [0..<length outs],
      io\<lparr>file_id := file_id io + of_nat (length outs)\<rparr>, s')"
    "\<forall>j<length outs. on_disk create s' io (out_name io j) (outs ! j) \<and> outs ! j \<noteq> [] \<and>
      total_size (outs ! j) < kApproximateSSTFileSize"
    "length outs \<le> length (concat ess)" "total_size (concat outs) \<le> total_size (concat ess)"
    using MultiwayMerge_outputs [OF assms] by blast
  then show ?thesis by (intro exI [of _ st] exI [of _ outs] exI [of _ "io\<lparr>file_id := file_id io + of_nat (length outs)\<rparr>"]
        exI [of _ s']) simp
qed

theorem merge_outputs_bounded_witness:
  "\<exists>s st (outs :: bytes list list) io' s'. MultiwayMerge small_filter s \<lparr>kDatabaseDir = ''db'', file_id = 5, reader_pool = 4\<rparr> [''x'', ''y''] =
      Inr (st, map (out_name \<lparr>kDatabaseDir = ''db'', file_id = 5, reader_pool = 4\<rparr>) [0..<length outs], io', s') \<and>
    length outs \<le> 2"
proof -
  let ?e1 = "entry_bytes [107] [1] 0 kInsert" and ?e2 = "entry_bytes [107] [2] 1 kInsert"
  let ?io = "\<lparr>kDatabaseDir = ''db'', file_id = 5, reader_pool = 4\<rparr> :: TCIO"
  have l: "length ?e1 < 100" "length ?e2 < 100"
    by (simp_all add: length_entry_bytes SizeOfVarint_def SizeOfVarint_shift.simps)
  obtain s where s: "mergeable small_filter s ?io [''x'', ''y''] [[?e1], [?e2]]"
    using example_mergeable [of "[''x'', ''y'']" "[[?e1], [?e2]]"] tiny_entries l by auto
  have "\<forall>e\<in>set (concat [[?e1], [?e2]]). length e < kApproximateSSTFileSize"
    using l by (simp add: kApproximateSSTFileSize_def)
  from merge_outputs_bounded [OF s this]
  obtain st io' s' and outs :: "bytes list list" where "MultiwayMerge small_filter s ?io [''x'', ''y''] =
      Inr (st, map (out_name ?io) [0..<length outs], io', s')" "length outs \<le> length (concat [[?e1], [?e2]])"
    by blast
  then show ?thesis by (intro exI [of _ s] exI [of _ st] exI [of _ outs] exI [of _ io'] exI [of _ s']) simp
qed

text \<open>C40. The merge compares an entry only with the last one in the output buffer, and the buffer
  is empty after a file has been written: two versions of a key that straddle the size limit go
  to two files, the older one first. A lookup in the level stops at the first file whose range
  holds the key and returns the older version.\<close>

theorem merge_splits_versions:
  assumes "mergeable small_filter s io [f1, f2] [[e1], [e2]]"
    and "same_key e1 e2" "snd (ent_of e1) < snd (ent_of e2)" "ordered_entry q" "same_key e1 q"
    and "length e1 < kApproximateSSTFileSize" "length e2 < kApproximateSSTFileSize"
    and "kApproximateSSTFileSize \<le> length e1 + length e2"
    and "data_files man = [l0, [out_name io 0, out_name io 1]]"
  shows "\<exists>st io' s' a. MultiwayMerge small_filter s io [f1, f2] = Inr (st, [out_name io 0, out_name io 1], io', s') \<and>
    StatusNoError st \<and> SearchLevel (Filter_ContainsKey 6 default_seeds) io' s' qb q [] man 1 = Inr (NoError, e1, a, s')"
proof -
  have lt: "\<not> le_entry e2 e1" using assms(2,3) by (simp add: ent_le_def)
  have "\<forall>e\<in>set (concat [[e1], [e2]]). length e < sst_limit" using assms(6,7) by simp
  from MultiwayMerge_ok [OF assms(1) this]
  obtain st segs s' where m: "MultiwayMerge small_filter s io [f1, f2] = Inr (st, map (out_name io) [0..<length segs],
      io\<lparr>file_id := file_id io + of_nat (length segs)\<rparr>, s')" "StatusNoError st" "popped [[e1], [e2]] {#} segs []"
    "\<forall>j<length segs. on_disk small_filter s' io (out_name io j) (compact (segs ! j))" by blast
  note segs = two_segments [OF m(3) lt assms(8)]
  let ?io = "io\<lparr>file_id := file_id io + of_nat (length segs)\<rparr>"
  have "compact [e1] = [e1]" using compact_simps(2) [of "[]" e1] by (simp add: compact_step_def)
  then have "on_disk small_filter s' io (out_name io 0) [e1]" using m(4) segs by force
  then obtain p flex where d: "sst_path io (out_name io 0) = Inr p" "sst_at s' p [e1] flex"
    "small_filter [e1] = Inr flex" "sorted_file [e1]" by (auto simp: on_disk_def)
  have rd: "0 < reader_pool ?io" using assms(1) by (simp add: mergeable_def)
  have "\<exists>e\<in>set [e1]. same_key e q" using assms(5) by simp
  then obtain a where g: "GetFromSST (Filter_ContainsKey 6 default_seeds) (reader_pool ?io) s' qb q [] p
      (sst_footer [e1] flex) = Inr (NoError, e1, a, s')"
    using bloom.GetFromSST_finds(1) [OF d(2) rd d(4) assms(4) d(3) bloom_entry, of qb "[]"] block_hit_entry by fastforce
  have "in_range q e1 e1 = Inr True"
    using in_range_file(1) [OF d(4) _ assms(4)] assms(5) by simp
  then have "SearchLevel (Filter_ContainsKey 6 default_seeds) ?io s' qb q [] man 1 = Inr (NoError, e1, a, s')"
    using g d(1) ReadSSTFooter_keys_image [OF d(2) rd] by (simp add: SearchLevel_def assms(9))
  moreover have "map (out_name io) [0..<length segs] = [out_name io 0, out_name io 1]" by (simp add: segs)
  ultimately show ?thesis using m(1,2) by metis
qed

lemma large_entry:
  assumes "n \<le> 3000000" "128 ^ 2 \<le> n" "e = entry_bytes [107] (replicate n 0) i kInsert"
  shows "ordered_entry e" "ent_of e = ([107], i)" "n \<le> length e" "length e \<le> n + 40"
proof -
  have f: "fits [107 :: byte]" "fits (replicate n (0 :: byte))" using assms(1) by (simp_all add: fits_def)
  then show "ordered_entry e" "ent_of e = ([107], i)" by (auto simp: assms(3))
  show "n \<le> length e" "length e \<le> n + 40"
    using SizeOfVarint_bounds [of "of_nat n"] SizeOfVarint_bounds [of 1]
    by (simp_all add: assms(3) length_entry_bytes)
qed

theorem merge_splits_versions_witness:
  "\<exists>s st io' s' a e. MultiwayMerge small_filter s \<lparr>kDatabaseDir = ''db'', file_id = 5, reader_pool = 4\<rparr> [''x'', ''y''] =
      Inr (st, [hex16 5, hex16 6], io', s') \<and>
    SearchLevel (Filter_ContainsKey 6 default_seeds) io' s' QueryAllocator_new (entry_bytes [107] [] (- 1) kDelete) []
      \<lparr>path_to_manifest = ''m'', path_to_log = ''l'', data_files = [[], [hex16 5, hex16 6]]\<rparr> 1 = Inr (NoError, e, a, s') \<and>
    e = entry_bytes [107] (replicate 1100000 0) 1 kInsert"
proof -
  define e1 e2 where "e1 = entry_bytes [107] (replicate 1100000 0) 1 kInsert"
    and "e2 = entry_bytes [107] (replicate 1100000 0) 2 kInsert"
  note e = large_entry [OF _ _ e1_def, simplified] large_entry [OF _ _ e2_def, simplified]
  let ?io = "\<lparr>kDatabaseDir = ''db'', file_id = 5, reader_pool = 4\<rparr> :: TCIO"
  obtain s where s: "mergeable small_filter s ?io [''x'', ''y''] [[e1], [e2]]"
    using example_mergeable [of "[''x'', ''y'']" "[[e1], [e2]]"] e by auto
  have n: "out_name ?io 0 = hex16 5" "out_name ?io 1 = hex16 6" by (simp_all add: out_name_def)
  show ?thesis
    using merge_splits_versions [OF s _ _ tiny_entries(3), of
        "\<lparr>path_to_manifest = ''m'', path_to_log = ''l'', data_files = [[], [hex16 5, hex16 6]]\<rparr>" "[]" QueryAllocator_new]
      e tiny_entries(6) n by (simp add: kApproximateSSTFileSize_def flip: e1_def) blast
qed

text \<open>An entry of \<open>kApproximateSSTFileSize\<close> bytes or more cannot be merged: the loop first writes
  the still empty output buffer to a file, which takes \<open>front()\<close> of an empty vector.\<close>

theorem merge_oversized_entry_faults:
  assumes "mergeable create s io [f] [[e]]" "create [] = Inr flex"
    and "kApproximateSSTFileSize \<le> length e" "length e < 2 ^ 31"
  shows "MultiwayMerge create s io [f] = Inl OobRead"
proof -
  obtain q ma counts where i: "merge_init (reader_pool io) s MergeAllocator_new [f] 0 [] [] [] =
      Inr (NoError, q, ma, counts, map index_of [[e]], s)"
    "merge_inv create s io [f] [[e]] [] [] \<lparr>queue = q, pool = ma, file_entry_in_queue = counts,
      index_block_ptr = replicate (length (map index_of [[e]])) 1, output_buffer = [], current_sst_size = 0,
      new_files = [], merge_io = io, merge_os = s\<rparr>" (is "merge_inv _ _ _ _ _ _ _ ?m")
    using MultiwayMerge_start [OF assms(1)] by blast
  have pp: "remaining [[e]] (index_block_ptr ?m) (queue ?m) = {#e#}"
    using i(2) by (simp add: merge_inv_def popped_def)
  have r: "reading [[e]] (index_block_ptr ?m) (file_entry_in_queue ?m) (queue ?m)" using i(2) by (simp add: merge_inv_def)
  have "queue ?m \<noteq> []"
  proof
    assume "queue ?m = []"
    with r have "reading [[e]] (index_block_ptr ?m) (file_entry_in_queue ?m) []" by simp
    from reading_done [OF this] pp \<open>queue ?m = []\<close> show False by (simp only:) simp
  qed
  then obtain it Q where q: "q = it # Q" by (cases q) auto
  have "item_entry it \<in># {#e#}" unfolding pp [symmetric] by (simp add: remaining_def q)
  then have e: "item_entry it = e" by simp
  have "sint (of_nat (length e) :: u32) = int (length e)" "sint (of_nat sst_limit :: u32) = int sst_limit"
    using assms(4) by (intro sint_small; simp add: kApproximateSSTFileSize_def)+
  then have full: "of_nat sst_limit \<le>s (0 + of_nat (length (item_entry it)) :: u32)"
    using assms(3) unfolding word_sle_eq e by simp
  have "names_free io 0 1 s" "quiet s" using assms(1) by (simp_all add: mergeable_def)
  then obtain p where p: "sst_path io (out_name io 0) = Inr p" by (auto simp: names_free_def)
  then have "write_output create ?m = Inl OobRead"
    using write_empty_faults [where create = create, OF assms(2) \<open>quiet s\<close>]
    by (simp add: write_output_def touch_def WriteMergeSSTFile_filter_def WriteNewSSTFile_filter_def next_basename_def out_name_def)
  then have "IterMerge_loop create (reader_pool io) [f] (map index_of [[e]]) NoError ?m = Inl OobRead"
    using full by (subst IterMerge_loop.simps) (simp add: q)
  then have "IterMerge create (reader_pool io) [f] (map index_of [[e]]) ?m = Inl OobRead"
    unfolding IterMerge_def by simp
  moreover have "MultiwayMerge create s io [f] = rmap (\<lambda>(st, m). (st, new_files m, merge_io m, merge_os m))
      (IterMerge create (reader_pool io) [f] (map index_of [[e]]) ?m)"
    unfolding MultiwayMerge_def i(1) by simp
  ultimately show ?thesis by simp
qed

theorem merge_oversized_entry_faults_witness:
  "\<exists>s. MultiwayMerge small_filter s \<lparr>kDatabaseDir = ''db'', file_id = 5, reader_pool = 4\<rparr> [''x''] = Inl OobRead \<and>
    files s ''x'' \<noteq> None"
proof -
  define e where "e = entry_bytes [107] (replicate 2097152 0) 1 kInsert"
  note le = large_entry [OF _ _ e_def, simplified]
  let ?io = "\<lparr>kDatabaseDir = ''db'', file_id = 5, reader_pool = 4\<rparr> :: TCIO"
  obtain s where s: "mergeable small_filter s ?io [''x''] [[e]]"
    using example_mergeable [of "[''x'']" "[[e]]"] le by auto
  obtain flex where "small_filter [] = Inr flex" by (simp add: CreateFilter_def)
  from merge_oversized_entry_faults [OF s this] le
  have "MultiwayMerge small_filter s ?io [''x''] = Inl OobRead" by (simp add: kApproximateSSTFileSize_def)
  moreover have "files s ''x'' \<noteq> None" using s by (auto simp: mergeable_def source_def sst_at_def)
  ultimately show ?thesis by blast
qed

end
