(* ===== verification/Logger.thy ===== *)
theory Logger
  imports FileIO DatabaseIO
begin

text \<open>
  \<open>TCLogger\<close> (\<open>src/util/logger.cc\<close>): every level goes through \<open>Debug\<close>, which appends one formatted
  line to the log file. The logger is its \<open>SequentialWriter\<close>; \<open>async_log_\<close> is never set.
\<close>

datatype LogLevel = kDebug | kInfo | kWarn | kError | kFatal

fun FormatMsg :: "string \<Rightarrow> LogLevel \<Rightarrow> string" where
  "FormatMsg msg kDebug = ''[Debug] - '' @ msg @ [newline]"
| "FormatMsg msg kInfo = ''[Info] - '' @ msg @ [newline]"
| "FormatMsg msg kWarn = ''[Warn] - '' @ msg @ [newline]"
| "FormatMsg msg kError = ''[Error] - '' @ msg @ [newline]"
| "FormatMsg msg kFatal = ''[Fatal] - '' @ msg @ [newline]"

text \<open>The buffer size is the default of the \<open>SequentialWriter\<close>.\<close>

definition TCLogger_new :: "os \<Rightarrow> string \<Rightarrow> writer \<times> os" where
  "TCLogger_new s log_path = (let (d, s1) = DBFile_new s log_path kAppend in (Writer_new d 1024, s1))"

definition Log_Debug :: "os \<Rightarrow> writer \<Rightarrow> string \<Rightarrow> (Status \<times> writer \<times> os) res" where
  "Log_Debug s log_writer msg = WriteFragment s log_writer (str_bytes (FormatMsg msg kDebug))"

text \<open>\<open>TCIO::Log\<close>, and the other levels of the logger.\<close>

definition TCIO_Log :: "os \<Rightarrow> writer \<Rightarrow> string \<Rightarrow> (Status \<times> writer \<times> os) res" where
  "TCIO_Log s logger msg = Log_Debug s logger msg"

definition Log_Level :: "LogLevel \<Rightarrow> os \<Rightarrow> writer \<Rightarrow> string \<Rightarrow> (Status \<times> writer \<times> os) res" where
  "Log_Level level s log_writer msg = Log_Debug s log_writer msg"

lemma Log_writes:
  assumes "dbfile w = Some d" "0 < kMaxBufferSize w" "buffer w = []" "quiet s"
  shows "\<exists>st w' s'. TCIO_Log s w msg = Inr (st, w', s') \<and> StatusNoError st \<and> quiet s' \<and>
    dbfile w' = Some d \<and> kMaxBufferSize w' = kMaxBufferSize w \<and> buffer w' = [] \<and>
    content s' (file_name d) = content s (file_name d) @ str_bytes (FormatMsg msg kDebug) \<and>
    (\<forall>g. g \<noteq> file_name d \<longrightarrow> files s' g = files s g)"
proof -
  obtain st w' s' where f: "WriteFragment s w (str_bytes (FormatMsg msg kDebug)) = Inr (st, w', s')"
    "transfers (file_name d) s w st s' w' (str_bytes (FormatMsg msg kDebug))" "StatusNoError st \<longrightarrow> buffer w' = []"
    using WriteFragment_transfers [OF assms(1-3)] by blast
  then show ?thesis using assms by (auto simp: TCIO_Log_def Log_Debug_def transfers_def quiet_def)
qed

end
