(* ===== verification/Compaction.thy ===== *)
theory Compaction
  imports MergeCorrect Logger
begin

text \<open>
  Compaction: \<open>TCDB::CompactSST\<close> (both versions) and \<open>TCDB::BackgroundCompact\<close>
  (\<open>src/table/db.cc\<close>). They choose the files to merge by their boundary entries, merge them and
  replace them in the manifest. The log is an argument, since \<open>BackgroundCompact\<close> writes to it.
\<close>

section \<open>The limits of the levels\<close>

definition kDefaultLevelSize :: "nat list" where
  "kDefaultLevelSize = [4, 10, 100, 1000, 10000, 100000, 1000000, 10000000, 100000000, 1000000000,
     10000000000, 100000000000]"

section \<open>Choosing files\<close>

text \<open>The files of the current level, from subscript \<open>i\<close> on, that are not in \<open>skip\<close> and overlap the
  interval.\<close>

fun scan_current ::
    "os \<Rightarrow> TCIO \<Rightarrow> nat list \<Rightarrow> bytes \<Rightarrow> bytes \<Rightarrow> nat \<Rightarrow> string list \<Rightarrow> (Status \<times> nat list \<times> os) res" where
  "scan_current s io skip min_entry max_entry i [] = Inr (NoError, [], s)"
| "scan_current s io skip min_entry max_entry i (name # names) =
     (if i \<in> set skip then scan_current s io skip min_entry max_entry (i + 1) names
      else
        rbind (sst_path io name) (\<lambda>f.
        rbind (ReadSSTBoundary (reader_pool io) s f) (\<lambda>(st, (iter_min_entry, iter_max_entry), s1).
        if \<not> StatusNoError st then Inr (st, [], s1)
        else
          rbind (IEC_Greater iter_min_entry max_entry) (\<lambda>a.
          rbind (if a then Inr True else IEC_Greater min_entry iter_max_entry) (\<lambda>apart.
          rmap (\<lambda>(st, is, s2). (st, if apart then is else i # is, s2))
            (scan_current s1 io skip min_entry max_entry (i + 1) names))))))"

text \<open>The files of the next level, up to the first one above the interval, with the subscript
  where the new files go.\<close>

fun scan_next ::
    "os \<Rightarrow> TCIO \<Rightarrow> bytes \<Rightarrow> bytes \<Rightarrow> int \<Rightarrow> int \<Rightarrow> nat \<Rightarrow> string list \<Rightarrow> (Status \<times> nat list \<times> int \<times> os) res" where
  "scan_next s io min_entry max_entry file_num insert_from_index i [] = Inr (NoError, [], insert_from_index, s)"
| "scan_next s io min_entry max_entry file_num insert_from_index i (name # names) =
     rbind (sst_path io name) (\<lambda>f.
     rbind (ReadSSTBoundary (reader_pool io) s f) (\<lambda>(st, (iter_min_entry, iter_max_entry), s1).
     if \<not> StatusNoError st then Inr (st, [], insert_from_index, s1)
     else
       rbind (IEC_Greater min_entry iter_max_entry) (\<lambda>below.
       if below then scan_next s1 io min_entry max_entry file_num insert_from_index (i + 1) names
       else
         rbind (IEC_Greater iter_min_entry max_entry) (\<lambda>above.
         if above then Inr (st, [], if i = 0 then 0 else insert_from_index, s1)
         else
           rmap (\<lambda>(st, is, ins, s2). (st, i # is, ins, s2))
             (scan_next s1 io min_entry max_entry file_num
               (if insert_from_index = file_num then int i else insert_from_index) (i + 1) names)))))"

fun paths_of :: "TCIO \<Rightarrow> string list list \<Rightarrow> (nat \<times> nat) list \<Rightarrow> string list res" where
  "paths_of io levels [] = Inr []"
| "paths_of io levels ((l, i) # is) =
     rbind (rd levels l) (\<lambda>names. rbind (rd names i) (\<lambda>name.
     rbind (sst_path io name) (\<lambda>f. rmap ((#) f) (paths_of io levels is))))"

text \<open>What both versions do once the interval is known; \<open>chosen\<close> are the files to start from.\<close>

definition compact_range ::
    "(bytes list \<Rightarrow> bytes res) \<Rightarrow> os \<Rightarrow> TCIO \<Rightarrow> Manifest \<Rightarrow> nat \<Rightarrow> nat list \<Rightarrow> bytes \<Rightarrow> bytes \<Rightarrow>
      (Status \<times> Manifest \<times> TCIO \<times> os) res" where
  "compact_range create s io manifest current_level chosen min_entry max_entry =
     (let levels = data_files manifest in
      rbind (rd levels current_level) (\<lambda>files.
      rbind (if current_level = 0 then scan_current s io chosen min_entry max_entry 0 files
             else Inr (NoError, [], s)) (\<lambda>(st, more, s1).
      if \<not> StatusNoError st then Inr (st, manifest, io, s1)
      else
        rbind (if current_level + 1 < length levels
               then let file_num = int (length (levels ! (current_level + 1)))
                    in scan_next s1 io min_entry max_entry file_num file_num 0 (levels ! (current_level + 1))
               else Inr (NoError, [], 0, s1)) (\<lambda>(st, next, insert_from_index, s2).
        if \<not> StatusNoError st then Inr (st, manifest, io, s2)
        else
          let compact_file_index =
            map (Pair current_level) (chosen @ more) @ map (Pair (current_level + 1)) next
          in rbind (paths_of io levels compact_file_index) (\<lambda>compact_file_abs_path.
             rbind (MultiwayMerge create s2 io compact_file_abs_path) (\<lambda>(st, merged, io1, s3).
             if \<not> StatusNoError st then Inr (st, manifest, io1, s3)
             else
               rmap (\<lambda>(st, manifest', s4). (st, manifest', io1, s4))
                 (UpdateManifest s3 io1 manifest (map (\<lambda>(l, i). (int l, int i)) compact_file_index)
                    merged current_level insert_from_index)))))))"

definition CompactSST ::
    "(bytes list \<Rightarrow> bytes res) \<Rightarrow> os \<Rightarrow> TCIO \<Rightarrow> Manifest \<Rightarrow> nat \<Rightarrow> nat \<Rightarrow> (Status \<times> Manifest \<times> TCIO \<times> os) res" where
  "CompactSST create s io manifest current_level compact_file_num =
     rbind (rd (data_files manifest) current_level) (\<lambda>files. rbind (rd files compact_file_num) (\<lambda>name.
     rbind (sst_path io name) (\<lambda>f.
     rbind (ReadSSTFooter_keys (reader_pool io) s f) (\<lambda>(st, footer, min_entry, max_entry, s1).
     if \<not> StatusNoError st then Inr (st, manifest, io, s1)
     else compact_range create s1 io manifest current_level [compact_file_num] min_entry max_entry))))"

fun group_bounds :: "(bytes \<times> bytes) list \<Rightarrow> bytes \<Rightarrow> bytes \<Rightarrow> (bytes \<times> bytes) res" where
  "group_bounds [] min_entry max_entry = Inr (min_entry, max_entry)"
| "group_bounds ((a, b) # bs) min_entry max_entry =
     rbind (IEC_Less a min_entry) (\<lambda>l. rbind (IEC_Greater b max_entry) (\<lambda>g.
     group_bounds bs (if l then a else min_entry) (if g then b else max_entry)))"

definition CompactSST_group ::
    "(bytes list \<Rightarrow> bytes res) \<Rightarrow> os \<Rightarrow> TCIO \<Rightarrow> Manifest \<Rightarrow> nat \<Rightarrow> nat list \<Rightarrow>
      (Status \<times> Manifest \<times> TCIO \<times> os) res" where
  "CompactSST_group create s io manifest current_level compact_file_num =
     (if compact_file_num = [] then Inl AssertFail
      else
        rbind (paths_of io (data_files manifest) (map (Pair current_level) compact_file_num)) (\<lambda>fs.
        rbind (ReadSSTGroupBoundary (reader_pool io) s fs) (\<lambda>(st, bounds, s1).
        if \<not> StatusNoError st then Inr (st, manifest, io, s1)
        else
          rbind (rd bounds 0) (\<lambda>(a, b). rbind (group_bounds (tl bounds) a b) (\<lambda>(min_entry, max_entry).
          compact_range create s1 io manifest current_level compact_file_num min_entry max_entry)))))"

section \<open>The compaction loop\<close>

text \<open>A successful compaction shortens its level, so the loop over the levels ends.\<close>

lemma copy_range_length: "copy_range xs a b d = Inr ys \<Longrightarrow> length ys = length xs \<and> xs \<noteq> [] \<or> length ys = length xs \<and> a = 0"
  by (auto simp: copy_range_def split: if_splits)

lemma Remove_loop_length:
  "Remove_loop xs ps k = Inr (ys, r) \<Longrightarrow> length ys = length xs \<and> r = k + length ps \<and> (ps \<noteq> [] \<longrightarrow> xs \<noteq> [])"
proof (induction xs ps k arbitrary: ys r rule: Remove_loop.induct)
  case (2 src p removed)
  then show ?case using copy_range_length by (fastforce simp: res_simps copy_range_def split: if_splits)
next
  case (3 src p q r_p removed)
  then obtain zs where z: "copy_range src (p + 1) q (p - removed) = Inr zs" "Remove_loop zs (q # r_p) (removed + 1) = Inr (ys, r)"
    by (auto simp: res_simps split: if_splits)
  from 3(1) [OF _ this] 3(2) have "length ys = length zs \<and> r = removed + 1 + length (q # r_p) \<and> zs \<noteq> []"
    by (auto split: if_splits)
  moreover have "length zs = length src" using z(1) by (auto simp: copy_range_def split: if_splits)
  ultimately show ?case by auto
qed auto

lemma Remove_shorter:
  assumes "Remove xs ps = Inr ys" "ps \<noteq> []"
  shows "length ys < length xs"
proof (cases ps rule: list.exhaust [case_names Nil Cons])
  case (Cons p qs)
  show ?thesis
  proof (cases qs)
    case Nil
    with assms Cons show ?thesis by (auto simp: Remove_def split: if_splits)
  next
    case (Cons q rs)
    with assms \<open>ps = p # qs\<close> obtain zs r where "Remove_loop xs ps 0 = Inr (zs, r)" "ys = take (length zs - r) zs"
      by (auto simp: Remove_def res_simps)
    then show ?thesis using Remove_loop_length [of xs ps 0 zs r] assms(2) by auto
  qed
qed (use assms in simp)

lemma UpdateManifest_success:
  assumes "UpdateManifest s io man (map (\<lambda>(l, i). (int l, int i)) (map (Pair level) cur @ rest)) names level ins = Inr (st, man', s')"
    and "StatusNoError st" "cur \<noteq> []"
  obtains points kept levels next_files where "level < length (data_files man)" "points \<noteq> []"
    "Remove (data_files man ! level) points = Inr kept"
    "levels = (if length ((data_files man)[level := kept]) \<le> level + 1 then (data_files man)[level := kept] @ [[]]
       else (data_files man)[level := kept])"
    "data_files man' = levels[level + 1 := next_files]"
proof -
  let ?index = "map (\<lambda>(l, i). (int l, int i)) (map (Pair level) cur @ rest)"
  let ?points = "map snd (takeWhile (\<lambda>p. fst p = int level) ?index)"
  have "?points \<noteq> []" using assms(3) by (cases cur) auto
  then have ne: "map nat ?points \<noteq> []" by simp
  obtain kept levels next_files where k: "level < length (data_files man)"
    "Remove (data_files man ! level) (map nat ?points) = Inr kept"
    "levels = (if length ((data_files man)[level := kept]) \<le> level + 1 then (data_files man)[level := kept] @ [[]]
       else (data_files man)[level := kept])"
    "data_files man' = levels[level + 1 := next_files]"
    using assms(1,2) by (fastforce simp: UpdateManifest_def Let_def res_simps rd_def split: if_splits)
  show thesis by (rule that [OF k(1) ne k(2-4)])
qed

text \<open>The level gets shorter, and those below it stay.\<close>

definition shortens :: "Manifest \<Rightarrow> nat \<Rightarrow> Manifest \<Rightarrow> bool" where
  "shortens man level man' \<longleftrightarrow> length (data_files man' ! level) < length (data_files man ! level) \<and>
     level < length (data_files man') \<and> (\<forall>j<level. data_files man' ! j = data_files man ! j)"

lemma UpdateManifest_shorter:
  assumes "UpdateManifest s io man (map (\<lambda>(l, i). (int l, int i)) (map (Pair level) cur @ rest)) names level ins = Inr (st, man', s')"
    and "StatusNoError st" "cur \<noteq> []"
  shows "shortens man level man'"
proof (rule UpdateManifest_success [OF assms])
  fix points kept levels next_files
  assume k: "level < length (data_files man)" "points \<noteq> []" "Remove (data_files man ! level) points = Inr kept"
    "levels = (if length ((data_files man)[level := kept]) \<le> level + 1 then (data_files man)[level := kept] @ [[]]
       else (data_files man)[level := kept])"
    "data_files man' = levels[level + 1 := next_files]"
  have "level < length (data_files man')" using k(1) unfolding k(4,5) by simp
  moreover have "data_files man' ! level = kept" "\<forall>j<level. data_files man' ! j = data_files man ! j"
    using k(1) unfolding k(4,5) by (simp_all add: nth_append)
  ultimately show ?thesis using Remove_shorter [OF k(3,2)] by (simp add: shortens_def)
qed

lemma checked_success:
  assumes "StatusNoError st"
  shows "(if \<not> StatusNoError st1 then Inr (st1, r) else m) = Inr (st, y) \<longleftrightarrow> StatusNoError st1 \<and> m = Inr (st, y)"
  using assms by auto

lemma compact_range_success:
  assumes "compact_range create s io man level chosen a b = Inr (st, man', io', s')" "StatusNoError st"
  obtains files st1 more s1 st2 "next" ins s2 fs st3 names s3 where
    "rd (data_files man) level = Inr files"
    "StatusNoError st1"
    "(if level = 0 then scan_current s io chosen a b 0 files else Inr (NoError, [], s)) = Inr (st1, more, s1)"
    "StatusNoError st2"
    "(if level + 1 < length (data_files man)
      then scan_next s1 io a b (int (length (data_files man ! (level + 1))))
        (int (length (data_files man ! (level + 1)))) 0 (data_files man ! (level + 1))
      else Inr (NoError, [], 0, s1)) = Inr (st2, next, ins, s2)"
    "paths_of io (data_files man) (map (Pair level) (chosen @ more) @ map (Pair (level + 1)) next) = Inr fs"
    "StatusNoError st3" "MultiwayMerge create s2 io fs = Inr (st3, names, io', s3)"
    "UpdateManifest s3 io' man
      (map (\<lambda>(l, i). (int l, int i)) (map (Pair level) (chosen @ more) @ map (Pair (level + 1)) next))
      names level ins = Inr (st, man', s')"
  using assms(1)
  by (simp add: compact_range_def Let_def res_simps checked_success [OF assms(2)] split_def
        del: map_append cong: if_cong split del: if_split)
    (elim exE conjE, rule that, assumption+, simp_all add: split_def del: map_append cong: if_cong split del: if_split)

lemma compact_range_shorter:
  assumes "compact_range create s io man level (c # cs) a b = Inr (st, man', io', s')" "StatusNoError st"
  shows "shortens man level man'"
proof (rule compact_range_success [OF assms])
  fix s3 more rest names ins
  assume "UpdateManifest s3 io' man
      (map (\<lambda>(l, i). (int l, int i)) (map (Pair level) ((c # cs) @ more) @ map (Pair (level + 1)) rest))
      names level ins = Inr (st, man', s')"
  from UpdateManifest_shorter [OF this assms(2)] show ?thesis by simp
qed

lemma CompactSST_group_shorter:
  assumes "CompactSST_group create s io man level nums = Inr (st, man', io', s')" "StatusNoError st"
  shows "shortens man level man'"
proof -
  obtain c cs where nums: "nums = c # cs" using assms(1) by (cases nums) (auto simp: CompactSST_group_def)
  obtain s1 a b where "compact_range create s1 io man level nums a b = Inr (st, man', io', s')"
    using assms by (auto simp: CompactSST_group_def res_simps split: if_splits)
  then show ?thesis using compact_range_shorter assms(2) unfolding nums by blast
qed

function BackgroundCompact_loop ::
    "(bytes list \<Rightarrow> bytes res) \<Rightarrow> os \<Rightarrow> TCIO \<Rightarrow> Manifest \<Rightarrow> nat \<Rightarrow> Status \<Rightarrow> (Status \<times> Manifest \<times> TCIO \<times> os) res" where
  "BackgroundCompact_loop create s io manifest i ret =
     (if length (data_files manifest) \<le> i then Inr (ret, manifest, io, s)
      else
        rbind (rd kDefaultLevelSize i) (\<lambda>limit.
        let size = length (data_files manifest ! i) in
        if limit \<le> size then
          rbind (CompactSST_group create s io manifest i [0..<size - limit + 1]) (\<lambda>(st, manifest1, io1, s1).
          if \<not> StatusNoError st then Inr (st, manifest1, io1, s1)
          else BackgroundCompact_loop create s1 io1 manifest1 i st)
        else BackgroundCompact_loop create s io manifest (i + 1) ret))"
  by pat_completeness auto
termination
proof (relation "measures [\<lambda>(c, s, io, man, i, ret). 12 - i, \<lambda>(c, s, io, man, i, ret). length (data_files man ! i)]",
    goal_cases)
  case (2 create s io man i ret limit size r st q man1 t io1 s1)
  then show ?case using CompactSST_group_shorter [of create s io man i _ st man1 io1 s1] by (simp add: shortens_def)
next
  case (3 create s io man i ret limit size)
  then have "i < 12" by (auto simp: rd_def kDefaultLevelSize_def split: if_splits)
  then have "12 - (i + 1) < 12 - i" by linarith
  then show ?case by simp
qed simp

declare BackgroundCompact_loop.simps [simp del]

text \<open>The outcome of the log is ignored; the writer of the log is threaded through.\<close>

definition BackgroundCompact ::
    "(bytes list \<Rightarrow> bytes res) \<Rightarrow> os \<Rightarrow> TCIO \<Rightarrow> writer \<Rightarrow> Manifest \<Rightarrow>
      (Status \<times> Manifest \<times> TCIO \<times> writer \<times> os) res" where
  "BackgroundCompact create s io logger manifest =
     (if data_files manifest = [] then Inl AssertFail
      else
        rbind (TCIO_Log s logger ''Starting BackgroundCompact.'') (\<lambda>(_, logger1, s1).
        rmap (\<lambda>(st, manifest1, io1, s2). (st, manifest1, io1, logger1, s2))
         (rbind (CompactSST create s1 io manifest 0 0) (\<lambda>(st, manifest1, io1, s2).
          if \<not> StatusNoError st then Inr (st, manifest1, io1, s2)
          else BackgroundCompact_loop create s2 io1 manifest1 0 st))))"

end
