(* ===== verification/Versions.thy ===== *)
theory Versions
  imports Basics Format
begin

text \<open>
  The versions of the manifest: \<open>TCVersion\<close> and \<open>TCVersionCtrl\<close> (\<open>include/table/version.h\<close>,
  \<open>src/table/version.cc\<close>).

  The list of versions is a \<open>std::list\<close>, whose nodes have an address each; \<open>version_map_\<close> holds
  addresses. Each operation runs under the mutex of the list, so it is one step. The controller
  refines a map from serialised manifests to reference counts.
\<close>

section \<open>Versions\<close>

record TCVersion =
  ref :: u32
  version_manifest :: Manifest
  version_id :: u64

text \<open>The constructor takes the id from the static counter and leaves the counter one higher.\<close>

definition TCVersion_new :: "u64 \<Rightarrow> Manifest \<Rightarrow> TCVersion \<times> u64" where
  "TCVersion_new inc_id m = (\<lparr>ref = 1, version_manifest = m, version_id = inc_id\<rparr>, inc_id + 1)"

definition ManifestStr :: "TCVersion \<Rightarrow> string" where
  "ManifestStr v = Manifest_Encode (version_manifest v)"

definition TCVersion_Ref :: "TCVersion \<Rightarrow> TCVersion" where
  "TCVersion_Ref v = v\<lparr>ref := ref v + 1\<rparr>"

definition TCVersion_UnRef :: "TCVersion \<Rightarrow> TCVersion" where
  "TCVersion_UnRef v = v\<lparr>ref := ref v - 1\<rparr>"

definition Evictable :: "TCVersion \<Rightarrow> bool" where
  "Evictable v \<longleftrightarrow> ref v \<le> 0"

section \<open>The controller\<close>

record TCVersionCtrl =
  version_list :: "(nat \<times> TCVersion) list"
  version_map :: "string \<Rightarrow> nat option"
  next_node :: nat

definition TCVersionCtrl_new :: TCVersionCtrl where
  "TCVersionCtrl_new = \<lparr>version_list = [], version_map = Map.empty, next_node = 0\<rparr>"

text \<open>Access through an iterator.\<close>

definition version_at :: "TCVersionCtrl \<Rightarrow> nat \<Rightarrow> TCVersion res" where
  "version_at c a = (case map_of (version_list c) a of None \<Rightarrow> Inl UseAfterFree | Some v \<Rightarrow> Inr v)"

definition update_version :: "TCVersionCtrl \<Rightarrow> nat \<Rightarrow> (TCVersion \<Rightarrow> TCVersion) \<Rightarrow> TCVersionCtrl res" where
  "update_version c a f =
     rmap (\<lambda>_. c\<lparr>version_list := map (\<lambda>(b, v). (b, if b = a then f v else v)) (version_list c)\<rparr>) (version_at c a)"

definition ExistVersion :: "TCVersionCtrl \<Rightarrow> string \<Rightarrow> bool" where
  "ExistVersion c manifest \<longleftrightarrow> version_map c manifest \<noteq> None"

definition AppendVersion :: "TCVersionCtrl \<Rightarrow> TCVersion \<Rightarrow> (bool \<times> TCVersionCtrl) res" where
  "AppendVersion c v =
     (case version_map c (ManifestStr v) of
        None \<Rightarrow> Inr (True, c\<lparr>version_list := version_list c @ [(next_node c, v)],
          version_map := (version_map c)(ManifestStr v \<mapsto> next_node c), next_node := next_node c + 1\<rparr>)
      | Some a \<Rightarrow> rmap (Pair False) (update_version c a TCVersion_Ref))"

definition RefVersion :: "TCVersionCtrl \<Rightarrow> nat \<Rightarrow> (Status \<times> TCVersionCtrl) res" where
  "RefVersion c a = rmap (Pair NoError) (update_version c a TCVersion_Ref)"

definition UnrefVersion :: "TCVersionCtrl \<Rightarrow> TCVersion \<Rightarrow> (Status \<times> TCVersionCtrl) res" where
  "UnrefVersion c v =
     (case version_map c (ManifestStr v) of
        None \<Rightarrow> Inr (BadArgumentError ''The version does not exist'', c)
      | Some a \<Rightarrow>
          rbind (update_version c a TCVersion_UnRef) (\<lambda>c1.
          rbind (version_at c1 a) (\<lambda>v1.
          if Evictable v1
          then Inr (NoError, c1\<lparr>version_list := filter (\<lambda>p. fst p \<noteq> a) (version_list c1),
            version_map := (version_map c1)(ManifestStr v := None)\<rparr>)
          else Inr (NoError, c1))))"

text \<open>The iterator of the last version. Stepping back from the end of an empty list is undefined.\<close>

definition LatestVersion :: "TCVersionCtrl \<Rightarrow> (nat \<times> TCVersionCtrl) res" where
  "LatestVersion c =
     (if version_list c = [] then Inl OobRead
      else let a = fst (last (version_list c)) in rmap (\<lambda>(_, c1). (a, c1)) (RefVersion c a))"

section \<open>Refinement of a list of reference counts\<close>

type_synonym counts = "(string \<times> u32) list"

datatype version_op = VAppend TCVersion | VUnref TCVersion | VLatest

datatype version_result = Appended bool | Unreffed bool | Referenced string

fun run_version_op :: "TCVersionCtrl \<Rightarrow> version_op \<Rightarrow> (version_result \<times> TCVersionCtrl) res" where
  "run_version_op c (VAppend v) = rmap (map_prod Appended id) (AppendVersion c v)"
| "run_version_op c (VUnref v) = rmap (map_prod (Unreffed \<circ> StatusNoError) id) (UnrefVersion c v)"
| "run_version_op c VLatest =
     rbind (LatestVersion c) (\<lambda>(a, c1). rmap (\<lambda>v. (Referenced (ManifestStr v), c1)) (version_at c1 a))"

fun run_versions :: "TCVersionCtrl \<Rightarrow> version_op list \<Rightarrow> (version_result list \<times> TCVersionCtrl) res" where
  "run_versions c [] = Inr ([], c)"
| "run_versions c (op # ops) =
     rbind (run_version_op c op) (\<lambda>(r, c1). rmap (map_prod ((#) r) id) (run_versions c1 ops))"

text \<open>The counts, oldest version first. An operation that is undefined is \<open>None\<close>.\<close>

definition bump :: "(u32 \<Rightarrow> u32) \<Rightarrow> string \<Rightarrow> counts \<Rightarrow> counts" where
  "bump f s xs = map (\<lambda>(t, n). (t, if t = s then f n else n)) xs"

fun spec_version_op :: "counts \<Rightarrow> version_op \<Rightarrow> (version_result \<times> counts) option" where
  "spec_version_op xs (VAppend v) =
     (if ManifestStr v \<in> fst ` set xs then Some (Appended False, bump (\<lambda>n. n + 1) (ManifestStr v) xs)
      else Some (Appended True, xs @ [(ManifestStr v, ref v)]))"
| "spec_version_op xs (VUnref v) =
     (if ManifestStr v \<notin> fst ` set xs then Some (Unreffed False, xs)
      else Some (Unreffed True, if map_of xs (ManifestStr v) = Some 1
        then filter (\<lambda>p. fst p \<noteq> ManifestStr v) xs else bump (\<lambda>n. n - 1) (ManifestStr v) xs))"
| "spec_version_op xs VLatest =
     (if xs = [] then None
      else Some (Referenced (fst (last xs)), bump (\<lambda>n. n + 1) (fst (last xs)) xs))"

fun spec_versions :: "counts \<Rightarrow> version_op list \<Rightarrow> (version_result list \<times> counts) option" where
  "spec_versions xs [] = Some ([], xs)"
| "spec_versions xs (op # ops) =
     Option.bind (spec_version_op xs op) (\<lambda>(r, xs1). map_option (map_prod ((#) r) id) (spec_versions xs1 ops))"

abbreviation entry_str :: "nat \<times> TCVersion \<Rightarrow> string" where
  "entry_str p \<equiv> ManifestStr (snd p)"

definition counts_of :: "TCVersionCtrl \<Rightarrow> counts" where
  "counts_of c = map (\<lambda>p. (entry_str p, ref (snd p))) (version_list c)"

definition ctrl_ok :: "TCVersionCtrl \<Rightarrow> bool" where
  "ctrl_ok c \<longleftrightarrow> distinct (map fst (version_list c)) \<and> distinct (map entry_str (version_list c)) \<and>
     (\<forall>p\<in>set (version_list c). fst p < next_node c) \<and>
     version_map c = map_of (map (\<lambda>p. (entry_str p, fst p)) (version_list c))"

lemma ManifestStr_simps [simp]:
  "ManifestStr (TCVersion_Ref v) = ManifestStr v" "ManifestStr (TCVersion_UnRef v) = ManifestStr v"
  by (simp_all add: ManifestStr_def TCVersion_Ref_def TCVersion_UnRef_def)

lemma map_of_filter_key: "map_of (filter (\<lambda>p. fst p \<noteq> k) xs) = (map_of xs)(k := None)"
  by (induction xs) auto

lemma ctrl_ok_keys:
  assumes "ctrl_ok c" "p \<in> set (version_list c)" "q \<in> set (version_list c)"
  shows "fst p = fst q \<longleftrightarrow> entry_str p = entry_str q"
  using assms by (metis (mono_tags, lifting) ctrl_ok_def distinct_map inj_onD)

lemma ctrl_ok_map:
  assumes "ctrl_ok c"
  shows "version_map c s = Some a \<longleftrightarrow> (\<exists>v. (a, v) \<in> set (version_list c) \<and> ManifestStr v = s)"
    and "version_map c s = None \<longleftrightarrow> s \<notin> fst ` set (counts_of c)"
proof -
  have "distinct (map fst (map (\<lambda>p. (entry_str p, fst p)) (version_list c)))"
    using assms by (simp add: ctrl_ok_def o_def)
  then show "version_map c s = Some a \<longleftrightarrow> (\<exists>v. (a, v) \<in> set (version_list c) \<and> ManifestStr v = s)"
    using assms by (auto simp: ctrl_ok_def intro!: rev_image_eqI)
  show "version_map c s = None \<longleftrightarrow> s \<notin> fst ` set (counts_of c)"
    using assms by (force simp: ctrl_ok_def counts_of_def map_of_eq_None_iff)
qed

lemma version_at_ok: "ctrl_ok c \<Longrightarrow> (a, v) \<in> set (version_list c) \<Longrightarrow> version_at c a = Inr v"
  by (simp add: version_at_def ctrl_ok_def)

text \<open>Changing a count of a listed version.\<close>

lemma update_version_ok:
  assumes "ctrl_ok c" "(a, v) \<in> set (version_list c)"
    and f: "\<And>v. ManifestStr (f v) = ManifestStr v" "\<And>v. ref (f v) = g (ref v)"
  shows "\<exists>c'. update_version c a f = Inr c' \<and> ctrl_ok c' \<and> counts_of c' = bump g (ManifestStr v) (counts_of c) \<and>
    (a, f v) \<in> set (version_list c')"
proof -
  let ?h = "\<lambda>(b, v). (b, if b = a then f v else v)"
  let ?c = "c\<lparr>version_list := map ?h (version_list c)\<rparr>"
  have h: "fst (?h p) = fst p" "entry_str (?h p) = entry_str p" for p
    using f(1) by (auto split: prod.splits)
  have "ctrl_ok ?c"
    using assms(1) unfolding ctrl_ok_def by (simp add: o_def h)
  moreover have "(entry_str (?h p), ref (snd (?h p))) =
      (case (entry_str p, ref (snd p)) of (t, n) \<Rightarrow> (t, if t = ManifestStr v then g n else n))"
    if "p \<in> set (version_list c)" for p
    using ctrl_ok_keys [OF assms(1) that assms(2)] f by (cases p) auto
  then have "counts_of ?c = bump g (ManifestStr v) (counts_of c)"
    by (simp add: counts_of_def bump_def o_def)
  moreover have "(a, f v) \<in> set (version_list ?c)" using assms(2) by (force simp: image_iff)
  ultimately show ?thesis by (simp add: update_version_def version_at_ok [OF assms(1,2)])
qed

lemma ref_simps [simp]: "ref (TCVersion_Ref v) = ref v + 1" "ref (TCVersion_UnRef v) = ref v - 1"
  by (simp_all add: TCVersion_Ref_def TCVersion_UnRef_def)

lemmas ref_version_ok = update_version_ok [of _ _ _ TCVersion_Ref "\<lambda>n. n + 1", simplified]
  and unref_version_ok = update_version_ok [of _ _ _ TCVersion_UnRef "\<lambda>n. n - 1", simplified]

text \<open>Each operation refines its specification.\<close>

lemma AppendVersion_refines:
  assumes "ctrl_ok c"
  shows "\<exists>b c'. AppendVersion c v = Inr (b, c') \<and> ctrl_ok c' \<and>
    spec_version_op (counts_of c) (VAppend v) = Some (Appended b, counts_of c')"
proof (cases "version_map c (ManifestStr v)")
  case None
  let ?c = "c\<lparr>version_list := version_list c @ [(next_node c, v)],
    version_map := (version_map c)(ManifestStr v \<mapsto> next_node c), next_node := next_node c + 1\<rparr>"
  have n: "ManifestStr v \<notin> fst ` set (counts_of c)" using ctrl_ok_map(2) [OF assms] None by simp
  have "map_of (map (\<lambda>p. (entry_str p, fst p)) (version_list c)) ++ [ManifestStr v \<mapsto> next_node c] =
      [ManifestStr v \<mapsto> next_node c] ++ map_of (map (\<lambda>p. (entry_str p, fst p)) (version_list c))"
    using n by (intro map_add_comm) (auto simp: counts_of_def dom_map_of_conv_image_fst image_iff)
  then have "ctrl_ok ?c"
    using assms n by (auto simp: ctrl_ok_def counts_of_def image_iff)
  then show ?thesis
    using None n by (auto simp: AppendVersion_def counts_of_def)
next
  case (Some a)
  then obtain w where w: "(a, w) \<in> set (version_list c)" "ManifestStr w = ManifestStr v"
    using ctrl_ok_map(1) [OF assms] by blast
  have m: "ManifestStr v \<in> fst ` set (counts_of c)" using w by (force simp: counts_of_def)
  show ?thesis
    using ref_version_ok [OF assms w(1)] Some w(2) m by (auto simp: AppendVersion_def)
qed

lemma UnrefVersion_refines:
  assumes "ctrl_ok c"
  shows "\<exists>st c'. UnrefVersion c v = Inr (st, c') \<and> ctrl_ok c' \<and>
    spec_version_op (counts_of c) (VUnref v) = Some (Unreffed (StatusNoError st), counts_of c')"
proof (cases "version_map c (ManifestStr v)")
  case None
  then show ?thesis
    using ctrl_ok_map(2) [OF assms, of "ManifestStr v"] assms by (auto simp: UnrefVersion_def)
next
  case (Some a)
  let ?s = "ManifestStr v"
  obtain w where w: "(a, w) \<in> set (version_list c)" "ManifestStr w = ?s"
    using ctrl_ok_map(1) [OF assms] Some by blast
  obtain c1 where c1: "update_version c a TCVersion_UnRef = Inr c1" "ctrl_ok c1"
    "counts_of c1 = bump (\<lambda>n. n - 1) ?s (counts_of c)" "(a, TCVersion_UnRef w) \<in> set (version_list c1)"
    using unref_version_ok [OF assms w(1)] w(2) by auto
  have s: "?s \<in> fst ` set (counts_of c)" using w by (force simp: counts_of_def)
  have d: "distinct (map fst (counts_of c))" using assms by (simp add: ctrl_ok_def counts_of_def o_def)
  have "(?s, ref w) \<in> set (counts_of c)" using w by (force simp: counts_of_def)
  then have r: "map_of (counts_of c) ?s = Some (ref w)" using d by simp
  have e: "Evictable (TCVersion_UnRef w) \<longleftrightarrow> ref w = 1"
    by (simp add: Evictable_def)
  show ?thesis
  proof (cases "ref w = 1")
    case False
    then show ?thesis
      using Some c1 s r e version_at_ok [OF c1(2,4)] by (auto simp: UnrefVersion_def)
  next
    case True
    let ?c = "c1\<lparr>version_list := filter (\<lambda>p. fst p \<noteq> a) (version_list c1),
      version_map := (version_map c1)(?s := None)\<rparr>"
    have f: "fst p \<noteq> a \<longleftrightarrow> entry_str p \<noteq> ?s" if "p \<in> set (version_list c1)" for p
      using ctrl_ok_keys [OF c1(2) that c1(4)] w(2) by simp
    then have l: "filter (\<lambda>p. fst p \<noteq> a) (version_list c1) = filter (\<lambda>p. entry_str p \<noteq> ?s) (version_list c1)"
      by (rule filter_cong [OF refl])
    have "ctrl_ok ?c"
      using c1(2) map_of_filter_key [of ?s "map (\<lambda>p. (entry_str p, fst p)) (version_list c1)"]
      by (simp add: ctrl_ok_def l distinct_map_filter filter_map o_def)
    moreover have "counts_of ?c = filter (\<lambda>p. fst p \<noteq> ?s) (counts_of c1)"
      by (simp add: counts_of_def l filter_map o_def)
    moreover have "filter (\<lambda>p. fst p \<noteq> ?s) (bump g ?s xs) = filter (\<lambda>p. fst p \<noteq> ?s) xs" for g xs
      by (induction xs) (auto simp: bump_def)
    ultimately show ?thesis
      using Some c1(1,3) s r e True version_at_ok [OF c1(2,4)] by (auto simp: UnrefVersion_def)
  qed
qed

lemma LatestVersion_refines:
  assumes "ctrl_ok c"
  shows "if version_list c = [] then LatestVersion c = Inl OobRead
    else \<exists>a v c'. LatestVersion c = Inr (a, c') \<and> ctrl_ok c' \<and> version_at c' a = Inr v \<and>
      spec_version_op (counts_of c) VLatest = Some (Referenced (ManifestStr v), counts_of c')"
proof (cases "version_list c = []")
  case False
  obtain a v where l: "last (version_list c) = (a, v)" by fastforce
  with False have m: "(a, v) \<in> set (version_list c)" by (metis last_in_set)
  obtain c' where c': "update_version c a TCVersion_Ref = Inr c'" "ctrl_ok c'"
    "counts_of c' = bump (\<lambda>n. n + 1) (ManifestStr v) (counts_of c)" "(a, TCVersion_Ref v) \<in> set (version_list c')"
    using ref_version_ok [OF assms m] by auto
  moreover have "counts_of c \<noteq> []" "fst (last (counts_of c)) = ManifestStr v"
    using False l by (simp_all add: counts_of_def last_map)
  ultimately show ?thesis
    using False l version_at_ok [OF c'(2,4)] by (auto simp: LatestVersion_def RefVersion_def Let_def)
qed (simp add: LatestVersion_def)

lemma ctrl_ok_new: "ctrl_ok TCVersionCtrl_new" "counts_of TCVersionCtrl_new = []"
  by (simp_all add: ctrl_ok_def counts_of_def TCVersionCtrl_new_def)

lemma run_version_op_refines:
  assumes "ctrl_ok c"
  shows "case spec_version_op (counts_of c) op of
      None \<Rightarrow> run_version_op c op = Inl OobRead
    | Some (r, xs) \<Rightarrow> \<exists>c'. run_version_op c op = Inr (r, c') \<and> ctrl_ok c' \<and> counts_of c' = xs"
proof (cases op)
  case (VAppend v)
  then show ?thesis using AppendVersion_refines [OF assms, of v] by fastforce
next
  case (VUnref v)
  then show ?thesis using UnrefVersion_refines [OF assms, of v] by fastforce
next
  case VLatest
  have "counts_of c = [] \<longleftrightarrow> version_list c = []" by (simp add: counts_of_def)
  then show ?thesis
    using VLatest LatestVersion_refines [OF assms] by (fastforce split: if_splits)
qed

lemma run_versions_refines:
  "ctrl_ok c \<Longrightarrow> case spec_versions (counts_of c) ops of
      None \<Rightarrow> run_versions c ops = Inl OobRead
    | Some (rs, xs) \<Rightarrow> \<exists>c'. run_versions c ops = Inr (rs, c') \<and> ctrl_ok c' \<and> counts_of c' = xs"
proof (induction ops arbitrary: c)
  case (Cons op ops)
  show ?case
  proof (cases "spec_version_op (counts_of c) op")
    case None
    then show ?thesis using run_version_op_refines [OF Cons.prems, of op] by simp
  next
    case (Some q)
    then obtain r c' where c': "run_version_op c op = Inr (r, c')" "ctrl_ok c'" "q = (r, counts_of c')"
      using run_version_op_refines [OF Cons.prems, of op] by (cases q) auto
    show ?thesis
      using Cons.IH [OF c'(2)] c' Some by (cases "spec_versions (counts_of c') ops") auto
  qed
qed simp

text \<open>C23. Every run of the version controller from its initial state, appending, referencing and
  releasing versions in any order, never follows a stale iterator and answers as a list of
  reference counts keyed by the serialised manifest: a version is appended once, its count goes
  up when it is appended again or handed out as the latest, and it goes away exactly when its
  count comes down to zero. Asking an empty controller for the latest version is undefined.\<close>

theorem version_ctrl_refines_counts:
  "case spec_versions [] ops of
      None \<Rightarrow> run_versions TCVersionCtrl_new ops = Inl OobRead
    | Some (rs, xs) \<Rightarrow> \<exists>c. run_versions TCVersionCtrl_new ops = Inr (rs, c) \<and> counts_of c = xs \<and>
        distinct (map fst xs)"
proof (cases "spec_versions [] ops")
  case None
  then show ?thesis using run_versions_refines [OF ctrl_ok_new(1), of ops] ctrl_ok_new(2) by simp
next
  case (Some q)
  then obtain rs c where q: "q = (rs, counts_of c)" "run_versions TCVersionCtrl_new ops = Inr (rs, c)" "ctrl_ok c"
    using run_versions_refines [OF ctrl_ok_new(1), of ops] ctrl_ok_new(2) by (cases q) auto
  then have "distinct (map fst (counts_of c))" by (simp add: ctrl_ok_def counts_of_def o_def)
  with q Some show ?thesis by simp
qed

text \<open>A version appended with no reference, as the flush does, and released once too often does
  not leave the list: its count wraps around.\<close>

lemma overreleased_version_stays:
  assumes "ctrl_ok c" "map_of (counts_of c) (ManifestStr v) = Some 0"
  shows "\<exists>st c'. UnrefVersion c v = Inr (st, c') \<and> StatusNoError st \<and>
    map_of (counts_of c') (ManifestStr v) = Some (- 1)"
proof -
  have "ManifestStr v \<in> fst ` set (counts_of c)" using assms(2) by (metis domI dom_map_of_conv_image_fst)
  moreover have b: "map_of (bump g s xs) s = map_option g (map_of xs s)" for g s xs
    by (induction xs) (auto simp: bump_def)
  moreover obtain st c' where "UnrefVersion c v = Inr (st, c')"
    "spec_version_op (counts_of c) (VUnref v) = Some (Unreffed (StatusNoError st), counts_of c')"
    using UnrefVersion_refines [OF assms(1), of v] by blast
  ultimately have "StatusNoError st" "counts_of c' = bump (\<lambda>n. n - 1) (ManifestStr v) (counts_of c)"
    "UnrefVersion c v = Inr (st, c')" using assms(2) by auto
  then show ?thesis using b assms(2) by simp
qed

end
