(* ===== verification/RWLock.thy ===== *)
theory RWLock
  imports Prelude "HOL-Library.Multiset"
begin

text \<open>
  The read-write lock of \<open>src/util/lock_util.cc\<close>. Every body runs under \<open>rw_count_mtx_\<close>, which a
  thread gives up only while it waits, so a step is a body up to its end or up to a wait, or
  what a woken thread does next. The threads are numbered; \<open>pcs\<close> says where each one is.
\<close>

section \<open>The lock\<close>

datatype WakeUpOption = AllowSpuriousWakeUp | DisallowSpuriousWakeUp

text \<open>\<open>Waits\<close> and \<open>Woken\<close> are the two sides of a wait: on the condition variable, and notified but not
  yet holding the mutex again.\<close>

datatype pc =
    Idle
  | Reading
  | Writing
  | WaitsRead
  | WokenRead
  | WaitsWrite WakeUpOption
  | WokenWrite WakeUpOption

record ReadWriteLock =
  write_count :: int
  read_count :: int

definition ReadWriteLock_new :: ReadWriteLock where
  "ReadWriteLock_new = \<lparr>write_count = 0, read_count = 0\<rparr>"

text \<open>Each operation returns where it leaves its thread. The loop of \<open>ReadLock\<close> starts over after
  a wait.\<close>

definition ReadLock :: "ReadWriteLock \<Rightarrow> pc \<times> ReadWriteLock" where
  "ReadLock l = (if write_count l \<noteq> 0 then (WaitsRead, l) else (Reading, l\<lparr>read_count := read_count l + 1\<rparr>))"

text \<open>Which condition variable the two releases notify, one waiter or all.\<close>

datatype notification = NoNotify | NotifyWriter | NotifyReaders

definition ReadUnlock :: "ReadWriteLock \<Rightarrow> notification \<times> ReadWriteLock" where
  "ReadUnlock l =
     (let l1 = l\<lparr>read_count := read_count l - 1\<rparr> in
      (if read_count l1 = 0 \<and> write_count l1 > 0 then NotifyWriter else NoNotify, l1))"

definition WriteWait :: "WakeUpOption \<Rightarrow> ReadWriteLock \<Rightarrow> pc" where
  "WriteWait opt l =
     (case opt of
        AllowSpuriousWakeUp \<Rightarrow> if write_count l > 1 \<or> read_count l \<noteq> 0 then WaitsWrite opt else Writing
      | DisallowSpuriousWakeUp \<Rightarrow> if write_count l \<le> 1 \<and> read_count l = 0 then Writing else WaitsWrite opt)"

definition WriteLock :: "WakeUpOption \<Rightarrow> ReadWriteLock \<Rightarrow> pc \<times> ReadWriteLock" where
  "WriteLock opt l = (let l1 = l\<lparr>write_count := write_count l + 1\<rparr> in (WriteWait opt l1, l1))"

text \<open>After a wait, \<open>WriteLock\<close> returns, or evaluates its predicate again.\<close>

definition WriteLock_woken :: "WakeUpOption \<Rightarrow> ReadWriteLock \<Rightarrow> pc" where
  "WriteLock_woken opt l = (case opt of AllowSpuriousWakeUp \<Rightarrow> Writing | DisallowSpuriousWakeUp \<Rightarrow> WriteWait opt l)"

definition WriteUnlock :: "ReadWriteLock \<Rightarrow> notification \<times> ReadWriteLock" where
  "WriteUnlock l =
     (let l1 = l\<lparr>write_count := write_count l - 1\<rparr> in
      (if write_count l1 = 0 then NotifyReaders else NotifyWriter, l1))"

section \<open>Threads\<close>

fun waits_write :: "pc \<Rightarrow> bool" where
  "waits_write (WaitsWrite _) = True"
| "waits_write _ = False"

fun wake :: "pc \<Rightarrow> pc" where
  "wake WaitsRead = WokenRead"
| "wake (WaitsWrite opt) = WokenWrite opt"
| "wake p = p"

text \<open>\<open>notify_one\<close> wakes some waiting writer, if there is one.\<close>

inductive notified :: "notification \<Rightarrow> pc list \<Rightarrow> pc list \<Rightarrow> bool" where
  none: "notified NoNotify ps ps"
| writer: "u < length ps \<Longrightarrow> waits_write (ps ! u) \<Longrightarrow> notified NotifyWriter ps (ps[u := wake (ps ! u)])"
| no_writer: "\<forall>p\<in>set ps. \<not> waits_write p \<Longrightarrow> notified NotifyWriter ps ps"
| readers: "notified NotifyReaders ps (map (\<lambda>p. if p = WaitsRead then WokenRead else p) ps)"

type_synonym threads = "ReadWriteLock \<times> pc list"

text \<open>\<open>opts\<close> are the options the callers of \<open>WriteLock\<close> use; \<open>spurious\<close> says whether a wait may end without
  a notification.\<close>

inductive lock_step :: "WakeUpOption set \<Rightarrow> bool \<Rightarrow> threads \<Rightarrow> threads \<Rightarrow> bool" for opts spurious where
  read_lock: "t < length ps \<Longrightarrow> ps ! t = Idle \<Longrightarrow> ReadLock l = (p, l') \<Longrightarrow>
    lock_step opts spurious (l, ps) (l', ps[t := p])"
| read_again: "t < length ps \<Longrightarrow> ps ! t = WokenRead \<Longrightarrow> ReadLock l = (p, l') \<Longrightarrow>
    lock_step opts spurious (l, ps) (l', ps[t := p])"
| read_unlock: "t < length ps \<Longrightarrow> ps ! t = Reading \<Longrightarrow> ReadUnlock l = (n, l') \<Longrightarrow> notified n (ps[t := Idle]) ps' \<Longrightarrow>
    lock_step opts spurious (l, ps) (l', ps')"
| write_lock: "t < length ps \<Longrightarrow> ps ! t = Idle \<Longrightarrow> opt \<in> opts \<Longrightarrow> WriteLock opt l = (p, l') \<Longrightarrow>
    lock_step opts spurious (l, ps) (l', ps[t := p])"
| write_woken: "t < length ps \<Longrightarrow> ps ! t = WokenWrite opt \<Longrightarrow>
    lock_step opts spurious (l, ps) (l, ps[t := WriteLock_woken opt l])"
| write_unlock: "t < length ps \<Longrightarrow> ps ! t = Writing \<Longrightarrow> WriteUnlock l = (n, l') \<Longrightarrow> notified n (ps[t := Idle]) ps' \<Longrightarrow>
    lock_step opts spurious (l, ps) (l', ps')"
| spurious: "spurious \<Longrightarrow> t < length ps \<Longrightarrow> wake (ps ! t) \<noteq> ps ! t \<Longrightarrow>
    lock_step opts spurious (l, ps) (l, ps[t := wake (ps ! t)])"

inductive_simps notified_simps [simp]:
  "notified NoNotify ps ps'"
  "notified NotifyReaders ps ps'"

inductive_cases notified_writerE: "notified NotifyWriter ps ps'"

inductive_cases lock_stepE: "lock_step opts sp s s'"

text \<open>\<open>n\<close> threads and a free lock at the start.\<close>

definition lock_init :: "nat \<Rightarrow> threads" where
  "lock_init n = (ReadWriteLock_new, replicate n Idle)"

abbreviation lock_reaches :: "WakeUpOption set \<Rightarrow> bool \<Rightarrow> threads \<Rightarrow> threads \<Rightarrow> bool" where
  "lock_reaches opts spurious \<equiv> (lock_step opts spurious)\<^sup>*\<^sup>*"

section \<open>Counting threads\<close>

definition num :: "pc list \<Rightarrow> pc \<Rightarrow> int" where
  "num ps p = int (count (mset ps) p)"

lemma num_nonneg:
  "0 \<le> num ps Reading" "0 \<le> num ps Writing" "0 \<le> num ps WaitsRead"
  "0 \<le> num ps (WaitsWrite AllowSpuriousWakeUp)" "0 \<le> num ps (WokenWrite AllowSpuriousWakeUp)"
  "0 \<le> num ps (WaitsWrite DisallowSpuriousWakeUp)" "0 \<le> num ps (WokenWrite DisallowSpuriousWakeUp)"
  by (simp_all add: num_def)

lemma num_eq_0: "num ps p = 0 \<longleftrightarrow> p \<notin> set ps"
  by (simp add: num_def count_eq_zero_iff)

lemma num_replicate: "num (replicate n q) p = (if p = q then int n else 0)"
  by (simp add: num_def)

lemma num_update:
  assumes "t < length ps"
  shows "num (ps[t := x]) p = num ps p + (if p = x then 1 else 0) - (if p = ps ! t then 1 else 0)"
proof -
  have "0 < count (mset ps) (ps ! t)" using assms by simp
  then show ?thesis using assms by (auto simp: num_def mset_update)
qed

lemma num_present: "t < length ps \<Longrightarrow> ps ! t = p \<Longrightarrow> num ps p \<ge> 1"
  using count_greater_zero_iff [of "mset ps" p] by (fastforce simp: num_def simp del: count_greater_zero_iff)

lemma num_wake_readers:
  "num (map (\<lambda>p. if p = WaitsRead then WokenRead else p) ps) p =
    (if p = WaitsRead then 0 else num ps p + (if p = WokenRead then num ps WaitsRead else 0))"
  by (induction ps) (auto simp: num_def)

text \<open>What a notification does to the counts.\<close>

lemma notified_cases:
  assumes "notified n ps ps'"
  obtains "n = NoNotify" "ps' = ps"
  | "n = NotifyReaders" "\<And>p. num ps' p = (if p = WaitsRead then 0 else num ps p + (if p = WokenRead then num ps WaitsRead else 0))"
  | "n = NotifyWriter" "num ps (WaitsWrite AllowSpuriousWakeUp) \<ge> 1"
      "\<And>p. num ps' p = num ps p + (if p = WokenWrite AllowSpuriousWakeUp then 1 else 0)
        - (if p = WaitsWrite AllowSpuriousWakeUp then 1 else 0)"
  | "n = NotifyWriter" "num ps (WaitsWrite DisallowSpuriousWakeUp) \<ge> 1"
      "\<And>p. num ps' p = num ps p + (if p = WokenWrite DisallowSpuriousWakeUp then 1 else 0)
        - (if p = WaitsWrite DisallowSpuriousWakeUp then 1 else 0)"
  | "n = NotifyWriter" "ps' = ps" "\<And>opt. num ps (WaitsWrite opt) = 0"
  using assms
proof cases
  case (writer u)
  obtain opt where o: "ps ! u = WaitsWrite opt" using writer(4) by (cases "ps ! u") auto
  show ?thesis
    using that(3,4) writer(1) num_present [OF writer(3) o] by (cases opt) (simp_all add: writer(2,3) o num_update)
next
  case no_writer
  then have "num ps (WaitsWrite opt) = 0" for opt by (auto simp: num_eq_0)
  then show ?thesis using that(5) no_writer by blast
next
  case readers
  then show ?thesis using that(2) num_wake_readers by blast
qed (use that(1) in blast)

text \<open>The counters count.\<close>

definition counted :: "threads \<Rightarrow> bool" where
  "counted s \<longleftrightarrow> read_count (fst s) = num (snd s) Reading \<and>
     write_count (fst s) = num (snd s) Writing +
       num (snd s) (WaitsWrite AllowSpuriousWakeUp) + num (snd s) (WokenWrite AllowSpuriousWakeUp) +
       num (snd s) (WaitsWrite DisallowSpuriousWakeUp) + num (snd s) (WokenWrite DisallowSpuriousWakeUp)"

lemmas lock_op_defs = ReadLock_def ReadUnlock_def WriteLock_def WriteUnlock_def WriteWait_def WriteLock_woken_def Let_def

lemma counted_step:
  assumes "lock_step opts sp s s'" "counted s"
  shows "counted s'"
  using assms
proof cases
  case (read_unlock t ps l n l' ps')
  from read_unlock(6) show ?thesis
    by (cases rule: notified_cases) (use read_unlock assms(2) in \<open>auto simp: counted_def lock_op_defs num_update split: if_splits\<close>)
next
  case (write_unlock t ps l n l' ps')
  from write_unlock(6) show ?thesis
    by (cases rule: notified_cases) (use write_unlock assms(2) in \<open>auto simp: counted_def lock_op_defs num_update split: if_splits\<close>)
next
  case (write_lock t ps opt l p l')
  then show ?thesis
    using assms(2) by (cases opt) (auto simp: counted_def lock_op_defs num_update split: if_splits)
next
  case (write_woken t ps opt l)
  then show ?thesis
    using assms(2) by (cases opt) (auto simp: counted_def lock_op_defs num_update)
next
  case (spurious t ps l)
  then consider "ps ! t = WaitsRead" | opt where "ps ! t = WaitsWrite opt" by (cases "ps ! t") auto
  then show ?thesis
  proof cases
    case (2 opt)
    then show ?thesis using spurious assms(2) by (cases opt) (auto simp: counted_def num_update)
  qed (use spurious assms(2) in \<open>auto simp: counted_def num_update\<close>)
qed (auto simp: counted_def lock_op_defs num_update split: if_splits)

section \<open>Mutual exclusion\<close>

definition exclusive :: "pc list \<Rightarrow> bool" where
  "exclusive ps \<longleftrightarrow> num ps Writing \<le> 1 \<and> (num ps Writing = 1 \<longrightarrow> num ps Reading = 0)"

text \<open>Without spurious wake-ups, a woken writer owns the lock already, and a waiting thread always
  has somebody to wait for.\<close>

definition orderly :: "threads \<Rightarrow> bool" where
  "orderly s \<longleftrightarrow> counted s \<and>
     num (snd s) (WaitsWrite DisallowSpuriousWakeUp) = 0 \<and> num (snd s) (WokenWrite DisallowSpuriousWakeUp) = 0 \<and>
     num (snd s) Writing + num (snd s) (WokenWrite AllowSpuriousWakeUp) \<le> 1 \<and>
     (num (snd s) Writing + num (snd s) (WokenWrite AllowSpuriousWakeUp) = 1 \<longrightarrow> num (snd s) Reading = 0) \<and>
     (0 < num (snd s) (WaitsWrite AllowSpuriousWakeUp) \<longrightarrow>
        0 < num (snd s) Writing + num (snd s) (WokenWrite AllowSpuriousWakeUp) + num (snd s) Reading) \<and>
     (0 < num (snd s) WaitsRead \<longrightarrow> 0 < write_count (fst s))"

lemma orderly_step:
  assumes "lock_step {AllowSpuriousWakeUp} False s s'" "orderly s"
  shows "orderly s'"
proof -
  have c: "counted s'" using counted_step assms by (auto simp: orderly_def)
  from assms show ?thesis
  proof cases
    case (read_unlock t ps l n l' ps')
    from read_unlock(6) show ?thesis
      by (cases rule: notified_cases)
        (use read_unlock assms(2) c num_nonneg [of ps] num_present [OF read_unlock(3,4)] in \<open>auto simp: orderly_def counted_def lock_op_defs num_update split: if_splits\<close>)
  next
    case (write_unlock t ps l n l' ps')
    from write_unlock(6) show ?thesis
      by (cases rule: notified_cases)
        (use write_unlock assms(2) c num_nonneg [of ps] num_present [OF write_unlock(3,4)] in
          \<open>auto simp: orderly_def counted_def lock_op_defs num_update split: if_splits\<close>)
  next
    case (write_woken t ps opt l)
    then show ?thesis
      using assms(2) c num_nonneg [of ps] num_present [OF write_woken(3,4)]
      by (cases opt) (auto simp: orderly_def counted_def lock_op_defs num_update)
  next
    case (read_lock t ps l p l')
    then show ?thesis using assms(2) c num_nonneg [of ps] num_present [OF read_lock(3,4)]
      by (auto simp: orderly_def counted_def lock_op_defs num_update split: if_splits)
  next
    case (read_again t ps l p l')
    then show ?thesis using assms(2) c num_nonneg [of ps] num_present [OF read_again(3,4)]
      by (auto simp: orderly_def counted_def lock_op_defs num_update split: if_splits)
  next
    case (write_lock t ps opt l p l')
    then show ?thesis using assms(2) c num_nonneg [of ps] num_present [OF write_lock(3,4)]
      by (auto simp: orderly_def counted_def lock_op_defs num_update split: if_splits)
  qed simp
qed

text \<open>With the predicate, a writer looks at the counters before it returns.\<close>

definition checked :: "threads \<Rightarrow> bool" where
  "checked s \<longleftrightarrow> counted s \<and> exclusive (snd s) \<and>
     num (snd s) (WaitsWrite AllowSpuriousWakeUp) = 0 \<and> num (snd s) (WokenWrite AllowSpuriousWakeUp) = 0"

lemma checked_step:
  assumes "lock_step {DisallowSpuriousWakeUp} sp s s'" "checked s"
  shows "checked s'"
proof -
  have c: "counted s'" using counted_step assms by (auto simp: checked_def)
  from assms show ?thesis
  proof cases
    case (read_unlock t ps l n l' ps')
    from read_unlock(6) show ?thesis
      by (cases rule: notified_cases)
        (use read_unlock assms(2) c num_nonneg [of ps] num_present [OF read_unlock(3,4)] in \<open>auto simp: checked_def exclusive_def counted_def lock_op_defs num_update split: if_splits\<close>)
  next
    case (write_unlock t ps l n l' ps')
    from write_unlock(6) show ?thesis
      by (cases rule: notified_cases)
        (use write_unlock assms(2) c num_nonneg [of ps] num_present [OF write_unlock(3,4)] in
          \<open>auto simp: checked_def exclusive_def counted_def lock_op_defs num_update split: if_splits\<close>)
  next
    case (write_woken t ps opt l)
    then show ?thesis
      using assms(2) c num_nonneg [of ps] num_present [OF write_woken(3,4)]
      by (cases opt) (auto simp: checked_def exclusive_def counted_def lock_op_defs num_update)
  next
    case (spurious t ps l)
    then have o: "ps ! t \<noteq> WaitsWrite AllowSpuriousWakeUp"
      using assms(2) num_present [of t ps "WaitsWrite AllowSpuriousWakeUp"] by (auto simp: checked_def)
    have ps: "ps ! t = WaitsRead \<or> ps ! t = WaitsWrite DisallowSpuriousWakeUp"
      using o spurious(5) WakeUpOption.exhaust by (cases "ps ! t") auto
    then have "exclusive (ps[t := wake (ps ! t)])"
      using ps assms(2) num_update [OF spurious(4), of "wake (ps ! t)"] num_nonneg [of ps]
      by (elim disjE) (simp_all add: checked_def exclusive_def spurious(1))
    moreover have "num (ps[t := wake (ps ! t)]) (WaitsWrite AllowSpuriousWakeUp) = 0"
      "num (ps[t := wake (ps ! t)]) (WokenWrite AllowSpuriousWakeUp) = 0"
      using ps assms(2) num_update [OF spurious(4), of "wake (ps ! t)"]
      by (elim disjE; simp add: checked_def spurious(1))+
    ultimately show ?thesis using c by (simp add: checked_def spurious(2))
  next
    case (read_lock t ps l p l')
    then show ?thesis using assms(2) c num_nonneg [of ps] num_present [OF read_lock(3,4)]
      by (auto simp: checked_def exclusive_def counted_def lock_op_defs num_update split: if_splits)
  next
    case (read_again t ps l p l')
    then show ?thesis using assms(2) c num_nonneg [of ps] num_present [OF read_again(3,4)]
      by (auto simp: checked_def exclusive_def counted_def lock_op_defs num_update split: if_splits)
  next
    case (write_lock t ps opt l p l')
    then show ?thesis using assms(2) c num_nonneg [of ps] num_present [OF write_lock(3,4)]
      by (auto simp: checked_def exclusive_def counted_def lock_op_defs num_update split: if_splits)
  qed
qed

lemma lock_init_ok: "orderly (lock_init n)" "checked (lock_init n)"
  by (simp_all add: orderly_def checked_def exclusive_def counted_def lock_init_def ReadWriteLock_new_def num_replicate)

lemma orderly_reachable: "lock_reaches {AllowSpuriousWakeUp} False s s' \<Longrightarrow> orderly s \<Longrightarrow> orderly s'"
  by (induction rule: rtranclp_induct) (use orderly_step in blast)+

lemma checked_reachable: "lock_reaches {DisallowSpuriousWakeUp} sp s s' \<Longrightarrow> checked s \<Longrightarrow> checked s'"
  by (induction rule: rtranclp_induct) (use checked_step in blast)+


lemma lock_run_reaches:
  "lock_step opts sp s s1 \<Longrightarrow> lock_reaches opts sp s1 s2 \<Longrightarrow> lock_reaches opts sp s s2"
  by (rule converse_rtranclp_into_rtranclp)

text \<open>A reader holds the lock while a writer waits; the reader releases and the writer enters.\<close>

lemma handover_run:
  "lock_reaches {AllowSpuriousWakeUp} False (lock_init 2)
    (\<lparr>write_count = 1, read_count = 0\<rparr>, [Idle, Writing])"
proof -
  have 1: "lock_step {AllowSpuriousWakeUp} False (lock_init 2) (\<lparr>write_count = 0, read_count = 1\<rparr>, [Reading, Idle])"
    using read_lock [of 0 "[Idle, Idle]" ReadWriteLock_new Reading _ "{AllowSpuriousWakeUp}" False]
    by (simp add: lock_init_def ReadWriteLock_new_def ReadLock_def numeral_2_eq_2)
  have 2: "lock_step {AllowSpuriousWakeUp} False (\<lparr>write_count = 0, read_count = 1\<rparr>, [Reading, Idle])
      (\<lparr>write_count = 1, read_count = 1\<rparr>, [Reading, WaitsWrite AllowSpuriousWakeUp])"
    using write_lock [of 1 "[Reading, Idle]" AllowSpuriousWakeUp "{AllowSpuriousWakeUp}"
      "\<lparr>write_count = 0, read_count = 1\<rparr>" "WaitsWrite AllowSpuriousWakeUp" _ False]
    by (simp add: WriteLock_def WriteWait_def)
  have "notified NotifyWriter [Idle, WaitsWrite AllowSpuriousWakeUp] [Idle, WokenWrite AllowSpuriousWakeUp]"
    using writer [of 1 "[Idle, WaitsWrite AllowSpuriousWakeUp]"] by simp
  then have 3: "lock_step {AllowSpuriousWakeUp} False (\<lparr>write_count = 1, read_count = 1\<rparr>, [Reading, WaitsWrite AllowSpuriousWakeUp])
      (\<lparr>write_count = 1, read_count = 0\<rparr>, [Idle, WokenWrite AllowSpuriousWakeUp])"
    by (intro read_unlock [where t = 0]) (simp_all add: ReadUnlock_def)
  have 4: "lock_step {AllowSpuriousWakeUp} False (\<lparr>write_count = 1, read_count = 0\<rparr>, [Idle, WokenWrite AllowSpuriousWakeUp])
      (\<lparr>write_count = 1, read_count = 0\<rparr>, [Idle, Writing])"
    using write_woken [of 1 "[Idle, WokenWrite AllowSpuriousWakeUp]" AllowSpuriousWakeUp]
    by (simp add: WriteLock_woken_def)
  show ?thesis by (intro lock_run_reaches [OF 1] lock_run_reaches [OF 2] lock_run_reaches [OF 3] lock_run_reaches [OF 4]) simp
qed


section \<open>No thread waits for ever\<close>

text \<open>The steps in which no thread asks for the lock anew.\<close>

definition serving :: "threads \<Rightarrow> threads \<Rightarrow> bool" where
  "serving s s' \<longleftrightarrow> lock_step {AllowSpuriousWakeUp} False s s' \<and> length (snd s') = length (snd s) \<and>
     (\<forall>t<length (snd s). snd s ! t = Idle \<longrightarrow> snd s' ! t = Idle)"

fun weight :: "pc \<Rightarrow> nat" where
  "weight Reading = 2"
| "weight Writing = 1"
| "weight WaitsRead = 1"
| "weight WokenRead = 3"
| "weight (WaitsWrite _) = 1"
| "weight (WokenWrite _) = 2"
| "weight Idle = 0"

lemma weight_update: "t < length ps \<Longrightarrow> sum_list (map weight (ps[t := p])) + weight (ps ! t) = sum_list (map weight ps) + weight p"
  by (induction ps arbitrary: t) (auto simp: less_Suc_eq_0_disj)

lemma notified_total: "\<exists>ps'. notified n ps ps'"
proof (cases n)
  case NotifyWriter
  show ?thesis
  proof (cases "\<exists>p\<in>set ps. waits_write p")
    case True
    then obtain u where "u < length ps" "waits_write (ps ! u)" by (auto simp: in_set_conv_nth)
    then show ?thesis using writer NotifyWriter by blast
  next
    case False
    then show ?thesis using no_writer [of ps] NotifyWriter by blast
  qed
qed auto

lemma notified_keeps:
  assumes "notified n ps ps'"
  shows "length ps' = length ps" "t < length ps \<Longrightarrow> ps ! t = Idle \<Longrightarrow> ps' ! t = Idle"
  using assms by (cases; auto simp: nth_list_update)+

lemma notified_weight:
  assumes "notified n ps ps'"
  shows "n \<noteq> NotifyReaders \<Longrightarrow> sum_list (map weight ps') \<le> sum_list (map weight ps) + 1"
  using assms
proof cases
  case (writer u)
  then obtain opt where "ps ! u = WaitsWrite opt" by (cases "ps ! u") auto
  then show ?thesis using weight_update [OF writer(3), of "wake (ps ! u)"] by (simp add: writer(2))
qed auto

text \<open>Serving decreases the number of writers, or the weight.\<close>

lemma serving_decreases:
  assumes "serving s s'" "orderly s"
  shows "(s', s) \<in> measures [\<lambda>s. nat (write_count (fst s)), \<lambda>s. sum_list (map weight (snd s))]"
proof -
  have "lock_step {AllowSpuriousWakeUp} False s s'" "\<And>t. t < length (snd s) \<Longrightarrow> snd s ! t = Idle \<Longrightarrow> snd s' ! t = Idle"
    using assms(1) by (auto simp: serving_def)
  then show ?thesis
  proof cases
    case (read_lock t ps l p l')
    then show ?thesis using \<open>\<And>t. _ \<Longrightarrow> _ \<Longrightarrow> snd s' ! t = Idle\<close> [of t] by (auto simp: ReadLock_def split: if_splits)
  next
    case (write_lock t ps opt l p l')
    then show ?thesis using \<open>\<And>t. _ \<Longrightarrow> _ \<Longrightarrow> snd s' ! t = Idle\<close> [of t] by (auto simp: lock_op_defs split: if_splits)
  next
    case (read_again t ps l p l')
    then show ?thesis using weight_update [OF read_again(3), of p] by (auto simp: ReadLock_def split: if_splits)
  next
    case (read_unlock t ps l n l' ps')
    have "n \<noteq> NotifyReaders" "write_count l' = write_count l" using read_unlock(5) by (auto simp: ReadUnlock_def Let_def split: if_splits)
    then show ?thesis
      using notified_weight [OF read_unlock(6)] weight_update [OF read_unlock(3), of Idle] read_unlock(1,2,4) by simp
  next
    case (write_woken t ps opt l)
    then have "opt = AllowSpuriousWakeUp"
      using assms(2) num_present [OF write_woken(3,4)] by (cases opt) (auto simp: orderly_def)
    then show ?thesis
      using write_woken weight_update [OF write_woken(3), of Writing] by (simp add: WriteLock_woken_def)
  next
    case (write_unlock t ps l n l' ps')
    have "1 \<le> write_count l"
      using assms(2) num_present [OF write_unlock(3,4)] num_nonneg [of ps] write_unlock(1) by (simp add: orderly_def counted_def)
    then show ?thesis using write_unlock by (auto simp: WriteUnlock_def Let_def)
  qed simp
qed

lemma serving_enabled:
  assumes "orderly s" "\<exists>p\<in>set (snd s). p \<noteq> Idle"
  shows "\<exists>s'. serving s s'"
proof -
  obtain l ps where s: "s = (l, ps)" by fastforce
  have served: "\<exists>s'. serving s s'" if "t < length ps" "ps ! t \<noteq> Idle" "\<not> (\<exists>opt. ps ! t = WaitsWrite opt)" "ps ! t \<noteq> WaitsRead" for t
  proof (cases "ps ! t")
    case Reading
    obtain n l' where n: "ReadUnlock l = (n, l')" by fastforce
    obtain ps' where ps': "notified n (ps[t := Idle]) ps'" using notified_total by blast
    have "serving s (l', ps')"
      using notified_keeps [OF ps'] read_unlock [OF that(1) Reading n ps'] that(1) by (auto simp: s serving_def nth_list_update)
    then show ?thesis by blast
  next
    case Writing
    obtain n l' where n: "WriteUnlock l = (n, l')" by fastforce
    obtain ps' where ps': "notified n (ps[t := Idle]) ps'" using notified_total by blast
    have "serving s (l', ps')"
      using notified_keeps [OF ps'] write_unlock [OF that(1) Writing n ps'] that(1) by (auto simp: s serving_def nth_list_update)
    then show ?thesis by blast
  next
    case WokenRead
    obtain p l' where n: "ReadLock l = (p, l')" by fastforce
    have "serving s (l', ps[t := p])"
      using read_again [OF that(1) WokenRead n] that(1,2) by (auto simp: s serving_def nth_list_update)
    then show ?thesis by blast
  next
    case (WokenWrite opt)
    have "serving s (l, ps[t := WriteLock_woken opt l])"
      using write_woken [OF that(1) WokenWrite] that(1,2) by (auto simp: s serving_def nth_list_update)
    then show ?thesis by blast
  qed (use that in auto)
  have present: "\<exists>s'. serving s s'" if "p \<in> set ps" "p \<noteq> Idle" "\<And>opt. p \<noteq> WaitsWrite opt" "p \<noteq> WaitsRead" for p
    using served that by (metis in_set_conv_nth)
  have writer: "\<exists>s'. serving s s'" if "WaitsWrite opt \<in> set ps" for opt
  proof -
    have "opt = AllowSpuriousWakeUp" using assms(1) that by (cases opt) (auto simp: orderly_def num_eq_0 s)
    then have "num ps (WaitsWrite AllowSpuriousWakeUp) \<noteq> 0" using that num_eq_0 by blast
    then have "num ps Writing \<noteq> 0 \<or> num ps (WokenWrite AllowSpuriousWakeUp) \<noteq> 0 \<or> num ps Reading \<noteq> 0"
      using assms(1) num_nonneg [of ps] by (auto simp: orderly_def s)
    then show ?thesis using present num_eq_0 by blast
  qed
  obtain p where p: "p \<in> set ps" "p \<noteq> Idle" using assms(2) by (auto simp: s)
  show ?thesis
  proof (cases p)
    case WaitsRead
    then have "num ps WaitsRead \<noteq> 0" using p(1) num_eq_0 by blast
    then have "0 < write_count l" using assms(1) num_nonneg [of ps] by (auto simp: orderly_def s)
    then have "num ps Writing \<noteq> 0 \<or> num ps (WokenWrite AllowSpuriousWakeUp) \<noteq> 0 \<or> num ps (WaitsWrite AllowSpuriousWakeUp) \<noteq> 0"
      using assms(1) by (auto simp: orderly_def counted_def s)
    then show ?thesis using present writer num_eq_0 by blast
  qed (use p present writer in blast)+
qed

lemma serving_reaches: "serving\<^sup>*\<^sup>* s s' \<Longrightarrow> lock_reaches {AllowSpuriousWakeUp} False s s'"
  by (rule rtranclp_mono [THEN predicate2D]) (auto simp: serving_def)



section \<open>The wake-up predicate can never become true\<close>

text \<open>Two writers wait together, and nobody holds the lock.\<close>

definition deadlocked :: "threads \<Rightarrow> bool" where
  "deadlocked s \<longleftrightarrow> counted s \<and> num (snd s) Reading = 0 \<and> num (snd s) Writing = 0 \<and> 2 \<le> write_count (fst s) \<and>
     num (snd s) (WaitsWrite AllowSpuriousWakeUp) = 0 \<and> num (snd s) (WokenWrite AllowSpuriousWakeUp) = 0"

lemma deadlocked_step:
  assumes "lock_step {DisallowSpuriousWakeUp} sp s s'" "deadlocked s"
  shows "deadlocked s'"
proof -
  have c: "counted s'" using counted_step assms by (auto simp: deadlocked_def)
  from assms(1) show ?thesis
  proof cases
    case (read_lock t ps l p l')
    then show ?thesis using assms(2) c by (auto simp: deadlocked_def lock_op_defs num_update split: if_splits)
  next
    case (read_again t ps l p l')
    then show ?thesis using assms(2) c by (auto simp: deadlocked_def lock_op_defs num_update split: if_splits)
  next
    case (read_unlock t ps l n l' ps')
    then show ?thesis using assms(2) num_present [OF read_unlock(3,4)] by (simp add: deadlocked_def)
  next
    case (write_lock t ps opt l p l')
    then show ?thesis using assms(2) c by (auto simp: deadlocked_def lock_op_defs num_update split: if_splits)
  next
    case (write_woken t ps opt l)
    then show ?thesis
      using assms(2) c num_present [OF write_woken(3,4)]
      by (cases opt) (auto simp: deadlocked_def lock_op_defs num_update)
  next
    case (write_unlock t ps l n l' ps')
    then show ?thesis using assms(2) num_present [OF write_unlock(3,4)] by (simp add: deadlocked_def)
  next
    case (spurious t ps l)
    have "ps ! t \<noteq> WaitsWrite AllowSpuriousWakeUp"
      using assms(2) num_present [of t ps "WaitsWrite AllowSpuriousWakeUp"] spurious by (auto simp: deadlocked_def)
    then have "ps ! t = WaitsRead \<or> ps ! t = WaitsWrite DisallowSpuriousWakeUp"
      using spurious(5) WakeUpOption.exhaust by (cases "ps ! t") auto
    then show ?thesis
      using assms(2) c num_update [OF spurious(4), of "wake (ps ! t)"] spurious(1,2)
      by (elim disjE) (simp_all add: deadlocked_def)
  qed
qed

text \<open>With the option \<open>DisallowSpuriousWakeUp\<close> the lock deadlocks: a waiting writer counts itself and
  every other writer in \<open>write_count_\<close>, so when two of them wait, the predicate
  \<open>write_count_ <= 1\<close> is false for ever. From a state where two writers wait and nobody holds the
  lock, nobody ever gets it again, whatever wake-ups there are.\<close>

theorem disallow_deadlocks:
  assumes "lock_reaches {DisallowSpuriousWakeUp} False (lock_init n) (l, ps)"
    and "2 \<le> count (mset ps) (WaitsWrite DisallowSpuriousWakeUp)" "Reading \<notin> set ps" "Writing \<notin> set ps"
    and "lock_reaches {DisallowSpuriousWakeUp} sp (l, ps) s"
  shows "Reading \<notin> set (snd s) \<and> Writing \<notin> set (snd s)"
proof -
  have "checked (l, ps)" by (rule checked_reachable [OF assms(1) lock_init_ok(2)])
  moreover have "num ps (WaitsWrite DisallowSpuriousWakeUp) \<ge> 2" using assms(2) by (simp add: num_def)
  ultimately have "deadlocked (l, ps)"
    using assms(3,4) num_eq_0 [of ps Reading] num_eq_0 [of ps Writing] num_nonneg [of ps]
    by (simp add: checked_def deadlocked_def counted_def)
  with assms(5) have "deadlocked s"
    by (induction rule: rtranclp_induct) (use deadlocked_step in blast)+
  then show ?thesis by (simp add: deadlocked_def num_eq_0)
qed

lemma two_writers_run:
  "lock_reaches {DisallowSpuriousWakeUp} False (lock_init 3)
    (\<lparr>write_count = 2, read_count = 0\<rparr>, [Idle, WaitsWrite DisallowSpuriousWakeUp, WaitsWrite DisallowSpuriousWakeUp])"
proof -
  let ?d = DisallowSpuriousWakeUp
  have 1: "lock_step {?d} False (lock_init 3) (\<lparr>write_count = 0, read_count = 1\<rparr>, [Reading, Idle, Idle])"
    using read_lock [of 0 "[Idle, Idle, Idle]" ReadWriteLock_new Reading _ "{?d}" False]
    by (simp add: lock_init_def ReadWriteLock_new_def ReadLock_def numeral_3_eq_3)
  have 2: "lock_step {?d} False (\<lparr>write_count = 0, read_count = 1\<rparr>, [Reading, Idle, Idle])
      (\<lparr>write_count = 1, read_count = 1\<rparr>, [Reading, WaitsWrite ?d, Idle])"
    using write_lock [of 1 "[Reading, Idle, Idle]" ?d "{?d}" "\<lparr>write_count = 0, read_count = 1\<rparr>" "WaitsWrite ?d" _ False]
    by (simp add: WriteLock_def WriteWait_def)
  have 3: "lock_step {?d} False (\<lparr>write_count = 1, read_count = 1\<rparr>, [Reading, WaitsWrite ?d, Idle])
      (\<lparr>write_count = 2, read_count = 1\<rparr>, [Reading, WaitsWrite ?d, WaitsWrite ?d])"
    using write_lock [of 2 "[Reading, WaitsWrite ?d, Idle]" ?d "{?d}" "\<lparr>write_count = 1, read_count = 1\<rparr>" "WaitsWrite ?d" _ False]
    by (simp add: WriteLock_def WriteWait_def)
  have "notified NotifyWriter [Idle, WaitsWrite ?d, WaitsWrite ?d] [Idle, WokenWrite ?d, WaitsWrite ?d]"
    using writer [of 1 "[Idle, WaitsWrite ?d, WaitsWrite ?d]"] by simp
  then have 4: "lock_step {?d} False (\<lparr>write_count = 2, read_count = 1\<rparr>, [Reading, WaitsWrite ?d, WaitsWrite ?d])
      (\<lparr>write_count = 2, read_count = 0\<rparr>, [Idle, WokenWrite ?d, WaitsWrite ?d])"
    by (intro read_unlock [where t = 0]) (simp_all add: ReadUnlock_def)
  have 5: "lock_step {?d} False (\<lparr>write_count = 2, read_count = 0\<rparr>, [Idle, WokenWrite ?d, WaitsWrite ?d])
      (\<lparr>write_count = 2, read_count = 0\<rparr>, [Idle, WaitsWrite ?d, WaitsWrite ?d])"
    using write_woken [of 1 "[Idle, WokenWrite ?d, WaitsWrite ?d]" ?d "{?d}" False "\<lparr>write_count = 2, read_count = 0\<rparr>"] by (simp add: WriteLock_woken_def WriteWait_def)
  show ?thesis
    by (intro lock_run_reaches [OF 1] lock_run_reaches [OF 2] lock_run_reaches [OF 3] lock_run_reaches [OF 4]
        lock_run_reaches [OF 5]) simp
qed

theorem disallow_deadlocks_witness:
  "Writing \<notin> set [Idle, WaitsWrite DisallowSpuriousWakeUp, WaitsWrite DisallowSpuriousWakeUp]"
  using disallow_deadlocks [OF two_writers_run, of False] by simp

text \<open>With the default option one spurious wake-up is enough for two writers at once.\<close>

lemma spurious_breaks_exclusion:
  "lock_reaches {AllowSpuriousWakeUp} True (lock_init 2) (\<lparr>write_count = 2, read_count = 0\<rparr>, [Writing, Writing])"
proof -
  let ?a = AllowSpuriousWakeUp
  have 1: "lock_step {?a} True (lock_init 2) (\<lparr>write_count = 1, read_count = 0\<rparr>, [Writing, Idle])"
    using write_lock [of 0 "[Idle, Idle]" ?a "{?a}" ReadWriteLock_new Writing _ True]
    by (simp add: lock_init_def ReadWriteLock_new_def WriteLock_def WriteWait_def numeral_2_eq_2)
  have 2: "lock_step {?a} True (\<lparr>write_count = 1, read_count = 0\<rparr>, [Writing, Idle])
      (\<lparr>write_count = 2, read_count = 0\<rparr>, [Writing, WaitsWrite ?a])"
    using write_lock [of 1 "[Writing, Idle]" ?a "{?a}" "\<lparr>write_count = 1, read_count = 0\<rparr>" "WaitsWrite ?a" _ True]
    by (simp add: WriteLock_def WriteWait_def)
  have 3: "lock_step {?a} True (\<lparr>write_count = 2, read_count = 0\<rparr>, [Writing, WaitsWrite ?a])
      (\<lparr>write_count = 2, read_count = 0\<rparr>, [Writing, WokenWrite ?a])"
    using spurious [of True 1 "[Writing, WaitsWrite ?a]"] by simp
  have 4: "lock_step {?a} True (\<lparr>write_count = 2, read_count = 0\<rparr>, [Writing, WokenWrite ?a])
      (\<lparr>write_count = 2, read_count = 0\<rparr>, [Writing, Writing])"
    using write_woken [of 1 "[Writing, WokenWrite ?a]" ?a] by (simp add: WriteLock_woken_def)
  show ?thesis by (intro lock_run_reaches [OF 1] lock_run_reaches [OF 2] lock_run_reaches [OF 3] lock_run_reaches [OF 4]) simp
qed

end
