(* ===== verification/DualList.thy ===== *)
theory DualList
  imports Prelude
begin

text \<open>
  \<open>neko_base::DualList\<close> (\<open>include/util/dual_list.h\<close>): a doubly linked list with a dummy node
  at each end, on an explicit store. An address is a number, a freed node is absent from the
  store, a null pointer is \<open>None\<close>; following a null pointer is the fault \<open>Uninit\<close> and touching a
  freed node the fault \<open>UseAfterFree\<close>. The data of a dummy node is uninitialised, \<open>None\<close>.

  \<open>dual d xs\<close> relates the store to the list of the addresses of its proper nodes, front
  first; the lemmas say what each operation does to that list and to the data.
\<close>

section \<open>State\<close>

record 'a DualListNode =
  node_data :: "'a option"
  prev_ptr :: "nat option"
  next_ptr :: "nat option"

record 'a dual_list =
  store :: "nat \<rightharpoonup> 'a DualListNode"
  fresh :: nat
  head_ptr :: "nat option"
  tail_ptr :: "nat option"
  dl_size :: nat

definition DualList_new :: "'a dual_list" where
  "DualList_new = \<lparr>store = Map.empty, fresh = 0, head_ptr = None, tail_ptr = None, dl_size = 0\<rparr>"

section \<open>Following and setting pointers\<close>

fun deref :: "nat option \<Rightarrow> nat res" where
  "deref None = Inl Uninit"
| "deref (Some a) = Inr a"

definition node_at :: "'a dual_list \<Rightarrow> nat \<Rightarrow> 'a DualListNode res" where
  "node_at d a = (case store d a of None \<Rightarrow> Inl UseAfterFree | Some n \<Rightarrow> Inr n)"

definition set_next_ptr :: "nat \<Rightarrow> nat option \<Rightarrow> 'a dual_list \<Rightarrow> 'a dual_list res" where
  "set_next_ptr a p d = rmap (\<lambda>n. d\<lparr>store := (store d)(a \<mapsto> n\<lparr>next_ptr := p\<rparr>)\<rparr>) (node_at d a)"

definition set_prev_ptr :: "nat \<Rightarrow> nat option \<Rightarrow> 'a dual_list \<Rightarrow> 'a dual_list res" where
  "set_prev_ptr a p d = rmap (\<lambda>n. d\<lparr>store := (store d)(a \<mapsto> n\<lparr>prev_ptr := p\<rparr>)\<rparr>) (node_at d a)"

definition get_next_ptr :: "nat \<Rightarrow> 'a dual_list \<Rightarrow> nat res" where
  "get_next_ptr a d = rbind (node_at d a) (\<lambda>n. deref (next_ptr n))"

definition get_prev_ptr :: "nat \<Rightarrow> 'a dual_list \<Rightarrow> nat res" where
  "get_prev_ptr a d = rbind (node_at d a) (\<lambda>n. deref (prev_ptr n))"

definition new_node :: "'a option \<Rightarrow> 'a dual_list \<Rightarrow> nat \<times> 'a dual_list" where
  "new_node v d =
     (fresh d, d\<lparr>store := (store d)(fresh d \<mapsto> \<lparr>node_data = v, prev_ptr = None, next_ptr = None\<rparr>),
       fresh := fresh d + 1\<rparr>)"

section \<open>Operations\<close>

text \<open>The statements of the code in order; \<open>p->q->r = x\<close> reads \<open>p->q\<close> when it is executed.\<close>

definition MoveFront :: "nat \<Rightarrow> 'a dual_list \<Rightarrow> 'a dual_list res" where
  "MoveFront a d =
     rbind (get_prev_ptr a d) (\<lambda>p. rbind (node_at d a) (\<lambda>n. rbind (set_next_ptr p (next_ptr n) d) (\<lambda>d1.
     rbind (get_next_ptr a d1) (\<lambda>q. rbind (node_at d1 a) (\<lambda>n1. rbind (set_prev_ptr q (prev_ptr n1) d1) (\<lambda>d2.
     rbind (deref (head_ptr d2)) (\<lambda>h. rbind (node_at d2 h) (\<lambda>hn.
     rbind (set_next_ptr a (next_ptr hn) d2) (\<lambda>d3.
     rbind (set_prev_ptr a (Some h) d3) (\<lambda>d4.
     rbind (get_next_ptr h d4) (\<lambda>f. rbind (set_prev_ptr f (Some a) d4) (\<lambda>d5.
     set_next_ptr h (Some a) d5))))))))))))"

definition InitHeadTailNodes :: "'a dual_list \<Rightarrow> 'a dual_list res" where
  "InitHeadTailNodes d =
     (let (h, d1) = new_node None d; (t, d2) = new_node None d1 in
      rbind (set_next_ptr h (Some t) (d2\<lparr>head_ptr := Some h, tail_ptr := Some t\<rparr>)) (\<lambda>d3.
      set_prev_ptr t (Some h) d3))"

definition PushFront :: "'a \<Rightarrow> 'a dual_list \<Rightarrow> (nat \<times> 'a dual_list) res" where
  "PushFront t d =
     (let (a, d0) = new_node (Some t) d in
      rbind (if dl_size d0 = 0 then InitHeadTailNodes d0 else Inr d0) (\<lambda>d1.
      rbind (deref (head_ptr d1)) (\<lambda>h. rbind (node_at d1 h) (\<lambda>hn.
      rbind (set_next_ptr a (next_ptr hn) d1) (\<lambda>d2.
      rbind (get_next_ptr a d2) (\<lambda>q. rbind (set_prev_ptr q (Some a) d2) (\<lambda>d3.
      rbind (set_next_ptr h (Some a) d3) (\<lambda>d4.
      rbind (set_prev_ptr a (Some h) d4) (\<lambda>d5.
      Inr (a, d5\<lparr>dl_size := dl_size d5 + 1\<rparr>))))))))))"

definition PopBack :: "'a dual_list \<Rightarrow> 'a dual_list res" where
  "PopBack d =
     rbind (deref (tail_ptr d)) (\<lambda>t. rbind (get_prev_ptr t d) (\<lambda>prev_node.
     rbind (node_at d prev_node) (\<lambda>pn.
     rbind (set_prev_ptr t (prev_ptr pn) d) (\<lambda>d1.
     rbind (get_prev_ptr t d1) (\<lambda>p. rbind (set_next_ptr p (Some t) d1) (\<lambda>d2.
     rbind (node_at d2 prev_node) (\<lambda>_.
     Inr (d2\<lparr>store := (store d2)(prev_node := None), dl_size := dl_size d2 - 1\<rparr>))))))))"

definition read_data :: "nat \<Rightarrow> 'a dual_list \<Rightarrow> 'a res" where
  "read_data a d =
     rbind (node_at d a) (\<lambda>n. case node_data n of None \<Rightarrow> Inl Uninit | Some v \<Rightarrow> Inr v)"

definition write_data :: "nat \<Rightarrow> 'a \<Rightarrow> 'a dual_list \<Rightarrow> 'a dual_list res" where
  "write_data a v d =
     rmap (\<lambda>n. d\<lparr>store := (store d)(a \<mapsto> n\<lparr>node_data := Some v\<rparr>)\<rparr>) (node_at d a)"

definition Back :: "'a dual_list \<Rightarrow> 'a res" where
  "Back d = rbind (deref (tail_ptr d)) (\<lambda>t. rbind (get_prev_ptr t d) (\<lambda>p. read_data p d))"

text \<open>The destructor: every round reads \<open>p->next\<close> and frees \<open>p\<close>; there cannot be more rounds than
  addresses that were handed out.\<close>

fun delete_nodes :: "nat \<Rightarrow> nat option \<Rightarrow> 'a dual_list \<Rightarrow> 'a dual_list res" where
  "delete_nodes fuel None d = Inr d"
| "delete_nodes 0 (Some p) d = Inl OutOfFuel"
| "delete_nodes (Suc fuel) (Some p) d =
     rbind (node_at d p) (\<lambda>n. delete_nodes fuel (next_ptr n) (d\<lparr>store := (store d)(p := None)\<rparr>))"

definition DualList_delete :: "'a dual_list \<Rightarrow> 'a dual_list res" where
  "DualList_delete d =
     (if head_ptr d = None \<or> tail_ptr d = None then Inr d else delete_nodes (fresh d) (head_ptr d) d)"

section \<open>The list a store represents\<close>

definition nx :: "'a dual_list \<Rightarrow> nat \<Rightarrow> nat option" where
  "nx d a = Option.bind (store d a) next_ptr"

definition pv :: "'a dual_list \<Rightarrow> nat \<Rightarrow> nat option" where
  "pv d a = Option.bind (store d a) prev_ptr"

definition data_at :: "'a dual_list \<Rightarrow> nat \<Rightarrow> 'a option" where
  "data_at d a = Option.bind (store d a) node_data"

fun linked :: "(nat \<Rightarrow> nat option) \<Rightarrow> (nat \<Rightarrow> nat option) \<Rightarrow> nat list \<Rightarrow> bool" where
  "linked n p (a # b # xs) \<longleftrightarrow> n a = Some b \<and> p b = Some a \<and> linked n p (b # xs)"
| "linked n p xs \<longleftrightarrow> True"

definition ends :: "'a dual_list \<Rightarrow> nat \<Rightarrow> nat list \<Rightarrow> nat \<Rightarrow> bool" where
  "ends d h xs t \<longleftrightarrow> head_ptr d = Some h \<and> tail_ptr d = Some t \<and> distinct (h # xs @ [t]) \<and>
     linked (nx d) (pv d) (h # xs @ [t]) \<and> set (h # xs @ [t]) \<subseteq> dom (store d)"

definition dual :: "'a dual_list \<Rightarrow> nat list \<Rightarrow> bool" where
  "dual d xs \<longleftrightarrow> dl_size d = length xs \<and> (\<forall>a. fresh d \<le> a \<longrightarrow> store d a = None) \<and>
     (xs \<noteq> [] \<longrightarrow> (\<exists>h t. ends d h xs t))"

lemma linked_append: "linked n p (xs @ a # ys) \<longleftrightarrow> linked n p (xs @ [a]) \<and> linked n p (a # ys)"
proof (induction xs)
  case (Cons x xs)
  then show ?case by (cases xs) auto
qed simp

lemma linked_join: "linked n p (xs @ ys) \<longleftrightarrow> linked n p xs \<and> linked n p ys \<and>
    (xs \<noteq> [] \<longrightarrow> ys \<noteq> [] \<longrightarrow> n (last xs) = Some (hd ys) \<and> p (hd ys) = Some (last xs))"
proof (induction xs)
  case (Cons x xs)
  then show ?case by (cases xs; cases ys) auto
qed simp

lemma linked_upd:
  "a \<notin> set (butlast xs) \<Longrightarrow> linked (n(a := v)) p xs \<longleftrightarrow> linked n p xs"
  "b \<notin> set (tl xs) \<Longrightarrow> linked n (p(b := v)) xs \<longleftrightarrow> linked n p xs"
  by (induction n p xs rule: linked.induct) auto

lemma linked_cong:
  "\<forall>a\<in>set xs. n a = n' a \<and> p a = p' a \<Longrightarrow> linked n p xs \<longleftrightarrow> linked n' p' xs"
  by (induction n p xs rule: linked.induct) auto

lemma not_in_parts:
  "a \<notin> set xs \<Longrightarrow> a \<notin> set (butlast xs)" "a \<notin> set xs \<Longrightarrow> a \<notin> set (tl xs)"
  "distinct xs \<Longrightarrow> xs \<noteq> [] \<Longrightarrow> last xs \<notin> set (butlast xs)"
  "distinct xs \<Longrightarrow> xs \<noteq> [] \<Longrightarrow> hd xs \<notin> set (tl xs)"
proof -
  show "a \<notin> set xs \<Longrightarrow> a \<notin> set (butlast xs)" by (auto dest: in_set_butlastD)
  show "a \<notin> set xs \<Longrightarrow> a \<notin> set (tl xs)" by (cases xs) auto
  show "distinct xs \<Longrightarrow> xs \<noteq> [] \<Longrightarrow> last xs \<notin> set (butlast xs)" by (cases xs rule: rev_cases) auto
  show "distinct xs \<Longrightarrow> xs \<noteq> [] \<Longrightarrow> hd xs \<notin> set (tl xs)" by (cases xs) auto
qed

text \<open>Everything but the pointers stays.\<close>

definition same_nodes :: "'a dual_list \<Rightarrow> 'a dual_list \<Rightarrow> bool" where
  "same_nodes d d' \<longleftrightarrow> dom (store d') = dom (store d) \<and> data_at d' = data_at d \<and> fresh d' = fresh d \<and>
     head_ptr d' = head_ptr d \<and> tail_ptr d' = tail_ptr d \<and> dl_size d' = dl_size d"

lemma same_nodes_refl: "same_nodes d d"
  by (simp add: same_nodes_def)

lemma same_nodes_trans: "same_nodes d d1 \<Longrightarrow> same_nodes d1 d2 \<Longrightarrow> same_nodes d d2"
  by (simp add: same_nodes_def)

lemma size_upd_simps [simp]: "nx (d\<lparr>dl_size := n\<rparr>) = nx d" "pv (d\<lparr>dl_size := n\<rparr>) = pv d"
    "data_at (d\<lparr>dl_size := n\<rparr>) = data_at d"
  by (simp_all add: nx_def pv_def data_at_def fun_eq_iff)

lemma same_nodes_None: "same_nodes d d' \<Longrightarrow> store d' b = None \<longleftrightarrow> store d b = None"
  unfolding same_nodes_def by (metis domIff)

lemma set_next_ptr_eq:
  assumes "a \<in> dom (store d)"
  shows "\<exists>d'. set_next_ptr a p d = Inr d' \<and> same_nodes d d' \<and> nx d' = (nx d)(a := p) \<and> pv d' = pv d"
  using assms
  by (auto simp: set_next_ptr_def node_at_def same_nodes_def nx_def pv_def data_at_def fun_eq_iff)

lemma set_prev_ptr_eq:
  assumes "a \<in> dom (store d)"
  shows "\<exists>d'. set_prev_ptr a p d = Inr d' \<and> same_nodes d d' \<and> nx d' = nx d \<and> pv d' = (pv d)(a := p)"
  using assms
  by (auto simp: set_prev_ptr_def node_at_def same_nodes_def nx_def pv_def data_at_def fun_eq_iff)

lemma get_ptr_eq:
  "nx d a = Some b \<Longrightarrow> get_next_ptr a d = Inr b" "pv d a = Some b \<Longrightarrow> get_prev_ptr a d = Inr b"
  by (auto simp: get_next_ptr_def get_prev_ptr_def node_at_def nx_def pv_def bind_eq_Some_conv)

lemma node_at_eq:
  "a \<in> dom (store d) \<Longrightarrow> \<exists>n. node_at d a = Inr n \<and> next_ptr n = nx d a \<and> prev_ptr n = pv d a \<and> node_data n = data_at d a"
  by (auto simp: node_at_def nx_def pv_def data_at_def)

section \<open>What the operations do\<close>

lemma MoveFront_pointers:
  assumes "linked (nx d) (pv d) (h # us @ a # vs @ [t])" "distinct (h # us @ a # vs @ [t])"
    and "set (h # us @ a # vs @ [t]) \<subseteq> dom (store d)" "head_ptr d = Some h"
  shows "\<exists>d' p q f. MoveFront a d = Inr d' \<and> same_nodes d d' \<and>
    p = last (h # us) \<and> q = hd (vs @ [t]) \<and> f = hd (us @ vs @ [t]) \<and>
    nx d' = (nx d)(p := Some q, a := Some f, h := Some a) \<and>
    pv d' = (pv d)(q := Some p, a := Some h, f := Some a)"
proof -
  let ?p = "last (h # us)" and ?q = "hd (vs @ [t])" and ?f = "hd (us @ vs @ [t])"
  have pa: "pv d a = Some ?p" "nx d ?p = Some a"
  proof -
    have "linked (nx d) (pv d) (butlast (h # us) @ ?p # a # vs @ [t])"
      using assms(1) by (metis append_butlast_last_id append.assoc append_Cons append_Nil list.distinct(1))
    then show "pv d a = Some ?p" "nx d ?p = Some a" by (subst (asm) linked_append, simp)+
  qed
  have qa: "nx d a = Some ?q" "pv d ?q = Some a"
    using assms(1) linked_append [of "nx d" "pv d" "h # us" a "vs @ [t]"] by (cases vs; simp)+
  have hf: "nx d h = Some (hd (us @ [a]))" using assms(1) by (cases us) simp_all
  have p_in: "?p \<in> dom (store d)" "?p \<noteq> a" "?p \<in> set (h # us)"
    using assms(2,3) last_in_set [of "h # us"] by auto
  have q_in: "?q \<in> set (vs @ [t])" using hd_in_set [of "vs @ [t]"] by simp
  then have q_dom: "?q \<in> dom (store d)" "?q \<noteq> a" "?q \<noteq> h" "?q \<noteq> ?p"
    using assms(2,3) p_in(3) by auto
  have in_dom: "a \<in> dom (store d)" "h \<in> dom (store d)" "h \<noteq> a" using assms(2,3) by auto
  obtain n where n: "node_at d a = Inr n" "next_ptr n = nx d a" using node_at_eq [OF in_dom(1)] by blast
  obtain d1 where d1: "set_next_ptr ?p (Some ?q) d = Inr d1" "same_nodes d d1"
    "nx d1 = (nx d)(?p := Some ?q)" "pv d1 = pv d" using set_next_ptr_eq [OF p_in(1)] by blast
  have dom1: "dom (store d1) = dom (store d)" using d1(2) by (simp add: same_nodes_def)
  obtain n1 where n1: "node_at d1 a = Inr n1" "prev_ptr n1 = pv d a"
    using node_at_eq [of a d1] in_dom(1) dom1 d1(4) by auto
  obtain d2 where d2: "set_prev_ptr ?q (Some ?p) d1 = Inr d2" "same_nodes d1 d2"
    "nx d2 = nx d1" "pv d2 = (pv d1)(?q := Some ?p)" using set_prev_ptr_eq [of ?q d1] q_dom(1) dom1 by auto
  have dom2: "dom (store d2) = dom (store d)" "head_ptr d2 = Some h"
    using d1(2) d2(2) assms(4) by (simp_all add: same_nodes_def)
  have hn: "nx d2 h = Some ?f"
    using hf d1(3) d2(3) p_in(3) assms(2) by (cases us) auto
  obtain hn where hn': "node_at d2 h = Inr hn" "next_ptr hn = Some ?f"
    using node_at_eq [of h d2] in_dom(2) dom2 hn by auto
  obtain d3 where d3: "set_next_ptr a (Some ?f) d2 = Inr d3" "same_nodes d2 d3"
    "nx d3 = (nx d2)(a := Some ?f)" "pv d3 = pv d2" using set_next_ptr_eq [of a d2] in_dom dom2 by auto
  have dom3: "dom (store d3) = dom (store d)" using d3(2) dom2 by (simp add: same_nodes_def)
  obtain d4 where d4: "set_prev_ptr a (Some h) d3 = Inr d4" "same_nodes d3 d4"
    "nx d4 = nx d3" "pv d4 = (pv d3)(a := Some h)"
    using set_prev_ptr_eq [of a d3 "Some h"] in_dom(1) dom3 by auto
  have dom4: "dom (store d4) = dom (store d)" using d4(2) dom3 by (simp add: same_nodes_def)
  have nh: "nx d4 h = Some ?f" using hn d3(3) d4(3) in_dom(3) by simp
  have f_dom: "?f \<in> dom (store d)" using assms(3) hd_in_set [of "us @ vs @ [t]"] by auto
  obtain d5 where d5: "set_prev_ptr ?f (Some a) d4 = Inr d5" "same_nodes d4 d5"
    "nx d5 = nx d4" "pv d5 = (pv d4)(?f := Some a)"
    using set_prev_ptr_eq [of ?f d4] f_dom dom4 by auto
  have dom5: "dom (store d5) = dom (store d)" using d5(2) dom4 by (simp add: same_nodes_def)
  obtain d6 where d6: "set_next_ptr h (Some a) d5 = Inr d6" "same_nodes d5 d6"
    "nx d6 = (nx d5)(h := Some a)" "pv d6 = pv d5"
    using set_next_ptr_eq [of h d5] in_dom(2) dom5 by auto
  have "get_next_ptr a d1 = Inr ?q" using qa(1) d1(3) p_in(2) by (intro get_ptr_eq) auto
  then have "MoveFront a d = Inr d6"
    using get_ptr_eq(2) [OF pa(1)] n qa(1) d1(1) n1 pa(1) d2(1) dom2(2) hn' d3(1) d4(1) get_ptr_eq(1) [OF nh] d5(1) d6(1)
    by (simp add: MoveFront_def del: last.simps)
  moreover have "same_nodes d d6" using d1(2) d2(2) d3(2) d4(2) d5(2) d6(2) by (simp add: same_nodes_def)
  ultimately show ?thesis using d1 d2 d3 d4 d5 d6 by (intro exI [of _ d6] exI conjI) (simp_all del: last.simps)
qed

lemma MoveFront_ends:
  assumes "ends d h (us @ a # vs) t"
  shows "\<exists>d'. MoveFront a d = Inr d' \<and> same_nodes d d' \<and> ends d' h (a # us @ vs) t"
proof -
  have l: "linked (nx d) (pv d) (h # us @ a # vs @ [t])" and dist: "distinct (h # us @ a # vs @ [t])"
    and "set (h # us @ a # vs @ [t]) \<subseteq> dom (store d)" "head_ptr d = Some h"
    using assms by (simp_all add: ends_def)
  then obtain d' p q f where d': "MoveFront a d = Inr d'" "same_nodes d d'"
    "p = last (h # us)" "q = hd (vs @ [t])" "f = hd (us @ vs @ [t])"
    "nx d' = (nx d)(p := Some q, a := Some f, h := Some a)"
    "pv d' = (pv d)(q := Some p, a := Some h, f := Some a)"
    using MoveFront_pointers [of d h us a vs t] by blast
  define ws where "ws = vs @ [t]"
  have ws: "ws \<noteq> []" "distinct ws" "distinct us" "a \<notin> set ws" "h \<notin> set ws" "a \<notin> set us" "h \<notin> set us" "h \<noteq> a"
    "set us \<inter> set ws = {}"
    using dist by (auto simp: ws_def)
  have "q = hd ws" using d'(4) by (simp add: ws_def)
  then have q: "q \<in> set ws" "q = hd ws" using hd_in_set [OF ws(1)] by simp_all
  have parts: "linked (nx d) (pv d) us" "linked (nx d) (pv d) ws"
    using l linked_join [of "nx d" "pv d" "h # us @ [a]" ws] linked_join [of "nx d" "pv d" "h # us" "a # ws"]
      linked_join [of "nx d" "pv d" "[h]" us] by (simp_all add: ws_def)
  have "linked (nx d') (pv d') (h # a # us @ ws)"
  proof (cases "us = []")
    case True
    then have "p = h" "f = q" using d'(3-5) by (simp_all add: ws_def)
    then have "linked (nx d') (pv d') ws"
      unfolding d'(6,7) using ws q(2) parts(2) by (simp add: linked_upd not_in_parts)
    then show ?thesis
      using True \<open>p = h\<close> \<open>f = q\<close> ws q linked_join [of "nx d'" "pv d'" "[h, a]" ws] unfolding d'(6,7) by auto
  next
    case False
    then have pf: "p = last us" "f = hd us" "p \<in> set us" "f \<in> set us" using d'(3-5) by simp_all
    have out: "q \<notin> set us" "p \<notin> set ws" "f \<notin> set ws" using ws(9) q pf by auto
    have "linked (nx d') (pv d') us"
      unfolding d'(6,7) using ws out pf(1,2) parts(1) False by (simp add: linked_upd not_in_parts)
    moreover have "linked (nx d') (pv d') ws"
      unfolding d'(6,7) using ws out q(2) parts(2) by (simp add: linked_upd not_in_parts)
    moreover have "nx d' p = Some q" "pv d' q = Some p" "nx d' a = Some f" "pv d' f = Some a"
      "nx d' h = Some a" "pv d' a = Some h"
      unfolding d'(6,7) using ws pf q out by auto
    ultimately show ?thesis
      using False ws(1) pf(1,2) q(2) linked_join [of "nx d'" "pv d'" "[h, a]" "us @ ws"] by (simp add: linked_join)
  qed
  then have "ends d' h (a # us @ vs) t"
    using assms d'(2) by (auto simp: ends_def same_nodes_def ws_def)
  then show ?thesis using d'(1,2) by blast
qed

lemma MoveFront_dual:
  assumes "dual d (us @ a # vs)"
  shows "\<exists>d'. MoveFront a d = Inr d' \<and> same_nodes d d' \<and> dual d' (a # us @ vs)"
proof -
  obtain h t where e: "ends d h (us @ a # vs) t" using assms by (auto simp: dual_def)
  from MoveFront_ends [OF e] obtain d' where
    d': "MoveFront a d = Inr d'" "same_nodes d d'" "ends d' h (a # us @ vs) t" by blast
  moreover have "store d' b = None" if "fresh d' \<le> b" for b
    using that assms d'(2) same_nodes_None [OF d'(2)] by (simp add: dual_def same_nodes_def)
  ultimately show ?thesis using assms by (auto simp: dual_def same_nodes_def)
qed

lemma InitHeadTail_eq:
  "InitHeadTailNodes d = Inr (d\<lparr>store := (store d)
      (fresh d \<mapsto> \<lparr>node_data = None, prev_ptr = None, next_ptr = Some (fresh d + 1)\<rparr>,
       fresh d + 1 \<mapsto> \<lparr>node_data = None, prev_ptr = Some (fresh d), next_ptr = None\<rparr>),
     fresh := fresh d + 2, head_ptr := Some (fresh d), tail_ptr := Some (fresh d + 1)\<rparr>)"
  by (simp add: InitHeadTailNodes_def new_node_def set_next_ptr_def set_prev_ptr_def node_at_def)

text \<open>A new node in front of \<open>f\<close>, the first node or the dummy tail.\<close>

lemma PushFront_ends:
  assumes "ends d h xs t" "dl_size d = length xs" "a \<in> dom (store d)" "a \<notin> set (h # xs @ [t])"
  shows "\<exists>d'. rbind (node_at d h) (\<lambda>hn. rbind (set_next_ptr a (next_ptr hn) d) (\<lambda>d2.
      rbind (get_next_ptr a d2) (\<lambda>q. rbind (set_prev_ptr q (Some a) d2) (\<lambda>d3.
      rbind (set_next_ptr h (Some a) d3) (\<lambda>d4. set_prev_ptr a (Some h) d4))))) = Inr d' \<and>
    same_nodes d d' \<and> ends d' h (a # xs) t \<and>
    nx d' = (nx d)(a := Some (hd (xs @ [t])), h := Some a) \<and>
    pv d' = (pv d)(hd (xs @ [t]) := Some a, a := Some h)"
proof -
  let ?ws = "xs @ [t]" and ?f = "hd (xs @ [t])"
  have e: "linked (nx d) (pv d) (h # ?ws)" "distinct (h # ?ws)" "set (h # ?ws) \<subseteq> dom (store d)"
    using assms(1) by (simp_all add: ends_def)
  have f: "nx d h = Some ?f" "?f \<in> set ?ws" "linked (nx d) (pv d) ?ws"
    using e(1) linked_join [of "nx d" "pv d" "[h]" ?ws] hd_in_set [of ?ws] by simp_all
  have doms: "h \<in> dom (store d)" "?f \<in> dom (store d)" "h \<noteq> a" "?f \<noteq> a" "?f \<noteq> h"
    using e(2,3) f(2) assms(4) by auto
  obtain hn where hn: "node_at d h = Inr hn" "next_ptr hn = Some ?f" using node_at_eq [OF doms(1)] f(1) by auto
  obtain d2 where d2: "set_next_ptr a (Some ?f) d = Inr d2" "same_nodes d d2"
    "nx d2 = (nx d)(a := Some ?f)" "pv d2 = pv d" using set_next_ptr_eq [OF assms(3)] by blast
  have dom2: "dom (store d2) = dom (store d)" using d2(2) by (simp add: same_nodes_def)
  obtain d3 where d3: "set_prev_ptr ?f (Some a) d2 = Inr d3" "same_nodes d2 d3"
    "nx d3 = nx d2" "pv d3 = (pv d2)(?f := Some a)" using set_prev_ptr_eq [of ?f d2] doms(2) dom2 by auto
  have dom3: "dom (store d3) = dom (store d)" using d3(2) dom2 by (simp add: same_nodes_def)
  obtain d4 where d4: "set_next_ptr h (Some a) d3 = Inr d4" "same_nodes d3 d4"
    "nx d4 = (nx d3)(h := Some a)" "pv d4 = pv d3" using set_next_ptr_eq [of h d3] doms(1) dom3 by auto
  have dom4: "dom (store d4) = dom (store d)" using d4(2) dom3 by (simp add: same_nodes_def)
  obtain d5 where d5: "set_prev_ptr a (Some h) d4 = Inr d5" "same_nodes d4 d5"
    "nx d5 = nx d4" "pv d5 = (pv d4)(a := Some h)" using set_prev_ptr_eq [of a d4 "Some h"] assms(3) dom4 by auto
  have same: "same_nodes d d5" using d2(2) d3(2) d4(2) d5(2) by (simp add: same_nodes_def)
  have "linked (nx d5) (pv d5) ?ws"
    unfolding d5(3,4) d4(3,4) d3(3,4) d2(3,4)
    using f(3) e(2) assms(4) by (simp add: linked_upd not_in_parts del: butlast.simps tl_append2)
  moreover have "nx d5 h = Some a" "pv d5 a = Some h" "nx d5 a = Some ?f" "pv d5 ?f = Some a"
    unfolding d5(3,4) d4(3,4) d3(3,4) d2(3,4) using doms by auto
  ultimately have "linked (nx d5) (pv d5) (h # a # ?ws)"
    using linked_join [of "nx d5" "pv d5" "[h, a]" ?ws] by simp
  then have "ends d5 h (a # xs) t"
    using assms same by (auto simp: ends_def same_nodes_def)
  moreover have "get_next_ptr a d2 = Inr ?f" using d2(3) by (intro get_ptr_eq) simp
  moreover have "nx d5 = (nx d)(a := Some ?f, h := Some a)" "pv d5 = (pv d)(?f := Some a, a := Some h)"
    unfolding d5(3,4) d4(3,4) d3(3,4) d2(3,4) by (rule refl)+
  ultimately show ?thesis using hn d2(1) d3(1) d4(1) d5(1) same by simp
qed

lemma PushFront_eq:
  assumes "new_node (Some v) d = (a, d0)" "(if dl_size d0 = 0 then InitHeadTailNodes d0 else Inr d0) = Inr d1"
    and "head_ptr d1 = Some h" "rbind (node_at d1 h) (\<lambda>hn. rbind (set_next_ptr a (next_ptr hn) d1) (\<lambda>d2.
      rbind (get_next_ptr a d2) (\<lambda>q. rbind (set_prev_ptr q (Some a) d2) (\<lambda>d3.
      rbind (set_next_ptr h (Some a) d3) (\<lambda>d4. set_prev_ptr a (Some h) d4))))) = Inr d'"
  shows "PushFront v d = Inr (a, d'\<lparr>dl_size := dl_size d' + 1\<rparr>)"
proof -
  let ?link = "rbind (node_at d1 h) (\<lambda>hn. rbind (set_next_ptr a (next_ptr hn) d1) (\<lambda>d2.
      rbind (get_next_ptr a d2) (\<lambda>q. rbind (set_prev_ptr q (Some a) d2) (\<lambda>d3.
      rbind (set_next_ptr h (Some a) d3) (\<lambda>d4. set_prev_ptr a (Some h) d4)))))"
  have "PushFront v d = rmap (\<lambda>d5. (a, d5\<lparr>dl_size := dl_size d5 + 1\<rparr>)) ?link"
    unfolding PushFront_def assms(1) Let_def prod.case assms(2) rbind.simps assms(3) deref.simps
    by (simp only: rmap_def rbind_assoc rbind.simps)
  then show ?thesis unfolding assms(4) by simp
qed

lemma PushFront_dual:
  assumes "dual d xs"
  shows "\<exists>a d'. PushFront v d = Inr (a, d') \<and> dual d' (a # xs) \<and> a \<notin> set xs \<and>
    data_at d' a = Some v \<and> (\<forall>b\<in>set xs. data_at d' b = data_at d b)"
proof -
  let ?a = "fresh d"
  obtain d0 where d0: "new_node (Some v) d = (?a, d0)" "d0 = d\<lparr>store := (store d)
      (?a \<mapsto> \<lparr>node_data = Some v, prev_ptr = None, next_ptr = None\<rparr>), fresh := ?a + 1\<rparr>"
    by (simp add: new_node_def)
  have out: "b < ?a" if "store d b \<noteq> None" for b using assms that by (metis dual_def not_le)
  have "\<exists>d1 h t. (if dl_size d0 = 0 then InitHeadTailNodes d0 else Inr d0) = Inr d1 \<and> ends d1 h xs t \<and>
    dl_size d1 = length xs \<and> ?a \<in> dom (store d1) \<and> ?a \<notin> set (h # xs @ [t]) \<and>
    data_at d1 ?a = Some v \<and> (\<forall>b\<in>set xs. data_at d1 b = data_at d b) \<and> (\<forall>b. fresh d1 \<le> b \<longrightarrow> store d1 b = None)"
  proof (cases "xs = []")
    case True
    then show ?thesis
      using assms d0(2) by (auto simp: InitHeadTail_eq dual_def ends_def nx_def pv_def data_at_def)
  next
    case False
    then obtain h t where e: "ends d h xs t" using assms by (auto simp: dual_def)
    then have "set (h # xs @ [t]) \<subseteq> dom (store d)" by (simp add: ends_def)
    then have less: "b < ?a" if "b \<in> set (h # xs @ [t])" for b using out that by blast
    have same: "store d0 b = store d b" if "b \<in> set (h # xs @ [t])" for b
      using less [OF that] d0(2) by simp
    then have "linked (nx d0) (pv d0) (h # xs @ [t]) \<longleftrightarrow> linked (nx d) (pv d) (h # xs @ [t])"
      by (intro linked_cong) (simp add: nx_def pv_def)
    moreover have "set (h # xs @ [t]) \<subseteq> dom (store d0)" using e d0(2) by (auto simp: ends_def)
    ultimately have "ends d0 h xs t" using e d0(2) by (simp add: ends_def)
    moreover have "?a \<notin> set (h # xs @ [t])" using less by blast
    moreover have "\<forall>b\<in>set xs. data_at d0 b = data_at d b" using same by (simp add: data_at_def)
    moreover have "dl_size d0 = length xs" "dl_size d0 \<noteq> 0" using assms False d0(2) by (simp_all add: dual_def)
    moreover have "?a \<in> dom (store d0)" "data_at d0 ?a = Some v" "\<forall>b. fresh d0 \<le> b \<longrightarrow> store d0 b = None"
      using assms d0(2) by (simp_all add: dual_def data_at_def)
    ultimately show ?thesis by auto
  qed
  then obtain d1 h t where d1: "(if dl_size d0 = 0 then InitHeadTailNodes d0 else Inr d0) = Inr d1"
    "ends d1 h xs t" "dl_size d1 = length xs" "?a \<in> dom (store d1)" "?a \<notin> set (h # xs @ [t])"
    "data_at d1 ?a = Some v" "\<forall>b\<in>set xs. data_at d1 b = data_at d b" "\<forall>b. fresh d1 \<le> b \<longrightarrow> store d1 b = None"
    by blast
  let ?link = "rbind (node_at d1 h) (\<lambda>hn. rbind (set_next_ptr ?a (next_ptr hn) d1) (\<lambda>d2.
      rbind (get_next_ptr ?a d2) (\<lambda>q. rbind (set_prev_ptr q (Some ?a) d2) (\<lambda>d3.
      rbind (set_next_ptr h (Some ?a) d3) (\<lambda>d4. set_prev_ptr ?a (Some h) d4)))))"
  from PushFront_ends [OF d1(2-5)]
  obtain d' where d': "?link = Inr d'" "same_nodes d1 d'" "ends d' h (?a # xs) t" by (elim exE conjE)
  have "head_ptr d1 = Some h" using d1(2) by (simp add: ends_def)
  note r = PushFront_eq [OF d0(1) d1(1) this d'(1)]
  have "ends (d'\<lparr>dl_size := dl_size d' + 1\<rparr>) h (?a # xs) t"
    using d'(3) by (simp add: ends_def)
  moreover have "store d' b = None" if "fresh d' \<le> b" for b
    using that d1(8) d'(2) same_nodes_None [OF d'(2)] by (simp add: same_nodes_def)
  moreover have "dl_size d' = length xs" "data_at d' = data_at d1" using d'(2) d1(3) by (simp_all add: same_nodes_def)
  ultimately have "dual (d'\<lparr>dl_size := dl_size d' + 1\<rparr>) (?a # xs)"
    "data_at (d'\<lparr>dl_size := dl_size d' + 1\<rparr>) = data_at d1"
    unfolding dual_def by (simp, blast, simp add: data_at_def fun_eq_iff)
  then show ?thesis using d1(5-7) r by (intro exI [of _ ?a] exI [of _ "d'\<lparr>dl_size := dl_size d' + 1\<rparr>"] conjI) simp_all
qed

lemma PopBack_ends:
  assumes "ends d h (xs @ [a]) t"
  shows "\<exists>d'. PopBack d = Inr d' \<and> ends d' h xs t \<and> dom (store d') = dom (store d) - {a} \<and>
    data_at d' = (data_at d)(a := None) \<and> fresh d' = fresh d \<and> dl_size d' = dl_size d - 1 \<and>
    pv d a = Some (last (h # xs)) \<and> nx d a = Some t \<and>
    nx d' = (nx d)(last (h # xs) := Some t, a := None) \<and> pv d' = (pv d)(t := Some (last (h # xs)), a := None)"
proof -
  have e: "head_ptr d = Some h" "tail_ptr d = Some t" "distinct (h # xs @ [a, t])"
    "linked (nx d) (pv d) (h # xs @ [a, t])" "set (h # xs @ [a, t]) \<subseteq> dom (store d)"
    using assms by (auto simp: ends_def)
  let ?p = "last (h # xs)"
  have l: "pv d t = Some a" "pv d a = Some ?p" "nx d a = Some t" "linked (nx d) (pv d) (h # xs)"
    using e(4) linked_join [of "nx d" "pv d" "h # xs" "[a, t]"] by simp_all
  have p: "?p \<in> set (h # xs)" using last_in_set [of "h # xs"] by simp
  have doms: "a \<in> dom (store d)" "t \<in> dom (store d)" "?p \<in> dom (store d)" "?p \<noteq> t" "?p \<noteq> a" "a \<noteq> t"
    "t \<notin> set (h # xs)" "a \<notin> set (h # xs)"
    using e(3,5) p by auto
  obtain n where n: "node_at d a = Inr n" "prev_ptr n = Some ?p" using node_at_eq [OF doms(1)] l(2) by auto
  obtain d1 where d1: "set_prev_ptr t (Some ?p) d = Inr d1" "same_nodes d d1"
    "nx d1 = nx d" "pv d1 = (pv d)(t := Some ?p)" using set_prev_ptr_eq [OF doms(2)] by blast
  have dom1: "dom (store d1) = dom (store d)" using d1(2) by (simp add: same_nodes_def)
  obtain d2 where d2: "set_next_ptr ?p (Some t) d1 = Inr d2" "same_nodes d1 d2"
    "nx d2 = (nx d1)(?p := Some t)" "pv d2 = pv d1" using set_next_ptr_eq [of ?p d1] doms(3) dom1 by auto
  have same: "same_nodes d d2" using d1(2) d2(2) by (simp add: same_nodes_def)
  obtain m where m: "node_at d2 a = Inr m"
    using node_at_eq [of a d2] doms(1) same by (auto simp: same_nodes_def)
  let ?d = "d2\<lparr>store := (store d2)(a := None), dl_size := dl_size d2 - 1\<rparr>"
  have gone: "nx ?d = (nx d2)(a := None)" "pv ?d = (pv d2)(a := None)" "data_at ?d = (data_at d2)(a := None)"
    by (auto simp: nx_def pv_def data_at_def fun_eq_iff)
  have "get_prev_ptr t d1 = Inr ?p" using d1(4) by (intro get_ptr_eq) simp
  then have "PopBack d = Inr ?d"
    using e(2) get_ptr_eq(2) [OF l(1)] n d1(1) d2(1) m by (simp add: PopBack_def del: last.simps)
  moreover have "linked (nx d2) (pv d2) (h # xs)"
    unfolding d2(3,4) d1(3,4) using l(4) doms(7) e(3) not_in_parts(1,2) [of t "h # xs"] not_in_parts(3) [of "h # xs"]
    by (simp add: linked_upd del: last.simps butlast.simps list.sel)
  then have "linked (nx d2) (pv d2) (h # xs @ [t])"
    using linked_join [of "nx d2" "pv d2" "h # xs" "[t]"] d2(3,4) d1(4) by simp
  then have "linked (nx ?d) (pv ?d) (h # xs @ [t])"
    using doms(6,8) by (subst linked_cong [where n' = "nx d2" and p' = "pv d2"]) (auto simp: nx_def pv_def)
  then have "ends ?d h xs t" using e same doms(6,8) by (auto simp: ends_def same_nodes_def)
  moreover have "dom (store ?d) = dom (store d) - {a}" using same by (simp add: same_nodes_def)
  moreover have "data_at ?d = (data_at d)(a := None)" "fresh ?d = fresh d" "dl_size ?d = dl_size d - 1"
    unfolding gone using same by (simp_all add: same_nodes_def)
  moreover have "nx ?d = (nx d)(?p := Some t, a := None)" "pv ?d = (pv d)(t := Some ?p, a := None)"
    unfolding gone d2(3,4) d1(3,4) by (rule refl)+
  ultimately show ?thesis using l(2,3) by (intro exI [of _ ?d] conjI)
qed

lemma PopBack_dual:
  assumes "dual d (xs @ [a])"
  shows "\<exists>d'. PopBack d = Inr d' \<and> dual d' xs \<and> (\<forall>b\<in>set xs. data_at d' b = data_at d b) \<and>
    store d' a = None"
proof -
  obtain h t where e: "ends d h (xs @ [a]) t" using assms by (auto simp: dual_def)
  from PopBack_ends [OF e] obtain d' where d': "PopBack d = Inr d'" "ends d' h xs t"
    "dom (store d') = dom (store d) - {a}" "data_at d' = (data_at d)(a := None)" "fresh d' = fresh d"
    "dl_size d' = dl_size d - 1" by (elim exE conjE)
  have "store d' b = None" if "fresh d' \<le> b" for b
  proof -
    have "store d b = None" using that assms d'(5) by (simp add: dual_def)
    then show ?thesis using d'(3) by (metis DiffD1 domIff)
  qed
  then have "dual d' xs" using d'(2,6) assms by (auto simp: dual_def)
  moreover have "store d' a = None" using d'(3) by auto
  moreover have "a \<notin> set xs" using e by (auto simp: ends_def)
  ultimately show ?thesis using d'(1,4) by auto
qed

lemma dual_distinct: "dual d xs \<Longrightarrow> distinct xs \<and> (\<forall>a\<in>set xs. a \<in> dom (store d))"
  by (cases "xs = []") (auto simp: dual_def ends_def)

lemma dual_new: "dual DualList_new []"
  by (simp add: dual_def DualList_new_def)

lemma read_data_dual: "data_at d a = Some v \<Longrightarrow> read_data a d = Inr v"
  by (auto simp: data_at_def read_data_def node_at_def bind_eq_Some_conv)

lemma Back_dual: "dual d (xs @ [a]) \<Longrightarrow> data_at d a = Some v \<Longrightarrow> Back d = Inr v"
proof -
  assume d: "dual d (xs @ [a])" "data_at d a = Some v"
  then obtain h t where "tail_ptr d = Some t" "linked (nx d) (pv d) (h # xs @ [a, t])"
    by (auto simp: dual_def ends_def)
  moreover from this have "pv d t = Some a"
    using linked_join [of "nx d" "pv d" "h # xs" "[a, t]"] by simp
  ultimately show "Back d = Inr v"
    using read_data_dual [OF d(2)] get_ptr_eq(2) [of d t a] by (simp add: Back_def)
qed

lemma write_data_dual:
  assumes "dual d xs" "a \<in> set xs"
  shows "\<exists>d'. write_data a v d = Inr d' \<and> dual d' xs \<and> data_at d' = (data_at d)(a := Some v)"
proof -
  from assms obtain n where n: "store d a = Some n" using dual_distinct by blast
  let ?d = "d\<lparr>store := (store d)(a \<mapsto> n\<lparr>node_data := Some v\<rparr>)\<rparr>"
  have p: "nx ?d = nx d" "pv ?d = pv d" using n by (auto simp: nx_def pv_def fun_eq_iff)
  have "a < fresh d" using assms(1) n by (metis dual_def not_le option.distinct(1))
  then have "dual ?d xs" using assms by (fastforce simp: dual_def ends_def p)
  moreover have "data_at ?d = (data_at d)(a := Some v)" by (auto simp: data_at_def fun_eq_iff)
  ultimately show ?thesis using n by (simp add: write_data_def node_at_def)
qed

section \<open>The links of a store\<close>

text \<open>The two pointer fields are inverse to each other, in the whole store. So a pointer that is not
  null refers to a live node, whose opposite field points back.\<close>

definition mirror :: "(nat \<Rightarrow> nat option) \<Rightarrow> (nat \<Rightarrow> nat option) \<Rightarrow> bool" where
  "mirror n p \<longleftrightarrow> (\<forall>a b. n a = Some b \<longleftrightarrow> p b = Some a)"

lemma mirror_unlink:
  assumes "mirror n p" "n a = Some y" "p a = Some x" "x \<noteq> a" "y \<noteq> a"
  shows "mirror (n(x := Some y, a := None)) (p(y := Some x, a := None))"
proof -
  have m: "n u = Some v \<longleftrightarrow> p v = Some u" for u v using assms(1) by (simp add: mirror_def)
  have pn: "p y = Some a" "n x = Some a" using m assms(2,3) by simp_all
  have "n u = Some y \<longleftrightarrow> u = a" "p u = Some x \<longleftrightarrow> u = a" "n u = Some a \<longleftrightarrow> u = x" "p u = Some a \<longleftrightarrow> u = y" for u
    using m [of u y] m [of x u] m [of u a] m [of a u] assms(2,3) pn by auto
  then show ?thesis using assms(4,5) m by (auto simp: mirror_def)
qed

lemma mirror_insert:
  assumes "mirror n p" "n h = Some f" "n a = None" "p a = None" "h \<noteq> a" "f \<noteq> a"
  shows "mirror (n(a := Some f, h := Some a)) (p(f := Some a, a := Some h))"
proof -
  have m: "n u = Some v \<longleftrightarrow> p v = Some u" for u v using assms(1) by (simp add: mirror_def)
  have "p f = Some h" using m assms(2) by blast
  moreover have "n u \<noteq> Some a" "p u \<noteq> Some a" for u using m [of u a] m [of a u] assms(3,4) by simp_all
  moreover have "n u = Some f \<longleftrightarrow> u = h" "p u = Some h \<longleftrightarrow> u = f" for u
    using m [of u f] m [of h u] assms(2) calculation(1) by auto
  ultimately show ?thesis using assms(2,5,6) m by (auto simp: mirror_def)
qed

lemma mirror_live: "mirror (nx d) (pv d) \<Longrightarrow> ran (nx d) \<union> ran (pv d) \<subseteq> dom (store d)"
  by (auto simp: mirror_def ran_def nx_def pv_def bind_eq_Some_conv) blast+

text \<open>The nodes of a list that is in use: its members \<open>xs\<close>, its dummy nodes, and dummy nodes \<open>lost\<close>
  that nothing refers to any more.\<close>

definition owns :: "'a dual_list \<Rightarrow> nat list \<Rightarrow> nat set \<Rightarrow> bool" where
  "owns d xs lost \<longleftrightarrow> finite lost \<and> dl_size d = length xs \<and> dom (store d) \<subseteq> {..<fresh d} \<and>
     mirror (nx d) (pv d) \<and> set xs \<subseteq> dom (data_at d) \<and> lost \<inter> dom (data_at d) = {} \<and> lost \<inter> set xs = {} \<and>
     (if head_ptr d = None then xs = [] \<and> tail_ptr d = None \<and> dom (store d) = lost
      else \<exists>h t. ends d h xs t \<and> dom (store d) = lost \<union> set (h # xs @ [t]) \<and> {h, t} \<inter> lost = {} \<and>
        {h, t} \<inter> dom (data_at d) = {} \<and> nx d t = None)"

lemma owns_dummies:
  assumes "owns d xs lost" "head_ptr d \<noteq> None \<or> xs \<noteq> []"
  obtains h t where "head_ptr d = Some h" "ends d h xs t" "dom (store d) = lost \<union> set (h # xs @ [t])" "{h, t} \<inter> lost = {}"
    "{h, t} \<inter> dom (data_at d) = {}" "nx d t = None"
proof -
  have "head_ptr d \<noteq> None" using assms by (auto simp: owns_def)
  then have "\<exists>h t. ends d h xs t \<and> dom (store d) = lost \<union> set (h # xs @ [t]) \<and> {h, t} \<inter> lost = {} \<and>
      {h, t} \<inter> dom (data_at d) = {} \<and> nx d t = None"
    using assms(1) unfolding owns_def by (simp only: if_False)
  then obtain h t where e: "ends d h xs t" "dom (store d) = lost \<union> set (h # xs @ [t])" "{h, t} \<inter> lost = {}"
    "{h, t} \<inter> dom (data_at d) = {}" "nx d t = None" by (elim exE conjE)
  then show ?thesis using that [of h t] by (simp add: ends_def)
qed

lemma ownsI:
  assumes "ends d h xs t" "dom (store d) = lost \<union> set (h # xs @ [t])" "{h, t} \<inter> lost = {}" "{h, t} \<inter> dom (data_at d) = {}"
    and "nx d t = None" "finite lost" "dl_size d = length xs" "dom (store d) \<subseteq> {..<fresh d}" "mirror (nx d) (pv d)"
    and "set xs \<subseteq> dom (data_at d)" "lost \<inter> dom (data_at d) = {}" "lost \<inter> set xs = {}"
  shows "owns d xs lost"
proof -
  have "head_ptr d \<noteq> None" using assms(1) by (simp add: ends_def)
  then show ?thesis unfolding owns_def if_not_P [OF \<open>head_ptr d \<noteq> None\<close>]
    using assms by (intro conjI exI [of _ h] exI [of _ t])
qed

lemma owns_new: "owns DualList_new [] {}"
  by (simp add: owns_def DualList_new_def mirror_def nx_def pv_def)

text \<open>A push first makes sure that there are dummy nodes. It makes new ones whenever the list is
  empty, and the old ones are lost.\<close>

lemma push_opens:
  assumes "owns d xs lost" "new_node (Some v) d = (a, d0)"
  obtains d1 h t lost' where "(if dl_size d0 = 0 then InitHeadTailNodes d0 else Inr d0) = Inr d1"
    "ends d1 h xs t" "dl_size d1 = length xs" "a \<notin> set (h # xs @ [t])" "dom (store d1) = insert a (lost' \<union> set (h # xs @ [t]))"
    "data_at d1 = (data_at d)(a := Some v)" "dom (store d1) \<subseteq> {..<fresh d1}" "mirror (nx d1) (pv d1)"
    "nx d1 t = None" "nx d1 a = None" "pv d1 a = None" "a \<notin> lost'" "{h, t} \<inter> lost' = {}"
    "{h, t} \<inter> dom (data_at d1) = {}" "lost' \<inter> dom (data_at d1) = {}" "lost' \<inter> set xs = {}" "finite lost'"
    "card lost' = card lost + (if head_ptr d \<noteq> None \<and> xs = [] then 2 else 0)"
proof -
  let ?a = "fresh d"
  have a: "a = ?a" "d0 = d\<lparr>store := (store d)(?a \<mapsto> \<lparr>node_data = Some v, prev_ptr = None, next_ptr = None\<rparr>),
      fresh := ?a + 1\<rparr>" using assms(2) by (auto simp: new_node_def)
  have o: "finite lost" "dl_size d = length xs" "dom (store d) \<subseteq> {..<?a}" "mirror (nx d) (pv d)"
    "set xs \<subseteq> dom (data_at d)" "lost \<inter> dom (data_at d) = {}" "lost \<inter> set xs = {}"
    using assms(1) by (simp_all add: owns_def)
  have free: "store d b = None" "nx d b = None" "pv d b = None" "data_at d b = None" if "?a \<le> b" for b
  proof -
    have "b \<notin> dom (store d)" using o(3) that by auto
    then show "store d b = None" "nx d b = None" "pv d b = None" "data_at d b = None"
      by (simp_all add: domIff nx_def pv_def data_at_def)
  qed
  have d0: "nx d0 = nx d" "pv d0 = pv d" "data_at d0 = (data_at d)(?a := Some v)" "dom (store d0) = insert ?a (dom (store d))"
    "fresh d0 = ?a + 1" "dl_size d0 = length xs"
    using free [of ?a] o(2) a(2) by (auto simp: nx_def pv_def data_at_def fun_eq_iff)
  show ?thesis
  proof (cases "xs = []")
    case False
    obtain h t where e: "head_ptr d = Some h" "ends d h xs t" "dom (store d) = lost \<union> set (h # xs @ [t])" "{h, t} \<inter> lost = {}"
      "{h, t} \<inter> dom (data_at d) = {}" "nx d t = None" by (rule owns_dummies [OF assms(1) disjI2 [OF False]])
    have "?a \<notin> dom (store d)" using o(3) by auto
    then have out: "?a \<notin> lost" "?a \<notin> set (h # xs @ [t])" using e(3) by auto
    have "ends d0 h xs t" using e(2) a(2) unfolding ends_def d0(1,2,4) by auto
    then show ?thesis
    proof (rule that [of d0 h t lost, rotated])
      show "(if dl_size d0 = 0 then InitHeadTailNodes d0 else Inr d0) = Inr d0" using d0(6) False by simp
      show "dom (store d0) \<subseteq> {..<fresh d0}" unfolding d0(4,5) using o(3) by auto
    qed (use False out e o a(1) free [of ?a] in \<open>auto simp: d0\<close>)
  next
    case True
    define d1 where "d1 = d0\<lparr>store := (store d0)(?a + 1 \<mapsto> \<lparr>node_data = None, prev_ptr = None, next_ptr = Some (?a + 2)\<rparr>,
        ?a + 2 \<mapsto> \<lparr>node_data = None, prev_ptr = Some (?a + 1), next_ptr = None\<rparr>),
      fresh := ?a + 3, head_ptr := Some (?a + 1), tail_ptr := Some (?a + 2)\<rparr>"
    let ?lost = "dom (store d)"
    have init: "(if dl_size d0 = 0 then InitHeadTailNodes d0 else Inr d0) = Inr d1"
      using d0(5,6) True by (simp add: InitHeadTail_eq d1_def)
    have f: "nx d (?a + 1) = None" "nx d (?a + 2) = None" "pv d (?a + 1) = None" "pv d (?a + 2) = None"
      "data_at d (?a + 1) = None" "data_at d (?a + 2) = None"
      using free by simp_all
    have n: "nx d1 = (nx d)(?a + 1 := Some (?a + 2))" "pv d1 = (pv d)(?a + 2 := Some (?a + 1))"
      "data_at d1 = (data_at d)(?a := Some v)"
      using f d0(1-3) by (auto simp: d1_def nx_def pv_def data_at_def fun_eq_iff)
    have live: "b < ?a" if "nx d u = Some b \<or> pv d u = Some b" for u b
      using that mirror_live [OF o(4)] o(3) by (fastforce simp: ran_def)
    have m: "mirror (nx d1) (pv d1)"
      unfolding n using o(4) f live by (fastforce simp: mirror_def)
    have lost: "?lost \<inter> dom (data_at d) = {} \<and>
      card ?lost = card lost + (if head_ptr d \<noteq> None \<and> xs = [] then 2 else 0) \<and> finite ?lost"
    proof (cases "head_ptr d = None")
      case False
      obtain h t where d: "ends d h xs t" "?lost = lost \<union> set (h # xs @ [t])" "{h, t} \<inter> lost = {}" "{h, t} \<inter> dom (data_at d) = {}"
        by (rule owns_dummies [OF assms(1) disjI1 [OF False]])
      then have "h \<noteq> t" by (simp add: ends_def)
      have e: "?lost = lost \<union> {h, t}" using d(2) True by simp
      have "card (lost \<union> {h, t}) = card lost + 2" using \<open>h \<noteq> t\<close> d(3) o(1) by simp
      then show ?thesis using False True e d(4) o(1,6) by (simp add: Int_Un_distrib2)
    qed (use assms(1) in \<open>simp add: owns_def\<close>)
    show ?thesis
    proof (rule that [OF init, of "?a + 1" "?a + 2" ?lost])
      show "ends d1 (?a + 1) xs (?a + 2)" unfolding ends_def n using True by (simp add: d1_def)
      show "dom (store d1) \<subseteq> {..<fresh d1}" using d0(4) o(3) by (auto simp: d1_def)
      show "dom (store d1) = insert a (?lost \<union> set ((?a + 1) # xs @ [?a + 2]))" using d0(4) True a(1) by (auto simp: d1_def)
      show "mirror (nx d1) (pv d1)" by (rule m)
      show "data_at d1 = (data_at d)(a := Some v)" using n(3) a(1) by simp
      show "a \<notin> ?lost" "{?a + 1, ?a + 2} \<inter> ?lost = {}" using o(3) a(1) by auto
      show "?lost \<inter> dom (data_at d1) = {}" unfolding n(3) using lost o(3) by auto
      show "dl_size d1 = length xs" using d0(6) by (simp add: d1_def)
    qed (use True a(1) f free [of ?a] lost o(2) in \<open>auto simp: n\<close>)
  qed
qed

lemma owns_Push:
  assumes "owns d xs lost"
  shows "\<exists>a d' lost'. PushFront v d = Inr (a, d') \<and> owns d' (a # xs) lost' \<and> head_ptr d' \<noteq> None \<and>
    card lost' = card lost + (if head_ptr d \<noteq> None \<and> xs = [] then 2 else 0)"
proof -
  obtain a d0 where d0: "new_node (Some v) d = (a, d0)" by (cases "new_node (Some v) d")
  show ?thesis
  proof (rule push_opens [OF assms d0])
    fix d1 h t lost'
    assume open1: "(if dl_size d0 = 0 then InitHeadTailNodes d0 else Inr d0) = Inr d1"
      "ends d1 h xs t" "dl_size d1 = length xs" "a \<notin> set (h # xs @ [t])" "dom (store d1) = insert a (lost' \<union> set (h # xs @ [t]))"
      "data_at d1 = (data_at d)(a := Some v)" "dom (store d1) \<subseteq> {..<fresh d1}" "mirror (nx d1) (pv d1)"
      "nx d1 t = None" "nx d1 a = None" "pv d1 a = None" "a \<notin> lost'" "{h, t} \<inter> lost' = {}"
      "{h, t} \<inter> dom (data_at d1) = {}" "lost' \<inter> dom (data_at d1) = {}" "lost' \<inter> set xs = {}" "finite lost'"
      "card lost' = card lost + (if head_ptr d \<noteq> None \<and> xs = [] then 2 else 0)"
    let ?f = "hd (xs @ [t])"
    have "a \<in> dom (store d1)" using open1(5) by simp
    from PushFront_ends [OF open1(2,3) this open1(4)] obtain d' where d': "rbind (node_at d1 h) (\<lambda>hn.
      rbind (set_next_ptr a (next_ptr hn) d1) (\<lambda>d2. rbind (get_next_ptr a d2) (\<lambda>q. rbind (set_prev_ptr q (Some a) d2) (\<lambda>d3.
      rbind (set_next_ptr h (Some a) d3) (\<lambda>d4. set_prev_ptr a (Some h) d4))))) = Inr d'"
      "same_nodes d1 d'" "ends d' h (a # xs) t" "nx d' = (nx d1)(a := Some ?f, h := Some a)"
      "pv d' = (pv d1)(?f := Some a, a := Some h)" by (elim exE conjE)
    let ?d = "d'\<lparr>dl_size := dl_size d' + 1\<rparr>"
    have hd1: "head_ptr d1 = Some h" using open1(2) by (simp add: ends_def)
    note push = PushFront_eq [OF d0 open1(1) hd1 d'(1)]
    have f: "nx d1 h = Some ?f" "?f \<in> set (xs @ [t])" "h \<noteq> t"
      using open1(2) linked_join [of "nx d1" "pv d1" "[h]" "xs @ [t]"] hd_in_set [of "xs @ [t]"] by (simp_all add: ends_def)
    have "mirror (nx d') (pv d')"
      unfolding d'(4,5) using open1(4) f(2) by (intro mirror_insert open1(8,10,11) f(1)) auto
    moreover have "nx d' t = None" unfolding d'(4) using open1(4,9) f(3) by simp
    moreover have "set (a # xs) \<subseteq> dom (data_at d1)" using assms open1(6) by (auto simp: owns_def)
    moreover have "ends ?d h (a # xs) t" using d'(3) by (simp add: ends_def)
    moreover have "dom (store ?d) = lost' \<union> set (h # (a # xs) @ [t])" using d'(2) open1(5) by (auto simp: same_nodes_def)
    ultimately have "owns ?d (a # xs) lost'"
      by (intro ownsI [of _ h _ t]) (use d'(2) open1(3,7,12-17) in \<open>simp_all add: same_nodes_def\<close>)
    moreover have "head_ptr ?d \<noteq> None" using d'(2) hd1 by (simp add: same_nodes_def)
    ultimately show ?thesis using push open1(18) by (intro exI [of _ a] exI [of _ ?d] exI [of _ lost'] conjI)
  qed
qed

lemma owns_Pop:
  assumes "owns d (xs @ [a]) lost"
  shows "\<exists>d'. PopBack d = Inr d' \<and> owns d' xs lost \<and> head_ptr d' \<noteq> None"
proof -
  obtain h t where e: "head_ptr d = Some h" "ends d h (xs @ [a]) t" "dom (store d) = lost \<union> set (h # (xs @ [a]) @ [t])"
    "{h, t} \<inter> lost = {}" "{h, t} \<inter> dom (data_at d) = {}" "nx d t = None" by (rule owns_dummies [OF assms]) simp
  from PopBack_ends [OF e(2)] obtain d' where d': "PopBack d = Inr d'" "ends d' h xs t" "dom (store d') = dom (store d) - {a}"
    "data_at d' = (data_at d)(a := None)" "fresh d' = fresh d" "dl_size d' = dl_size d - 1"
    "pv d a = Some (last (h # xs))" "nx d a = Some t"
    "nx d' = (nx d)(last (h # xs) := Some t, a := None)" "pv d' = (pv d)(t := Some (last (h # xs)), a := None)" by (elim exE conjE)
  have out: "a \<notin> set (h # xs @ [t])" "t \<notin> set (h # xs)" using e(2) by (auto simp: ends_def)
  have l: "last (h # xs) \<in> set (h # xs)" by (rule last_in_set) simp
  have o: "finite lost" "dl_size d = Suc (length xs)" "dom (store d) \<subseteq> {..<fresh d}" "mirror (nx d) (pv d)"
    "set (xs @ [a]) \<subseteq> dom (data_at d)" "lost \<inter> dom (data_at d) = {}" "lost \<inter> set (xs @ [a]) = {}"
    using assms by (simp_all add: owns_def)
  have "mirror (nx d') (pv d')"
    unfolding d'(9,10) using out l by (intro mirror_unlink o(4) d'(7,8)) auto
  moreover have "nx d' t = None" unfolding d'(9) using out l e(6) by auto
  moreover have "dom (store d') = lost \<union> set (h # xs @ [t])" unfolding d'(3) e(3) using out o(7) by auto
  moreover have "set xs \<subseteq> dom (data_at d')" unfolding d'(4) using out o(5) by auto
  moreover have "dom (store d') \<subseteq> {..<fresh d'}" unfolding d'(3,5) using o(3) by blast
  moreover have "lost \<inter> dom (data_at d') = {}" "{h, t} \<inter> dom (data_at d') = {}" unfolding d'(4) using o(6) e(5) by auto
  moreover have "head_ptr d' = Some h" using d'(2) by (simp add: ends_def)
  ultimately have "owns d' xs lost"
    by (intro ownsI [of _ h _ t]) (use d'(2,6) o(1,2,7) e(4) in simp_all)
  with d'(1) \<open>head_ptr d' = Some h\<close> show ?thesis by auto
qed

lemma owns_Move:
  assumes "owns d (us @ a # vs) lost"
  shows "\<exists>d'. MoveFront a d = Inr d' \<and> owns d' (a # us @ vs) lost \<and> head_ptr d' \<noteq> None"
proof -
  obtain h t where e: "head_ptr d = Some h" "ends d h (us @ a # vs) t" "dom (store d) = lost \<union> set (h # (us @ a # vs) @ [t])"
    "{h, t} \<inter> lost = {}" "{h, t} \<inter> dom (data_at d) = {}" "nx d t = None" by (rule owns_dummies [OF assms]) simp
  have k: "linked (nx d) (pv d) (h # us @ a # vs @ [t])" "distinct (h # us @ a # vs @ [t])"
    "set (h # us @ a # vs @ [t]) \<subseteq> dom (store d)" using e(2) by (simp_all add: ends_def)
  let ?p = "last (h # us)" and ?q = "hd (vs @ [t])" and ?f = "hd (us @ vs @ [t])"
  from MoveFront_pointers [OF k e(1)] obtain d' where d': "MoveFront a d = Inr d'" "same_nodes d d'"
    "nx d' = (nx d)(?p := Some ?q, a := Some ?f, h := Some a)"
    "pv d' = (pv d)(?q := Some ?p, a := Some h, ?f := Some a)" by (elim exE conjE) simp
  from MoveFront_ends [OF e(2)] d'(1) have ends: "ends d' h (a # us @ vs) t" by auto
  have o: "finite lost" "dl_size d = length (us @ a # vs)" "dom (store d) \<subseteq> {..<fresh d}" "mirror (nx d) (pv d)"
    "set (us @ a # vs) \<subseteq> dom (data_at d)" "lost \<inter> dom (data_at d) = {}" "lost \<inter> set (us @ a # vs) = {}"
    using assms by (simp_all add: owns_def)
  have n: "pv d a = Some ?p" "nx d a = Some ?q" "nx d h = Some (hd (us @ [a]))"
    using k(1) linked_join [of "nx d" "pv d" "h # us" "a # vs @ [t]"] linked_join [of "nx d" "pv d" "h # us @ [a]" "vs @ [t]"]
      linked_join [of "nx d" "pv d" "[h]" "us @ a # vs @ [t]"] by (simp_all add: hd_append)
  have p: "?p \<in> set (h # us)" "?q \<in> set (vs @ [t])" "?f \<in> set (us @ vs @ [t])"
    using last_in_set [of "h # us"] hd_in_set [of "vs @ [t]"] hd_in_set [of "us @ vs @ [t]"] by simp_all
  have ne: "?p \<noteq> a" "?q \<noteq> a" "?f \<noteq> a" "?f \<noteq> h" "h \<noteq> a" "t \<noteq> h" "t \<noteq> a" "?p \<noteq> t" using p k(2) by auto
  let ?n = "(nx d)(?p := Some ?q, a := None)" and ?v = "(pv d)(?q := Some ?p, a := None)"
  have "?n h = Some ?f"
  proof (cases us)
    case Nil
    then show ?thesis using ne by simp
  next
    case (Cons u us')
    then have "?p \<noteq> h" using k(2) last_in_set [of us] by auto
    then show ?thesis using Cons n(3) ne(5) by simp
  qed
  then have "mirror (?n(a := Some ?f, h := Some a)) (?v(?f := Some a, a := Some h))"
    using ne by (intro mirror_insert mirror_unlink o(4) n(1,2)) simp_all
  moreover have "nx d' = ?n(a := Some ?f, h := Some a)" "pv d' = ?v(?f := Some a, a := Some h)"
    unfolding d'(3,4) using ne(3) by (simp_all add: fun_upd_twist)
  ultimately have "mirror (nx d') (pv d')" by simp
  moreover have "nx d' t = None" unfolding d'(3) using ne e(6) by simp
  moreover have "dom (store d') = lost \<union> set (h # (a # us @ vs) @ [t])" using d'(2) e(3) by (auto simp: same_nodes_def)
  ultimately have "owns d' (a # us @ vs) lost"
    by (intro ownsI [of _ h _ t] ends) (use d'(2) o e(4,5) in \<open>simp_all add: same_nodes_def\<close>)
  moreover have "head_ptr d' \<noteq> None" using ends by (simp add: ends_def)
  ultimately show ?thesis using d'(1) by blast
qed

text \<open>The destructor walks from the head to the tail.\<close>

lemma delete_nodes_linked:
  assumes "linked (nx d) (pv d) (p # ps)" "nx d (last (p # ps)) = None" "distinct (p # ps)"
    and "set (p # ps) \<subseteq> dom (store d)" "length (p # ps) \<le> fuel"
  shows "\<exists>d'. delete_nodes fuel (Some p) d = Inr d' \<and> store d' = store d |` (- set (p # ps))"
  using assms
proof (induction ps arbitrary: p d fuel)
  case Nil
  then obtain n f where n: "store d p = Some n" "fuel = Suc f" by (cases fuel) auto
  then have "next_ptr n = None" using Nil.prems(2) by (simp add: nx_def)
  then show ?case using n by (auto simp: node_at_def restrict_map_def fun_eq_iff)
next
  case (Cons q ps)
  obtain n f where n: "store d p = Some n" "fuel = Suc f" using Cons.prems(4,5) by (cases fuel) auto
  then have follow: "next_ptr n = Some q" using Cons.prems(1) by (simp add: nx_def)
  let ?d = "d\<lparr>store := (store d)(p := None)\<rparr>"
  have same: "nx ?d b = nx d b" "pv ?d b = pv d b" if "b \<in> set (q # ps)" for b
    using that Cons.prems(3) by (auto simp: nx_def pv_def)
  have "linked (nx ?d) (pv ?d) (q # ps)" using Cons.prems(1) linked_cong [of "q # ps" "nx ?d" "nx d" "pv ?d" "pv d"] same by simp
  moreover have "nx ?d (last (q # ps)) = None" using Cons.prems(2) same(1) [OF last_in_set] by simp
  moreover have "set (q # ps) \<subseteq> dom (store ?d)" using Cons.prems(3,4) by auto
  moreover have "distinct (q # ps)" "length (q # ps) \<le> f" using Cons.prems(3,5) n(2) by simp_all
  ultimately obtain d' where d': "delete_nodes f (Some q) ?d = Inr d'" "store d' = store ?d |` (- set (q # ps))"
    using Cons.IH [of ?d q f] by blast
  have "store d' = store d |` (- set (p # q # ps))" unfolding d'(2) by (auto simp: restrict_map_def fun_eq_iff)
  then show ?case using d'(1) n follow by (intro exI [of _ d']) (simp add: node_at_def)
qed

lemma owns_delete:
  assumes "owns d xs lost"
  shows "\<exists>d'. DualList_delete d = Inr d' \<and> dom (store d') = lost \<and> data_at d' = (\<lambda>_. None)"
proof (cases "head_ptr d = None")
  case True
  then have "DualList_delete d = Inr d" by (simp add: DualList_delete_def)
  moreover have "dom (store d) = lost" "lost \<inter> dom (data_at d) = {}" using assms True by (simp_all add: owns_def)
  moreover have "dom (data_at d) \<subseteq> dom (store d)" by (auto simp: data_at_def bind_eq_Some_conv)
  ultimately have "dom (data_at d) = {}" by blast
  then have "data_at d = Map.empty" by simp
  with \<open>DualList_delete d = Inr d\<close> \<open>dom (store d) = lost\<close> show ?thesis by auto
next
  case False
  then obtain h t where e: "head_ptr d = Some h" "ends d h xs t" "dom (store d) = lost \<union> set (h # xs @ [t])" "{h, t} \<inter> lost = {}"
    "{h, t} \<inter> dom (data_at d) = {}" "nx d t = None" by (rule owns_dummies [OF assms disjI1])
  have k: "linked (nx d) (pv d) (h # xs @ [t])" "distinct (h # xs @ [t])" "tail_ptr d = Some t"
    using e(2) by (simp_all add: ends_def)
  have o: "dom (store d) \<subseteq> {..<fresh d}" "lost \<inter> dom (data_at d) = {}" "lost \<inter> set xs = {}"
    using assms by (simp_all add: owns_def)
  have "card (set (h # xs @ [t])) \<le> card {..<fresh d}" using e(3) o(1) by (intro card_mono) auto
  then have "length (h # xs @ [t]) \<le> fresh d" unfolding distinct_card [OF k(2)] by simp
  moreover have "nx d (last (h # xs @ [t])) = None" using e(6) by simp
  moreover have "set (h # xs @ [t]) \<subseteq> dom (store d)" using e(3) by blast
  ultimately obtain d' where d': "delete_nodes (fresh d) (Some h) d = Inr d'" "store d' = store d |` (- set (h # xs @ [t]))"
    using delete_nodes_linked [OF k(1) _ k(2)] by blast
  have rest: "dom (store d') = lost" unfolding d'(2) dom_restrict e(3) using e(4) o(3) by auto
  have "data_at d' b = None" for b
  proof (cases "b \<in> lost")
    case True
    then have "store d' b = store d b" using d'(2) e(4) o(3) by (auto simp: restrict_map_def)
    then show ?thesis using True o(2) by (auto simp: data_at_def)
  next
    case False
    then have "store d' b = None" using rest by blast
    then show ?thesis by (simp add: data_at_def)
  qed
  then show ?thesis using d'(1) rest e(1) k(3) by (auto simp: DualList_delete_def)
qed

text \<open>A run of calls by a client that keeps the pointers \<open>PushFront\<close> gave it, and pops only a list
  that is not empty; \<open>refills\<close> counts the pushes that find the list empty after the first one.\<close>

datatype 'a list_call = CallPush 'a | CallMove nat | CallPop

fun call :: "'a list_call \<Rightarrow> nat list \<times> 'a dual_list \<Rightarrow> (nat list \<times> 'a dual_list) res" where
  "call (CallPush v) (xs, d) = rmap (\<lambda>(a, d'). (a # xs, d')) (PushFront v d)"
| "call (CallMove i) (xs, d) =
     (if i < length xs then rmap (Pair (xs ! i # take i xs @ drop (Suc i) xs)) (MoveFront (xs ! i) d) else Inr (xs, d))"
| "call CallPop (xs, d) = (if xs = [] then Inr (xs, d) else rmap (Pair (butlast xs)) (PopBack d))"

fun call_all :: "'a list_call list \<Rightarrow> nat list \<times> 'a dual_list \<Rightarrow> (nat list \<times> 'a dual_list) res" where
  "call_all [] s = Inr s"
| "call_all (c # cs) s = rbind (call c s) (call_all cs)"

fun refills :: "'a list_call list \<Rightarrow> bool \<Rightarrow> nat \<Rightarrow> nat" where
  "refills [] used n = 0"
| "refills (CallPush v # cs) used n = (if used \<and> n = 0 then 1 else 0) + refills cs True (n + 1)"
| "refills (CallMove i # cs) used n = refills cs used n"
| "refills (CallPop # cs) used n = refills cs used (n - 1)"

lemma call_all_owns:
  assumes "owns d xs lost"
  shows "\<exists>xs' d' lost'. call_all cs (xs, d) = Inr (xs', d') \<and> owns d' xs' lost' \<and>
    card lost' = card lost + 2 * refills cs (head_ptr d \<noteq> None) (length xs)"
  using assms
proof (induction cs arbitrary: xs d lost)
  case Nil
  then show ?case by auto
next
  case (Cons c cs)
  show ?case
  proof (cases c)
    case (CallPush v)
    obtain a d1 lost1 where s: "PushFront v d = Inr (a, d1)" "owns d1 (a # xs) lost1" "head_ptr d1 \<noteq> None"
      "card lost1 = card lost + (if head_ptr d \<noteq> None \<and> xs = [] then 2 else 0)" using owns_Push [OF Cons.prems] by blast
    obtain xs' d' lost' where r: "call_all cs (a # xs, d1) = Inr (xs', d')" "owns d' xs' lost'"
      "card lost' = card lost1 + 2 * refills cs (head_ptr d1 \<noteq> None) (length (a # xs))" using Cons.IH [OF s(2)] by blast
    have "card lost' = card lost + 2 * refills (c # cs) (head_ptr d \<noteq> None) (length xs)"
      using r(3) s(3,4) by (simp add: CallPush)
    moreover have "call_all (c # cs) (xs, d) = Inr (xs', d')" using s(1) r(1) by (simp add: CallPush)
    ultimately show ?thesis using r(2) by blast
  next
    case (CallMove i)
    show ?thesis
    proof (cases "i < length xs")
      case True
      note id_take_nth_drop [OF True]
      then have "owns d (take i xs @ xs ! i # drop (Suc i) xs) lost" using Cons.prems by simp
      from owns_Move [OF this] obtain d1 where s: "MoveFront (xs ! i) d = Inr d1"
        "owns d1 (xs ! i # take i xs @ drop (Suc i) xs) lost" "head_ptr d1 \<noteq> None" by blast
      have "head_ptr d \<noteq> None" using owns_dummies [OF Cons.prems] True by fastforce
      moreover have "length (xs ! i # take i xs @ drop (Suc i) xs) = length xs" using True by simp
      ultimately show ?thesis using Cons.IH [OF s(2)] s(1,3) True by (simp add: CallMove del: length_Cons length_append)
    next
      case False
      with Cons.IH [OF Cons.prems] show ?thesis by (simp add: CallMove)
    qed
  next
    case CallPop
    show ?thesis
    proof (cases xs rule: rev_cases)
      case Nil
      with Cons.IH [OF Cons.prems] show ?thesis by (simp add: CallPop)
    next
      case (snoc ys a)
      from owns_Pop [OF Cons.prems [unfolded snoc]] obtain d1 where s: "PopBack d = Inr d1" "owns d1 ys lost"
        "head_ptr d1 \<noteq> None" by blast
      have "head_ptr d \<noteq> None" using owns_dummies [OF Cons.prems] snoc by fastforce
      with Cons.IH [OF s(2)] s(1,3) snoc show ?thesis by (simp add: CallPop)
    qed
  qed
qed

section \<open>Properties\<close>

text \<open>C12. Typing of the store of a doubly linked list. Whatever a client does that only moves nodes of
  the list and pops only a list that is not empty, no call follows a null pointer or touches a freed
  node; afterwards every pointer field of a live node is null or refers to a live node whose
  opposite field points back, and every member has data. The destructor then frees every
  reachable node, none twice. What stays allocated are dummy nodes without data, two for every time
  the list ran empty and was filled again: \<open>PushFront\<close> makes new dummy nodes whenever \<open>size_\<close> is 0.\<close>

theorem dual_list_well_typed:
  "\<exists>xs d d'. call_all cs ([], DualList_new) = Inr (xs, d) \<and> mirror (nx d) (pv d) \<and>
    ran (nx d) \<union> ran (pv d) \<subseteq> dom (store d) \<and> set xs \<subseteq> dom (data_at d) \<and> distinct xs \<and> dl_size d = length xs \<and>
    DualList_delete d = Inr d' \<and> data_at d' = (\<lambda>_. None) \<and> card (dom (store d')) = 2 * refills cs False 0"
proof -
  obtain xs d lost where r: "call_all cs ([], DualList_new) = Inr (xs, d)" "owns d xs lost" "card lost = 2 * refills cs False 0"
    using call_all_owns [OF owns_new, of cs] by (auto simp: DualList_new_def)
  obtain d' where "DualList_delete d = Inr d'" "dom (store d') = lost" "data_at d' = (\<lambda>_. None)"
    using owns_delete [OF r(2)] by blast
  moreover have "mirror (nx d) (pv d)" "set xs \<subseteq> dom (data_at d)" "dl_size d = length xs" using r(2) by (simp_all add: owns_def)
  moreover have "distinct xs"
    using r(2) by (cases "head_ptr d = None") (auto simp: owns_def ends_def)
  ultimately show ?thesis using r(1,3) mirror_live [of d]
    by (intro exI [of _ xs] exI [of _ d] exI [of _ d']) simp
qed

text \<open>The doubly linked list is a sequence: on a well-formed store no operation follows a null
  pointer or touches a freed node; \<open>MoveFront\<close> moves a member to the front, \<open>PushFront\<close> adds a
  new node with its data there, \<open>PopBack\<close> frees the last node, \<open>Back\<close> reads its data, and the
  store stays well formed (links in both directions, size, no sharing).\<close>

theorem dual_list_is_a_sequence:
  assumes "dual d (xs @ [a])" "data_at d a = Some w" "us @ b # vs = xs @ [a]"
  shows "(\<exists>d'. MoveFront b d = Inr d' \<and> dual d' (b # us @ vs) \<and> data_at d' = data_at d) \<and>
    (\<exists>n d'. PushFront v d = Inr (n, d') \<and> dual d' (n # xs @ [a]) \<and> data_at d' n = Some v \<and>
      (\<forall>c\<in>set (xs @ [a]). data_at d' c = data_at d c)) \<and>
    (\<exists>d'. PopBack d = Inr d' \<and> dual d' xs \<and> (\<forall>c\<in>set xs. data_at d' c = data_at d c)) \<and>
    Back d = Inr w"
proof -
  have "dual d (us @ b # vs)" using assms(1,3) by simp
  then have "\<exists>d'. MoveFront b d = Inr d' \<and> dual d' (b # us @ vs) \<and> data_at d' = data_at d"
    using MoveFront_dual by (fastforce simp: same_nodes_def)
  moreover have "\<exists>n d'. PushFront v d = Inr (n, d') \<and> dual d' (n # xs @ [a]) \<and> data_at d' n = Some v \<and>
      (\<forall>c\<in>set (xs @ [a]). data_at d' c = data_at d c)"
    using PushFront_dual [OF assms(1)] by blast
  ultimately show ?thesis using PopBack_dual [OF assms(1)] Back_dual [OF assms(1,2)] by blast
qed

theorem dual_list_is_a_sequence_witness:
  "\<exists>d a w d' n. PushFront (5 :: nat) DualList_new = Inr (a, d) \<and> Back d = Inr (5 :: nat) \<and> PushFront 6 d = Inr (n, d')"
proof -
  obtain a d where d: "PushFront (5 :: nat) DualList_new = Inr (a, d)" "dual d ([] @ [a])" "data_at d a = Some 5"
    using PushFront_dual [OF dual_new, of "5 :: nat"] by auto
  from dual_list_is_a_sequence [OF d(2,3), of "[]" a "[]" 6] show ?thesis using d(1) by auto
qed

text \<open>\<open>PopBack\<close> and \<open>Back\<close> of a list that never held an element follow a null pointer, and
  \<open>MoveFront\<close> of a node that has been popped touches freed memory.\<close>

theorem dual_list_misuse:
  "PopBack (DualList_new :: 'a dual_list) = Inl Uninit \<and> Back (DualList_new :: 'a dual_list) = Inl Uninit \<and>
   (\<exists>a d d1. PushFront v DualList_new = Inr (a, d) \<and> PopBack d = Inr d1 \<and> MoveFront a d1 = Inl UseAfterFree)"
proof -
  obtain a d where d: "PushFront v DualList_new = Inr (a, d)" "dual d ([] @ [a])"
    using PushFront_dual [OF dual_new, of v] by auto
  obtain d1 where d1: "PopBack d = Inr d1" "store d1 a = None" using PopBack_dual [OF d(2)] by blast
  then have "MoveFront a d1 = Inl UseAfterFree" by (simp add: MoveFront_def get_prev_ptr_def node_at_def)
  moreover have "PopBack (DualList_new :: 'a dual_list) = Inl Uninit" "Back (DualList_new :: 'a dual_list) = Inl Uninit"
    by (simp_all add: PopBack_def Back_def DualList_new_def)
  ultimately show ?thesis using d(1) d1(1) by blast
qed

end
