(* ===== verification/LruCache.thy ===== *)
theory LruCache
  imports DualList MemAllocator Interfaces Basics InternalEntry
begin

text \<open>
  \<open>LRUCache<Sequence, Sequence, SeqHash, SeqEqual>\<close> and \<open>TCCache\<close> (\<open>include/table/cache.h\<close>,
  \<open>src/table/cache.cc\<close>), and the unspecialised \<open>LRUCache\<close>.

  The index is an \<open>unordered_map\<close> whose keys are \<open>Sequence\<close>s: it stores the address and the size
  the caller passed, not the copy of the key that the list node holds. The model keeps that:
  a stored key is a \<open>seqref\<close> together with its hash, and the bytes behind it are looked up in
  the caller's memory \<open>mem\<close> whenever the map compares keys. The hash function of the standard
  library is the parameter \<open>hash\<close>.
\<close>

section \<open>State\<close>

type_synonym caller_memory = "nat \<Rightarrow> bytes"
type_synonym seqref = "nat \<times> nat"

definition seq_bytes :: "caller_memory \<Rightarrow> seqref \<Rightarrow> bytes" where
  "seq_bytes mem r = take (snd r) (mem (fst r))"

text \<open>\<open>SeqHash\<close> and \<open>SeqEqual\<close> as the key equality of the map, whose nodes store the hash.\<close>

definition key_equal :: "u64 \<times> bytes \<Rightarrow> u64 \<times> bytes \<Rightarrow> bool" where
  "key_equal x y \<longleftrightarrow> fst x = fst y \<and> SeqEqual (snd x) (snd y)"

lemma key_equal_equivalence:
  "key_equal x x" "key_equal x y \<Longrightarrow> key_equal y x" "key_equal x y \<Longrightarrow> key_equal y z \<Longrightarrow> key_equal x z"
  by (auto simp: key_equal_def intro: SeqEqual_refl SeqEqual_sym SeqEqual_trans)

interpretation seq_map: hash_equality key_equal
  by unfold_locales (fact key_equal_equivalence)+

definition matches :: "caller_memory \<Rightarrow> (bytes \<Rightarrow> u64) \<Rightarrow> bytes \<Rightarrow> u64 \<times> seqref \<Rightarrow> bool" where
  "matches mem hash key stored \<longleftrightarrow> key_equal (hash key, key) (fst stored, seq_bytes mem (snd stored))"

record NodeData =
  nd_key :: bytes
  nd_val :: bytes
  key_block_id :: nat
  val_block_id :: nat

record LRUCache =
  lru_data :: "NodeData dual_list"
  lru_index :: "((u64 \<times> seqref) \<times> nat) list"
  cache_pool :: allocator
  cache_size :: u32
  capacity :: u32

definition LRUCache_new :: "u32 \<Rightarrow> LRUCache" where
  "LRUCache_new cap = \<lparr>lru_data = DualList_new, lru_index = [], cache_pool = MemAllocator_default,
     cache_size = 0, capacity = cap\<rparr>"

section \<open>Operations\<close>

definition LRU_Get ::
    "(bytes \<Rightarrow> u64) \<Rightarrow> caller_memory \<Rightarrow> LRUCache \<Rightarrow> seqref \<Rightarrow> (bytes option \<times> LRUCache) res" where
  "LRU_Get hash mem c key =
     (case um_find (matches mem hash (seq_bytes mem key)) (lru_index c) of
        None \<Rightarrow> Inr (None, c)
      | Some a \<Rightarrow>
          rbind (MoveFront a (lru_data c)) (\<lambda>d. rbind (read_data a d) (\<lambda>nd.
          Inr (Some (nd_val nd), c\<lparr>lru_data := d\<rparr>))))"

text \<open>The tail of \<open>Insert\<close>: evict the last node when the list is too long.\<close>

definition LRU_evict ::
    "(bytes \<Rightarrow> u64) \<Rightarrow> caller_memory \<Rightarrow> LRUCache \<Rightarrow> LRUCache res" where
  "LRU_evict hash mem c =
     (if dl_size (lru_data c) > unat (capacity c) then
        rbind (Back (lru_data c)) (\<lambda>nd. rbind (PopBack (lru_data c)) (\<lambda>d.
        Inr (c\<lparr>lru_data := d, lru_index := um_erase (matches mem hash (nd_key nd)) (lru_index c),
          cache_pool := snd (Unref (snd (Unref (cache_pool c) (key_block_id nd))) (val_block_id nd)),
          cache_size := cache_size c - 1\<rparr>)))
      else Inr c)"

definition LRU_Insert ::
    "(bytes \<Rightarrow> u64) \<Rightarrow> caller_memory \<Rightarrow> LRUCache \<Rightarrow> seqref \<Rightarrow> bytes \<Rightarrow> LRUCache res" where
  "LRU_Insert hash mem c key val =
     (let k = seq_bytes mem key in
      rbind
       (case um_find (matches mem hash k) (lru_index c) of
          Some a \<Rightarrow>
            let (cache_val, block_id, pool1) = Cache_Allocate (cache_pool c) (length val) in
            rbind (read_data a (lru_data c)) (\<lambda>nd.
            let pool2 = snd (Unref pool1 (val_block_id nd)) in
            rbind (write_data a (nd\<lparr>nd_val := val, val_block_id := block_id\<rparr>) (lru_data c)) (\<lambda>d1.
            rbind (MoveFront a d1) (\<lambda>d2.
            Inr (c\<lparr>lru_data := d2, cache_pool := pool2\<rparr>))))
        | None \<Rightarrow>
            let (cache_k, k_block_id, pool1) = Cache_Allocate (cache_pool c) (length k);
                (cache_v, v_block_id, pool2) = Cache_Allocate pool1 (length val)
            in rbind (PushFront \<lparr>nd_key = k, nd_val = val, key_block_id = k_block_id,
                                 val_block_id = v_block_id\<rparr> (lru_data c)) (\<lambda>(a, d1).
               Inr (c\<lparr>lru_data := d1, lru_index := ((hash k, key), a) # lru_index c,
                 cache_pool := pool2, cache_size := cache_size c + 1\<rparr>)))
       (LRU_evict hash mem))"

definition TCCache_new :: "u32 \<Rightarrow> LRUCache" where
  "TCCache_new n = LRUCache_new n"

text \<open>\<open>TCCache\<close>: the first byte of a cached value is the operation.\<close>

definition InsertOrUpdate ::
    "(bytes \<Rightarrow> u64) \<Rightarrow> caller_memory \<Rightarrow> LRUCache \<Rightarrow> seqref \<Rightarrow> bytes \<Rightarrow> (bool \<times> LRUCache) res" where [simp]:
  "InsertOrUpdate hash mem c key val = rmap (\<lambda>c'. (True, c')) (LRU_Insert hash mem c key val)"

definition TCCache_Insert where
  "TCCache_Insert hash mem c key val = InsertOrUpdate hash mem c key (op_byte kInsert # val)"

definition TCCache_Delete where
  "TCCache_Delete hash mem c key = InsertOrUpdate hash mem c key [op_byte kDelete]"

definition TCCache_Get ::
    "(bytes \<Rightarrow> u64) \<Rightarrow> caller_memory \<Rightarrow> LRUCache \<Rightarrow> seqref \<Rightarrow> (bytes option \<times> LRUCache) res" where
  "TCCache_Get hash mem c key =
     rbind (LRU_Get hash mem c key) (\<lambda>(r, c').
     case r of
       None \<Rightarrow> Inr (None, c')
     | Some tmp \<Rightarrow>
         rbind (rd tmp 0) (\<lambda>b.
         if b = op_byte kDelete then Inr (None, c')
         else if b = op_byte kInsert then Inr (Some (tl tmp), c')
         else Inr (None, c')))"

section \<open>The unspecialised cache\<close>

text \<open>\<open>std::hash\<close> and \<open>std::equal_to\<close> compare the keys themselves, which the map owns. An update
  also takes the branch that increments \<open>size_\<close>; an eviction leaves \<open>size_\<close> alone.\<close>

record ('k, 'v) GenericLRU =
  gen_data :: "('k \<times> 'v) dual_list"
  gen_index :: "'k \<rightharpoonup> nat"
  gen_size :: u32
  gen_capacity :: u32

definition GenericLRU_new :: "u32 \<Rightarrow> ('k, 'v) GenericLRU" where
  "GenericLRU_new cap = \<lparr>gen_data = DualList_new, gen_index = Map.empty, gen_size = 0, gen_capacity = cap\<rparr>"

definition Generic_Get :: "('k, 'v) GenericLRU \<Rightarrow> 'k \<Rightarrow> ('v option \<times> ('k, 'v) GenericLRU) res" where
  "Generic_Get c key =
     (case gen_index c key of
        None \<Rightarrow> Inr (None, c)
      | Some a \<Rightarrow>
          rbind (MoveFront a (gen_data c)) (\<lambda>d. rbind (read_data a d) (\<lambda>kv.
          Inr (Some (snd kv), c\<lparr>gen_data := d\<rparr>))))"

definition Generic_Insert :: "('k, 'v) GenericLRU \<Rightarrow> 'k \<Rightarrow> 'v \<Rightarrow> ('k, 'v) GenericLRU res" where
  "Generic_Insert c key val =
     rbind
      (case gen_index c key of
         Some a \<Rightarrow>
           rbind (read_data a (gen_data c)) (\<lambda>kv. rbind (write_data a (fst kv, val) (gen_data c)) (\<lambda>d1.
           rmap (\<lambda>d2. c\<lparr>gen_data := d2\<rparr>) (MoveFront a d1)))
       | None \<Rightarrow>
           rmap (\<lambda>(a, d1). c\<lparr>gen_data := d1, gen_index := (gen_index c)(key \<mapsto> a)\<rparr>)
             (PushFront (key, val) (gen_data c)))
      (\<lambda>c1.
        if dl_size (gen_data c1) > unat (gen_capacity c1) then
          rbind (Back (gen_data c1)) (\<lambda>kv. rmap (\<lambda>d. c1\<lparr>gen_data := d, gen_index := (gen_index c1)(fst kv := None)\<rparr>)
            (PopBack (gen_data c1)))
        else Inr (c1\<lparr>gen_size := gen_size c1 + 1\<rparr>))"

section \<open>The abstract cache\<close>

text \<open>Most recently used first.\<close>

type_synonym ('k, 'v) recency = "('k \<times> 'v) list"

definition rec_put :: "nat \<Rightarrow> 'k \<Rightarrow> 'v \<Rightarrow> ('k, 'v) recency \<Rightarrow> ('k, 'v) recency" where
  "rec_put n k v xs = take n ((k, v) # filter (\<lambda>x. fst x \<noteq> k) xs)"

definition rec_touch :: "'k \<Rightarrow> ('k, 'v) recency \<Rightarrow> ('k, 'v) recency" where
  "rec_touch k xs = (case map_of xs k of None \<Rightarrow> xs | Some v \<Rightarrow> (k, v) # filter (\<lambda>x. fst x \<noteq> k) xs)"

text \<open>Keys that the map cannot tell apart are equal.\<close>

definition no_collision :: "(bytes \<Rightarrow> u64) \<Rightarrow> bytes set \<Rightarrow> bool" where
  "no_collision hash K \<longleftrightarrow> (\<forall>x\<in>K. \<forall>y\<in>K. hash x = hash y \<longrightarrow> SeqEqual x y \<longrightarrow> x = y)"

definition kv_at :: "NodeData dual_list \<Rightarrow> nat \<Rightarrow> (bytes \<times> bytes) option" where
  "kv_at d a = map_option (\<lambda>nd. (nd_key nd, nd_val nd)) (data_at d a)"

definition index_rel ::
    "(bytes \<Rightarrow> u64) \<Rightarrow> caller_memory \<Rightarrow> NodeData dual_list \<Rightarrow> nat list \<Rightarrow> ((u64 \<times> seqref) \<times> nat) list \<Rightarrow> bool" where
  "index_rel hash mem d as idx \<longleftrightarrow> snd ` set idx = set as \<and>
     um_ok key_equal (\<lambda>s. (fst s, seq_bytes mem (snd s))) idx \<and>
     (\<forall>s a. (s, a) \<in> set idx \<longrightarrow> fst s = hash (seq_bytes mem (snd s)) \<and>
        (\<exists>v. kv_at d a = Some (seq_bytes mem (snd s), v)))"

definition cache_core ::
    "(bytes \<Rightarrow> u64) \<Rightarrow> caller_memory \<Rightarrow> bytes set \<Rightarrow> LRUCache \<Rightarrow> (bytes, bytes) recency \<Rightarrow> bool" where
  "cache_core hash mem K c xs \<longleftrightarrow> (\<exists>as. dual (lru_data c) as \<and> map (kv_at (lru_data c)) as = map Some xs \<and>
     index_rel hash mem (lru_data c) as (lru_index c)) \<and>
     distinct (map fst xs) \<and> fst ` set xs \<subseteq> K \<and> cache_size c = of_nat (length xs)"

definition cache_rel ::
    "(bytes \<Rightarrow> u64) \<Rightarrow> caller_memory \<Rightarrow> bytes set \<Rightarrow> LRUCache \<Rightarrow> (bytes, bytes) recency \<Rightarrow> bool" where
  "cache_rel hash mem K c xs \<longleftrightarrow> cache_core hash mem K c xs \<and> length xs \<le> unat (capacity c)"

lemma matches_eq: "matches mem hash k = (\<lambda>s. key_equal (hash k, k) (fst s, seq_bytes mem (snd s)))"
  by (simp add: fun_eq_iff matches_def)

lemma matches_iff:
  assumes "no_collision hash K" "k \<in> K" "k' \<in> K" "h = hash k'"
  shows "key_equal (hash k, k) (h, k') \<longleftrightarrow> k = k'"
  using assms SeqEqual_refl by (auto simp: key_equal_def no_collision_def)

lemma map_Some_mem: "map f as = map Some ys \<Longrightarrow> a \<in> set as \<Longrightarrow> f a = Some y \<Longrightarrow> y \<in> set ys"
  by (induction as arbitrary: ys) (auto simp: Cons_eq_map_conv)

lemma index_relD:
  assumes "index_rel hash mem d as idx" "(s, a) \<in> set idx"
  shows "fst s = hash (seq_bytes mem (snd s))" "\<exists>v. kv_at d a = Some (seq_bytes mem (snd s), v)" "a \<in> set as"
  using assms unfolding index_rel_def by (blast, blast, force)

text \<open>What is known of a hit and of a miss.\<close>

lemma find_hit:
  assumes "index_rel hash mem d as idx" "map (kv_at d) as = map Some xs" "fst ` set xs \<subseteq> K"
    and "no_collision hash K" "k \<in> K" "um_find (matches mem hash k) idx = Some a"
  shows "\<exists>us vs xs1 v xs2. as = us @ a # vs \<and> xs = xs1 @ (k, v) # xs2 \<and>
    map (kv_at d) us = map Some xs1 \<and> kv_at d a = Some (k, v) \<and> map (kv_at d) vs = map Some xs2"
proof -
  obtain s where s: "(s, a) \<in> set idx" "key_equal (hash k, k) (fst s, seq_bytes mem (snd s))"
    using um_find_SomeD [OF assms(6)] by (auto simp: matches_def)
  obtain v where v: "fst s = hash (seq_bytes mem (snd s))" "kv_at d a = Some (seq_bytes mem (snd s), v)"
    using index_relD [OF assms(1) s(1)] by blast
  obtain us vs where as: "as = us @ a # vs" using index_relD(3) [OF assms(1) s(1)] by (meson split_list)
  with assms(2) obtain xs1 y xs2 where xs: "xs = xs1 @ y # xs2" "map (kv_at d) us = map Some xs1"
    "kv_at d a = Some y" "map (kv_at d) vs = map Some xs2"
    by (auto simp: map_eq_append_conv Cons_eq_map_conv append_eq_map_conv)
  then have "seq_bytes mem (snd s) \<in> K" using assms(3) v(2) by force
  then have "seq_bytes mem (snd s) = k" using matches_iff [OF assms(4,5)] s(2) v(1) by metis
  then have "y = (k, v)" using v(2) xs(3) by simp
  with as xs show ?thesis by blast
qed

lemma find_miss:
  assumes "index_rel hash mem d as idx" "map (kv_at d) as = map Some xs"
    and "um_find (matches mem hash k) idx = None"
  shows "k \<notin> fst ` set xs"
proof
  assume "k \<in> fst ` set xs"
  then obtain v where "Some (k, v) \<in> set (map Some xs)" by force
  then obtain a where a: "a \<in> set as" "kv_at d a = Some (k, v)" unfolding assms(2) [symmetric] by auto
  then obtain s where "(s, a) \<in> set idx" using assms(1) by (force simp: index_rel_def)
  from index_relD(1,2) [OF assms(1) this] have "matches mem hash k s"
    using a(2) SeqEqual_refl by (auto simp: matches_def key_equal_def)
  then show False using assms(3) \<open>(s, a) \<in> set idx\<close> by (fastforce simp: um_find_None)
qed

lemma filter_key: "distinct (map fst (xs1 @ (k, v) # xs2)) \<Longrightarrow>
    filter (\<lambda>x. fst x \<noteq> k) (xs1 @ (k, v) # xs2) = xs1 @ xs2"
  by (auto simp: filter_id_conv intro!: arg_cong2 [where f = append])

lemma map_of_mid: "distinct (map fst (xs1 @ (k, v) # xs2)) \<Longrightarrow> map_of (xs1 @ (k, v) # xs2) k = Some v"
  by (intro map_of_is_SomeI) simp_all

text \<open>Moving a hit to the front, possibly with a new value.\<close>

lemma kv_at_same: "same_nodes d d' \<Longrightarrow> kv_at d' = kv_at d"
  by (simp add: kv_at_def same_nodes_def fun_eq_iff)

lemma index_rel_perm:
  assumes "index_rel hash mem d as idx" "set as' = set as"
    and "\<And>a k v. kv_at d a = Some (k, v) \<Longrightarrow> \<exists>v'. kv_at d' a = Some (k, v')"
  shows "index_rel hash mem d' as' idx"
  unfolding index_rel_def
proof (intro conjI allI impI)
  show "snd ` set idx = set as'" "um_ok key_equal (\<lambda>s. (fst s, seq_bytes mem (snd s))) idx"
    using assms(1,2) by (simp_all add: index_rel_def)
  fix s a
  assume "(s, a) \<in> set idx"
  note s = index_relD [OF assms(1) this]
  show "fst s = hash (seq_bytes mem (snd s))" by (rule s(1))
  show "\<exists>v. kv_at d' a = Some (seq_bytes mem (snd s), v)" using s(2) assms(3) by blast
qed

lemma LRU_Get_rel:
  assumes "cache_rel hash mem K c xs" "no_collision hash K" "seq_bytes mem key \<in> K"
  shows "\<exists>c'. LRU_Get hash mem c key = Inr (map_of xs (seq_bytes mem key), c') \<and>
    cache_rel hash mem K c' (rec_touch (seq_bytes mem key) xs) \<and> capacity c' = capacity c"
proof -
  let ?k = "seq_bytes mem key"
  obtain as where as: "dual (lru_data c) as" "map (kv_at (lru_data c)) as = map Some xs"
    "index_rel hash mem (lru_data c) as (lru_index c)" and rest: "distinct (map fst xs)" "fst ` set xs \<subseteq> K"
    "cache_size c = of_nat (length xs)" "length xs \<le> unat (capacity c)"
    using assms(1) by (auto simp: cache_rel_def cache_core_def)
  show ?thesis
  proof (cases "um_find (matches mem hash ?k) (lru_index c)")
    case None
    then have "map_of xs ?k = None" using find_miss [OF as(3,2)] by (simp add: map_of_eq_None_iff)
    then show ?thesis using None assms(1) by (simp add: LRU_Get_def rec_touch_def)
  next
    case (Some a)
    obtain us vs xs1 v xs2 where h: "as = us @ a # vs" "xs = xs1 @ (?k, v) # xs2"
      "map (kv_at (lru_data c)) us = map Some xs1" "kv_at (lru_data c) a = Some (?k, v)"
      "map (kv_at (lru_data c)) vs = map Some xs2"
      using find_hit [OF as(3,2) rest(2) assms(2,3) Some] by blast
    obtain d' where d': "MoveFront a (lru_data c) = Inr d'" "same_nodes (lru_data c) d'" "dual d' (a # us @ vs)"
      using MoveFront_dual as(1) h(1) by blast
    note kv = kv_at_same [OF d'(2)]
    have "kv_at d' a = Some (?k, v)" using h(4) kv by simp
    then obtain nd where nd: "data_at d' a = Some nd" "nd_val nd = v" by (auto simp: kv_at_def)
    have "map_of xs ?k = Some v" using map_of_mid rest(1) h(2) by metis
    moreover have "filter (\<lambda>x. fst x \<noteq> ?k) xs = xs1 @ xs2" using filter_key rest(1) h(2) by metis
    ultimately have "rec_touch ?k xs = (?k, v) # xs1 @ xs2" by (simp add: rec_touch_def)
    moreover have "map (kv_at d') (a # us @ vs) = map Some ((?k, v) # xs1 @ xs2)" using h kv by simp
    moreover have "index_rel hash mem d' (a # us @ vs) (lru_index c)"
      using kv h(1) by (intro index_rel_perm [OF as(3)]) auto
    ultimately have "cache_rel hash mem K (c\<lparr>lru_data := d'\<rparr>) (rec_touch ?k xs)"
      using d'(3) rest h(2) unfolding cache_rel_def cache_core_def by (intro conjI exI [of _ "a # us @ vs"]) auto
    then show ?thesis
      using Some d'(1) read_data_dual [OF nd(1)] nd(2) \<open>map_of xs ?k = Some v\<close> by (simp add: LRU_Get_def)
  qed
qed

lemma LRU_evict_rel:
  assumes "cache_core hash mem K c ys" "length ys \<le> Suc (unat (capacity c))" "no_collision hash K"
  shows "\<exists>c'. LRU_evict hash mem c = Inr c' \<and> cache_rel hash mem K c' (take (unat (capacity c)) ys) \<and>
    capacity c' = capacity c"
proof -
  obtain as where as: "dual (lru_data c) as" "map (kv_at (lru_data c)) as = map Some ys"
    "index_rel hash mem (lru_data c) as (lru_index c)" and rest: "distinct (map fst ys)" "fst ` set ys \<subseteq> K"
    "cache_size c = of_nat (length ys)"
    using assms(1) by (auto simp: cache_core_def)
  have len: "dl_size (lru_data c) = length ys" using as(1) arg_cong [OF as(2), of length] by (simp add: dual_def)
  show ?thesis
  proof (cases "length ys > unat (capacity c)")
    case False
    then show ?thesis using assms(1) len by (simp add: LRU_evict_def cache_rel_def)
  next
    case True
    then have n: "length ys = Suc (unat (capacity c))" using assms(2) by simp
    then have "ys \<noteq> []" by auto
    then obtain ys' k v where ys: "ys = ys' @ [(k, v)]" by (cases ys rule: rev_cases) auto
    with as(2) obtain as' a where asa: "as = as' @ [a]" "map (kv_at (lru_data c)) as' = map Some ys'"
      "kv_at (lru_data c) a = Some (k, v)"
      by (cases as rule: rev_cases) auto
    then obtain nd where nd: "data_at (lru_data c) a = Some nd" "nd_key nd = k" by (auto simp: kv_at_def)
    obtain d' where d': "PopBack (lru_data c) = Inr d'" "dual d' as'"
      "\<forall>b\<in>set as'. data_at d' b = data_at (lru_data c) b"
      using PopBack_dual as(1) asa(1) by blast
    have kv: "kv_at d' b = kv_at (lru_data c) b" if "b \<in> set as'" for b using d'(3) that by (simp add: kv_at_def)
    let ?idx = "um_erase (matches mem hash k) (lru_index c)"
    have ok: "um_ok key_equal (\<lambda>s. (fst s, seq_bytes mem (snd s))) (lru_index c)"
      using as(3) by (simp add: index_rel_def)
    have kK: "k \<in> K" using rest(2) ys by auto
    have hit: "key_equal (hash k, k) (fst s, seq_bytes mem (snd s)) \<longleftrightarrow> b = a" if "(s, b) \<in> set (lru_index c)" for s b
    proof -
      note d = index_relD [OF as(3) that]
      obtain w where w: "kv_at (lru_data c) b = Some (seq_bytes mem (snd s), w)" using d(2) by blast
      then have "(seq_bytes mem (snd s), w) \<in> set ys" using map_Some_mem [OF as(2) d(3)] by blast
      then have "seq_bytes mem (snd s) \<in> K" using rest(2) by force
      then have "key_equal (hash k, k) (fst s, seq_bytes mem (snd s)) \<longleftrightarrow> k = seq_bytes mem (snd s)"
        by (intro matches_iff [OF assms(3) kK]) (simp_all add: d(1))
      also have "\<dots> \<longleftrightarrow> b = a"
      proof
        assume eq: "k = seq_bytes mem (snd s)"
        show "b = a"
        proof (rule ccontr)
          assume "b \<noteq> a"
          then have "b \<in> set as'" using d(3) asa(1) by simp
          then have "(k, w) \<in> set ys'" using map_Some_mem [OF asa(2)] w eq by blast
          then show False using rest(1) ys by force
        qed
      next
        assume "b = a"
        then show "k = seq_bytes mem (snd s)" using w asa(3) by simp
      qed
      finally show ?thesis .
    qed
    have idx: "set ?idx = {x \<in> set (lru_index c). snd x \<noteq> a}"
      unfolding matches_eq seq_map.set_um_erase [OF ok] using hit by auto
    have "a \<notin> set as'" using dual_distinct [OF as(1)] asa(1) by simp
    have "index_rel hash mem d' as' ?idx"
      unfolding index_rel_def
    proof (intro conjI allI impI)
      have "snd ` set ?idx = snd ` set (lru_index c) - {a}" unfolding idx by auto
      then show "snd ` set ?idx = set as'" using as(3) asa(1) \<open>a \<notin> set as'\<close> by (auto simp: index_rel_def)
      show "um_ok key_equal (\<lambda>s. (fst s, seq_bytes mem (snd s))) ?idx" using ok by (rule seq_map.um_ok_erase)
      fix s b assume "(s, b) \<in> set ?idx"
      then have sb: "(s, b) \<in> set (lru_index c)" "b \<noteq> a" using idx by auto
      note d = index_relD [OF as(3) sb(1)]
      show "fst s = hash (seq_bytes mem (snd s))" by (rule d(1))
      have "b \<in> set as'" using d(3) sb(2) asa(1) by simp
      then show "\<exists>v. kv_at d' b = Some (seq_bytes mem (snd s), v)" using d(2) kv by simp
    qed
    moreover have "map (kv_at d') as' = map Some ys'"
      unfolding asa(2) [symmetric] by (rule map_cong) (simp_all add: kv)
    moreover have "take (unat (capacity c)) ys = ys'" "length ys' = unat (capacity c)" using ys n by simp_all
    moreover have "cache_size c - 1 = of_nat (length ys')" using rest(3) ys by simp
    ultimately show ?thesis
      using True len nd Back_dual [OF _ nd(1)] as(1) asa(1) d'(1,2) rest ys
      by (auto simp: LRU_evict_def cache_rel_def cache_core_def)
  qed
qed

lemma LRU_Insert_rel:
  assumes "cache_rel hash mem K c xs" "no_collision hash K" "seq_bytes mem key \<in> K"
  shows "\<exists>c'. LRU_Insert hash mem c key val = Inr c' \<and>
    cache_rel hash mem K c' (rec_put (unat (capacity c)) (seq_bytes mem key) val xs) \<and> capacity c' = capacity c"
proof -
  let ?k = "seq_bytes mem key" and ?n = "unat (capacity c)"
  let ?ys = "(?k, val) # filter (\<lambda>x. fst x \<noteq> ?k) xs"
  obtain as where as: "dual (lru_data c) as" "map (kv_at (lru_data c)) as = map Some xs"
    "index_rel hash mem (lru_data c) as (lru_index c)" and rest: "distinct (map fst xs)" "fst ` set xs \<subseteq> K"
    "cache_size c = of_nat (length xs)" "length xs \<le> ?n"
    using assms(1) by (auto simp: cache_rel_def cache_core_def)
  have evict: "\<exists>c'. LRU_evict hash mem c1 = Inr c' \<and> cache_rel hash mem K c' (take ?n ?ys) \<and> capacity c' = capacity c"
    if "cache_core hash mem K c1 ?ys" "capacity c1 = capacity c" for c1
  proof -
    have "length ?ys \<le> Suc ?n"
      using order_trans [OF length_filter_le [of "\<lambda>x. fst x \<noteq> ?k" xs] rest(4)] by simp
    with LRU_evict_rel [OF that(1) _ assms(2)] that(2) show ?thesis by simp
  qed
  show ?thesis
  proof (cases "um_find (matches mem hash ?k) (lru_index c)")
    case None
    then have new: "?k \<notin> fst ` set xs" using find_miss [OF as(3,2)] by simp
    then have "filter (\<lambda>x. fst x \<noteq> ?k) xs = xs" by (force simp: filter_id_conv)
    then have ys: "?ys = (?k, val) # xs" by simp
    obtain p1 b1 q1 where a1: "Cache_Allocate (cache_pool c) (length ?k) = (p1, b1, q1)" by (cases "Cache_Allocate (cache_pool c) (length ?k)")
    obtain p2 b2 q2 where a2: "Cache_Allocate q1 (length val) = (p2, b2, q2)" by (cases "Cache_Allocate q1 (length val)")
    let ?nd = "\<lparr>nd_key = ?k, nd_val = val, key_block_id = b1, val_block_id = b2\<rparr>"
    obtain a d1 where d1: "PushFront ?nd (lru_data c) = Inr (a, d1)" "dual d1 (a # as)" "a \<notin> set as"
      "data_at d1 a = Some ?nd" "\<forall>b\<in>set as. data_at d1 b = data_at (lru_data c) b"
      using PushFront_dual [OF as(1), of ?nd] by blast
    let ?c1 = "c\<lparr>lru_data := d1, lru_index := ((hash ?k, key), a) # lru_index c, cache_pool := q2,
      cache_size := cache_size c + 1\<rparr>"
    have kv: "kv_at d1 b = kv_at (lru_data c) b" if "b \<in> set as" for b using d1(5) that by (simp add: kv_at_def)
    have "um_ok key_equal (\<lambda>s. (fst s, seq_bytes mem (snd s))) (((hash ?k, key), a) # lru_index c)"
      using as(3) None by (intro seq_map.um_ok_insert) (simp_all add: index_rel_def matches_eq)
    moreover have "kv_at d1 a = Some (?k, val)" using d1(4) by (simp add: kv_at_def)
    moreover have "fst s = hash (seq_bytes mem (snd s)) \<and> (\<exists>v. kv_at d1 b = Some (seq_bytes mem (snd s), v))"
      if "(s, b) \<in> set (lru_index c)" for s b
      using index_relD [OF as(3) that] kv by simp
    ultimately have "index_rel hash mem d1 (a # as) (((hash ?k, key), a) # lru_index c)"
      using as(3) unfolding index_rel_def by auto
    moreover have "map (kv_at d1) as = map Some xs"
      unfolding as(2) [symmetric] by (rule map_cong) (simp_all add: kv)
    then have "map (kv_at d1) (a # as) = map Some ?ys" using ys d1(4) by (simp add: kv_at_def)
    ultimately have "cache_core hash mem K ?c1 ?ys"
      using d1(2) rest new assms(3) ys unfolding cache_core_def by (intro conjI exI [of _ "a # as"]) auto
    from evict [OF this] obtain c' where "LRU_evict hash mem ?c1 = Inr c'" "cache_rel hash mem K c' (take ?n ?ys)"
      "capacity c' = capacity c" by auto
    then show ?thesis using None a1 a2 d1(1) by (simp add: LRU_Insert_def rec_put_def)
  next
    case (Some a)
    obtain us vs xs1 v xs2 where h: "as = us @ a # vs" "xs = xs1 @ (?k, v) # xs2"
      "map (kv_at (lru_data c)) us = map Some xs1" "kv_at (lru_data c) a = Some (?k, v)"
      "map (kv_at (lru_data c)) vs = map Some xs2"
      using find_hit [OF as(3,2) rest(2) assms(2,3) Some] by blast
    have ys: "?ys = (?k, val) # xs1 @ xs2" using filter_key rest(1) h(2) by metis
    obtain p1 b1 q1 where a1: "Cache_Allocate (cache_pool c) (length val) = (p1, b1, q1)" by (cases "Cache_Allocate (cache_pool c) (length val)")
    obtain nd where nd: "data_at (lru_data c) a = Some nd" "nd_key nd = ?k" using h(4) by (auto simp: kv_at_def)
    let ?nd = "nd\<lparr>nd_val := val, val_block_id := b1\<rparr>"
    have "a \<in> set as" using h(1) by simp
    obtain d1 where d1: "write_data a ?nd (lru_data c) = Inr d1" "dual d1 as"
      "data_at d1 = (data_at (lru_data c))(a := Some ?nd)"
      using write_data_dual [OF as(1) \<open>a \<in> set as\<close>, of ?nd] by blast
    obtain d2 where d2: "MoveFront a d1 = Inr d2" "same_nodes d1 d2" "dual d2 (a # us @ vs)"
      using MoveFront_dual d1(2) h(1) by blast
    have kv: "kv_at d2 = (kv_at (lru_data c))(a := Some (?k, val))"
      using kv_at_same [OF d2(2)] d1(3) nd(2) by (auto simp: kv_at_def fun_eq_iff)
    let ?c1 = "c\<lparr>lru_data := d2, cache_pool := snd (Unref q1 (val_block_id nd))\<rparr>"
    have "a \<notin> set us" "a \<notin> set vs" using dual_distinct [OF as(1)] h(1) by auto
    then have "map (kv_at d2) us = map Some xs1" "map (kv_at d2) vs = map Some xs2"
      using h(3,5) by (simp_all add: kv)
    then have "map (kv_at d2) (a # us @ vs) = map Some ?ys" unfolding ys by (simp add: kv)
    moreover have "index_rel hash mem d2 (a # us @ vs) (lru_index c)"
      using kv h(1,4) by (intro index_rel_perm [OF as(3)]) auto
    moreover have "distinct (map fst ?ys)" "fst ` set ?ys \<subseteq> K" "length ?ys = length xs"
      unfolding ys using rest(1,2) h(2) by auto
    ultimately have "cache_core hash mem K ?c1 ?ys"
      using d2(3) rest unfolding cache_core_def by (intro conjI exI [of _ "a # us @ vs"]) simp_all
    from evict [OF this] obtain c' where "LRU_evict hash mem ?c1 = Inr c'" "cache_rel hash mem K c' (take ?n ?ys)"
      "capacity c' = capacity c" by auto
    then show ?thesis
      using Some a1 read_data_dual [OF nd(1)] d1(1) d2(1) by (simp add: LRU_Insert_def rec_put_def)
  qed
qed

section \<open>Runs of the cache\<close>

text \<open>A call of \<open>TCCache\<close> on a key in the caller's memory. \<open>recency\<close> is what the calls mean for
  the abstract cache, where a deletion caches the fact that the key is gone.\<close>

datatype cache_op = CInsert seqref bytes | CDelete seqref | CGet seqref

fun cop_key :: "cache_op \<Rightarrow> seqref" where
  "cop_key (CInsert r v) = r"
| "cop_key (CDelete r) = r"
| "cop_key (CGet r) = r"

fun run_cop :: "(bytes \<Rightarrow> u64) \<Rightarrow> caller_memory \<Rightarrow> LRUCache \<Rightarrow> cache_op \<Rightarrow> (bytes option \<times> LRUCache) res" where
  "run_cop hash mem c (CInsert r v) = rmap (\<lambda>(b, c'). (None, c')) (TCCache_Insert hash mem c r v)"
| "run_cop hash mem c (CDelete r) = rmap (\<lambda>(b, c'). (None, c')) (TCCache_Delete hash mem c r)"
| "run_cop hash mem c (CGet r) = TCCache_Get hash mem c r"

fun run_cache ::
    "(bytes \<Rightarrow> u64) \<Rightarrow> caller_memory \<Rightarrow> LRUCache \<Rightarrow> cache_op list \<Rightarrow> (bytes option list \<times> LRUCache) res" where
  "run_cache hash mem c [] = Inr ([], c)"
| "run_cache hash mem c (x # ops) =
     rbind (run_cop hash mem c x) (\<lambda>(a, c'). rmap (\<lambda>(as, c''). (a # as, c'')) (run_cache hash mem c' ops))"

fun spec_cop :: "nat \<Rightarrow> (bytes, bytes option) recency \<Rightarrow> bytes \<Rightarrow> cache_op \<Rightarrow>
    bytes option \<times> (bytes, bytes option) recency" where
  "spec_cop n xs k (CInsert r v) = (None, rec_put n k (Some v) xs)"
| "spec_cop n xs k (CDelete r) = (None, rec_put n k None xs)"
| "spec_cop n xs k (CGet r) = (Option.bind (map_of xs k) id, rec_touch k xs)"

fun spec_run :: "caller_memory \<Rightarrow> nat \<Rightarrow> (bytes, bytes option) recency \<Rightarrow> cache_op list \<Rightarrow> bytes option list" where
  "spec_run mem n xs [] = []"
| "spec_run mem n xs (x # ops) =
     (let (a, ys) = spec_cop n xs (seq_bytes mem (cop_key x)) x in a # spec_run mem n ys ops)"

definition enc_val :: "bytes option \<Rightarrow> bytes" where
  "enc_val v = (case v of None \<Rightarrow> [op_byte kDelete] | Some b \<Rightarrow> op_byte kInsert # b)"

abbreviation enc_kv :: "(bytes, bytes option) recency \<Rightarrow> (bytes, bytes) recency" where
  "enc_kv xs \<equiv> map (map_prod id enc_val) xs"

lemma enc_rec_put: "rec_put n k (enc_val v) (enc_kv xs) = enc_kv (rec_put n k v xs)"
  by (simp add: rec_put_def filter_map comp_def take_map [symmetric])

lemma map_of_enc: "map_of (enc_kv xs) k = map_option enc_val (map_of xs k)"
  by (induction xs) auto

lemma enc_rec_touch: "rec_touch k (enc_kv xs) = enc_kv (rec_touch k xs)"
  by (simp add: rec_touch_def map_of_enc filter_map comp_def split: option.splits)

lemma run_cop_rel:
  assumes "cache_rel hash mem K c (enc_kv xs)" "no_collision hash K" "seq_bytes mem (cop_key x) \<in> K"
    and "spec_cop (unat (capacity c)) xs (seq_bytes mem (cop_key x)) x = (a, ys)"
  shows "\<exists>c'. run_cop hash mem c x = Inr (a, c') \<and> cache_rel hash mem K c' (enc_kv ys) \<and> capacity c' = capacity c"
proof (cases x)
  case (CInsert r v)
  have "op_byte kInsert # v = enc_val (Some v)" by (simp add: enc_val_def)
  then show ?thesis
    using LRU_Insert_rel [OF assms(1,2), of r "enc_val (Some v)"] assms(3,4) CInsert
    by (auto simp: TCCache_Insert_def enc_rec_put)
next
  case (CDelete r)
  have "[op_byte kDelete] = enc_val None" by (simp add: enc_val_def)
  then show ?thesis
    using LRU_Insert_rel [OF assms(1,2), of r "enc_val None"] assms(3,4) CDelete
    by (auto simp: TCCache_Delete_def enc_rec_put)
next
  case (CGet r)
  obtain c' where c': "LRU_Get hash mem c r = Inr (map_option enc_val (map_of xs (seq_bytes mem r)), c')"
    "cache_rel hash mem K c' (enc_kv ys)" "capacity c' = capacity c"
    using LRU_Get_rel [OF assms(1,2), of r] assms(3,4) CGet by (auto simp: map_of_enc enc_rec_touch)
  moreover have "a = Option.bind (map_of xs (seq_bytes mem r)) id" using assms(4) CGet by simp
  moreover have "op_byte kInsert \<noteq> op_byte kDelete" by simp
  ultimately show ?thesis
    using CGet by (cases "map_of xs (seq_bytes mem r)") (auto simp: TCCache_Get_def enc_val_def split: option.splits)
qed

lemma run_cache_rel:
  assumes "cache_rel hash mem K c (enc_kv xs)" "no_collision hash K" "\<forall>x\<in>set ops. seq_bytes mem (cop_key x) \<in> K"
  shows "\<exists>c'. run_cache hash mem c ops = Inr (spec_run mem (unat (capacity c)) xs ops, c')"
  using assms
proof (induction ops arbitrary: c xs)
  case (Cons x ops)
  obtain a ys where s: "spec_cop (unat (capacity c)) xs (seq_bytes mem (cop_key x)) x = (a, ys)" by fastforce
  obtain c' where c': "run_cop hash mem c x = Inr (a, c')" "cache_rel hash mem K c' (enc_kv ys)" "capacity c' = capacity c"
    using run_cop_rel [OF Cons.prems(1,2) _ s] Cons.prems(3) by auto
  then show ?case using Cons.IH [OF c'(2) Cons.prems(2)] Cons.prems(3) s by fastforce
qed simp

lemma cache_rel_new: "cache_rel hash mem K (TCCache_new n) []"
  using dual_new by (auto simp: cache_rel_def cache_core_def TCCache_new_def LRUCache_new_def index_rel_def um_ok_def)

text \<open>What the last insertion or deletion of a key before now was.\<close>

fun latest_put :: "caller_memory \<Rightarrow> bytes \<Rightarrow> cache_op list \<Rightarrow> bytes option option \<Rightarrow> bytes option option" where
  "latest_put mem k [] r = r"
| "latest_put mem k (CInsert s v # ops) r = latest_put mem k ops (if seq_bytes mem s = k then Some (Some v) else r)"
| "latest_put mem k (CDelete s # ops) r = latest_put mem k ops (if seq_bytes mem s = k then Some None else r)"
| "latest_put mem k (CGet s # ops) r = latest_put mem k ops r"

lemma set_rec_put: "x \<in> set (rec_put n k v xs) \<Longrightarrow> x = (k, v) \<or> x \<in> set xs \<and> fst x \<noteq> k"
  by (auto simp: rec_put_def dest!: in_set_takeD)

lemma set_rec_touch: "set (rec_touch k xs) \<subseteq> set xs"
  by (auto simp: rec_touch_def map_of_SomeD split: option.splits)

lemma length_spec_run: "length (spec_run mem n xs ops) = length ops"
  by (induction ops arbitrary: xs) (auto split: prod.splits)

lemma spec_run_current:
  assumes "spec_run mem n xs (ops @ [CGet r]) = as @ [Some v]"
    and "\<forall>(k, w)\<in>set xs. cur k = Some w"
  shows "latest_put mem (seq_bytes mem r) ops (cur (seq_bytes mem r)) = Some (Some v)"
  using assms
proof (induction ops arbitrary: xs as cur)
  case Nil
  then have "map_of xs (seq_bytes mem r) = Some (Some v)"
    by (cases "map_of xs (seq_bytes mem r)") auto
  then show ?case using Nil.prems(2) map_of_SomeD by fastforce
next
  case (Cons x ops)
  obtain a ys where s: "spec_cop n xs (seq_bytes mem (cop_key x)) x = (a, ys)" by fastforce
  then have run: "spec_run mem n ys (ops @ [CGet r]) = tl as @ [Some v]"
    using Cons.prems(1) length_spec_run [of mem n ys "ops @ [CGet r]"]
    by (cases as) (auto simp: append_eq_Cons_conv)
  let ?k = "seq_bytes mem r"
  show ?case
  proof (cases x)
    case (CInsert q w)
    let ?cur = "cur(seq_bytes mem q := Some (Some w))"
    have "\<forall>(k, w)\<in>set ys. ?cur k = Some w"
      using s CInsert Cons.prems(2) by (auto dest!: set_rec_put)
    from Cons.IH [OF run this] show ?thesis using CInsert by (auto simp: fun_upd_def)
  next
    case (CDelete q)
    let ?cur = "cur(seq_bytes mem q := Some None)"
    have "\<forall>(k, w)\<in>set ys. ?cur k = Some w"
      using s CDelete Cons.prems(2) by (auto dest!: set_rec_put)
    from Cons.IH [OF run this] show ?thesis using CDelete by (auto simp: fun_upd_def)
  next
    case (CGet q)
    have "\<forall>(k, w)\<in>set ys. cur k = Some w"
      using s CGet Cons.prems(2) set_rec_touch by fastforce
    from Cons.IH [OF run this] show ?thesis using CGet by simp
  qed
qed

section \<open>Properties\<close>



text \<open>A hit is never stale: under the same conditions, whatever was evicted in between, a value
  that the cache returns for a key is the one most recently inserted for it, and the key has
  not been deleted since.\<close>

theorem cache_hit_is_current:
  assumes "no_collision hash (seq_bytes mem ` cop_key ` set (ops @ [CGet r]))"
    and "run_cache hash mem (TCCache_new n) (ops @ [CGet r]) = Inr (as @ [Some v], c')"
  shows "latest_put mem (seq_bytes mem r) ops None = Some (Some v)"
  using spec_run_current [of mem "unat n" "[]" ops r as v "\<lambda>_. None"]
    run_cache_rel [where xs = "[]", OF _ assms(1), of mem "TCCache_new n" "ops @ [CGet r]"]
    cache_rel_new [of hash mem "seq_bytes mem ` cop_key ` set (ops @ [CGet r])" n] assms(2)
  by (auto simp: TCCache_new_def LRUCache_new_def)

theorem cache_hit_is_current_witness:
  "latest_put (\<lambda>a. [of_nat a]) (seq_bytes (\<lambda>a. [of_nat a]) (0, 1)) [CInsert (0, 1) [7], CInsert (0, 1) [9]] None =
    Some (Some [9])"
proof -
  let ?mem = "\<lambda>a. [of_nat a]" and ?hash = "\<lambda>k :: bytes. of_nat (length k) :: u64"
  let ?ops = "[CInsert (0, 1) [7], CInsert (0, 1) [9]]"
  have "seq_bytes ?mem ` cop_key ` set (?ops @ [CGet (0, 1)]) = {[0]}" by (auto simp: seq_bytes_def)
  then have nc: "no_collision ?hash (seq_bytes ?mem ` cop_key ` set (?ops @ [CGet (0, 1)]))"
    by (simp add: no_collision_def SeqEqual_iff)
  obtain c' where "run_cache ?hash ?mem (TCCache_new 1) (?ops @ [CGet (0, 1)]) =
      Inr (spec_run ?mem (unat (1 :: u32)) [] (?ops @ [CGet (0, 1)]), c')"
    using run_cache_rel [where xs = "[]", OF _ nc, of ?mem "TCCache_new 1" "?ops @ [CGet (0, 1)]"]
      cache_rel_new [of ?hash ?mem "seq_bytes ?mem ` cop_key ` set (?ops @ [CGet (0, 1)])" 1]
    by (auto simp: TCCache_new_def LRUCache_new_def)
  moreover have "spec_run ?mem (unat (1 :: u32)) [] (?ops @ [CGet (0, 1)]) = [None, None] @ [Some [9]]"
    by (simp add: seq_bytes_def rec_put_def rec_touch_def)
  ultimately show ?thesis by (intro cache_hit_is_current [OF nc, of 1 "[None, None]" "[9]"]) simp
qed

text \<open>The index keeps the caller's pointer: if the buffer of a cached key is overwritten, the
  eviction does not find the index entry, which then refers to the freed list node; once the
  buffer holds the old key again, a lookup touches freed memory. This holds for every hash
  function.\<close>

theorem dangling_index_entry:
  assumes "mem0 0 = [97]" "mem1 0 = [98]" "mem1 1 = [99]" "mem2 0 = [97]" "mem2 1 = [99]"
  shows "\<exists>c1 c2. TCCache_Insert hash mem0 (TCCache_new 1) (0, 1) v = Inr (True, c1) \<and>
    TCCache_Insert hash mem1 c1 (1, 1) w = Inr (True, c2) \<and> TCCache_Get hash mem2 c2 (0, 1) = Inl UseAfterFree"
proof -
  let ?v = "op_byte kInsert # v" and ?w = "op_byte kInsert # w"
  obtain p1 b1 q1 where a1: "Cache_Allocate MemAllocator_default 1 = (p1, b1, q1)" by (cases "Cache_Allocate MemAllocator_default 1")
  obtain p2 b2 q2 where a2: "Cache_Allocate q1 (length ?v) = (p2, b2, q2)" by (cases "Cache_Allocate q1 (length ?v)")
  let ?n1 = "\<lparr>nd_key = [97], nd_val = ?v, key_block_id = b1, val_block_id = b2\<rparr>"
  obtain a d1 where d1: "PushFront ?n1 DualList_new = Inr (a, d1)" "dual d1 [a]" "data_at d1 a = Some ?n1"
    using PushFront_dual [OF dual_new, of ?n1] by auto
  let ?c1 = "\<lparr>lru_data = d1, lru_index = [((hash [97], (0, 1)), a)], cache_pool = q2, cache_size = 1, capacity = 1\<rparr>"
  have "dl_size d1 = 1" using d1(2) by (simp add: dual_def)
  then have c1: "TCCache_Insert hash mem0 (TCCache_new 1) (0, 1) v = Inr (True, ?c1)"
    using a1 a2 d1(1) assms(1)
    by (simp add: TCCache_Insert_def LRU_Insert_def LRU_evict_def TCCache_new_def LRUCache_new_def um_find_def
        seq_bytes_def)
  obtain p3 b3 q3 where a3: "Cache_Allocate q2 1 = (p3, b3, q3)" by (cases "Cache_Allocate q2 1")
  obtain p4 b4 q4 where a4: "Cache_Allocate q3 (length ?w) = (p4, b4, q4)" by (cases "Cache_Allocate q3 (length ?w)")
  let ?n2 = "\<lparr>nd_key = [99], nd_val = ?w, key_block_id = b3, val_block_id = b4\<rparr>"
  obtain b d2 where d2: "PushFront ?n2 d1 = Inr (b, d2)" "dual d2 ([b] @ [a])" "data_at d2 a = Some ?n1"
    using PushFront_dual [OF d1(2), of ?n2] d1(3) by auto
  obtain d3 where d3: "PopBack d2 = Inr d3" "store d3 a = None" using PopBack_dual [OF d2(2)] by blast
  let ?idx = "[((hash [99], (1, 1)), b), ((hash [97], (0, 1)), a)]"
  let ?c2 = "\<lparr>lru_data = d3, lru_index = ?idx, cache_pool = snd (Unref (snd (Unref q4 b1)) b2),
    cache_size = 1, capacity = 1\<rparr>"
  have "dl_size d2 = 2" using d2(2) by (simp add: dual_def)
  then have c2: "TCCache_Insert hash mem1 ?c1 (1, 1) w = Inr (True, ?c2)"
    using a3 a4 d2(1) d3(1) Back_dual [OF d2(2,3)] assms(2,3)
    by (simp add: TCCache_Insert_def LRU_Insert_def LRU_evict_def um_find_def seq_bytes_def matches_def
        key_equal_def SeqEqual_iff)
  have "MoveFront a d3 = Inl UseAfterFree" using d3(2) by (simp add: MoveFront_def get_prev_ptr_def node_at_def)
  then have "TCCache_Get hash mem2 ?c2 (0, 1) = Inl UseAfterFree"
    using assms(4,5)
    by (simp add: TCCache_Get_def LRU_Get_def um_find_def seq_bytes_def matches_def key_equal_def SeqEqual_iff)
  with c1 c2 show ?thesis by blast
qed

theorem dangling_index_entry_witness:
  "\<exists>c1 c2. TCCache_Insert (\<lambda>k. 0) (\<lambda>a. [97]) (TCCache_new 1) (0, 1) [1] = Inr (True, c1) \<and>
    TCCache_Insert (\<lambda>k. 0) (\<lambda>a. if a = 0 then [98] else [99]) c1 (1, 1) [2] = Inr (True, c2) \<and>
    TCCache_Get (\<lambda>k. 0) (\<lambda>a. if a = 0 then [97] else [99]) c2 (0, 1) = Inl UseAfterFree"
  by (rule dangling_index_entry) simp_all

text \<open>\<open>SeqEqual\<close> looks at the first byte only, so two keys of one length with the same first
  byte and the same hash value are one key for the cache: the value of the other is returned.\<close>

theorem colliding_keys_share_a_value:
  assumes "hash k = hash k'" "length k = length k'" "hd k = hd k'"
    and "seq_bytes mem r = k" "seq_bytes mem r' = k'" "0 < n"
  shows "\<exists>c1 c2. TCCache_Insert hash mem (TCCache_new n) r v = Inr (True, c1) \<and>
    TCCache_Get hash mem c1 r' = Inr (Some v, c2)"
proof -
  let ?v = "op_byte kInsert # v"
  obtain p1 b1 q1 where a1: "Cache_Allocate MemAllocator_default (length k) = (p1, b1, q1)"
    by (cases "Cache_Allocate MemAllocator_default (length k)")
  obtain p2 b2 q2 where a2: "Cache_Allocate q1 (length ?v) = (p2, b2, q2)" by (cases "Cache_Allocate q1 (length ?v)")
  let ?n1 = "\<lparr>nd_key = k, nd_val = ?v, key_block_id = b1, val_block_id = b2\<rparr>"
  obtain a d1 where d1: "PushFront ?n1 DualList_new = Inr (a, d1)" "dual d1 ([] @ a # [])" "data_at d1 a = Some ?n1"
    using PushFront_dual [OF dual_new, of ?n1] by auto
  have "dl_size d1 = 1" "1 \<le> unat n" using d1(2) assms(6) by (simp_all add: dual_def word_less_nat_alt)
  then have c1: "TCCache_Insert hash mem (TCCache_new n) r v = Inr (True,
      \<lparr>lru_data = d1, lru_index = [((hash k, r), a)], cache_pool = q2, cache_size = 1, capacity = n\<rparr>)"
    using a1 a2 d1(1) assms(4)
    by (simp add: TCCache_Insert_def LRU_Insert_def LRU_evict_def TCCache_new_def LRUCache_new_def um_find_def)
  obtain d2 where d2: "MoveFront a d1 = Inr d2" "same_nodes d1 d2" using MoveFront_dual [OF d1(2)] by blast
  then have "read_data a d2 = Inr ?n1" using d1(3) by (intro read_data_dual) (simp add: same_nodes_def)
  then have "\<exists>c2. TCCache_Get hash mem
      \<lparr>lru_data = d1, lru_index = [((hash k, r), a)], cache_pool = q2, cache_size = 1, capacity = n\<rparr> r' = Inr (Some v, c2)"
    using d2(1) assms(1-5)
    by (simp add: TCCache_Get_def LRU_Get_def um_find_def matches_def key_equal_def SeqEqual_iff)
  with c1 show ?thesis by blast
qed

theorem colliding_keys_share_a_value_witness:
  "\<exists>c1 c2. TCCache_Insert (\<lambda>k. of_nat (length k)) (\<lambda>a. [97, of_nat a]) (TCCache_new 4) (1, 2) [5] = Inr (True, c1) \<and>
    TCCache_Get (\<lambda>k. of_nat (length k)) (\<lambda>a. [97, of_nat a]) c1 (2, 2) = Inr (Some [5], c2)"
  by (rule colliding_keys_share_a_value [of _ "[97, 1]" "[97, 2]"]) (simp_all add: seq_bytes_def)

text \<open>In the unspecialised cache an update counts as an insertion: after two insertions of one
  key the list has one element and \<open>size()\<close> is 2.\<close>

theorem generic_size_counts_updates:
  assumes "0 < n"
  shows "\<exists>c1 c2. Generic_Insert (GenericLRU_new n) k v = Inr c1 \<and> Generic_Insert c1 k w = Inr c2 \<and>
    gen_size c2 = 2 \<and> dl_size (gen_data c2) = 1 \<and> (\<exists>c3. Generic_Get c2 k = Inr (Some w, c3))"
proof -
  have n: "1 \<le> unat n" using assms by (simp add: word_less_nat_alt)
  obtain a d1 where d1: "PushFront (k, v) DualList_new = Inr (a, d1)" "dual d1 [a]" "data_at d1 a = Some (k, v)"
    using PushFront_dual [OF dual_new, of "(k, v)"] by auto
  obtain d2 where d2: "write_data a (k, w) d1 = Inr d2" "dual d2 ([] @ a # [])" "data_at d2 a = Some (k, w)"
    using write_data_dual [OF d1(2), of a "(k, w)"] by auto
  obtain d3 where d3: "MoveFront a d2 = Inr d3" "same_nodes d2 d3" "dual d3 ([] @ a # [])"
    using MoveFront_dual [OF d2(2)] by auto
  obtain d4 where d4: "MoveFront a d3 = Inr d4" "same_nodes d3 d4" using MoveFront_dual [OF d3(3)] by blast
  have "read_data a d4 = Inr (k, w)" using d2(3) d3(2) d4(2) by (intro read_data_dual) (simp add: same_nodes_def)
  moreover have "dl_size d1 = 1" "dl_size d3 = 1" using d1(2) d3(3) by (simp_all add: dual_def)
  ultimately show ?thesis
    using d1(1) d2(1) d3(1) d4(1) read_data_dual [OF d1(3)] n
    by (simp add: Generic_Insert_def Generic_Get_def GenericLRU_new_def)
qed

theorem generic_size_counts_updates_witness:
  "\<exists>c1 c2. Generic_Insert (GenericLRU_new 8) ''k'' (1 :: nat) = Inr c1 \<and> Generic_Insert c1 ''k'' 2 = Inr c2 \<and>
    gen_size c2 = 2 \<and> dl_size (gen_data c2) = 1"
  using generic_size_counts_updates [of 8 "''k''" "1 :: nat" 2] by auto

end
