(* ===== verification/Database.thy ===== *)
theory Database
  imports Compaction Versions RWLock LruCache SSTSearch
begin

text \<open>
  The database object \<open>TCDB\<close> (\<open>src/table/db.cc\<close>): the memory table, the cache, the versions and the data
  files put together.

  The operations are those of one caller. A full table is handed to a background task, whose
  outcome is a future: \<open>Pending\<close> until the task has run, which \<open>background_step\<close> lets happen at any
  time and \<open>get\<close> waits for. A call that waits for a lock which nobody else holds is \<open>Blocked\<close>.
  Keys are Sequences, that is pointers into memory of the caller, since the cache and the
  concurrent insertion keep them.
\<close>

section \<open>State\<close>

datatype compact_future = NoFuture | Pending table | Ready Status

record TCDB =
  mem_table :: table
  mmt_trans_lock :: ReadWriteLock
  db_io :: TCIO
  db_logger :: writer
  version_ctrl :: TCVersionCtrl
  inc_id :: u64
  query_cache :: LRUCache
  query_buffer :: allocator
  compact_future :: compact_future
  insert_tasks :: "(seqref \<times> seqref) list"
  db_os :: os

definition kDefaultSSTFileSize :: u32 where
  "kDefaultSSTFileSize = of_nat kApproximateSSTFileSize"

definition kDefaultCacheSize :: u32 where
  "kDefaultCacheSize = push_bit 9 1"

text \<open>\<open>std::stoi\<close> of the configured numbers: white space, a sign and digits; else an exception.\<close>

definition digit_of :: "char \<Rightarrow> int" where
  "digit_of c = of_char c - 48"

definition is_digit :: "char \<Rightarrow> bool" where
  "is_digit c \<longleftrightarrow> 0 \<le> digit_of c \<and> digit_of c \<le> 9"

definition stoi :: "string \<Rightarrow> int res" where
  "stoi s =
     (let t = dropWhile (\<lambda>c. c = CHR '' '' \<or> 9 \<le> (of_char c :: nat) \<and> (of_char c :: nat) \<le> 13) s;
          sign = (if t \<noteq> [] \<and> hd t = CHR ''-'' then - 1 else 1);
          u = (if t \<noteq> [] \<and> (hd t = CHR ''-'' \<or> hd t = CHR ''+'') then tl t else t);
          ds = takeWhile is_digit u;
          n = sign * foldl (\<lambda>a c. 10 * a + digit_of c) 0 ds
      in if ds = [] \<or> n < - (2 ^ 31) \<or> 2 ^ 31 \<le> n then Inl Thrown else Inr n)"

text \<open>The constructor. A manifest that cannot be read is left empty. The result also has the two
  numbers the thread pool is made with.\<close>

definition TCDB_new :: "os \<Rightarrow> Config \<Rightarrow> (TCDB \<times> int \<times> int) res" where
  "TCDB_new s config =
     (let dir = GetConfig config ''database_dir'' in
      rbind (TCIO_new s dir) (\<lambda>(io, s1).
      rbind (PathJoin dir kLogFilename) (\<lambda>log_path.
      let (logger, s2) = TCLogger_new s1 log_path in
      rbind (ReadManifest s2 io) (\<lambda>(_, read, s3).
      let manifest = (case read of None \<Rightarrow> \<lparr>path_to_manifest = [], path_to_log = [], data_files = []\<rparr> | Some m \<Rightarrow> m);
          (version, n) = TCVersion_new 0 manifest
      in rbind (AppendVersion TCVersionCtrl_new version) (\<lambda>(_, versions).
      rbind (stoi (GetConfig config ''default_core_thread_num'')) (\<lambda>core_threads.
      rbind (stoi (GetConfig config ''max_task_queue_size'')) (\<lambda>max_tasks.
      Inr (\<lparr>mem_table = TCTable_new 0, mmt_trans_lock = ReadWriteLock_new, db_io = io, db_logger = logger,
             version_ctrl = versions, inc_id = n, query_cache = TCCache_new kDefaultCacheSize,
             query_buffer = QueryAllocator_new, compact_future = NoFuture, insert_tasks = [], db_os = s3\<rparr>,
           core_threads, max_tasks))))))))"

section \<open>Lookup\<close>

fun search_levels ::
    "(bytes \<Rightarrow> bytes \<Rightarrow> bool res) \<Rightarrow> TCIO \<Rightarrow> os \<Rightarrow> allocator \<Rightarrow> bytes \<Rightarrow> bytes \<Rightarrow> Manifest \<Rightarrow> nat list \<Rightarrow>
      (bytes \<times> allocator \<times> os) res" where
  "search_levels contains io s qb query_key result manifest [] = Inr (result, qb, s)"
| "search_levels contains io s qb query_key result manifest (level # levels) =
     (if length result \<noteq> 0 then Inr (result, qb, s)
      else
        rbind (SearchLevel contains io s qb query_key result manifest level) (\<lambda>(_, result1, qb1, s1).
        search_levels contains io s1 qb1 query_key result1 manifest levels))"

definition TCDB_Get ::
    "(bytes \<Rightarrow> u64) \<Rightarrow> caller_memory \<Rightarrow> (bytes \<Rightarrow> bytes \<Rightarrow> bool res) \<Rightarrow> TCDB \<Rightarrow> seqref \<Rightarrow> (bytes \<times> TCDB) res" where
  "TCDB_Get hash mem contains db key =
     rbind (TCCache_Get hash mem (query_cache db) key) (\<lambda>(v_cache, cache).
     let db1 = db\<lparr>query_cache := cache\<rparr> in
     case v_cache of
       Some v \<Rightarrow> Inr (v, db1)
     | None \<Rightarrow>
         let k = seq_bytes mem key in
         rbind (EncodeInternal k [] (0 - 1) kDelete (fresh_buffer (key_entry_size k))) (\<lambda>(enc, internal_entry).
         if \<not> StatusNoError enc then Inr ([], db1)
         else
           rbind (TCTable_Get_entry (mem_table db1) internal_entry) (\<lambda>result.
           if length result \<noteq> 0 then Inr (result, db1)
           else
             rbind (LatestVersion (version_ctrl db1)) (\<lambda>(version_it, versions).
             rbind (version_at versions version_it) (\<lambda>v.
             let manifest = version_manifest v in
             rbind (search_levels contains (db_io db1) (db_os db1) (query_buffer db1) internal_entry result manifest
                 [0..<length (data_files manifest)]) (\<lambda>(result, qb, s).
             let db2 = db1\<lparr>version_ctrl := versions, query_buffer := qb, db_os := s\<rparr> in
             if length result = 0 then Inr ([], db2)
             else rmap (\<lambda>v. (v, db2)) (EntryValue result)))))))"

definition TCDB_ContainsKey :: "TCDB \<Rightarrow> bytes \<Rightarrow> (bool \<times> TCDB) res" where
  "TCDB_ContainsKey db key = rmap (\<lambda>(b, t). (b, db\<lparr>mem_table := t\<rparr>)) (TCTable_ContainsKey (mem_table db) key)"

section \<open>Flushing a table\<close>

definition MVCCWriteLevel0 :: "(bytes list \<Rightarrow> bytes res) \<Rightarrow> TCDB \<Rightarrow> table \<Rightarrow> (Status \<times> TCDB) res" where
  "MVCCWriteLevel0 create db immutable =
     rbind (LatestVersion (version_ctrl db)) (\<lambda>(version_it, versions).
     rbind (version_at versions version_it) (\<lambda>v.
     let manifest = version_manifest v; db1 = db\<lparr>version_ctrl := versions\<rparr> in
     rbind (if data_files manifest \<noteq> [] \<and> kDefaultLevelSize ! 0 \<le> length (data_files manifest ! 0) then
              rmap (\<lambda>(st, m, io, lg, s). (st, m, db1\<lparr>db_io := io, db_logger := lg, db_os := s\<rparr>))
                (BackgroundCompact create (db_os db1) (db_io db1) (db_logger db1) manifest)
            else Inr (NoError, manifest, db1)) (\<lambda>(ret, manifest1, db2).
     if \<not> StatusNoError ret then Inr (ret, db2)
     else
       rbind (WriteLevel0File create (db_os db2) (db_io db2) immutable manifest1) (\<lambda>(ret, manifest2, io, s).
       let (new_version, n) = TCVersion_new (inc_id db2) manifest2 in
       rbind (AppendVersion (version_ctrl db2) (TCVersion_UnRef new_version)) (\<lambda>(appended, versions1).
       let db3 = db2\<lparr>db_io := io, db_os := s, inc_id := n, version_ctrl := versions1\<rparr> in
       if \<not> appended then Inr (UndefinedError ''The new version already exists'', db3)
       else
         rbind (version_at versions1 version_it) (\<lambda>old.
         rmap (\<lambda>(_, versions2). (ret, db3\<lparr>version_ctrl := versions2\<rparr>)) (UnrefVersion versions1 old)))))))"

definition TransferTable :: "TCDB \<Rightarrow> Status \<times> table \<times> TCDB" where
  "TransferTable db = (NoError, mem_table db, db\<lparr>mem_table := TCTable_new (entry_id (mem_table db))\<rparr>)"

text \<open>The older, unused variant goes by the MANIFEST on disk.\<close>

definition WriteLevel0 :: "(bytes list \<Rightarrow> bytes res) \<Rightarrow> TCDB \<Rightarrow> (Status \<times> TCDB) res" where
  "WriteLevel0 create db =
     (let (st, immutable, db1) = TransferTable db in
      if \<not> StatusNoError st then Inr (UndefinedError [], db1)
      else
        rbind (ReadManifest (db_os db1) (db_io db1)) (\<lambda>(_, read, s).
        let manifest = (case read of None \<Rightarrow> \<lparr>path_to_manifest = [], path_to_log = [], data_files = []\<rparr> | Some m \<Rightarrow> m);
            db2 = db1\<lparr>db_os := s\<rparr>
        in if path_to_manifest manifest = [] then Inr (FileIOError ''Failed to read MANIFEST file.'', db2)
        else
          rbind (if data_files manifest \<noteq> [] \<and> kDefaultLevelSize ! 0 \<le> length (data_files manifest ! 0) then
                   rmap (\<lambda>(st, m, io, lg, s). (st, m, db2\<lparr>db_io := io, db_logger := lg, db_os := s\<rparr>))
                     (BackgroundCompact create (db_os db2) (db_io db2) (db_logger db2) manifest)
                 else Inr (NoError, manifest, db2)) (\<lambda>(ret, manifest1, db3).
          if \<not> StatusNoError ret then Inr (ret, db3)
          else
            rmap (\<lambda>(ret, _, io, s). (ret, db3\<lparr>db_io := io, db_os := s\<rparr>))
              (WriteLevel0File create (db_os db3) (db_io db3) immutable manifest1))))"

text \<open>The background task runs, or its outcome is waited for.\<close>

definition background_step :: "(bytes list \<Rightarrow> bytes res) \<Rightarrow> TCDB \<Rightarrow> TCDB res" where
  "background_step create db =
     (case compact_future db of
        Pending immutable \<Rightarrow>
          rmap (\<lambda>(ret, db1). db1\<lparr>compact_future := Ready ret\<rparr>) (MVCCWriteLevel0 create db immutable)
      | _ \<Rightarrow> Inr db)"

definition future_get :: "(bytes list \<Rightarrow> bytes res) \<Rightarrow> TCDB \<Rightarrow> (Status \<times> TCDB) res" where
  "future_get create db =
     rmap (\<lambda>db1. case compact_future db1 of
             Ready ret \<Rightarrow> (ret, db1\<lparr>compact_future := NoFuture\<rparr>)
           | _ \<Rightarrow> (NoError, db1))
       (background_step create db)"

section \<open>Insertion and deletion\<close>

text \<open>The part of \<open>Insert\<close> under the write lock; a status is that of an early return.\<close>

definition transfer_full ::
    "(bytes list \<Rightarrow> bytes res) \<Rightarrow> TCDB \<Rightarrow> bytes \<Rightarrow> (Status option \<times> TCDB) res" where
  "transfer_full create db cur_key =
     (case WriteLock AllowSpuriousWakeUp (mmt_trans_lock db) of
        (Writing, l) \<Rightarrow>
          let db1 = db\<lparr>mmt_trans_lock := l\<rparr> in
          if kDefaultSSTFileSize \<le> TCTable_MemUsage (mem_table db1) then
            rbind (future_get create db1) (\<lambda>(ret, db2).
            if \<not> StatusNoError ret then Inr (Some ret, db2)
            else
              rbind (TCIO_Log (db_os db2) (db_logger db2)
                  (''Triggered table transferring and MVCCWriteLevel0 at '' @ bytes_str cur_key)) (\<lambda>(_, lg, s).
              Inr (None, db2\<lparr>db_logger := lg, db_os := s, mem_table := TCTable_new (entry_id (mem_table db2)),
                compact_future := Pending (mem_table db2), mmt_trans_lock := snd (WriteUnlock (mmt_trans_lock db2))\<rparr>)))
          else Inr (None, db1\<lparr>mmt_trans_lock := snd (WriteUnlock l)\<rparr>)
      | _ \<Rightarrow> Inl Blocked)"

definition TCDB_Insert ::
    "(bytes list \<Rightarrow> bytes res) \<Rightarrow> TCDB \<Rightarrow> bytes \<Rightarrow> bytes \<Rightarrow> nat list \<Rightarrow> (Status \<times> TCDB) res" where
  "TCDB_Insert create db key val rs =
     rbind (if kDefaultSSTFileSize \<le> TCTable_MemUsage (mem_table db) then transfer_full create db key
            else Inr (None, db)) (\<lambda>(early, db1).
     case early of
       Some ret \<Rightarrow> Inr (ret, db1)
     | None \<Rightarrow>
         (case ReadLock (mmt_trans_lock db1) of
            (Reading, l) \<Rightarrow>
              rmap (\<lambda>(ret, t). (ret, db1\<lparr>mem_table := t, mmt_trans_lock := snd (ReadUnlock l)\<rparr>))
                (TCTable_Insert (mem_table db1) key val rs)
          | _ \<Rightarrow> Inl Blocked))"

definition TCDB_Delete ::
    "(bytes \<Rightarrow> u64) \<Rightarrow> caller_memory \<Rightarrow> TCDB \<Rightarrow> seqref \<Rightarrow> nat list \<Rightarrow> (Status \<times> TCDB) res" where
  "TCDB_Delete hash mem db key rs =
     rbind (TCCache_Delete hash mem (query_cache db) key) (\<lambda>(ok, cache).
     let db1 = db\<lparr>query_cache := cache\<rparr> in
     if \<not> ok then Inr (UndefinedError ''Cache deletion operation failed'', db1)
     else rmap (\<lambda>(ret, t). (ret, db1\<lparr>mem_table := t\<rparr>)) (TCTable_Delete (mem_table db1) (seq_bytes mem key) rs))"

text \<open>\<open>ConcurrentInsert\<close> binds the two Sequences, not the bytes they point to; a worker inserts what is
  there when it runs.\<close>

definition ConcurrentInsert :: "TCDB \<Rightarrow> seqref \<Rightarrow> seqref \<Rightarrow> Status \<times> TCDB" where
  "ConcurrentInsert db key val = (NoError, db\<lparr>insert_tasks := insert_tasks db @ [(key, val)]\<rparr>)"

definition run_insert_task ::
    "(bytes list \<Rightarrow> bytes res) \<Rightarrow> caller_memory \<Rightarrow> TCDB \<Rightarrow> nat list \<Rightarrow> (Status \<times> TCDB) res" where
  "run_insert_task create mem db rs =
     (case insert_tasks db of
        [] \<Rightarrow> Inr (NoError, db)
      | (key, val) # tasks \<Rightarrow>
          TCDB_Insert create (db\<lparr>insert_tasks := tasks\<rparr>) (seq_bytes mem key) (seq_bytes mem val) rs)"

definition TCDB_Log :: "TCDB \<Rightarrow> string \<Rightarrow> (Status \<times> TCDB) res" where
  "TCDB_Log db msg = rmap (\<lambda>(st, lg, s). (st, db\<lparr>db_logger := lg, db_os := s\<rparr>)) (TCIO_Log (db_os db) (db_logger db) msg)"

end
