(* ===== verification/DatabaseProofs.thy ===== *)
theory DatabaseProofs
  imports Database
begin

text \<open>
  The database as a whole: what a lookup answers in terms of the memory table and the data
  files, what a flush does to it, and what goes wrong when the two are put together.
\<close>

section \<open>Data files of all levels\<close>

definition levels_on_disk ::
    "(bytes list \<Rightarrow> bytes res) \<Rightarrow> os \<Rightarrow> TCIO \<Rightarrow> Manifest \<Rightarrow> bytes list list list \<Rightarrow> bool" where
  "levels_on_disk create s io man fss \<longleftrightarrow> list_all2 (list_all2 (on_disk create s io)) (data_files man) fss \<and>
     (\<forall>l<length fss. 0 < l \<longrightarrow> sorted_wrt (\<lambda>a b. \<not> key_ordered (hd b) (last a)) (fss ! l))"

lemma find_append: "find P (xs @ ys) = (case find P xs of None \<Rightarrow> find P ys | Some x \<Rightarrow> Some x)"
  by (induction xs) auto

lemma ordered_entry_ne: "ordered_entry e \<Longrightarrow> e \<noteq> []"
  by (auto simp: ordered_entry_def entry_bytes_def)

lemma on_disk_entry:
  assumes "levels_on_disk create s io man fss" "es \<in> set (concat fss)" "e \<in> set es"
  shows "ordered_entry e"
proof -
  obtain l where l: "l < length fss" "es \<in> set (fss ! l)" using assms(2) by (metis UN_E in_set_conv_nth set_concat)
  then have "list_all2 (on_disk create s io) (data_files man ! l) (fss ! l)"
    using assms(1) by (simp add: levels_on_disk_def list_all2_conv_all_nth)
  then have "\<exists>name. on_disk create s io name es" using l(2) by (metis in_set_conv_nth list_all2_conv_all_nth)
  then show ?thesis using assms(3) by (auto simp: on_disk_def sorted_file_def)
qed

lemma levels_length: "levels_on_disk create s io man fss \<Longrightarrow> length fss = length (data_files man)"
  unfolding levels_on_disk_def by (metis list_all2_lengthD)

lemma search_levels_done: "e \<noteq> [] \<Longrightarrow> search_levels contains io s qb q e man ns = Inr (e, qb, s)"
  by (cases ns) simp_all

context filter_policy
begin

lemma search_levels_finds:
  assumes "0 < reader_pool io" "ordered_entry q" "levels_on_disk create s io man fss"
    and "\<And>e. ordered_entry e \<Longrightarrow> entry_ok e \<and> key_of e = fst (ent_of e)"
    and "n \<le> length (data_files man)"
  shows "\<exists>e qb'. search_levels contains io s qb q [] man [n..<length (data_files man)] = Inr (e, qb', s) \<and>
      (case find (holds_key q) (concat (drop n fss)) of None \<Rightarrow> e = [] | Some es \<Rightarrow> block_hit es q e)"
  using assms(5)
proof (induction "length (data_files man) - n" arbitrary: n qb)
  case 0
  moreover have "length fss = length (data_files man)"
    by (rule levels_length [OF assms(3)])
  ultimately show ?case by simp
next
  case (Suc d)
  let ?N = "length (data_files man)"
  have len: "length fss = ?N" by (rule levels_length [OF assms(3)])
  have n: "n < ?N" using Suc.hyps(2) by simp
  then have up: "[n..<?N] = n # [Suc n..<?N]" by (rule upt_conv_Cons)
  have dr: "concat (drop n fss) = fss ! n @ concat (drop (Suc n) fss)"
    using n len by (metis Cons_nth_drop_Suc concat.simps(2))
  have lev: "list_all2 (on_disk create s io) (data_files man ! n) (fss ! n)"
    "n = 0 \<or> sorted_wrt (\<lambda>a b. \<not> key_ordered (hd b) (last a)) (fss ! n)"
    using assms(3) n len by (auto simp: levels_on_disk_def list_all2_conv_all_nth)
  obtain e qb1 where e: "SearchLevel contains io s qb q [] man n = Inr (NoError, e, qb1, s)"
    "case find (holds_key q) (fss ! n) of None \<Rightarrow> e = [] \<and> qb1 = qb | Some es \<Rightarrow> block_hit es q e"
    using SearchLevel_finds [OF assms(1,2) n lev assms(4)] by blast
  show ?case
  proof (cases "find (holds_key q) (fss ! n)")
    case None
    then have "e = []" using e(2) by simp
    then show ?thesis
      using Suc.hyps(1) [of "Suc n" qb1] Suc.hyps(2) n e(1) None by (auto simp: up dr find_append simp del: upt_Suc)
  next
    case (Some es)
    then have b: "block_hit es q e" using e(2) by simp
    have "es \<in> set (concat fss)" using find_SomeD [OF Some] n len by auto
    then have "e \<noteq> []"
      using on_disk_entry [OF assms(3)] block_hit_entry [OF b] ordered_entry_ne by blast
    then have "search_levels contains io s qb1 q e man [Suc n..<?N] = Inr (e, qb1, s)"
      by (rule search_levels_done)
    then show ?thesis using e(1) Some b by (auto simp: up dr find_append simp del: upt_Suc)
  qed
qed

end

section \<open>Lookup\<close>

text \<open>The cache holds deletions only, since nothing else is ever put into it.\<close>

definition cold_cache :: "(bytes \<Rightarrow> u64) \<Rightarrow> caller_memory \<Rightarrow> bytes set \<Rightarrow> LRUCache \<Rightarrow> bool" where
  "cold_cache hash mem K c \<longleftrightarrow> no_collision hash K \<and>
     (\<exists>xs. cache_rel hash mem K c (enc_kv xs) \<and> (\<forall>x\<in>set xs. snd x = None))"

lemma cold_cache_Get:
  assumes "cold_cache hash mem K c" "seq_bytes mem key \<in> K"
  shows "\<exists>c'. TCCache_Get hash mem c key = Inr (None, c') \<and> cold_cache hash mem K c'"
proof -
  obtain xs where xs: "no_collision hash K" "cache_rel hash mem K c (enc_kv xs)" "\<forall>x\<in>set xs. snd x = None"
    using assms(1) by (auto simp: cold_cache_def)
  have "v = None" if "map_of xs k = Some v" for k v using xs(3) map_of_SomeD [OF that] by auto
  then have "spec_cop (unat (capacity c)) xs (seq_bytes mem (cop_key (CGet key))) (CGet key) =
      (None, rec_touch (seq_bytes mem key) xs)"
    by (cases "map_of xs (seq_bytes mem key)") auto
  from run_cop_rel [OF xs(2,1) _ this] assms(2)
  obtain c' where c': "TCCache_Get hash mem c key = Inr (None, c')"
    "cache_rel hash mem K c' (enc_kv (rec_touch (seq_bytes mem key) xs))" by auto
  have "\<forall>x\<in>set (rec_touch (seq_bytes mem key) xs). snd x = None"
    using xs(3) set_rec_touch [of "seq_bytes mem key" xs] by blast
  with c' xs(1) show ?thesis by (auto simp: cold_cache_def)
qed

lemma cold_cache_Delete:
  assumes "cold_cache hash mem K c" "seq_bytes mem key \<in> K"
  shows "\<exists>c'. TCCache_Delete hash mem c key = Inr (True, c') \<and> cold_cache hash mem K c'"
proof -
  obtain xs where xs: "no_collision hash K" "cache_rel hash mem K c (enc_kv xs)" "\<forall>x\<in>set xs. snd x = None"
    using assms(1) by (auto simp: cold_cache_def)
  let ?ys = "rec_put (unat (capacity c)) (seq_bytes mem key) None xs"
  from run_cop_rel [OF xs(2,1), of "CDelete key" None ?ys] assms(2)
  obtain c' where c': "TCCache_Delete hash mem c key = Inr (True, c')" "cache_rel hash mem K c' (enc_kv ?ys)"
    by (auto simp: TCCache_Delete_def res_simps)
  have "\<forall>x\<in>set ?ys. snd x = None" using xs(3) by (auto dest: set_rec_put)
  with c' xs(1) show ?thesis by (auto simp: cold_cache_def)
qed

text \<open>A sound database: the table means \<open>m\<close>, the newest version lists files that hold \<open>fss\<close>.\<close>

definition latest_manifest :: "TCDB \<Rightarrow> Manifest" where
  "latest_manifest db = version_manifest (snd (last (version_list (version_ctrl db))))"

definition db_sound ::
    "(bytes list \<Rightarrow> bytes res) \<Rightarrow> (bytes \<Rightarrow> u64) \<Rightarrow> caller_memory \<Rightarrow> bytes set \<Rightarrow> TCDB \<Rightarrow> key_map \<Rightarrow>
      bytes list list list \<Rightarrow> bool" where
  "db_sound create hash mem K db m fss \<longleftrightarrow> table_rel (mem_table db) m \<and> cold_cache hash mem K (query_cache db) \<and>
     ctrl_ok (version_ctrl db) \<and> version_list (version_ctrl db) \<noteq> [] \<and> 0 < reader_pool (db_io db) \<and>
     levels_on_disk create (db_os db) (db_io db) (latest_manifest db) fss"

abbreviation query_of :: "bytes \<Rightarrow> bytes" where
  "query_of key \<equiv> entry_bytes key [] (- 1) kDelete"

lemma query_ordered: "fits key \<Longrightarrow> key \<noteq> [] \<Longrightarrow> ordered_entry (query_of key)"
  by (intro ordered_entryI) (simp_all add: fits_def)

lemma TCVersion_manifest [simp]:
  "version_manifest (TCVersion_Ref v) = version_manifest v" "version_manifest (TCVersion_UnRef v) = version_manifest v"
  by (simp_all add: TCVersion_Ref_def TCVersion_UnRef_def)

lemma latest_version_found:
  assumes "ctrl_ok c" "version_list c \<noteq> []"
  shows "\<exists>a v c'. LatestVersion c = Inr (a, c') \<and> ctrl_ok c' \<and> version_at c' a = Inr v \<and>
    version_manifest v = version_manifest (snd (last (version_list c))) \<and> version_list c' \<noteq> [] \<and>
    version_manifest (snd (last (version_list c'))) = version_manifest (snd (last (version_list c))) \<and>
    counts_of c' = bump (\<lambda>n. n + 1) (ManifestStr v) (counts_of c)"
proof -
  obtain a v where l: "last (version_list c) = (a, v)" by fastforce
  with assms(2) have m: "(a, v) \<in> set (version_list c)" by (metis last_in_set)
  obtain c' where c': "update_version c a TCVersion_Ref = Inr c'" "ctrl_ok c'"
    "counts_of c' = bump (\<lambda>n. n + 1) (ManifestStr v) (counts_of c)" "(a, TCVersion_Ref v) \<in> set (version_list c')"
    using ref_version_ok [OF assms(1) m] by auto
  have eq: "version_list c' = map (\<lambda>(b, v). (b, if b = a then TCVersion_Ref v else v)) (version_list c)"
    using c'(1) by (auto simp: update_version_def res_simps)
  then have "last (version_list c') = (a, TCVersion_Ref v)" "version_list c' \<noteq> []"
    using l assms(2) by (simp_all add: last_map)
  then show ?thesis
    using assms(2) l c' version_at_ok [OF c'(2,4)]
    by (auto simp: LatestVersion_def RefVersion_def Let_def)
qed

text \<open>What a lookup answers; the filter is a bloom filter with any parameters.\<close>

abbreviation bloom_create :: "(nat \<Rightarrow> nat) \<Rightarrow> nat \<Rightarrow> u64 list \<Rightarrow> bytes list \<Rightarrow> bytes res" where
  "bloom_create filter_bytes hash_k seeds \<equiv> \<lambda>es. CreateFilter filter_bytes hash_k seeds es []"

lemma Get_answers:
  assumes "db_sound (bloom_create filter_bytes hash_k seeds) hash mem K db m fss"
    and "seq_bytes mem key = k" "k \<in> K" "fits k" "k \<noteq> []"
  shows "\<exists>db'. db_sound (bloom_create filter_bytes hash_k seeds) hash mem K db' m fss \<and> mem_table db' = mem_table db \<and>
    mmt_trans_lock db' = mmt_trans_lock db \<and>
    (if lookup_value (m k) \<noteq> [] then
       TCDB_Get hash mem (Filter_ContainsKey hash_k seeds) db key = Inr (lookup_value (m k), db')
     else case find (holds_key (query_of k)) (concat fss) of
        None \<Rightarrow> TCDB_Get hash mem (Filter_ContainsKey hash_k seeds) db key = Inr ([], db')
      | Some es \<Rightarrow> \<exists>e. block_hit es (query_of k) e \<and>
          TCDB_Get hash mem (Filter_ContainsKey hash_k seeds) db key = rmap (\<lambda>v. (v, db')) (EntryValue e))"
proof -
  have s: "table_rel (mem_table db) m" "ctrl_ok (version_ctrl db)" "version_list (version_ctrl db) \<noteq> []"
    "0 < reader_pool (db_io db)"
    "levels_on_disk (bloom_create filter_bytes hash_k seeds) (db_os db) (db_io db) (latest_manifest db) fss"
    using assms(1) by (simp_all add: db_sound_def)
  obtain c' where c': "TCCache_Get hash mem (query_cache db) key = Inr (None, c')" "cold_cache hash mem K c'"
    using cold_cache_Get assms(1-3) by (metis db_sound_def)
  have enc: "EncodeInternal k [] (- 1) kDelete (fresh_buffer (key_entry_size k)) = Inr (NoError, query_of k)"
    by (rule EncodeInternal_fresh) (simp add: length_entry_bytes key_entry_size_def)
  have mem: "TCTable_Get_entry (mem_table db) (query_of k) = Inr (lookup_value (m k))"
    by (rule Get_entry_rel [OF s(1) assms(4,5)])
  show ?thesis
  proof (cases "lookup_value (m k) = []")
    case False
    have "db_sound (bloom_create filter_bytes hash_k seeds) hash mem K (db\<lparr>query_cache := c'\<rparr>) m fss"
      using assms(1) c'(2) by (simp add: db_sound_def latest_manifest_def)
    then show ?thesis
      using False c'(1) mem enc assms(2) by (auto simp: TCDB_Get_def Let_def)
  next
    case True
    obtain a v c1 where v: "LatestVersion (version_ctrl db) = Inr (a, c1)" "ctrl_ok c1" "version_at c1 a = Inr v"
      "version_manifest v = latest_manifest db" "version_list c1 \<noteq> []"
      "version_manifest (snd (last (version_list c1))) = latest_manifest db"
      using latest_version_found [OF s(2,3)] unfolding latest_manifest_def by blast
    let ?m = "latest_manifest db"
    obtain e qb where e: "search_levels (Filter_ContainsKey hash_k seeds) (db_io db) (db_os db) (query_buffer db)
        (query_of k) [] ?m [0..<length (data_files ?m)] = Inr (e, qb, db_os db)"
      "case find (holds_key (query_of k)) (concat (drop 0 fss)) of None \<Rightarrow> e = [] | Some es \<Rightarrow> block_hit es (query_of k) e"
      using bloom.search_levels_finds [OF s(4) query_ordered [OF assms(4,5)] s(5) bloom_entry, of 0 "query_buffer db"] by blast
    let ?db = "db\<lparr>query_cache := c', version_ctrl := c1, query_buffer := qb, db_os := db_os db\<rparr>"
    have "db_sound (bloom_create filter_bytes hash_k seeds) hash mem K ?db m fss"
      using assms(1) c'(2) v(2,5,6) by (simp add: db_sound_def latest_manifest_def)
    moreover have g: "TCDB_Get hash mem (Filter_ContainsKey hash_k seeds) db key =
        (if length e = 0 then Inr ([], ?db) else rmap (\<lambda>v. (v, ?db)) (EntryValue e))"
      using True c'(1) mem enc assms(2) v(1,3,4) e(1) by (simp add: TCDB_Get_def Let_def)
    moreover have "e \<noteq> []" if "find (holds_key (query_of k)) (concat fss) = Some es" "block_hit es (query_of k) e" for es
      using find_SomeD [OF that(1)] on_disk_entry [OF s(5)] block_hit_entry [OF that(2)] ordered_entry_ne by blast
    ultimately show ?thesis
      using e(2) True by (intro exI [of _ ?db]) (auto split: option.splits)
  qed
qed

section \<open>Flushing a table\<close>

lemma bump_keys: "fst ` set (bump f s xs) = fst ` set xs"
  by (force simp: bump_def image_iff)

lemma update_version_list:
  "update_version c a f = Inr c' \<Longrightarrow>
    version_list c' = map (\<lambda>(b, v). (b, if b = a then f v else v)) (version_list c)"
  by (auto simp: update_version_def res_simps)

text \<open>Releasing an older version keeps the newest one.\<close>

lemma UnrefVersion_last:
  assumes "ctrl_ok c" "version_list c = xs @ [(b, w)]" "(a, v) \<in> set (version_list c)" "a \<noteq> b"
  shows "\<exists>st c' ys. UnrefVersion c v = Inr (st, c') \<and> ctrl_ok c' \<and> version_list c' = ys @ [(b, w)]"
proof -
  obtain st c' where u: "UnrefVersion c v = Inr (st, c')" "ctrl_ok c'" using UnrefVersion_refines [OF assms(1)] by blast
  have m: "version_map c (ManifestStr v) = Some a" using ctrl_ok_map(1) [OF assms(1)] assms(3) by blast
  obtain c1 where c1: "update_version c a TCVersion_UnRef = Inr c1"
    "version_list c' = version_list c1 \<or> version_list c' = filter (\<lambda>p. fst p \<noteq> a) (version_list c1)"
    using u(1) m by (auto simp: UnrefVersion_def res_simps split: if_splits)
  have "version_list c1 = map (\<lambda>(b, v). (b, if b = a then TCVersion_UnRef v else v)) xs @ [(b, w)]"
    using update_version_list [OF c1(1)] assms(2,4) by simp
  then show ?thesis using u c1(2) assms(4) by auto
qed

lemma versions_advance:
  assumes "ctrl_ok c" "version_list c \<noteq> []" "Manifest_Encode m \<notin> fst ` set (counts_of c)"
    and "new = \<lparr>ref = 0, version_manifest = m, version_id = i\<rparr>"
  shows "\<exists>a v c1 c2 w st c3. LatestVersion c = Inr (a, c1) \<and> version_at c1 a = Inr v \<and>
    version_manifest v = version_manifest (snd (last (version_list c))) \<and>
    AppendVersion c1 new = Inr (True, c2) \<and> version_at c2 a = Inr w \<and> UnrefVersion c2 w = Inr (st, c3) \<and>
    ctrl_ok c3 \<and> version_list c3 \<noteq> [] \<and> version_manifest (snd (last (version_list c3))) = m"
proof -
  obtain a v c1 where c1: "LatestVersion c = Inr (a, c1)" "ctrl_ok c1" "version_at c1 a = Inr v"
    "version_manifest v = version_manifest (snd (last (version_list c)))"
    "counts_of c1 = bump (\<lambda>n. n + 1) (ManifestStr v) (counts_of c)"
    using latest_version_found [OF assms(1,2)] by blast
  have n: "ManifestStr new \<notin> fst ` set (counts_of c1)"
    using assms(3) unfolding c1(5) bump_keys by (simp add: assms(4) ManifestStr_def)
  then have "version_map c1 (ManifestStr new) = None" using ctrl_ok_map(2) [OF c1(2)] by blast
  then obtain c2 where c2: "AppendVersion c1 new = Inr (True, c2)" "version_list c2 = version_list c1 @ [(next_node c1, new)]"
    by (simp add: AppendVersion_def)
  have ok2: "ctrl_ok c2" using AppendVersion_refines [OF c1(2), of new] c2(1) by auto
  have av: "(a, v) \<in> set (version_list c1)"
    using c1(3) by (auto simp: version_at_def split: option.splits dest: map_of_SomeD)
  then have "a < next_node c1" using c1(2) by (auto simp: ctrl_ok_def)
  then obtain st c3 ys where c3: "UnrefVersion c2 v = Inr (st, c3)" "ctrl_ok c3" "version_list c3 = ys @ [(next_node c1, new)]"
    using UnrefVersion_last [OF ok2 c2(2), of a v] av c2(2) by auto
  have "version_at c2 a = Inr v" using version_at_ok [OF ok2, of a v] av c2(2) by simp
  with c1(1,3,4) c2(1) c3 show ?thesis by (fastforce simp: assms(4))
qed

text \<open>The files of the other levels stay where they are.\<close>

definition push_files :: "bytes list list list \<Rightarrow> bytes list \<Rightarrow> bytes list list list" where
  "push_files fss es = (case fss of [] \<Rightarrow> [[es]] | l # ls \<Rightarrow> (l @ [es]) # ls)"

lemma levels_on_disk_push:
  assumes "levels_on_disk create s io man fss" "on_disk create s' io' f es" "quiet s'"
    and "kDatabaseDir io' = kDatabaseDir io"
    and "\<And>p es flex. sst_at s p es flex \<Longrightarrow> (\<exists>name. sst_path io name = Inr p) \<Longrightarrow> files s' p = files s p"
  shows "levels_on_disk create s' io' (push_level0 man f) (push_files fss es)"
proof -
  have keep: "on_disk create s' io' name es'" if "on_disk create s io name es'" for name es'
    using that assms(3,5) sst_at_keep unfolding on_disk_def by (metis (no_types, lifting) assms(4) sst_path_def)
  have k: "list_all2 (list_all2 (on_disk create s' io')) (data_files man) fss"
    using assms(1) unfolding levels_on_disk_def by (auto elim!: list_all2_mono intro: keep)
  have "list_all2 (list_all2 (on_disk create s' io')) (data_files (push_level0 man f)) (push_files fss es)"
    using k assms(2)
    by (cases "data_files man"; cases fss) (auto simp: push_level0_def push_files_def intro: list_all2_appendI)
  moreover have "sorted_wrt (\<lambda>a b. \<not> key_ordered (hd b) (last a)) (push_files fss es ! l)"
    if "l < length (push_files fss es)" "0 < l" for l
    using assms(1) that by (cases fss; cases l) (auto simp: levels_on_disk_def push_files_def)
  ultimately show ?thesis by (simp add: levels_on_disk_def)
qed

text \<open>The flush, from what the compaction before it, if any, has left.\<close>

lemma flush_after:
  assumes "db_sound create hash mem K db m fss"
    and pre: "(if data_files (latest_manifest db) \<noteq> [] \<and> kDefaultLevelSize ! 0 \<le> length (data_files (latest_manifest db) ! 0)
      then BackgroundCompact create (db_os db) (db_io db) (db_logger db) (latest_manifest db)
      else Inr (NoError, latest_manifest db, db_io db, db_logger db, db_os db)) = Inr (st0, man, io, lg, s)" "StatusNoError st0"
    and disk: "levels_on_disk create s io man fss'" "0 < reader_pool io" "quiet s"
    and t: "TCTable_EntrySet t = Inr es" "\<forall>e\<in>set es. ordered_entry e" "sorted_wrt le_entry es" "es \<noteq> []"
      "create es = Inr flex" "SST_fits es flex"
    and new_file: "sst_path io (hex16 (file_id io)) = Inr p" "files s p = None"
    and new_version: "Manifest_Encode (push_level0 man (hex16 (file_id io))) \<notin> fst ` set (counts_of (version_ctrl db))"
  shows "\<exists>st db'. MVCCWriteLevel0 create db t = Inr (st, db') \<and> StatusNoError st \<and>
    db_sound create hash mem K db' m (push_files fss' es) \<and> mem_table db' = mem_table db \<and>
    latest_manifest db' = push_level0 man (hex16 (file_id io)) \<and> quiet (db_os db')"
proof -
  let ?man = "latest_manifest db" and ?b = "hex16 (file_id io)" and ?io' = "io\<lparr>file_id := file_id io + 1\<rparr>"
  have c0: "ctrl_ok (version_ctrl db)" "version_list (version_ctrl db) \<noteq> []" using assms(1) by (simp_all add: db_sound_def)
  obtain mp where mp: "PathJoin (kDatabaseDir io) kManifestFilename = Inr mp" using sst_path_dir [OF new_file(1)] by blast
  have entries: "\<forall>e\<in>set es. is_entry e" using t(2) ordered_is_entry by blast
  obtain st s' where w: "WriteLevel0File create s io t man = Inr (st, push_level0 man ?b, ?io', s')"
    "StatusNoError st" "sst_at s' p es flex" "\<forall>g. g \<noteq> p \<longrightarrow> g \<noteq> mp \<longrightarrow> files s' g = files s g"
    using Level0_writes [where create = create, OF t(1) entries t(4-6) disk(3) new_file mp, of man] by blast
  let ?new = "\<lparr>ref = 0, version_manifest = push_level0 man ?b, version_id = inc_id db\<rparr>"
  obtain a v c1 c2 v2 st2 c3 where c: "LatestVersion (version_ctrl db) = Inr (a, c1)" "version_at c1 a = Inr v"
    "version_manifest v = ?man" "AppendVersion c1 ?new = Inr (True, c2)" "version_at c2 a = Inr v2"
    "UnrefVersion c2 v2 = Inr (st2, c3)" "ctrl_ok c3" "version_list c3 \<noteq> []"
    "version_manifest (snd (last (version_list c3))) = push_level0 man ?b"
    using versions_advance [OF c0 new_version refl, of "inc_id db"] unfolding latest_manifest_def by blast
  let ?db = "db\<lparr>db_io := ?io', db_logger := lg, db_os := s', inc_id := inc_id db + 1, version_ctrl := c3\<rparr>"
  have new: "TCVersion_UnRef (fst (TCVersion_new (inc_id db) (push_level0 man ?b))) = ?new"
    by (simp add: TCVersion_new_def TCVersion_UnRef_def)
  have "(if data_files ?man \<noteq> [] \<and> kDefaultLevelSize ! 0 \<le> length (data_files ?man ! 0)
       then rmap (\<lambda>(st, m, io, lg, s). (st, m, d\<lparr>db_io := io, db_logger := lg, db_os := s\<rparr>))
         (BackgroundCompact create (db_os d) (db_io d) (db_logger d) ?man)
       else Inr (NoError, ?man, d)) = Inr (st0, man, d\<lparr>db_io := io, db_logger := lg, db_os := s\<rparr>)"
    if d: "db_os d = db_os db" "db_io d = db_io db" "db_logger d = db_logger db" for d :: TCDB
    using pre(1) by (auto simp: d split: if_splits)
  note step = this [of "db\<lparr>version_ctrl := c1\<rparr>"]
  have run: "MVCCWriteLevel0 create db t = Inr (st, ?db)"
    unfolding MVCCWriteLevel0_def Let_def c(1) rbind.simps prod.case c(2) c(3)
    by (subst step) (use c(4-6) w(1) pre(2) new in \<open>simp_all add: TCVersion_new_def\<close>)
  have q: "quiet s'" using w(3) by (simp add: sst_at_def)
  have path: "sst_path ?io' ?b = Inr p" using new_file(1) by (simp add: sst_path_def)
  have "on_disk create s' ?io' ?b es"
    using path w(3) t(5) sorted_entries_file [OF t(3,2)] by (auto simp: on_disk_def)
  then have "levels_on_disk create s' ?io' (push_level0 man ?b) (push_files fss' es)"
  proof (rule levels_on_disk_push [OF disk(1) _ q])
    fix p' es' flex'
    assume "sst_at s p' es' flex'" "\<exists>name. sst_path io name = Inr p'"
    then have "p' \<noteq> p" "p' \<noteq> mp" using new_file(2) sst_path_manifest mp by (auto simp: sst_at_def)
    then show "files s' p' = files s p'" using w(4) by blast
  qed simp
  moreover have "latest_manifest ?db = push_level0 man ?b" using c(9) by (simp add: latest_manifest_def)
  ultimately have "db_sound create hash mem K ?db m (push_files fss' es)"
    using assms(1) c(7,8) disk(2) by (simp add: db_sound_def)
  then show ?thesis using run w(2) c(9) q by (intro exI [of _ st] exI [of _ ?db]) (simp add: latest_manifest_def)
qed

lemma flush_ok:
  assumes "db_sound create hash mem K db m fss"
    and "TCTable_EntrySet t = Inr es" "\<forall>e\<in>set es. ordered_entry e" "sorted_wrt le_entry es" "es \<noteq> []"
    and "create es = Inr flex" "SST_fits es flex" "quiet (db_os db)"
    and "sst_path (db_io db) (hex16 (file_id (db_io db))) = Inr p" "files (db_os db) p = None"
    and "length (level_files (latest_manifest db) 0) < 4"
    and "Manifest_Encode (push_level0 (latest_manifest db) (hex16 (file_id (db_io db)))) \<notin>
      fst ` set (counts_of (version_ctrl db))"
  shows "\<exists>st db'. MVCCWriteLevel0 create db t = Inr (st, db') \<and> StatusNoError st \<and>
    db_sound create hash mem K db' m (push_files fss es) \<and> mem_table db' = mem_table db \<and>
    latest_manifest db' = push_level0 (latest_manifest db) (hex16 (file_id (db_io db))) \<and> quiet (db_os db')"
proof (rule flush_after [where create = create, OF assms(1) _ StatusNoError_simps(1)])
  have "\<not> (data_files (latest_manifest db) \<noteq> [] \<and> kDefaultLevelSize ! 0 \<le> length (data_files (latest_manifest db) ! 0))"
    using assms(11) by (auto simp: level_files_def kDefaultLevelSize_def)
  then show "(if data_files (latest_manifest db) \<noteq> [] \<and> kDefaultLevelSize ! 0 \<le> length (data_files (latest_manifest db) ! 0)
      then BackgroundCompact create (db_os db) (db_io db) (db_logger db) (latest_manifest db)
      else Inr (NoError, latest_manifest db, db_io db, db_logger db, db_os db)) =
      Inr (NoError, latest_manifest db, db_io db, db_logger db, db_os db)" by (rule if_not_P)
  show "levels_on_disk create (db_os db) (db_io db) (latest_manifest db) fss" "0 < reader_pool (db_io db)"
    using assms(1) by (simp_all add: db_sound_def)
qed (rule assms)+

section \<open>Insertion and deletion\<close>

lemma Insert_small:
  assumes "db_sound create hash mem K db m fss" "good_op (OpInsert key val, rs)" "entry_id (mem_table db) < - 1"
    and "TCTable_MemUsage (mem_table db) < kDefaultSSTFileSize" "write_count (mmt_trans_lock db) = 0"
  shows "\<exists>db'. TCDB_Insert mk db key val rs = Inr (NoError, db') \<and> mmt_trans_lock db' = mmt_trans_lock db \<and>
    entry_id (mem_table db') = entry_id (mem_table db) + 1 \<and>
    db_sound create hash mem K db' (m(key \<mapsto> Some val)) fss"
proof -
  have "table_rel (mem_table db) m" using assms(1) by (simp add: db_sound_def)
  from run_op_rel [OF this assms(2,3)] obtain t' where t': "TCTable_Insert (mem_table db) key val rs = Inr (NoError, t')"
    "table_rel t' (m(key \<mapsto> Some val))" "entry_id t' = entry_id (mem_table db) + 1" by auto
  have "\<not> kDefaultSSTFileSize \<le> TCTable_MemUsage (mem_table db)" using assms(4) by simp
  then show ?thesis
    using t' assms(1,5) by (simp add: TCDB_Insert_def ReadLock_def ReadUnlock_def Let_def db_sound_def latest_manifest_def)
qed

lemma Delete_ok:
  assumes "db_sound create hash mem K db m fss" "good_op (OpDelete (seq_bytes mem key), rs)" "entry_id (mem_table db) < - 1"
    and "seq_bytes mem key \<in> K"
  shows "\<exists>db'. TCDB_Delete hash mem db key rs = Inr (NoError, db') \<and> mmt_trans_lock db' = mmt_trans_lock db \<and>
    entry_id (mem_table db') = entry_id (mem_table db) + 1 \<and>
    db_sound create hash mem K db' (m(seq_bytes mem key \<mapsto> None)) fss"
proof -
  have "table_rel (mem_table db) m" using assms(1) by (simp add: db_sound_def)
  from run_op_rel [OF this assms(2,3)] obtain t' where t': "TCTable_Delete (mem_table db) (seq_bytes mem key) rs = Inr (NoError, t')"
    "table_rel t' (m(seq_bytes mem key \<mapsto> None))" "entry_id t' = entry_id (mem_table db) + 1" by auto
  obtain c' where c': "TCCache_Delete hash mem (query_cache db) key = Inr (True, c')" "cold_cache hash mem K c'"
    using cold_cache_Delete assms(1,4) unfolding db_sound_def by blast
  show ?thesis
    using t' c' assms(1) by (simp add: TCDB_Delete_def db_sound_def latest_manifest_def)
qed

section \<open>Properties\<close>

text \<open>C10. A lookup goes by the memory table first: a value there is the answer. Without one, the first
  data file that holds the key, in the order of the newest version's levels, decides, and a key
  that neither holds reads as the empty string. The lookup changes nothing that a later lookup
  sees. The cache never answers, since only deletions ever reach it.\<close>

theorem Get_searches_in_order:
  assumes "db_sound (bloom_create filter_bytes hash_k seeds) hash mem K db m fss"
    and "seq_bytes mem key = k" "k \<in> K" "fits k" "k \<noteq> []"
    and "answer = TCDB_Get hash mem (Filter_ContainsKey hash_k seeds) db key"
  shows "\<exists>db'. db_sound (bloom_create filter_bytes hash_k seeds) hash mem K db' m fss \<and>
    (if lookup_value (m k) \<noteq> [] then answer = Inr (lookup_value (m k), db')
     else case find (holds_key (query_of k)) (concat fss) of
        None \<Rightarrow> answer = Inr ([], db')
      | Some es \<Rightarrow> \<exists>e\<in>set es. EntryKey e = Inr k \<and> answer = rmap (\<lambda>v. (v, db')) (EntryValue e))"
proof -
  obtain db' where db': "db_sound (bloom_create filter_bytes hash_k seeds) hash mem K db' m fss"
    "if lookup_value (m k) \<noteq> [] then answer = Inr (lookup_value (m k), db')
     else case find (holds_key (query_of k)) (concat fss) of
        None \<Rightarrow> answer = Inr ([], db')
      | Some es \<Rightarrow> \<exists>e. block_hit es (query_of k) e \<and> answer = rmap (\<lambda>v. (v, db')) (EntryValue e)"
    using Get_answers [OF assms(1-5)] unfolding assms(6) by blast
  have "e \<in> set es \<and> EntryKey e = Inr k"
    if "find (holds_key (query_of k)) (concat fss) = Some es" "block_hit es (query_of k) e" for es e
  proof -
    have e: "e \<in> set es" "same_key e (query_of k)" using block_hit_entry [OF that(2)] by simp_all
    have "ordered_entry e"
      using on_disk_entry find_SomeD [OF that(1)] e(1) assms(1) unfolding db_sound_def by blast
    then show ?thesis using e ordered_EntryKey query_ordered [OF assms(4,5)] assms(4) by (simp add: ordered_EntryKey)
  qed
  note hit = this
  show ?thesis
  proof (cases "find (holds_key (query_of k)) (concat fss)")
    case None
    then show ?thesis using db' by auto
  next
    case (Some es)
    have "\<exists>e\<in>set es. EntryKey e = Inr k \<and> answer = rmap (\<lambda>v. (v, db')) (EntryValue e)" if l: "lookup_value (m k) = []"
    proof -
      obtain e where "block_hit es (query_of k) e" "answer = rmap (\<lambda>v. (v, db')) (EntryValue e)"
        using db'(2) Some l by auto
      then show ?thesis using hit [OF Some] by blast
    qed
    then show ?thesis using db' Some by (intro exI [of _ db']) simp
  qed
qed

text \<open>An empty database for the witnesses; its one caller has the key \<open>k\<close> and the value 1 in memory.\<close>

abbreviation example_manifest :: Manifest where
  "example_manifest \<equiv> \<lparr>path_to_manifest = ''m'', path_to_log = ''l'', data_files = []\<rparr>"

abbreviation example_mem :: caller_memory where
  "example_mem \<equiv> (\<lambda>a. if a = 0 then [107] else [1])"

definition example_hash :: "bytes \<Rightarrow> u64" where
  "example_hash k = of_nat (length k)"

definition example_create :: "bytes list \<Rightarrow> bytes res" where
  "example_create = bloom_create (\<lambda>_. 8) 6 default_seeds"

definition example_db :: TCDB where
  "example_db = \<lparr>mem_table = TCTable_new 0, mmt_trans_lock = ReadWriteLock_new,
     db_io = \<lparr>kDatabaseDir = ''db'', file_id = 0, reader_pool = 4\<rparr>,
     db_logger = Writer_new \<lparr>file_name = ''db/LOG'', file_mode = kAppend, is_open = False\<rparr> 1024,
     version_ctrl = \<lparr>version_list = [(0, \<lparr>ref = 1, version_manifest = example_manifest, version_id = 0\<rparr>)],
       version_map = [Manifest_Encode example_manifest \<mapsto> 0], next_node = 1\<rparr>,
     inc_id = 1, query_cache = TCCache_new kDefaultCacheSize, query_buffer = QueryAllocator_new,
     compact_future = NoFuture, insert_tasks = [],
     db_os = \<lparr>files = Map.empty, open_results = [], write_results = [], read_results = []\<rparr>\<rparr>"

lemma example_db_sound: "db_sound create hash example_mem {[107]} example_db (\<lambda>_. None) []"
proof -
  have "cold_cache hash example_mem {[107]} (TCCache_new kDefaultCacheSize)"
    using cache_rel_new [of hash example_mem "{[107]}" kDefaultCacheSize]
    by (auto simp: cold_cache_def no_collision_def intro: exI [of _ "[]"])
  then show ?thesis
    using table_rel_new
    by (simp add: db_sound_def example_db_def ctrl_ok_def ManifestStr_def levels_on_disk_def latest_manifest_def)
qed

lemma example_good: "good_op (OpInsert [107] v, [3])" if "fits v"
  using that by (auto simp: good_op_def fits_def RandomLevel_def SelectedInProb1DivdN_def RandomUniform_def kMaxLevels_def)

theorem Get_searches_in_order_witness:
  "\<exists>db1 db2. TCDB_Insert example_create example_db [107] [1] [3] = Inr (NoError, db1) \<and>
    TCDB_Get example_hash example_mem (Filter_ContainsKey 6 default_seeds) db1 (0, 1) = Inr ([1], db2)"
proof -
  let ?c = "bloom_create (\<lambda>_. 8) 6 default_seeds"
  have "TCTable_MemUsage (mem_table example_db) < kDefaultSSTFileSize" "write_count (mmt_trans_lock example_db) = 0"
    "entry_id (mem_table example_db) < - 1"
    by (simp_all add: example_db_def TCTable_MemUsage_def TCTable_new_def ReadWriteLock_new_def kDefaultSSTFileSize_def
        MemAllocator_default_def MemAllocator_new_def MemUsage_def AllocateFullBlock_def MemAllocator.Unref_def
        kApproximateSSTFileSize_def word_gt_0)
  moreover have "fits [1]" by (simp add: fits_def)
  ultimately obtain db1 where db1: "TCDB_Insert example_create example_db [107] [1] [3] = Inr (NoError, db1)"
    "db_sound ?c example_hash example_mem {[107]} db1 [[107] \<mapsto> Some [1]] []"
    using Insert_small [where create = ?c, OF example_db_sound example_good, of "[1]" example_create example_hash] by auto
  from Get_searches_in_order [OF db1(2), of "(0, 1)" "[107]"] db1(1)
  show ?thesis by (auto simp: seq_bytes_def fits_def lookup_value_def)
qed

end
