(* ===== verification/DatabaseFlush.thy ===== *)
theory DatabaseFlush
  imports DatabaseProofs
begin

text \<open>
  What callers see of a flush: values of keys written once survive it, but older versions,
  deleted keys and tables that are on their way to disk do not read as they should.
\<close>

section \<open>Tables that can be flushed\<close>

definition flushable :: "(bytes list \<Rightarrow> bytes res) \<Rightarrow> TCDB \<Rightarrow> table \<Rightarrow> bytes list \<Rightarrow> bool" where
  "flushable create db t es \<longleftrightarrow> TCTable_EntrySet t = Inr es \<and> es \<noteq> [] \<and>
     (\<exists>flex p. create es = Inr flex \<and> SST_fits es flex \<and>
        sst_path (db_io db) (hex16 (file_id (db_io db))) = Inr p \<and> files (db_os db) p = None) \<and>
     quiet (db_os db) \<and> length (level_files (latest_manifest db) 0) < 4 \<and>
     Manifest_Encode (push_level0 (latest_manifest db) (hex16 (file_id (db_io db)))) \<notin>
       fst ` set (counts_of (version_ctrl db))"

lemma table_entries:
  assumes "table_rel t m" "TCTable_EntrySet t = Inr es"
  shows "\<forall>e\<in>set es. ordered_entry e" "sorted_wrt le_entry es"
    and "m k = Some d \<Longrightarrow> \<exists>e. newest es k e \<and> describes d e"
proof -
  obtain es' where es': "iec.holds (skl t) es'"
    "\<forall>key. case m key of None \<Rightarrow> \<forall>e\<in>set es'. fst (ent_of e) \<noteq> key | Some d \<Rightarrow> \<exists>e. newest es' key e \<and> describes d e"
    using assms(1) by (auto simp: table_rel_def)
  have eq: "es' = es" using assms(2) iec.EntrySet_holds [OF es'(1)] by (simp add: TCTable_EntrySet_def)
  show "\<forall>e\<in>set es. ordered_entry e" "sorted_wrt le_entry es"
    using table_rel_entries [OF assms(1)] assms(2) by auto
  show "\<exists>e. newest es k e \<and> describes d e" if "m k = Some d"
    using spec [OF es'(2), of k] that eq by simp
qed

lemma flushable_ok:
  assumes "db_sound create hash mem K db m fss" "table_rel t mt" "flushable create db t es"
  shows "\<exists>st db'. MVCCWriteLevel0 create db t = Inr (st, db') \<and> StatusNoError st \<and>
    db_sound create hash mem K db' m (push_files fss es) \<and> mem_table db' = mem_table db"
  using assms(3) flush_ok [where create = create, OF assms(1) _ table_entries(1,2) [OF assms(2)]]
  unfolding flushable_def by blast

lemma concat_push_files:
  "concat (push_files fss es) = concat (take 1 fss) @ es # concat (drop 1 fss)"
  by (cases fss) (simp_all add: push_files_def)

lemma find_pushed:
  assumes "\<forall>f\<in>set (concat fss). \<not> P f" "P es"
  shows "find P (concat (push_files fss es)) = Some es"
proof -
  have "\<forall>f\<in>set (concat (take 1 fss)). \<not> P f" using assms(1) by (auto dest: in_set_takeD)
  then have "find P (concat (take 1 fss)) = None" by (auto simp: find_None_iff)
  then show ?thesis using assms(2) by (simp add: concat_push_files find_append)
qed

lemma holds_key_query: "fits k \<Longrightarrow> holds_key (query_of k) es \<longleftrightarrow> (\<exists>e\<in>set es. fst (ent_of e) = k)"
  by (simp add: holds_key_def)

text \<open>A lookup after the flush of a key that only the flushed table knows.\<close>

lemma Get_flushed:
  assumes "db_sound (bloom_create filter_bytes hash_k seeds) hash mem K db m fss" "table_rel t mt"
    and "flushable (bloom_create filter_bytes hash_k seeds) db t es"
    and "seq_bytes mem key = k" "k \<in> K" "fits k" "k \<noteq> []"
    and "mt k = Some d" "lookup_value (m k) = []" "\<forall>f\<in>set (concat fss). \<not> holds_key (query_of k) f"
  shows "\<exists>st db1 db2 e. MVCCWriteLevel0 (bloom_create filter_bytes hash_k seeds) db t = Inr (st, db1) \<and> StatusNoError st \<and>
    block_hit es (query_of k) e \<and>
    TCDB_Get hash mem (Filter_ContainsKey hash_k seeds) db1 key = rmap (\<lambda>v. (v, db2)) (EntryValue e)"
proof -
  let ?c = "bloom_create filter_bytes hash_k seeds"
  obtain st db1 where f: "MVCCWriteLevel0 ?c db t = Inr (st, db1)" "StatusNoError st"
    "db_sound ?c hash mem K db1 m (push_files fss es)"
    using flushable_ok [where create = ?c, OF assms(1-3)] by blast
  have es: "TCTable_EntrySet t = Inr es" using assms(3) by (simp add: flushable_def)
  obtain e where "newest es k e" using table_entries(3) [OF assms(2) es assms(8)] by blast
  then have "holds_key (query_of k) es" using assms(6) by (auto simp: holds_key_query newest_def)
  then have "find (holds_key (query_of k)) (concat (push_files fss es)) = Some es"
    using find_pushed assms(10) by blast
  then show ?thesis using Get_answers [OF f(3) assms(4-7)] assms(9) f(1,2) by auto
qed



section \<open>Tables for the witnesses\<close>

lemma one_less_max: "(1 :: u64) < - 1"
proof -
  have "unat (- 1 :: u64) = 2 ^ 64 - 1"
    by transfer (simp add: take_bit_minus_one_eq_mask mask_eq_exp_minus_1)
  then show ?thesis by (simp add: word_less_nat_alt)
qed

abbreviation first_version :: bytes where
  "first_version \<equiv> entry_bytes [107] [1] 0 kInsert"

abbreviation second_version :: bytes where
  "second_version \<equiv> entry_bytes [107] [2] 1 kInsert"

lemma example_level: "RandomLevel [3] = Inr 0"
  by (simp add: RandomLevel_def SelectedInProb1DivdN_def RandomUniform_def kMaxLevels_def)

lemma value_simps [simp]:
  "EntryValue first_version = Inr [1]" "EntryOpType first_version = Inr kInsert"
  "EntryValue second_version = Inr [2]" "EntryOpType second_version = Inr kInsert"
  using EntryValue_entry [of "[107]" "[1]" 0 "[]"] EntryValue_entry [of "[107]" "[2]" 1 "[]"]
    EntryOpType_entry [of "[107]" "[1]" 0 kInsert "[]"] EntryOpType_entry [of "[107]" "[2]" 1 kInsert "[]"]
  by (simp_all add: fits_def)

text \<open>A table of one version and a table of two.\<close>

lemma example_tables:
  shows "\<exists>t. TCTable_EntrySet t = Inr [first_version] \<and> table_rel t [[107] \<mapsto> Some [1]] \<and> entry_id t = 1 \<and>
      mem_allocator t = ma"
    and "\<exists>t. TCTable_EntrySet t = Inr [first_version, second_version] \<and> table_rel t [[107] \<mapsto> Some [2]]"
proof -
  obtain sl where sl: "iec.holds sl (insert_key le_entry first_version [])"
    using iec.Insert_holds [OF iec.holds_new tiny_entries(1) example_level] by auto
  then have h1: "iec.holds sl [first_version]" by (simp add: insert_key_def)
  then have lv: "0 \<le> sl_levels sl" "sl_levels sl + 1 < kMaxLevels \<or> 0 \<le> sl_levels sl" by simp_all
  obtain sl2 where "iec.holds sl2 (insert_key le_entry second_version [first_version])"
    using iec.Insert_holds [OF h1 tiny_entries(2) example_level lv(2)] by auto
  then have h2: "iec.holds sl2 [first_version, second_version]"
    using tiny_entries by (simp add: insert_key_def ent_le_def)
  let ?t = "(TCTable_new 0)\<lparr>skl := sl, entry_id := 1, mem_allocator := ma\<rparr>"
  have "newest [first_version] [107] first_version" using tiny_entries by (simp add: newest_def)
  then have "table_rel ?t [[107] \<mapsto> Some [1]]"
    unfolding table_rel_def using h1 tiny_entries
    by (intro exI [of _ "[first_version]"]) (auto simp: TCTable_new_def intro!: exI [of _ first_version])
  moreover have "TCTable_EntrySet ?t = Inr [first_version]" using iec.EntrySet_holds [OF h1] by (simp add: TCTable_EntrySet_def)
  ultimately show "\<exists>t. TCTable_EntrySet t = Inr [first_version] \<and> table_rel t [[107] \<mapsto> Some [1]] \<and> entry_id t = 1 \<and>
      mem_allocator t = ma"
    by (intro exI [of _ ?t]) simp
  let ?t = "(TCTable_new 0)\<lparr>skl := sl2, entry_id := 2\<rparr>"
  have "newest [first_version, second_version] [107] second_version" using tiny_entries by (simp add: newest_def)
  then have "table_rel ?t [[107] \<mapsto> Some [2]]"
    unfolding table_rel_def using h2 tiny_entries
    by (intro exI [of _ "[first_version, second_version]"]) (auto simp: TCTable_new_def intro!: exI [of _ second_version])
  moreover have "TCTable_EntrySet ?t = Inr [first_version, second_version]"
    using iec.EntrySet_holds [OF h2] by (simp add: TCTable_EntrySet_def)
  ultimately show "\<exists>t. TCTable_EntrySet t = Inr [first_version, second_version] \<and> table_rel t [[107] \<mapsto> Some [2]]"
    by blast
qed

lemma example_flushable:
  assumes "TCTable_EntrySet t = Inr es" "\<forall>e\<in>set es. ordered_entry e" "es \<noteq> []" "total_size es \<le> 1000"
  shows "flushable (bloom_create (\<lambda>_. 8) 6 default_seeds) example_db t es"
proof -
  obtain flex where f: "bloom_create (\<lambda>_. 8) 6 default_seeds es = Inr flex" "SST_fits es flex"
    using tiny_file [OF assms(2-4)] by (auto simp: sst_at_def)
  moreover have "Manifest_Encode (push_level0 example_manifest n) \<noteq> Manifest_Encode example_manifest" for n
    by (auto simp: Manifest_Encode_def push_level0_def encode_level_def Let_def)
  ultimately show ?thesis
    using assms(1,3)
    by (simp add: flushable_def example_db_def sst_path_def PathJoin_def quiet_def latest_manifest_def level_files_def
        counts_of_def ManifestStr_def)
qed



text \<open>Deleting a key that only a data file knows does not delete it: the deletion succeeds and
  puts a marker into the memory table, but \<open>Get\<close> of the table reports the marker as if the key
  were not there, the search goes on in the data files and returns their entry.\<close>

theorem delete_leaves_file_entry:
  assumes "db_sound (bloom_create filter_bytes hash_k seeds) hash mem K db m fss"
    and "good_op (OpDelete k, rs)" "entry_id (mem_table db) < - 1" "seq_bytes mem key = k" "k \<in> K"
    and "find (holds_key (query_of k)) (concat fss) = Some es"
  shows "\<exists>db1 db2 e. TCDB_Delete hash mem db key rs = Inr (NoError, db1) \<and> e \<in> set es \<and> EntryKey e = Inr k \<and>
    TCDB_Get hash mem (Filter_ContainsKey hash_k seeds) db1 key = rmap (\<lambda>v. (v, db2)) (EntryValue e)"
proof -
  obtain db1 where d: "TCDB_Delete hash mem db key rs = Inr (NoError, db1)"
    "db_sound (bloom_create filter_bytes hash_k seeds) hash mem K db1 (m(k \<mapsto> None)) fss"
    using Delete_ok [OF assms(1), of key rs] assms(2-5) by blast
  have k: "fits k" "k \<noteq> []" using assms(2) by (auto simp: good_op_def)
  have "lookup_value ((m(k \<mapsto> None)) k) = []" by (simp add: lookup_value_def)
  then obtain db2 e where e: "block_hit es (query_of k) e"
    "TCDB_Get hash mem (Filter_ContainsKey hash_k seeds) db1 key = rmap (\<lambda>v. (v, db2)) (EntryValue e)"
    using Get_answers [OF d(2) assms(4,5) k] assms(6) by auto
  have m: "e \<in> set es" "same_key e (query_of k)" using block_hit_entry [OF e(1)] by simp_all
  have "ordered_entry e" using on_disk_entry find_SomeD [OF assms(6)] m(1) assms(1) unfolding db_sound_def by blast
  then have "EntryKey e = Inr k" using m(2) k(1) by (simp add: ordered_EntryKey)
  with d(1) m(1) e(2) show ?thesis by blast
qed

theorem delete_leaves_file_entry_witness:
  "\<exists>db db1 db2. TCDB_Delete example_hash example_mem db (0, 1) [3] = Inr (NoError, db1) \<and>
    TCDB_Get example_hash example_mem (Filter_ContainsKey 6 default_seeds) db1 (0, 1) = Inr ([1], db2)"
proof -
  obtain t where t: "TCTable_EntrySet t = Inr [first_version]" "table_rel t [[107] \<mapsto> Some [1]]"
    using example_tables(1) by blast
  let ?c = "bloom_create (\<lambda>_. 8) 6 default_seeds"
  have "flushable ?c example_db t [first_version]"
    using example_flushable [OF t(1)] tiny_entries by simp
  from flushable_ok [where create = ?c, OF example_db_sound [where hash = example_hash] t(2) this]
  obtain db where "db_sound ?c example_hash example_mem {[107]} db (\<lambda>_. None) (push_files [] [first_version])"
    "mem_table db = mem_table example_db" by blast
  then have db: "db_sound ?c example_hash example_mem {[107]} db (\<lambda>_. None) [[[first_version]]]"
    "entry_id (mem_table db) = 0"
    by (simp_all add: push_files_def example_db_def TCTable_new_def)
  have "find (holds_key (query_of [107])) (concat [[[first_version]]]) = Some [first_version]"
    using tiny_entries by (simp add: holds_key_def)
  moreover have "good_op (OpDelete [107], [3])"
    using example_level by (auto simp: good_op_def fits_def kMaxLevels_def)
  ultimately show ?thesis
    using delete_leaves_file_entry [OF db(1), of "[107]" "[3]" "(0, 1)"] db(2)
    by (fastforce simp: seq_bytes_def word_gt_0)
qed

section \<open>The database as a map\<close>

datatype db_op = DInsert seqref seqref | DDelete seqref | DGet seqref

datatype db_result = Done bool | Answer bytes

fun run_db_op ::
    "(bytes list \<Rightarrow> bytes res) \<Rightarrow> (bytes \<Rightarrow> bytes \<Rightarrow> bool res) \<Rightarrow> (bytes \<Rightarrow> u64) \<Rightarrow> caller_memory \<Rightarrow> TCDB \<Rightarrow>
      db_op \<Rightarrow> nat list \<Rightarrow> (db_result \<times> TCDB) res" where
  "run_db_op create contains hash mem db (DInsert k v) rs =
     rmap (\<lambda>(st, db'). (Done (StatusNoError st), db')) (TCDB_Insert create db (seq_bytes mem k) (seq_bytes mem v) rs)"
| "run_db_op create contains hash mem db (DDelete k) rs =
     rmap (\<lambda>(st, db'). (Done (StatusNoError st), db')) (TCDB_Delete hash mem db k rs)"
| "run_db_op create contains hash mem db (DGet k) rs =
     rmap (\<lambda>(v, db'). (Answer v, db')) (TCDB_Get hash mem contains db k)"

fun run_db ::
    "(bytes list \<Rightarrow> bytes res) \<Rightarrow> (bytes \<Rightarrow> bytes \<Rightarrow> bool res) \<Rightarrow> (bytes \<Rightarrow> u64) \<Rightarrow> caller_memory \<Rightarrow> TCDB \<Rightarrow>
      (db_op \<times> nat list) list \<Rightarrow> db_result list res" where
  "run_db create contains hash mem db [] = Inr []"
| "run_db create contains hash mem db ((op, rs) # ops) =
     rbind (run_db_op create contains hash mem db op rs) (\<lambda>(r, db').
     rmap ((#) r) (run_db create contains hash mem db' ops))"

fun db_op_key :: "db_op \<Rightarrow> seqref" where
  "db_op_key (DInsert k v) = k"
| "db_op_key (DDelete k) = k"
| "db_op_key (DGet k) = k"

fun table_op_of :: "caller_memory \<Rightarrow> db_op \<Rightarrow> table_op" where
  "table_op_of mem (DInsert k v) = OpInsert (seq_bytes mem k) (seq_bytes mem v)"
| "table_op_of mem op = OpDelete (seq_bytes mem (db_op_key op))"

fun spec_db :: "caller_memory \<Rightarrow> key_map \<Rightarrow> db_op list \<Rightarrow> db_result list" where
  "spec_db mem m [] = []"
| "spec_db mem m (DInsert k v # ops) = Done True # spec_db mem (m(seq_bytes mem k \<mapsto> Some (seq_bytes mem v))) ops"
| "spec_db mem m (DDelete k # ops) = Done True # spec_db mem (m(seq_bytes mem k \<mapsto> None)) ops"
| "spec_db mem m (DGet k # ops) = Answer (lookup_value (m (seq_bytes mem k))) # spec_db mem m ops"

text \<open>How much memory of the table the operations take at most: a request can waste what is left of a
  block, so that it counts twice.\<close>

definition used_memory :: "allocator \<Rightarrow> nat" where
  "used_memory m = length (block_ptr m) * 4096 - remaining_size m"

definition paged :: "allocator \<Rightarrow> bool" where
  "paged m \<longleftrightarrow> kDefaultBlockSize m = 4096 \<and> remaining_size m \<le> 4096 \<and> block_ptr m \<noteq> []"

fun db_op_size :: "caller_memory \<Rightarrow> db_op \<Rightarrow> nat" where
  "db_op_size mem (DInsert k v) = insert_entry_size (seq_bytes mem k) (seq_bytes mem v)"
| "db_op_size mem (DDelete k) = key_entry_size (seq_bytes mem k)"
| "db_op_size mem (DGet k) = 0"

lemma Allocate_paged:
  assumes "paged m"
  shows "paged (snd (Allocate m n))" "used_memory (snd (Allocate m n)) \<le> used_memory m + 2 * n"
proof -
  have r: "kDefaultBlockSize m = 4096" "remaining_size m \<le> 4096" "1 \<le> length (block_ptr m)"
    using assms by (simp_all add: paged_def Suc_le_eq)
  then have l: "4096 \<le> length (block_ptr m) * 4096" by simp
  show "paged (snd (Allocate m n))"
    using r by (auto simp: Allocate_def AllocateFullBlock_def AllocateNewBlock_def paged_def Let_def)
  show "used_memory (snd (Allocate m n)) \<le> used_memory m + 2 * n"
    using r(1,2) l by (auto simp: Allocate_def AllocateFullBlock_def AllocateNewBlock_def used_memory_def Let_def kMaxSectorSize_def)
qed

lemma paged_MemUsage:
  assumes "paged (mem_allocator t)" "used_memory (mem_allocator t) < 2 ^ 32"
  shows "unat (TCTable_MemUsage t) = used_memory (mem_allocator t)"
proof -
  let ?m = "mem_allocator t"
  have "remaining_size ?m \<le> length (block_ptr ?m) * 4096"
    using assms(1) by (cases "block_ptr ?m") (simp_all add: paged_def)
  then have "of_nat (length (block_ptr ?m)) * of_nat 4096 - of_nat (remaining_size ?m) = (of_nat (used_memory ?m) :: u64)"
    unfolding used_memory_def by (simp only: of_nat_diff of_nat_mult)
  then have "TCTable_MemUsage t = ucast (of_nat (used_memory ?m) :: u64)"
    using assms(1) by (simp add: TCTable_MemUsage_def MemUsage_def paged_def)
  then show ?thesis
    using assms(2) by (simp add: unsigned_ucast_eq take_bit_nat_eq_self unat_of_nat)
qed

lemma paged_usage:
  assumes "paged (mem_allocator t)" "used_memory (mem_allocator t) < kApproximateSSTFileSize"
  shows "TCTable_MemUsage t < kDefaultSSTFileSize"
proof -
  have "used_memory (mem_allocator t) < 2 ^ 32" using assms(2) by (simp add: kApproximateSSTFileSize_def)
  from paged_MemUsage [OF assms(1) this] show ?thesis
    using assms(2) by (simp add: word_less_nat_alt kDefaultSSTFileSize_def kApproximateSSTFileSize_def)
qed

lemma put_allocates:
  "TCTable_put t n key val op rs = Inr (st, t') \<Longrightarrow> mem_allocator t' = snd (Allocate (mem_allocator t) n)"
  by (auto simp: TCTable_put_def Let_def res_simps split: prod.splits if_splits)

lemma Insert_allocates:
  assumes "TCDB_Insert create db key val rs = Inr (st, db')" "TCTable_MemUsage (mem_table db) < kDefaultSSTFileSize"
  shows "mem_allocator (mem_table db') = snd (Allocate (mem_allocator (mem_table db)) (insert_entry_size key val))"
proof -
  obtain t' where "TCTable_Insert (mem_table db) key val rs = Inr (st, t')" "mem_table db' = t'"
    using assms by (auto simp: TCDB_Insert_def ReadLock_def res_simps linorder_not_le [symmetric] split: if_splits)
  then show ?thesis using put_allocates by (simp add: TCTable_Insert_def)
qed

lemma Delete_allocates:
  assumes "TCDB_Delete hash mem db key rs = Inr (NoError, db')"
  shows "mem_allocator (mem_table db') = snd (Allocate (mem_allocator (mem_table db)) (key_entry_size (seq_bytes mem key)))"
proof -
  obtain t' where "TCTable_Delete (mem_table db) (seq_bytes mem key) rs = Inr (NoError, t')" "mem_table db' = t'"
    using assms by (auto simp: TCDB_Delete_def Let_def res_simps UndefinedError_def NoError_def split: prod.splits if_splits)
  then show ?thesis using put_allocates by (simp add: TCTable_Delete_def)
qed

lemma run_db_refines:
  assumes "db_sound (bloom_create filter_bytes hash_k seeds) hash mem K db m fss"
    and "\<forall>x\<in>set ops. good_op (table_op_of mem (fst x), snd x) \<and> seq_bytes mem (db_op_key (fst x)) \<in> K \<and>
      (\<forall>f\<in>set (concat fss). \<not> holds_key (query_of (seq_bytes mem (db_op_key (fst x)))) f)"
    and "unat (entry_id (mem_table db)) + length ops < 2 ^ 64" "write_count (mmt_trans_lock db) = 0"
    and "paged (mem_allocator (mem_table db))"
    and "used_memory (mem_allocator (mem_table db)) + 2 * (\<Sum>x\<leftarrow>ops. db_op_size mem (fst x)) < kApproximateSSTFileSize"
  shows "run_db create (Filter_ContainsKey hash_k seeds) hash mem db ops = Inr (spec_db mem m (map fst ops))"
  using assms
proof (induction ops arbitrary: db m)
  case (Cons x ops)
  let ?c = "bloom_create filter_bytes hash_k seeds" and ?f = "Filter_ContainsKey hash_k seeds"
  obtain op rs where x: "x = (op, rs)" by (cases x)
  let ?k = "seq_bytes mem (db_op_key op)"
  have good: "good_op (table_op_of mem op, rs)" "?k \<in> K" "\<forall>f\<in>set (concat fss). \<not> holds_key (query_of ?k) f"
    using Cons.prems(2) x by auto
  let ?used = "\<lambda>db. used_memory (mem_allocator (mem_table db))"
  have small: "TCTable_MemUsage (mem_table db) < kDefaultSSTFileSize" using paged_usage Cons.prems(5,6) by simp
  have "unat (- 1 :: u64) = 2 ^ 64 - 1"
    by transfer (simp add: take_bit_minus_one_eq_mask mask_eq_exp_minus_1)
  then have id: "entry_id (mem_table db) < - 1" using Cons.prems(3) by (simp add: word_less_nat_alt)
  have step: "run_db create ?f hash mem db (x # ops) = Inr (spec_db mem m (map fst (x # ops)))"
    if r: "run_db_op create ?f hash mem db op rs = Inr (r, db')" "spec_db mem m (op # map fst ops) = r # spec_db mem m' (map fst ops)"
      and s: "db_sound ?c hash mem K db' m' fss" "mmt_trans_lock db' = mmt_trans_lock db"
      and e: "entry_id (mem_table db') = entry_id (mem_table db) + 1 \<or> entry_id (mem_table db') = entry_id (mem_table db)"
      and a: "mem_allocator (mem_table db') = snd (Allocate (mem_allocator (mem_table db)) (db_op_size mem op)) \<or>
        mem_table db' = mem_table db"
    for r db' m'
  proof -
    have "unat (entry_id (mem_table db')) \<le> unat (entry_id (mem_table db)) + 1"
      using e Cons.prems(3) by (auto simp: unat_word_ariths)
    then have "unat (entry_id (mem_table db')) + length ops < 2 ^ 64" using Cons.prems(3) by simp
    moreover have "paged (mem_allocator (mem_table db'))" "?used db' \<le> ?used db + 2 * db_op_size mem op"
      using a Allocate_paged [OF Cons.prems(5)] Cons.prems(5) by auto
    moreover have "?used db' + 2 * (\<Sum>x\<leftarrow>ops. db_op_size mem (fst x)) < kApproximateSSTFileSize"
      using Cons.prems(6) x calculation(3) by simp
    ultimately show ?thesis
      using Cons.IH [OF s(1)] Cons.prems(2,4) x r s(2) by simp
  qed
  show ?case
  proof (cases op)
    case (DInsert k v)
    then have g: "good_op (OpInsert (seq_bytes mem k) (seq_bytes mem v), rs)" using good(1) by simp
    obtain db' where i: "TCDB_Insert create db (seq_bytes mem k) (seq_bytes mem v) rs = Inr (NoError, db')"
      "mmt_trans_lock db' = mmt_trans_lock db" "entry_id (mem_table db') = entry_id (mem_table db) + 1"
      "db_sound ?c hash mem K db' (m(seq_bytes mem k \<mapsto> Some (seq_bytes mem v))) fss"
      using Insert_small [where create = ?c and mk = create, OF Cons.prems(1) g id small Cons.prems(4)] by auto
    note a = Insert_allocates [OF i(1) small]
    show ?thesis by (rule step [OF _ _ i(4) i(2) disjI1 [OF i(3)], of "Done True"]) (simp_all add: DInsert i(1) a)
  next
    case (DDelete k)
    then have g: "good_op (OpDelete (seq_bytes mem k), rs)" "seq_bytes mem k \<in> K" using good(1,2) by simp_all
    obtain db' where i: "TCDB_Delete hash mem db k rs = Inr (NoError, db')"
      "mmt_trans_lock db' = mmt_trans_lock db" "entry_id (mem_table db') = entry_id (mem_table db) + 1"
      "db_sound ?c hash mem K db' (m(seq_bytes mem k \<mapsto> None)) fss"
      using Delete_ok [where create = ?c, OF Cons.prems(1) g(1) id g(2)] by blast
    note a = Delete_allocates [OF i(1)]
    show ?thesis by (rule step [OF _ _ i(4) i(2) disjI1 [OF i(3)], of "Done True"]) (simp_all add: DDelete i(1) a)
  next
    case (DGet k)
    have k: "fits ?k" "?k \<noteq> []" using good(1) DGet by (auto simp: good_op_def)
    have "find (holds_key (query_of ?k)) (concat fss) = None" using good(3) by (auto simp: find_None_iff)
    then obtain db' where db': "db_sound ?c hash mem K db' m fss" "mem_table db' = mem_table db"
      "mmt_trans_lock db' = mmt_trans_lock db" "TCDB_Get hash mem ?f db k = Inr (lookup_value (m ?k), db')"
      using Get_answers [OF Cons.prems(1) refl good(2) k] DGet by (auto split: if_splits)
    then show ?thesis using DGet by (intro step [of "Answer (lookup_value (m ?k))" db' m]) auto
  qed
qed simp


lemma example_small: "TCTable_MemUsage (mem_table example_db) < kDefaultSSTFileSize"
  "write_count (mmt_trans_lock example_db) = 0" "entry_id (mem_table example_db) = 0"
  by (simp_all add: example_db_def TCTable_MemUsage_def TCTable_new_def ReadWriteLock_new_def kDefaultSSTFileSize_def
      MemAllocator_default_def MemAllocator_new_def MemUsage_def AllocateFullBlock_def MemAllocator.Unref_def
      kApproximateSSTFileSize_def)


section \<open>A table on its way to disk\<close>

lemma levels_on_disk_same:
  assumes "levels_on_disk create s io man fss" "quiet s'"
    and "\<And>p. (\<exists>name. sst_path io name = Inr p) \<Longrightarrow> files s' p = files s p"
  shows "levels_on_disk create s' io man fss"
proof -
  have "on_disk create s' io name es" if "on_disk create s io name es" for name es
    using that assms(2,3) sst_at_keep unfolding on_disk_def by metis
  then show ?thesis
    using assms(1) unfolding levels_on_disk_def by (auto elim!: list_all2_mono)
qed

text \<open>The insertion that finds the table full and no flush pending.\<close>

lemma Insert_transfers:
  assumes "kDefaultSSTFileSize \<le> TCTable_MemUsage (mem_table db)" "mmt_trans_lock db = ReadWriteLock_new"
    and "compact_future db = NoFuture" "good_op (OpInsert k v, rs)" "entry_id (mem_table db) < - 1"
    and "dbfile (db_logger db) = Some d" "0 < kMaxBufferSize (db_logger db)" "buffer (db_logger db) = []" "quiet (db_os db)"
  shows "\<exists>t lg s. TCDB_Insert create db k v rs =
      Inr (NoError, db\<lparr>db_logger := lg, db_os := s, mem_table := t, compact_future := Pending (mem_table db)\<rparr>) \<and>
    table_rel t [k \<mapsto> Some v] \<and> quiet s \<and> (\<forall>g. g \<noteq> file_name d \<longrightarrow> files s g = files (db_os db) g) \<and>
    entry_id t = entry_id (mem_table db) + 1 \<and> mem_allocator t = snd (Allocate MemAllocator_default (insert_entry_size k v))"
proof -
  obtain st lg s where log: "TCIO_Log (db_os db) (db_logger db)
      (''Triggered table transferring and MVCCWriteLevel0 at '' @ bytes_str k) = Inr (st, lg, s)"
    "quiet s" "\<forall>g. g \<noteq> file_name d \<longrightarrow> files s g = files (db_os db) g"
    using Log_writes [OF assms(6-9)] by blast
  let ?t = "TCTable_new (entry_id (mem_table db))"
  have "entry_id ?t < - 1" using assms(5) by (simp add: TCTable_new_def)
  from run_op_rel [OF table_rel_new assms(4) this] obtain t where t: "TCTable_Insert ?t k v rs = Inr (NoError, t)"
    "table_rel t [k \<mapsto> Some v]" "entry_id t = entry_id (mem_table db) + 1" by (auto simp: TCTable_new_def)
  have "mem_allocator t = snd (Allocate MemAllocator_default (insert_entry_size k v))"
    using put_allocates [of ?t] t(1) by (simp add: TCTable_Insert_def TCTable_new_def)
  moreover have "TCDB_Insert create db k v rs =
      Inr (NoError, db\<lparr>db_logger := lg, db_os := s, mem_table := t, compact_future := Pending (mem_table db)\<rparr>)"
    using log(1) t(1) assms(1-3)
    by (simp add: TCDB_Insert_def transfer_full_def WriteLock_def WriteWait_def WriteUnlock_def ReadLock_def ReadUnlock_def
        ReadWriteLock_new_def future_get_def background_step_def Let_def)
  ultimately show ?thesis using log(2,3) t(2,3) by (intro exI [of _ t] exI [of _ lg] exI [of _ s] conjI)
qed

text \<open>C39. A full table disappears from lookups until its flush is done: the insertion that finds it full
  hands it to the background task and goes on with an empty table, and then every other key of
  the old table reads as if it had never been inserted, though nothing has failed.\<close>

theorem transfer_hides_table:
  assumes "db_sound (bloom_create filter_bytes hash_k seeds) hash mem K db m fss"
    and "kDefaultSSTFileSize \<le> TCTable_MemUsage (mem_table db)" "mmt_trans_lock db = ReadWriteLock_new"
    and "compact_future db = NoFuture" "good_op (OpInsert k v, rs)" "entry_id (mem_table db) < - 1"
    and "dbfile (db_logger db) = Some d" "0 < kMaxBufferSize (db_logger db)" "buffer (db_logger db) = []" "quiet (db_os db)"
    and "\<And>name p. sst_path (db_io db) name = Inr p \<Longrightarrow> p \<noteq> file_name d"
    and "seq_bytes mem key = k'" "k' \<in> K" "fits k'" "k' \<noteq> []" "k' \<noteq> k"
    and "\<forall>f\<in>set (concat fss). \<not> holds_key (query_of k') f"
  shows "\<exists>db1 db2. TCDB_Insert create db k v rs = Inr (NoError, db1) \<and> compact_future db1 = Pending (mem_table db) \<and>
    TCDB_Get hash mem (Filter_ContainsKey hash_k seeds) db1 key = Inr ([], db2)"
proof -
  let ?c = "bloom_create filter_bytes hash_k seeds"
  obtain t' lg s' where r: "TCDB_Insert create db k v rs =
      Inr (NoError, db\<lparr>db_logger := lg, db_os := s', mem_table := t', compact_future := Pending (mem_table db)\<rparr>)"
    "table_rel t' [k \<mapsto> Some v]" "quiet s'" "\<forall>g. g \<noteq> file_name d \<longrightarrow> files s' g = files (db_os db) g"
    using Insert_transfers [OF assms(2-10)] by blast
  let ?db = "db\<lparr>db_logger := lg, db_os := s', mem_table := t', compact_future := Pending (mem_table db)\<rparr>"
  have "levels_on_disk ?c s' (db_io db) (latest_manifest db) fss"
    using levels_on_disk_same [where create = ?c] assms(1,11) r(3,4) unfolding db_sound_def by blast
  then have "db_sound ?c hash mem K ?db [k \<mapsto> Some v] fss"
    using assms(1) r(2) by (simp add: db_sound_def latest_manifest_def)
  then have "\<exists>db2. TCDB_Get hash mem (Filter_ContainsKey hash_k seeds) ?db key = Inr ([], db2)"
  proof -
    assume s: "db_sound ?c hash mem K ?db [k \<mapsto> Some v] fss"
    have "find (holds_key (query_of k')) (concat fss) = None" using assms(17) by (auto simp: find_None_iff)
    then show ?thesis
      using Get_answers [OF s assms(12-15)] assms(16) by (auto simp: lookup_value_def)
  qed
  then show ?thesis using r(1) by - (rule exI [of _ ?db], simp)
qed

theorem transfer_hides_table_witness:
  "\<exists>db db1 db2 db3. TCDB_Get example_hash example_mem (Filter_ContainsKey 6 default_seeds) db (0, 1) = Inr ([1], db3) \<and>
    TCDB_Insert example_create db [108] [2] [3] = Inr (NoError, db1) \<and>
    TCDB_Get example_hash example_mem (Filter_ContainsKey 6 default_seeds) db1 (0, 1) = Inr ([], db2)"
proof -
  let ?c = "bloom_create (\<lambda>_. 8) 6 default_seeds"
  let ?ma = "MemAllocator_default\<lparr>block_ptr := replicate 512 (Some 4096), remaining_size := 0\<rparr>"
  obtain t where t: "table_rel t [[107] \<mapsto> Some [1]]" "entry_id t = 1" "mem_allocator t = ?ma"
    using example_tables(1) [of ?ma] by blast
  let ?db = "example_db\<lparr>mem_table := t\<rparr>"
  have s: "db_sound ?c example_hash example_mem {[107]} ?db [[107] \<mapsto> Some [1]] []"
    using example_db_sound [of ?c example_hash] t(1) by (simp add: db_sound_def latest_manifest_def)
  have full: "kDefaultSSTFileSize \<le> TCTable_MemUsage (mem_table ?db)"
    by (simp add: TCTable_MemUsage_def t(3) MemUsage_def kDefaultSSTFileSize_def kApproximateSSTFileSize_def
        MemAllocator_default_def MemAllocator_new_def AllocateFullBlock_def MemAllocator.Unref_def)
  have good: "good_op (OpInsert [108] [2], [3])"
    using example_level by (auto simp: good_op_def fits_def kMaxLevels_def)
  have log: "mmt_trans_lock ?db = ReadWriteLock_new" "compact_future ?db = NoFuture"
    "dbfile (db_logger ?db) = Some \<lparr>file_name = ''db/LOG'', file_mode = kAppend, is_open = False\<rparr>"
    "0 < kMaxBufferSize (db_logger ?db)" "buffer (db_logger ?db) = []" "quiet (db_os ?db)"
    "entry_id (mem_table ?db) < - 1"
    using t(2) by (simp_all add: example_db_def Writer_new_def quiet_def one_less_max)
  have path: "p \<noteq> ''db/LOG''" if "sst_path (db_io ?db) name = Inr p" for name p
  proof -
    have "last p = CHR ''b''" using that by (auto simp: sst_path_def PathJoin_def example_db_def)
    then show ?thesis by auto
  qed
  obtain db1 db2 where "TCDB_Insert example_create ?db [108] [2] [3] = Inr (NoError, db1)"
    "TCDB_Get example_hash example_mem (Filter_ContainsKey 6 default_seeds) db1 (0, 1) = Inr ([], db2)"
    using transfer_hides_table [OF s full log(1,2) good log(7,3-6), of "(0, 1)" "[107]" example_create] path
    by (auto simp: seq_bytes_def fits_def)
  moreover have "\<exists>db3. TCDB_Get example_hash example_mem (Filter_ContainsKey 6 default_seeds) ?db (0, 1) = Inr ([1], db3)"
    using Get_answers [OF s, of "(0, 1)" "[107]"] by (auto simp: seq_bytes_def fits_def lookup_value_def)
  ultimately show ?thesis by blast
qed

section \<open>A flush that fails\<close>

text \<open>C37. After a background flush has failed, the insertion that finds the next table full returns the
  error without unlocking: the write lock stays taken, and every later insertion waits for it
  for ever.\<close>

theorem failed_flush_blocks_inserts:
  assumes "kDefaultSSTFileSize \<le> TCTable_MemUsage (mem_table db)" "mmt_trans_lock db = ReadWriteLock_new"
    and "compact_future db = Ready st" "\<not> StatusNoError st"
  shows "\<exists>db1. TCDB_Insert create db k v rs = Inr (st, db1) \<and> (\<forall>k' v' rs'. TCDB_Insert create db1 k' v' rs' = Inl Blocked)"
  using assms
  by (simp add: TCDB_Insert_def transfer_full_def WriteLock_def WriteWait_def ReadWriteLock_new_def future_get_def
      background_step_def Let_def)

theorem failed_flush_blocks_inserts_witness:
  "\<exists>db db1. TCDB_Insert example_create db [108] [2] [3] = Inr (FileIOError [], db1) \<and>
    TCDB_Insert example_create db1 [108] [2] [3] = Inl Blocked"
proof -
  let ?t = "(TCTable_new 0)\<lparr>mem_allocator := MemAllocator_default\<lparr>block_ptr := replicate 512 (Some 4096), remaining_size := 0\<rparr>\<rparr>"
  let ?db = "example_db\<lparr>mem_table := ?t, compact_future := Ready (FileIOError [])\<rparr>"
  have "kDefaultSSTFileSize \<le> TCTable_MemUsage (mem_table ?db)"
    by (simp add: TCTable_MemUsage_def MemUsage_def kDefaultSSTFileSize_def kApproximateSSTFileSize_def
        MemAllocator_default_def MemAllocator_new_def AllocateFullBlock_def MemAllocator.Unref_def)
  then have "\<exists>db1. TCDB_Insert example_create ?db [108] [2] [3] = Inr (FileIOError [], db1) \<and>
      (\<forall>k' v' rs'. TCDB_Insert example_create db1 k' v' rs' = Inl Blocked)"
    by (rule failed_flush_blocks_inserts) (simp_all add: example_db_def)
  then show ?thesis by blast
qed

text \<open>When the version list already has the manifest, appending it references that version.\<close>

lemma AppendVersion_existing:
  assumes "ctrl_ok c" "(a, w) \<in> set (version_list c)" "version_manifest v = version_manifest w"
  shows "\<exists>c'. AppendVersion c v = Inr (False, c') \<and> ctrl_ok c' \<and>
    map (version_manifest \<circ> snd) (version_list c') = map (version_manifest \<circ> snd) (version_list c)"
proof -
  have "ManifestStr v = ManifestStr w" using assms(3) by (simp add: ManifestStr_def)
  then have m: "version_map c (ManifestStr v) = Some a" using ctrl_ok_map(1) [OF assms(1)] assms(2) by metis
  obtain c' where c': "update_version c a TCVersion_Ref = Inr c'" "ctrl_ok c'"
    using ref_version_ok [OF assms(1,2)] by blast
  have "map (version_manifest \<circ> snd) (version_list c') = map (version_manifest \<circ> snd) (version_list c)"
    unfolding update_version_list [OF c'(1)] by (auto simp: o_def)
  then show ?thesis using m c' by (simp add: AppendVersion_def)
qed

lemma last_manifest:
  "xs \<noteq> [] \<Longrightarrow> map (version_manifest \<circ> snd) ys = map (version_manifest \<circ> snd) xs \<Longrightarrow>
    version_manifest (snd (last ys)) = version_manifest (snd (last xs))"
  by (metis comp_apply last_map map_is_Nil_conv)

text \<open>A background flush that cannot write its data file drops its table: the task reports that the
  version exists already, because the manifest has not changed, the table is deleted, and the
  data files that lookups go by are the same as before. Its entries are lost.\<close>

theorem failed_flush_loses_table:
  assumes "compact_future db = Pending t" "ctrl_ok (version_ctrl db)" "version_list (version_ctrl db) \<noteq> []"
    and "length (level_files (latest_manifest db) 0) < 4"
    and "WriteLevel0File create (db_os db) (db_io db) t (latest_manifest db) = Inr (st, latest_manifest db, io', s')"
  shows "\<exists>db'. background_step create db = Inr db' \<and>
    compact_future db' = Ready (UndefinedError ''The new version already exists'') \<and> db_os db' = s' \<and>
    mem_table db' = mem_table db \<and> latest_manifest db' = latest_manifest db"
proof -
  let ?man = "latest_manifest db"
  obtain a v c1 where c1: "LatestVersion (version_ctrl db) = Inr (a, c1)" "ctrl_ok c1" "version_at c1 a = Inr v"
    "version_manifest v = ?man" "version_list c1 \<noteq> []" "version_manifest (snd (last (version_list c1))) = ?man"
    using latest_version_found [OF assms(2,3)] unfolding latest_manifest_def by blast
  have "(a, v) \<in> set (version_list c1)"
    using c1(3) by (auto simp: version_at_def split: option.splits dest: map_of_SomeD)
  moreover let ?new = "\<lparr>ref = 0, version_manifest = ?man, version_id = inc_id db\<rparr>"
  have "version_manifest ?new = version_manifest v" using c1(4) by simp
  ultimately obtain c2 where c2: "AppendVersion c1 ?new = Inr (False, c2)"
    "map (version_manifest \<circ> snd) (version_list c2) = map (version_manifest \<circ> snd) (version_list c1)"
    using AppendVersion_existing [OF c1(2)] by blast
  have few: "\<not> (data_files ?man \<noteq> [] \<and> kDefaultLevelSize ! 0 \<le> length (data_files ?man ! 0))"
    using assms(4) by (auto simp: level_files_def kDefaultLevelSize_def)
  let ?db = "db\<lparr>db_io := io', db_os := s', inc_id := inc_id db + 1, version_ctrl := c2\<rparr>"
  have "MVCCWriteLevel0 create db t = Inr (UndefinedError ''The new version already exists'', ?db)"
    unfolding MVCCWriteLevel0_def
    using c1(1,3,4) c2(1) assms(5) few
    by (cases "data_files ?man = []") (simp_all add: Let_def TCVersion_new_def TCVersion_UnRef_def)
  moreover have "latest_manifest ?db = ?man"
    using last_manifest [OF c1(5) c2(2)] c1(6) by (simp add: latest_manifest_def)
  ultimately show ?thesis
    using assms(1) by (simp add: background_step_def latest_manifest_def)
qed

lemma append_fails:
  assumes "open_results s = replicate 6 False" "dbfile w = Some d"
  shows "WriteAppendFile s w = (FileIOError ''Cannot open dbfile.'', w, s\<lparr>open_results := []\<rparr>)"
  using assms by (simp add: WriteAppendFile_def os_open_def numeral_eq_Suc)

lemma one_block_fails:
  assumes "open_results s = replicate 6 False" "dbfile w = Some d" "buffer w = []" "kMaxBufferSize w = 4096"
    and "length e \<le> 4096" "e \<noteq> []"
  shows "WriteSSTData s w [e] = Inr (FileIOError ''Cannot open dbfile.'', [0], of_nat (length e),
    w\<lparr>buffer := e\<rparr>, s\<lparr>open_results := []\<rparr>)"
proof -
  have d: "data_loop [e] 0 0 0 0 [] w s = Inr (NoError, 0, 0, [], w, s)"
    using assms(5) by (subst data_loop.simps, subst data_loop.simps) (simp add: kDefaultDataBlkSize_def)
  have a: "AppendToBuffer w e = (length e, w\<lparr>buffer := e\<rparr>)"
    using assms(3-5) by (simp add: AppendToBuffer_def AbleToBuffer_def)
  have "WriteBatch s w [e] 0 1 = Inr (FileIOError ''Cannot open dbfile.'', w\<lparr>buffer := e\<rparr>, s\<lparr>open_results := []\<rparr>)"
    using a assms(6) append_fails [OF assms(1), of "w\<lparr>buffer := e\<rparr>"] assms(2) by (simp add: WriteBatch_def)
  then show ?thesis by (simp add: WriteSSTData_def d)
qed

lemma failing_write:
  "\<exists>s'. WriteSSTFile_filter create
      \<lparr>files = Map.empty, open_results = replicate 7 False, write_results = [], read_results = []\<rparr> f [first_version] =
    Inr (FileIOError ''Cannot open dbfile.'', s')"
proof -
  let ?s = "\<lparr>files = Map.empty, open_results = replicate 7 False, write_results = [], read_results = []\<rparr> :: os"
  obtain d s0 where n: "DBFile_new ?s f kAppend = (d, s0)" by fastforce
  have o: "open_results s0 = replicate 6 False"
    using n by (auto simp: DBFile_new_def DBFile_Open_def os_open_def numeral_eq_Suc Let_def)
  have "length first_version \<le> 4096" "first_version \<noteq> []"
    using ordered_entry_ne tiny_entries(1)
    by (auto simp: length_entry_bytes SizeOfVarint_def SizeOfVarint_shift.simps)
  then have "WriteSSTData s0 (Writer_new d kDefaultWriterBufferSize) [first_version] =
      Inr (FileIOError ''Cannot open dbfile.'', [0], of_nat (length first_version),
        (Writer_new d kDefaultWriterBufferSize)\<lparr>buffer := first_version\<rparr>, s0\<lparr>open_results := []\<rparr>)"
    by (intro one_block_fails [OF o, of _ d]) (simp_all add: Writer_new_def kDefaultWriterBufferSize_def)
  then show ?thesis using n by (simp add: WriteSSTFile_filter_def)
qed

theorem failed_flush_loses_table_witness:
  "\<exists>t db db'. TCTable_EntrySet t = Inr [first_version] \<and> compact_future db = Pending t \<and>
    background_step example_create db = Inr db' \<and> compact_future db' = Ready (UndefinedError ''The new version already exists'') \<and>
    mem_table db' = TCTable_new 0 \<and> latest_manifest db' = example_manifest"
proof -
  obtain t where t: "TCTable_EntrySet t = Inr [first_version]" using example_tables(1) by blast
  let ?s = "\<lparr>files = Map.empty, open_results = replicate 7 False, write_results = [], read_results = []\<rparr> :: os"
  let ?db = "example_db\<lparr>compact_future := Pending t, db_os := ?s\<rparr>"
  obtain s' where s': "WriteSSTFile_filter example_create ?s (''db/'' @ hex16 0 @ ''.tdb'') [first_version] =
      Inr (FileIOError ''Cannot open dbfile.'', s')"
    using failing_write by blast
  have "sst_path ((db_io ?db)\<lparr>file_id := 1\<rparr>) (hex16 0) = Inr (''db/'' @ hex16 0 @ ''.tdb'')"
    by (simp add: example_db_def sst_path_def PathJoin_def)
  moreover have "entry_seqs [first_version] = Inr [first_version]"
    using entry_seqs_entries [of "[first_version]"] tiny_entries(1) ordered_is_entry by simp
  ultimately have "\<exists>st s'. WriteLevel0File example_create ?s (db_io ?db) t example_manifest = Inr (st, example_manifest, (db_io ?db)\<lparr>file_id := 1\<rparr>, s')"
    using t s' by (simp add: WriteLevel0File_def next_basename_def WriteSSTFile_ptrs_def example_db_def)
  then obtain st s' where w: "WriteLevel0File example_create (db_os ?db) (db_io ?db) t (latest_manifest ?db) =
      Inr (st, latest_manifest ?db, (db_io ?db)\<lparr>file_id := 1\<rparr>, s')"
    by (auto simp: example_db_def latest_manifest_def)
  have "ctrl_ok (version_ctrl ?db)" "version_list (version_ctrl ?db) \<noteq> []" "length (level_files (latest_manifest ?db) 0) < 4"
    by (simp_all add: example_db_def ctrl_ok_def ManifestStr_def latest_manifest_def level_files_def)
  from failed_flush_loses_table [OF _ this w]
  obtain db' where "background_step example_create ?db = Inr db'" "mem_table db' = mem_table ?db"
    "compact_future db' = Ready (UndefinedError ''The new version already exists'')" "latest_manifest db' = latest_manifest ?db"
    by auto
  then show ?thesis
    using t by (intro exI [of _ t] exI [of _ ?db] exI [of _ db']) (simp add: example_db_def latest_manifest_def)
qed

end
