(* ===== verification/CompactionProofs.thy ===== *)
theory CompactionProofs
  imports Compaction
begin

text \<open>
  The compaction chooses the right files: what the two scans find, and what one compaction makes
  of a directory of sorted data files. Files are compared by the order of their entries.
\<close>

section \<open>The scans\<close>

definition level_file :: "(bytes list \<Rightarrow> bytes res) \<Rightarrow> os \<Rightarrow> TCIO \<Rightarrow> string \<Rightarrow> bytes list \<Rightarrow> bool" where
  "level_file create s io name es \<longleftrightarrow> on_disk create s io name es \<and> sorted_wrt le_entry es \<and> total_size es < 2 ^ 31"

definition below :: "bytes \<Rightarrow> bytes list \<Rightarrow> bool" where
  "below a es \<longleftrightarrow> \<not> le_entry a (last es)"

definition above :: "bytes \<Rightarrow> bytes list \<Rightarrow> bool" where
  "above b es \<longleftrightarrow> \<not> le_entry (hd es) b"

definition overlaps :: "bytes \<Rightarrow> bytes \<Rightarrow> bytes list \<Rightarrow> bool" where
  "overlaps a b es \<longleftrightarrow> \<not> below a es \<and> \<not> above b es"

lemma level_file_parts:
  assumes "level_file create s io name es"
  shows "es \<noteq> []" "\<forall>e\<in>set es. ordered_entry e" "ordered_entry (hd es)" "ordered_entry (last es)" "quiet s"
    and "\<exists>f. sst_path io name = Inr f \<and> source s f es \<and> (0 < readers \<longrightarrow>
      ReadSSTBoundary readers s f = Inr (NoError, (hd es, last es), s) \<and>
      (\<exists>ft. ReadSSTFooter_keys readers s f = Inr (NoError, ft, hd es, last es, s)))"
proof -
  obtain f flex where f: "sst_path io name = Inr f" "sst_at s f es flex" "sorted_file es"
    and s: "sorted_wrt le_entry es" "total_size es < 2 ^ 31"
    using assms by (auto simp: level_file_def on_disk_def)
  show ne: "es \<noteq> []" and "quiet s" using f(2) by (simp_all add: sst_at_def)
  show o: "\<forall>e\<in>set es. ordered_entry e" using f(3) by (simp add: sorted_file_def)
  show "ordered_entry (hd es)" "ordered_entry (last es)" using o ne by simp_all
  have "source s f es" using f(2) s o by (auto simp: source_def)
  then show "\<exists>f. sst_path io name = Inr f \<and> source s f es \<and> (0 < readers \<longrightarrow>
      ReadSSTBoundary readers s f = Inr (NoError, (hd es, last es), s) \<and>
      (\<exists>ft. ReadSSTFooter_keys readers s f = Inr (NoError, ft, hd es, last es, s)))"
    using f(1) ReadSSTFooter_keys_image [OF f(2)] by (auto simp: ReadSSTBoundary_def)
qed

lemma scan_current_finds:
  assumes "list_all2 (level_file create s io) names ess" "0 < reader_pool io" "ordered_entry a" "ordered_entry b"
  shows "scan_current s io skip a b i names =
    Inr (NoError, filter (\<lambda>j. j \<notin> set skip \<and> overlaps a b (ess ! (j - i))) [i..<i + length names], s)"
  using assms(1)
proof (induction arbitrary: i rule: list_all2_induct)
  case (Cons name names es ess)
  obtain f where f: "sst_path io name = Inr f"
    "ReadSSTBoundary (reader_pool io) s f = Inr (NoError, (hd es, last es), s)"
    using level_file_parts(6) [OF Cons.hyps(1)] assms(2) by blast
  note cmp = compare_ordered(3) [OF level_file_parts(3) [OF Cons.hyps(1)] assms(4)]
    compare_ordered(3) [OF assms(3) level_file_parts(4) [OF Cons.hyps(1)]]
  have shift: "filter (\<lambda>j. j \<notin> set skip \<and> overlaps a b (ess ! (j - Suc i))) [Suc i..<Suc i + length names] =
    filter (\<lambda>j. j \<notin> set skip \<and> overlaps a b ((es # ess) ! (j - i))) [Suc i..<Suc i + length names]"
    by (rule filter_cong [OF refl]) (auto simp: nth_Cons' Suc_diff_Suc)
  have upt: "[i..<i + length (name # names)] = i # [Suc i..<Suc i + length names]" by (simp add: upt_rec)
  show ?case
    unfolding upt scan_current.simps
    using Cons.IH [of "Suc i", unfolded shift] f cmp
    by (auto simp: overlaps_def below_def above_def)
qed simp

lemma level_files_nonempty: "list_all2 (level_file create s io) names ess \<Longrightarrow> \<forall>x\<in>set ess. x \<noteq> []"
  by (induction rule: list_all2_induct) (use level_file_parts(1) in auto)

text \<open>In a level sorted across its files, the files below the interval come first and those above it
  last.\<close>

lemma sorted_level:
  assumes "sorted_wrt le_entry (concat (es # ess))" "\<forall>x\<in>set (es # ess). x \<noteq> []" "x \<in> set ess"
  shows "le_entry (last es) (hd x)" "le_entry (last es) (last x)" "le_entry (hd es) (hd x)"
proof -
  have ne: "es \<noteq> []" "x \<noteq> []" using assms by auto
  have le: "le_entry u v" if "u \<in> set es" "v \<in> set x" for u v
    using assms(1,3) that by (auto simp: sorted_wrt_append)
  show "le_entry (last es) (hd x)" "le_entry (last es) (last x)" "le_entry (hd es) (hd x)"
    using ne le by simp_all
qed

lemma not_below_after:
  assumes "sorted_wrt le_entry (concat (es # ess))" "\<forall>x\<in>set (es # ess). x \<noteq> []" "\<not> below a es" "x \<in> set ess"
  shows "\<not> below a x"
  using sorted_level(2) [OF assms(1,2,4)] assms(3) ent_le_trans unfolding below_def by blast

lemma scan_next_overlapping:
  assumes "list_all2 (level_file create s io) names ess" "0 < reader_pool io" "ordered_entry a" "ordered_entry b"
    and "\<forall>es\<in>set ess. \<not> below a es" "0 < i" "ins \<noteq> n"
  shows "scan_next s io a b n ins i names =
    Inr (NoError, [i..<i + length (takeWhile (overlaps a b) ess)], ins, s)"
  using assms(1,5,6)
proof (induction arbitrary: i rule: list_all2_induct)
  case (Cons name names es ess)
  obtain f where f: "sst_path io name = Inr f"
    "ReadSSTBoundary (reader_pool io) s f = Inr (NoError, (hd es, last es), s)"
    using level_file_parts(6) [OF Cons.hyps(1)] assms(2) by blast
  note cmp = compare_ordered(3) [OF level_file_parts(3) [OF Cons.hyps(1)] assms(4)]
    compare_ordered(3) [OF assms(3) level_file_parts(4) [OF Cons.hyps(1)]]
  have nb: "le_entry a (last es)" using Cons.prems(1) by (simp add: below_def)
  show ?case
    using Cons.IH [of "Suc i"] Cons.prems f cmp nb assms(7)
    by (auto simp: overlaps_def below_def above_def upt_rec)
qed simp

lemma scan_next_finds:
  assumes "list_all2 (level_file create s io) names ess" "0 < reader_pool io" "ordered_entry a" "ordered_entry b"
    and "sorted_wrt le_entry (concat ess)" "int (i + length names) \<le> n"
  shows "scan_next s io a b n n i names =
    (let p = i + length (takeWhile (below a) ess);
         r = length (takeWhile (overlaps a b) (dropWhile (below a) ess))
     in Inr (NoError, [p..<p + r], if 0 < r then int p else if p = 0 \<and> names \<noteq> [] then 0 else n, s))"
  using assms(1,5,6)
proof (induction arbitrary: i rule: list_all2_induct)
  case (Cons name names es ess)
  obtain f where f: "sst_path io name = Inr f"
    "ReadSSTBoundary (reader_pool io) s f = Inr (NoError, (hd es, last es), s)"
    using level_file_parts(6) [OF Cons.hyps(1)] assms(2) by blast
  note cmp = compare_ordered(3) [OF level_file_parts(3) [OF Cons.hyps(1)] assms(4)]
    compare_ordered(3) [OF assms(3) level_file_parts(4) [OF Cons.hyps(1)]]
  have sorted: "sorted_wrt le_entry (concat ess)" using Cons.prems(1) by (simp add: sorted_wrt_append)
  have ne: "\<forall>x\<in>set (es # ess). x \<noteq> []"
    using level_files_nonempty [OF Cons.hyps(2)] level_file_parts(1) [OF Cons.hyps(1)] by simp
  consider "below a es" | "\<not> below a es" "above b es" | "\<not> below a es" "\<not> above b es" by blast
  then show ?case
  proof cases
    case 1
    then have "scan_next s io a b n n i (name # names) = scan_next s io a b n n (Suc i) names"
      using f cmp by (simp add: below_def)
    then show ?thesis using Cons.IH [OF sorted, of "Suc i"] Cons.prems(2) 1 by (simp add: Let_def)
  next
    case 2
    then show ?thesis using f cmp by (auto simp: below_def above_def overlaps_def Let_def)
  next
    case 3
    have nb: "\<forall>x\<in>set ess. \<not> below a x" using not_below_after [OF Cons.prems(1) ne 3(1)] by blast
    have "scan_next s io a b n (int i) (Suc i) names =
      Inr (NoError, [Suc i..<Suc i + length (takeWhile (overlaps a b) ess)], int i, s)"
      by (rule scan_next_overlapping [OF Cons.hyps(2) assms(2-4) nb]) (use Cons.prems(2) in simp_all)
    moreover have "takeWhile (below a) (es # ess) = []" "dropWhile (below a) (es # ess) = es # ess"
      "takeWhile (overlaps a b) (es # ess) = es # takeWhile (overlaps a b) ess"
      using 3 by (simp_all add: overlaps_def)
    moreover have "[i..<i + Suc k] = i # [Suc i..<Suc i + k]" for k by (simp add: upt_conv_Cons)
    ultimately show ?thesis using 3 f cmp by (simp add: below_def above_def Let_def)
  qed
qed (simp add: Let_def)

section \<open>The files to merge\<close>

lemma paths_of_sources:
  assumes "list_all2 (list_all2 (level_file create s io)) levels fss"
    and "\<forall>(l, i)\<in>set index. l < length fss \<and> i < length (fss ! l)"
  shows "\<exists>fs. paths_of io levels index = Inr fs \<and> list_all2 (source s) fs (map (\<lambda>(l, i). fss ! l ! i) index)"
  using assms(2)
proof (induction index)
  case (Cons li index)
  obtain l i where li: "li = (l, i)" by (cases li)
  then have b: "l < length fss" "i < length (fss ! l)" using Cons.prems by simp_all
  have "list_all2 (level_file create s io) (levels ! l) (fss ! l)" and l: "l < length levels"
    using assms(1) b(1) by (simp_all add: list_all2_conv_all_nth)
  then have f: "level_file create s io (levels ! l ! i) (fss ! l ! i)" and i: "i < length (levels ! l)"
    using b(2) by (simp_all add: list_all2_conv_all_nth)
  obtain f where "sst_path io (levels ! l ! i) = Inr f" "source s f (fss ! l ! i)"
    using level_file_parts(6) [OF f] by blast
  then show ?case using Cons li l i by (auto simp: rd_def)
qed simp

text \<open>Distinct positions select no more than there is.\<close>

lemma sum_list_positions:
  "sum_list (map g (concat fss)) = (\<Sum>l<length fss. \<Sum>i<length (fss ! l). g (fss ! l ! i))" for g :: "'a \<Rightarrow> nat"
proof (induction fss)
  case (Cons xs fss)
  have "sum_list (map g xs) = (\<Sum>i<length xs. g (xs ! i))"
    by (simp add: sum_list_sum_nth atLeast0LessThan)
  then show ?case using Cons by (simp add: sum.lessThan_Suc_shift del: sum.lessThan_Suc)
qed simp

lemma selected_sum:
  fixes g :: "'a \<Rightarrow> nat"
  assumes "distinct index" "\<forall>(l, i)\<in>set index. l < length fss \<and> i < length (fss ! l)"
  shows "sum_list (map g (map (\<lambda>(l, i). fss ! l ! i) index)) \<le> sum_list (map g (concat fss))"
proof -
  let ?sel = "\<lambda>(l, i). fss ! l ! i" and ?all = "SIGMA l:{..<length fss}. {..<length (fss ! l)}"
  have "sum_list (map (\<lambda>x. g (?sel x)) index) = (\<Sum>x\<in>set index. g (?sel x))"
    by (rule sum_list_distinct_conv_sum_set [OF assms(1)])
  also have "\<dots> \<le> (\<Sum>x\<in>?all. g (?sel x))"
    by (rule sum_mono2) (use assms(2) in auto)
  also have "\<dots> = sum_list (map g (concat fss))"
    unfolding sum_list_positions by (simp add: sum.Sigma split_def)
  finally show ?thesis by (simp add: comp_def)
qed

section \<open>One compaction\<close>

text \<open>A directory whose levels hold the given entries: above level 0 a level is sorted across its files.\<close>

definition directory ::
    "(bytes list \<Rightarrow> bytes res) \<Rightarrow> os \<Rightarrow> TCIO \<Rightarrow> Manifest \<Rightarrow> bytes list list list \<Rightarrow> bool" where
  "directory create s io man fss \<longleftrightarrow> list_all2 (list_all2 (level_file create s io)) (data_files man) fss \<and>
     (\<forall>l<length fss. 0 < l \<longrightarrow> sorted_wrt le_entry (concat (fss ! l))) \<and>
     (\<forall>e\<in>set (concat (concat fss)). length e < sst_limit) \<and> 0 < reader_pool io \<and> kDatabaseDir io \<noteq> [] \<and>
     quiet s \<and> filter_fits create \<and> good_manifest man"

text \<open>Names for the new files, and sizes that the numbers of the code can hold.\<close>

definition merge_room :: "os \<Rightarrow> TCIO \<Rightarrow> bytes list list list \<Rightarrow> bool" where
  "merge_room s io fss \<longleftrightarrow> names_free io 0 (length (concat (concat fss))) s \<and> length (concat (concat fss)) < 2 ^ 64 \<and>
     Suc (sum_list (map (length \<circ> blocks) (concat fss))) < 2 ^ 31"

definition next_level :: "bytes list list list \<Rightarrow> nat \<Rightarrow> bytes list list" where
  "next_level fss level = (if level + 1 < length fss then fss ! (level + 1) else [])"

lemma directory_levels:
  assumes "directory create s io man fss" "l < length fss"
  shows "l < length (data_files man)" "list_all2 (level_file create s io) (data_files man ! l) (fss ! l)"
    "length (data_files man ! l) = length (fss ! l)"
  using assms by (simp_all add: directory_def list_all2_conv_all_nth)

lemma directory_length: "directory create s io man fss \<Longrightarrow> length (data_files man) = length fss"
  by (auto simp: directory_def dest: list_all2_lengthD)

lemma concat_subset: "set xss \<subseteq> set yss \<Longrightarrow> set (concat xss) \<subseteq> set (concat yss)"
  unfolding set_concat by blast

lemma selected_files:
  assumes "\<forall>(l, i)\<in>set index. l < length fss \<and> i < length (fss ! l)"
  shows "set (map (\<lambda>(l, i). fss ! l ! i) index) \<subseteq> set (concat fss)"
proof
  fix f assume "f \<in> set (map (\<lambda>(l, i). fss ! l ! i) index)"
  then obtain l i where li: "(l, i) \<in> set index" "f = fss ! l ! i" by auto
  then have "l < length fss" "i < length (fss ! l)" using assms by auto
  then have "fss ! l \<in> set fss" "f \<in> set (fss ! l)" using li(2) by simp_all
  then show "f \<in> set (concat fss)" by auto
qed

lemma selected_mergeable:
  assumes "directory create s io man fss" "merge_room s io fss" "distinct index"
    and "\<forall>(l, i)\<in>set index. l < length fss \<and> i < length (fss ! l)"
  shows "\<exists>fs. paths_of io (data_files man) index = Inr fs \<and>
    mergeable create s io fs (map (\<lambda>(l, i). fss ! l ! i) index) \<and>
    (\<forall>e\<in>set (concat (map (\<lambda>(l, i). fss ! l ! i) index)). length e < sst_limit) \<and>
    length (concat (map (\<lambda>(l, i). fss ! l ! i) index)) \<le> length (concat (concat fss))"
proof -
  let ?ess = "map (\<lambda>(l, i). fss ! l ! i) index"
  have dir: "list_all2 (list_all2 (level_file create s io)) (data_files man) fss"
    using assms(1) by (simp add: directory_def)
  obtain fs where fs: "paths_of io (data_files man) index = Inr fs" "list_all2 (source s) fs ?ess"
    using paths_of_sources [OF dir assms(4)] by blast
  have len: "length (concat ?ess) \<le> length (concat (concat fss))"
    using selected_sum [OF assms(3,4), of length] by (simp only: length_concat)
  have blk: "sum_list (map (length \<circ> blocks) ?ess) \<le> sum_list (map (length \<circ> blocks) (concat fss))"
    using selected_sum [OF assms(3,4), of "length \<circ> blocks"] .
  have sub: "set (concat ?ess) \<subseteq> set (concat (concat fss))"
    by (rule concat_subset [OF selected_files [OF assms(4)]])
  have "names_free io 0 (length (concat ?ess)) s"
    using assms(2) len by (auto simp: merge_room_def names_free_def)
  moreover have "\<forall>e\<in>set (concat ?ess). length e < sst_limit"
    using assms(1) sub unfolding directory_def by blast
  moreover have "0 < reader_pool io" "quiet s" "filter_fits create" "length (concat ?ess) < 2 ^ 64"
    "Suc (sum_list (map (length \<circ> blocks) ?ess)) < 2 ^ 31"
    using assms(1,2) len blk by (simp_all add: directory_def merge_room_def)
  ultimately have "mergeable create s io fs ?ess" using fs(2) by (simp only: mergeable_def simp_thms)
  then show ?thesis using fs(1) len \<open>\<forall>e\<in>set (concat ?ess). length e < sst_limit\<close> by blast
qed

text \<open>The merged files fit where the overlapping ones were.\<close>

lemma sorted_replaced:
  fixes a b nxt
  defines "A \<equiv> takeWhile (below a) nxt" and "R \<equiv> dropWhile (below a) nxt"
  defines "B \<equiv> takeWhile (overlaps a b) R" and "C \<equiv> dropWhile (overlaps a b) R"
  assumes "sorted_wrt le_entry (concat nxt)" "\<forall>x\<in>set nxt. x \<noteq> []" "sorted_wrt le_entry (concat outs)" "le_entry a b"
    and "\<forall>e\<in>set (concat outs). le_entry a e \<and> le_entry e b \<or> e \<in> set (concat B)"
  shows "sorted_wrt le_entry (concat (A @ outs @ C))"
proof -
  have nxt: "nxt = A @ B @ C" by (simp add: A_def B_def C_def R_def)
  have R: "R = B @ C" by (simp add: B_def C_def)
  have s: "sorted_wrt le_entry (concat A)" "sorted_wrt le_entry (concat C)" "sorted_wrt le_entry (concat R)"
    "\<forall>x\<in>set (concat A). \<forall>y\<in>set (concat B) \<union> set (concat C). le_entry x y"
    "\<forall>x\<in>set (concat B). \<forall>y\<in>set (concat C). le_entry x y"
    using assms(5) unfolding nxt R concat_append sorted_wrt_append set_append by blast+
  have ne: "\<forall>x\<in>set A. x \<noteq> []" "\<forall>x\<in>set R. x \<noteq> []" using assms(6) unfolding nxt R by auto
  have low: "le_entry x a" if x: "x \<in> set (concat A)" for x
  proof -
    obtain f where f: "f \<in> set A" "x \<in> set f" using x by auto
    then have "sorted_wrt le_entry f" using sorted_wrt_concat(1) [OF s(1)] by (metis in_set_conv_nth)
    from sorted_wrt_last [OF this ent_le_refl f(2)] have "le_entry x (last f)" .
    moreover have "\<not> le_entry a (last f)" using f(1) set_takeWhileD unfolding A_def below_def by fastforce
    ultimately show ?thesis using ent_le_total ent_le_trans by blast
  qed
  have high: "le_entry b y" if y: "y \<in> set (concat C)" for y
  proof -
    obtain f fs where C: "C = f # fs" using y by (cases C) auto
    have "\<not> overlaps a b f" using hd_dropWhile [of "overlaps a b" R] C unfolding C_def by simp
    moreover have "\<not> below a f"
    proof (cases B)
      case Nil
      then have "R = f # fs" using R C by simp
      then show ?thesis using hd_dropWhile [of "below a" nxt] unfolding R_def by auto
    next
      case (Cons g gs)
      have "g \<in> set (takeWhile (overlaps a b) R)" using Cons unfolding B_def by simp
      then have "\<not> below a g" using set_takeWhileD unfolding overlaps_def by fastforce
      then show ?thesis using not_below_after [of g "gs @ f # fs" a f] s(3) ne(2) unfolding R Cons C by simp
    qed
    ultimately have "\<not> le_entry (hd f) b" by (simp add: overlaps_def above_def)
    moreover have "le_entry (hd f) y"
    proof -
      have "f \<noteq> []" using ne(2) unfolding R C by simp
      then show ?thesis using s(2) y ent_le_refl unfolding C by (cases f) auto
    qed
    ultimately show ?thesis using ent_le_total ent_le_trans by blast
  qed
  have "le_entry x e" if "x \<in> set (concat A)" "e \<in> set (concat outs)" for x e
    using assms(9) that low s(4) ent_le_trans by blast
  moreover have "le_entry e y" if "y \<in> set (concat C)" "e \<in> set (concat outs)" for e y
    using assms(9) that high s(5) ent_le_trans by blast
  ultimately show ?thesis
    using s(1,2,4) assms(7) unfolding concat_append sorted_wrt_append set_append by blast
qed

lemma level_file_kept:
  assumes "level_file create s io name es" "names_free io 0 n s" "quiet s'"
    and "PathJoin (kDatabaseDir io) kManifestFilename = Inr mpath"
    and "\<forall>g. (\<forall>j<n. sst_path io (out_name io j) \<noteq> Inr g) \<longrightarrow> g \<noteq> mpath \<longrightarrow> files s' g = files s g"
  shows "level_file create s' io name es"
proof -
  obtain p flex where p: "sst_path io name = Inr p" "sst_at s p es flex" using assms(1) by (auto simp: level_file_def on_disk_def)
  then have "files s p \<noteq> None" by (simp add: sst_at_def)
  then have "\<forall>j<n. sst_path io (out_name io j) \<noteq> Inr p" using assms(2) unfolding names_free_def by auto
  moreover have "p \<noteq> mpath" by (rule sst_path_manifest [OF p(1) assms(4)])
  ultimately have "files s' p = files s p" using assms(5) by blast
  then have "on_disk create s' io name es"
    using on_disk_keep [OF _ assms(3)] assms(1) p(1) unfolding level_file_def by (metis Inr_inject)
  then show ?thesis using assms(1) by (simp add: level_file_def)
qed

lemma list_all2_nths: "list_all2 P xs ys \<Longrightarrow> list_all2 P (nths xs I) (nths ys I)"
  by (induction arbitrary: I rule: list_all2_induct) (simp_all add: nths_Cons)

lemma level_file_io [simp]: "level_file create s (io\<lparr>file_id := i\<rparr>) = level_file create s io"
  by (intro ext) (simp add: level_file_def on_disk_def)

lemma two_levels:
  assumes "i + 1 < length L"
  shows "L = take i L @ L ! i # L ! (i + 1) # drop (i + 2) L"
    and "L[i := x, i + 1 := y] = take i L @ x # y # drop (i + 2) L"
proof -
  have d: "drop i L = L ! i # L ! (i + 1) # drop (i + 2) L" using assms by (simp add: Cons_nth_drop_Suc)
  show L: "L = take i L @ L ! i # L ! (i + 1) # drop (i + 2) L" unfolding d [symmetric] by simp
  have "(take i L @ L ! i # L ! (i + 1) # drop (i + 2) L)[i := x, i + 1 := y] = take i L @ x # y # drop (i + 2) L"
    using assms by (simp add: list_update_append min_absorb2)
  then show "L[i := x, i + 1 := y] = take i L @ x # y # drop (i + 2) L" unfolding L [symmetric] .
qed

lemma set_two_levels:
  assumes "i + 1 < length L"
  shows "set (concat L) = set (L ! i) \<union> set (L ! (i + 1)) \<union> set (concat (take i L @ drop (i + 2) L))"
    and "set (concat (L[i := x, i + 1 := y])) = set x \<union> set y \<union> set (concat (take i L @ drop (i + 2) L))"
proof -
  have "set (concat (take i L @ u # v # drop (i + 2) L)) = set u \<union> set v \<union> set (concat (take i L @ drop (i + 2) L))" for u v
    by auto
  then show "set (concat L) = set (L ! i) \<union> set (L ! (i + 1)) \<union> set (concat (take i L @ drop (i + 2) L))"
    "set (concat (L[i := x, i + 1 := y])) = set x \<union> set y \<union> set (concat (take i L @ drop (i + 2) L))"
    using two_levels [OF assms] by metis+
qed

lemma length_two_levels:
  assumes "i + 1 < length L" "length x \<le> length (L ! i)" "length y \<le> length (L ! (i + 1)) + n"
  shows "length (concat (L[i := x, i + 1 := y])) \<le> length (concat L) + n"
proof -
  have len: "length (concat (take i L @ u # v # drop (i + 2) L)) =
      length u + length v + length (concat (take i L @ drop (i + 2) L))" for u v by simp
  have "length (concat L) = length (L ! i) + length (L ! (i + 1)) + length (concat (take i L @ drop (i + 2) L))"
    using arg_cong [OF two_levels(1) [OF assms(1)], of "\<lambda>z. length (concat z)"] unfolding len .
  then show ?thesis
    unfolding two_levels(2) [OF assms(1)] len using assms(2,3) by simp
qed

lemma set_selected: "set xs = (\<lambda>i. xs ! i) ` (I \<inter> {..<length xs}) \<union> set (nths xs (- I))"
  by (auto simp: set_nths in_set_conv_nth image_iff) (metis IntI lessThan_iff)

lemma compacted_levels:
  assumes "level < length (data_files man)" "0 < r \<or> ins = 0 \<and> p = 0 \<or> ins = int p \<and> p = length (level_files man (level + 1))"
  shows "data_files (compacted man level cur p (p + r) ins names) =
    (if level + 1 < length (data_files man) then data_files man else data_files man @ [[]])
      [level := nths (data_files man ! level) (- set cur),
       level + 1 := take p (level_files man (level + 1)) @ names @ drop (p + r) (level_files man (level + 1))]"
  using assms by (auto simp: compacted_def Let_def level_files_def Compl_eq)

text \<open>What \<open>compact_range\<close> chooses for the interval from \<open>a\<close> to \<open>b\<close>: the other files of level 0, and the
  run of the next level.\<close>

definition joined :: "bytes list list list \<Rightarrow> nat \<Rightarrow> nat \<Rightarrow> bytes \<Rightarrow> bytes \<Rightarrow> nat list" where
  "joined fss level k a b =
     (if level = 0 then filter (\<lambda>j. j \<notin> set [0..<k] \<and> overlaps a b (fss ! level ! j)) [0..<length (fss ! level)] else [])"

definition run_start :: "bytes list list list \<Rightarrow> nat \<Rightarrow> bytes \<Rightarrow> nat" where
  "run_start fss level a = length (takeWhile (below a) (next_level fss level))"

definition run_length :: "bytes list list list \<Rightarrow> nat \<Rightarrow> bytes \<Rightarrow> bytes \<Rightarrow> nat" where
  "run_length fss level a b = length (takeWhile (overlaps a b) (dropWhile (below a) (next_level fss level)))"

definition no_gap :: "bytes list list list \<Rightarrow> nat \<Rightarrow> bytes \<Rightarrow> bytes \<Rightarrow> bool" where
  "no_gap fss level a b \<longleftrightarrow> 0 < run_length fss level a b \<or> run_start fss level a = 0 \<or>
     run_start fss level a = length (next_level fss level)"

definition insert_index :: "bytes list list list \<Rightarrow> nat \<Rightarrow> bytes \<Rightarrow> bytes \<Rightarrow> int" where
  "insert_index fss level a b =
     (if level + 1 < length fss then
        (if 0 < run_length fss level a b then int (run_start fss level a)
         else if run_start fss level a = 0 \<and> next_level fss level \<noteq> [] then 0 else int (length (next_level fss level)))
      else 0)"

lemma compact_range_chooses:
  assumes "directory create s io man fss" "level < length fss" "ordered_entry a" "ordered_entry b"
  shows "compact_range create s io man level [0..<k] a b =
     (let index = map (Pair level) ([0..<k] @ joined fss level k a b) @
            map (Pair (level + 1)) [run_start fss level a..<run_start fss level a + run_length fss level a b]
      in rbind (paths_of io (data_files man) index) (\<lambda>fs.
         rbind (MultiwayMerge create s io fs) (\<lambda>(st, merged, io1, s3).
         if \<not> StatusNoError st then Inr (st, man, io1, s3)
         else rmap (\<lambda>(st, man', s4). (st, man', io1, s4))
           (UpdateManifest s3 io1 man (map (\<lambda>(l, i). (int l, int i)) index) merged level (insert_index fss level a b)))))"
proof -
  note lev = directory_levels [OF assms(1)] and len = directory_length [OF assms(1)]
  have rd: "rd (data_files man) level = Inr (data_files man ! level)" using lev(1) assms(2) by (simp add: rd_def)
  have r: "0 < reader_pool io" using assms(1) by (simp add: directory_def)
  have cur: "(if level = 0 then scan_current s io [0..<k] a b 0 (data_files man ! level) else Inr (NoError, [], s)) =
      Inr (NoError, joined fss level k a b, s)"
    using scan_current_finds [OF lev(2) [OF assms(2)] r assms(3,4), of "[0..<k]" 0] lev(3) [OF assms(2)]
    by (cases "level = 0") (simp_all add: joined_def)
  let ?p = "run_start fss level a" and ?r = "run_length fss level a b" and ?n = "data_files man ! (level + 1)"
  have nxt: "(if level + 1 < length (data_files man)
       then let file_num = int (length ?n) in scan_next s io a b file_num file_num 0 ?n
       else Inr (NoError, [], 0, s)) = Inr (NoError, [?p..<?p + ?r], insert_index fss level a b, s)"
  proof (cases "level + 1 < length fss")
    case True
    note l = lev(2,3) [OF True]
    have "sorted_wrt le_entry (concat (fss ! (level + 1)))" using assms(1) True by (simp add: directory_def)
    from scan_next_finds [OF l(1) r assms(3,4) this, of 0 "int (length ?n)"]
    have "scan_next s io a b (int (length ?n)) (int (length ?n)) 0 ?n =
        Inr (NoError, [?p..<?p + ?r], if 0 < ?r then int ?p else if ?p = 0 \<and> ?n \<noteq> [] then 0 else int (length ?n), s)"
      using True by (simp add: Let_def run_start_def run_length_def next_level_def)
    moreover have "?n \<noteq> [] \<longleftrightarrow> fss ! (level + 1) \<noteq> []" using l(2) by auto
    ultimately show ?thesis using True len l(2) by (simp add: insert_index_def next_level_def Let_def)
  next
    case False
    then show ?thesis using len by (simp add: run_start_def run_length_def insert_index_def next_level_def)
  qed
  show ?thesis unfolding compact_range_def Let_def rd rbind.simps cur prod.case
    by (simp only: nxt [unfolded Let_def] rbind.simps prod.case StatusNoError_simps not_True_eq_False if_False)
qed

text \<open>The files chosen, and what they amount to.\<close>

lemma chosen_index:
  fixes fss level k a b
  defines "cur \<equiv> [0..<k] @ joined fss level k a b"
  defines "run \<equiv> [run_start fss level a..<run_start fss level a + run_length fss level a b]"
  assumes "level < length fss" "k \<le> length (fss ! level)"
  shows "distinct (map (Pair level) cur @ map (Pair (level + 1)) run)"
    and "\<forall>(l, i)\<in>set (map (Pair level) cur @ map (Pair (level + 1)) run). l < length fss \<and> i < length (fss ! l)"
    and "sorted_wrt (<) cur" "\<forall>i\<in>set cur. i < length (fss ! level)"
    and "run_start fss level a + run_length fss level a b \<le> length (next_level fss level)"
    and "map (\<lambda>(l, i). fss ! l ! i) (map (Pair level) cur @ map (Pair (level + 1)) run) =
      map ((!) (fss ! level)) cur @ takeWhile (overlaps a b) (dropWhile (below a) (next_level fss level))"
proof -
  let ?nxt = "next_level fss level"
  have j: "sorted_wrt (<) (joined fss level k a b)" "\<forall>i\<in>set (joined fss level k a b). k \<le> i \<and> i < length (fss ! level)"
    by (auto simp: joined_def sorted_wrt_filter)
  show s: "sorted_wrt (<) cur" and c: "\<forall>i\<in>set cur. i < length (fss ! level)"
    using j assms(4) by (fastforce simp: cur_def sorted_wrt_append)+
  have "distinct cur" using s strict_sorted_iff by blast
  then show "distinct (map (Pair level) cur @ map (Pair (level + 1)) run)"
    by (auto simp: run_def distinct_map inj_on_def)
  have w: "length (takeWhile (below a) ?nxt) + length (dropWhile (below a) ?nxt) = length ?nxt"
    by (metis length_append takeWhile_dropWhile_id)
  then show l: "run_start fss level a + run_length fss level a b \<le> length ?nxt"
    using length_takeWhile_le [of "overlaps a b" "dropWhile (below a) ?nxt"] by (simp add: run_start_def run_length_def)
  show "\<forall>(l, i)\<in>set (map (Pair level) cur @ map (Pair (level + 1)) run). l < length fss \<and> i < length (fss ! l)"
    using c l assms(3) by (auto simp: run_def next_level_def split: if_splits)
  have "map ((!) ?nxt) run = take (run_length fss level a b) (drop (run_start fss level a) ?nxt)"
    using l by (intro nth_equalityI) (simp_all add: run_def)
  also have "\<dots> = takeWhile (overlaps a b) (dropWhile (below a) ?nxt)"
    unfolding run_start_def run_length_def by (simp only: dropWhile_eq_drop [symmetric] takeWhile_eq_take [symmetric])
  finally have r: "map ((!) ?nxt) run = takeWhile (overlaps a b) (dropWhile (below a) ?nxt)" .
  moreover have "map ((!) ?nxt) run = map ((!) (fss ! (level + 1))) run"
    using l by (cases "level + 1 < length fss") (auto simp: run_def next_level_def)
  ultimately show "map (\<lambda>(l, i). fss ! l ! i) (map (Pair level) cur @ map (Pair (level + 1)) run) =
      map ((!) (fss ! level)) cur @ takeWhile (overlaps a b) (dropWhile (below a) ?nxt)"
    by (simp add: comp_def)
qed

lemma next_level_parts:
  "take (run_start fss level a) (next_level fss level) = takeWhile (below a) (next_level fss level)"
  "drop (run_start fss level a + run_length fss level a b) (next_level fss level) =
    dropWhile (overlaps a b) (dropWhile (below a) (next_level fss level))"
proof -
  let ?nxt = "next_level fss level"
  let ?R = "dropWhile (below a) ?nxt"
  show "take (run_start fss level a) ?nxt = takeWhile (below a) ?nxt"
    unfolding run_start_def by (rule takeWhile_eq_take [symmetric])
  have "drop (run_start fss level a) ?nxt = ?R" unfolding run_start_def by (rule dropWhile_eq_drop [symmetric])
  then have "drop (run_start fss level a + run_length fss level a b) ?nxt = drop (run_length fss level a b) ?R"
    by (metis add.commute drop_drop)
  also have "\<dots> = dropWhile (overlaps a b) ?R" unfolding run_length_def by (rule dropWhile_eq_drop [symmetric])
  finally show "drop (run_start fss level a + run_length fss level a b) ?nxt = dropWhile (overlaps a b) ?R" .
qed

text \<open>Where the newest entries are afterwards, from where they were before.\<close>

abbreviation all_entries :: "bytes list list list \<Rightarrow> bytes set" where
  "all_entries fss \<equiv> set (concat (concat fss))"

definition keeps_newest :: "bytes set \<Rightarrow> bytes set \<Rightarrow> bool" where
  "keeps_newest E E' \<longleftrightarrow> E' \<subseteq> E \<and> (\<forall>e\<in>E. \<exists>x\<in>E'. same_key x e \<and> le_entry e x)"

definition compacted_levels_of :: "bytes list list list \<Rightarrow> nat \<Rightarrow> nat \<Rightarrow> bytes \<Rightarrow> bytes \<Rightarrow> bytes list list \<Rightarrow> bytes list list list" where
  "compacted_levels_of fss level k a b outs =
     (if level + 1 < length fss then fss else fss @ [[]])
       [level := nths (fss ! level) (- set ([0..<k] @ joined fss level k a b)),
        level + 1 := take (run_start fss level a) (next_level fss level) @ outs @
          drop (run_start fss level a + run_length fss level a b) (next_level fss level)]"

lemma compacted_entries:
  fixes fss level k a b
  defines "ess \<equiv> map ((!) (fss ! level)) ([0..<k] @ joined fss level k a b) @
    takeWhile (overlaps a b) (dropWhile (below a) (next_level fss level))"
  assumes "level < length fss" "k \<le> length (fss ! level)"
    and "set (concat outs) \<subseteq> set (concat ess)"
    and "\<forall>e\<in>set (concat ess). \<exists>x\<in>set (concat outs). same_key x e \<and> le_entry e x"
  shows "keeps_newest (all_entries fss) (all_entries (compacted_levels_of fss level k a b outs))"
proof -
  let ?cur = "[0..<k] @ joined fss level k a b" and ?nxt = "next_level fss level"
  let ?p = "run_start fss level a" and ?r = "run_length fss level a b"
  let ?B = "takeWhile (overlaps a b) (dropWhile (below a) ?nxt)" and ?kept = "nths (fss ! level) (- set ?cur)"
  let ?L = "if level + 1 < length fss then fss else fss @ [[]]"
  let ?rest = "set (concat (take level ?L @ drop (level + 2) ?L))"
  have L: "level + 1 < length ?L" "?L ! level = fss ! level" "?L ! (level + 1) = ?nxt" "set (concat ?L) = set (concat fss)"
    using assms(2) by (auto simp: nth_append next_level_def)
  have c: "\<forall>i\<in>set ?cur. i < length (fss ! level)" by (rule chosen_index(4) [OF assms(2,3)])
  have f0: "set (fss ! level) = (!) (fss ! level) ` set ?cur \<union> set ?kept"
    using set_selected [of "fss ! level" "set ?cur"] c by (simp add: Int_absorb2 subset_eq)
  have "?nxt = take ?p ?nxt @ ?B @ drop (?p + ?r) ?nxt"
    unfolding next_level_parts by (simp only: takeWhile_dropWhile_id)
  then have f1: "set ?nxt = set (take ?p ?nxt) \<union> set ?B \<union> set (drop (?p + ?r) ?nxt)"
    by (metis set_append Un_assoc)
  have ess: "set ess = (!) (fss ! level) ` set ?cur \<union> set ?B" by (auto simp: ess_def)
  define K where "K = set ?kept \<union> set (take ?p ?nxt) \<union> set (drop (?p + ?r) ?nxt) \<union> ?rest"
  have F: "set (concat fss) = set ess \<union> K"
    using set_two_levels(1) [OF L(1)] unfolding L(2,3,4) f0 f1 ess K_def by blast
  have F': "set (concat (compacted_levels_of fss level k a b outs)) = set outs \<union> K"
    using set_two_levels(2) [OF L(1), of ?kept "take ?p ?nxt @ outs @ drop (?p + ?r) ?nxt"]
    unfolding compacted_levels_of_def K_def by auto
  have E: "all_entries fss = set (concat ess) \<union> \<Union> (set ` K)"
    "all_entries (compacted_levels_of fss level k a b outs) = set (concat outs) \<union> \<Union> (set ` K)"
    unfolding set_concat [of "concat fss"] set_concat [of "concat (compacted_levels_of fss level k a b outs)"] F F' by auto
  show ?thesis unfolding keeps_newest_def E
  proof (intro conjI ballI)
    show "set (concat outs) \<union> \<Union> (set ` K) \<subseteq> set (concat ess) \<union> \<Union> (set ` K)" using assms(4) by blast
    fix e assume "e \<in> set (concat ess) \<union> \<Union> (set ` K)"
    then show "\<exists>x\<in>set (concat outs) \<union> \<Union> (set ` K). same_key x e \<and> le_entry e x"
      using assms(5) ent_le_refl by blast
  qed
qed

text \<open>No entry is there more often than before.\<close>

lemma mset_selected:
  assumes "distinct is" "set is \<subseteq> {..<length xs}"
  shows "mset xs = mset (map ((!) xs) is) + mset (nths xs (- set is))"
proof -
  have "zip xs [0..<length xs] = map (\<lambda>i. (xs ! i, i)) [0..<length xs]" by (rule nth_equalityI) simp_all
  then have "nths xs (- set is) = map ((!) xs) (filter (\<lambda>i. i \<notin> set is) [0..<length xs])"
    by (simp add: nths_def filter_map o_def)
  moreover have "mset is = filter_mset (\<lambda>i. i \<in> set is) (mset [0..<length xs])"
  proof -
    have "mset is = mset_set (set is)" using assms(1) by (simp add: mset_set_set)
    also have "set is = {i \<in> {..<length xs}. i \<in> set is}" using assms(2) by auto
    finally show ?thesis by (simp add: mset_upt atLeast0LessThan filter_mset_mset_set)
  qed
  ultimately have "mset (map ((!) xs) is) + mset (nths xs (- set is)) =
      image_mset ((!) xs) (filter_mset (\<lambda>i. i \<in> set is) (mset [0..<length xs]) + filter_mset (\<lambda>i. i \<notin> set is) (mset [0..<length xs]))"
    by (simp only: mset_map mset_filter image_mset_union)
  also have "\<dots> = mset (map ((!) xs) [0..<length xs])" by (simp only: multiset_partition [symmetric] mset_map)
  finally show ?thesis by (simp only: map_nth)
qed

lemma mset_two_levels:
  assumes "i + 1 < length L"
  shows "mset (concat L) = mset (L ! i) + mset (L ! (i + 1)) + mset (concat (take i L @ drop (i + 2) L))"
    and "mset (concat (L[i := x, i + 1 := y])) = mset x + mset y + mset (concat (take i L @ drop (i + 2) L))"
proof -
  have "mset (concat (take i L @ u # v # drop (i + 2) L)) = mset u + mset v + mset (concat (take i L @ drop (i + 2) L))" for u v
    by simp
  then show "mset (concat L) = mset (L ! i) + mset (L ! (i + 1)) + mset (concat (take i L @ drop (i + 2) L))"
    "mset (concat (L[i := x, i + 1 := y])) = mset x + mset y + mset (concat (take i L @ drop (i + 2) L))"
    using two_levels [OF assms] by metis+
qed

lemma mset_concat_files: "mset (concat xss) = \<Sum>\<^sub># (image_mset mset (mset xss))"
  by (induction xss) simp_all

lemma compacted_mset:
  fixes fss level k a b
  defines "ess \<equiv> map ((!) (fss ! level)) ([0..<k] @ joined fss level k a b) @
    takeWhile (overlaps a b) (dropWhile (below a) (next_level fss level))"
  assumes "level < length fss" "k \<le> length (fss ! level)" "mset (concat outs) \<subseteq># mset (concat ess)"
  shows "mset (concat (concat (compacted_levels_of fss level k a b outs))) \<subseteq># mset (concat (concat fss))"
proof -
  let ?cur = "[0..<k] @ joined fss level k a b" and ?nxt = "next_level fss level"
  let ?p = "run_start fss level a" and ?r = "run_length fss level a b"
  let ?B = "takeWhile (overlaps a b) (dropWhile (below a) ?nxt)" and ?kept = "nths (fss ! level) (- set ?cur)"
  let ?L = "if level + 1 < length fss then fss else fss @ [[]]"
  let ?rest = "mset (concat (take level ?L @ drop (level + 2) ?L))"
  have L: "level + 1 < length ?L" "?L ! level = fss ! level" "?L ! (level + 1) = ?nxt" "concat ?L = concat fss"
    using assms(2) by (auto simp: nth_append next_level_def)
  have c: "set ?cur \<subseteq> {..<length (fss ! level)}" using chosen_index(4) [OF assms(2,3)] by auto
  have d: "distinct ?cur" using chosen_index(3) [OF assms(2,3)] strict_sorted_iff by blast
  have f0: "mset (fss ! level) = mset (map ((!) (fss ! level)) ?cur) + mset ?kept" by (rule mset_selected [OF d c])
  have "?nxt = take ?p ?nxt @ ?B @ drop (?p + ?r) ?nxt"
    unfolding next_level_parts by (simp only: takeWhile_dropWhile_id)
  then have f1: "mset ?nxt = mset (take ?p ?nxt) + mset ?B + mset (drop (?p + ?r) ?nxt)"
    by (metis mset_append add.assoc)
  define K where "K = mset ?kept + mset (take ?p ?nxt) + mset (drop (?p + ?r) ?nxt) + ?rest"
  have F: "mset (concat fss) = mset ess + K"
    using mset_two_levels(1) [OF L(1)] unfolding L(2,3,4) f0 f1 ess_def K_def by (simp only: mset_append ac_simps)
  have F': "mset (concat (compacted_levels_of fss level k a b outs)) = mset outs + K"
    using mset_two_levels(2) [OF L(1), of ?kept "take ?p ?nxt @ outs @ drop (?p + ?r) ?nxt"]
    unfolding compacted_levels_of_def K_def by (simp only: mset_append ac_simps)
  have "mset (concat (concat fss)) = mset (concat ess) + \<Sum>\<^sub># (image_mset mset K)"
    "mset (concat (concat (compacted_levels_of fss level k a b outs))) = mset (concat outs) + \<Sum>\<^sub># (image_mset mset K)"
    unfolding mset_concat_files [of "concat fss"] mset_concat_files [of "concat (compacted_levels_of fss level k a b outs)"] F F'
    by (simp_all only: mset_concat_files image_mset_union sum_mset.union)
  then show ?thesis using assms(4) by (simp only: subset_mset.add_right_mono)
qed

lemma compacted_count:
  assumes "level < length fss" "k \<le> length (fss ! level)"
  shows "length (concat (compacted_levels_of fss level k a b outs)) \<le> length (concat fss) + length outs"
proof -
  let ?L = "if level + 1 < length fss then fss else fss @ [[]]"
  have L: "level + 1 < length ?L" "?L ! level = fss ! level" "?L ! (level + 1) = next_level fss level"
    "length (concat ?L) = length (concat fss)"
    using assms(1) by (auto simp: nth_append next_level_def)
  show ?thesis unfolding compacted_levels_of_def L(4) [symmetric]
  proof (rule length_two_levels [OF L(1)], unfold L(2,3))
    show "length (nths (fss ! level) (- set ([0..<k] @ joined fss level k a b))) \<le> length (fss ! level)"
      unfolding length_nths by (rule order_trans [OF card_mono [of "{..<length (fss ! level)}"]]) auto
  qed simp
qed

lemma sorted_concat_nths: "sorted_wrt R (concat xss) \<Longrightarrow> sorted_wrt R (concat (nths xss I))"
proof (induction xss arbitrary: I)
  case (Cons xs xss)
  have "set (concat (nths xss J)) \<subseteq> set (concat xss)" for J using set_nths_subset [of xss J] by auto
  then show ?case using Cons by (fastforce simp: nths_Cons sorted_wrt_append)
qed simp

lemma compacted_subset:
  assumes "level < length fss" "k \<le> length (fss ! level)" "set (concat outs) \<subseteq> all_entries fss"
  shows "all_entries (compacted_levels_of fss level k a b outs) \<subseteq> all_entries fss"
proof -
  let ?L = "if level + 1 < length fss then fss else fss @ [[]]"
  let ?kept = "nths (fss ! level) (- set ([0..<k] @ joined fss level k a b))"
  let ?new = "take (run_start fss level a) (next_level fss level) @ outs @
    drop (run_start fss level a + run_length fss level a b) (next_level fss level)"
  have L: "level + 1 < length ?L" "?L ! level = fss ! level" "?L ! (level + 1) = next_level fss level"
    "set (concat ?L) = set (concat fss)"
    using assms(1) by (auto simp: nth_append next_level_def)
  have "set ?kept \<subseteq> set (fss ! level)" by (rule set_nths_subset)
  moreover have "set ?new \<subseteq> set (next_level fss level) \<union> set outs"
    using set_take_subset set_drop_subset by fastforce
  ultimately have "set (concat (compacted_levels_of fss level k a b outs)) \<subseteq> set (concat fss) \<union> set outs"
    using set_two_levels(1) [OF L(1)] set_two_levels(2) [OF L(1), of ?kept ?new]
    unfolding L(2,3,4) compacted_levels_of_def by blast
  then have "all_entries (compacted_levels_of fss level k a b outs) \<subseteq> all_entries fss \<union> set (concat outs)"
    unfolding set_concat [of "concat fss"] set_concat [of outs]
      set_concat [of "concat (compacted_levels_of fss level k a b outs)"] by blast
  then show ?thesis using assms(3) by blast
qed

lemma outputs_level_files:
  assumes "\<forall>j<length outs. on_disk create s io (out_name io j) (outs ! j) \<and> outs ! j \<noteq> [] \<and> total_size (outs ! j) < sst_limit"
    and "sorted_wrt le_entry (concat outs)"
  shows "list_all2 (level_file create s io) (map (out_name io) [0..<length outs]) outs"
  using assms(1) sorted_wrt_concat(1) [OF assms(2)]
  by (auto simp: list_all2_conv_all_nth level_file_def kApproximateSSTFileSize_def)

lemma directory_compacted:
  assumes "directory create s io man fss" "level < length fss" "k \<le> length (fss ! level)"
    and "no_gap fss level a b" "le_entry a b"
    and "\<forall>e\<in>set (concat outs). le_entry a e \<and> le_entry e b \<or>
      e \<in> set (concat (takeWhile (overlaps a b) (dropWhile (below a) (next_level fss level))))"
    and "sorted_wrt le_entry (concat outs)" "set (concat outs) \<subseteq> all_entries fss" "quiet s'"
    and "list_all2 (level_file create s' io) names outs" "\<forall>f\<in>set names. good_name f"
    and "\<And>name es. level_file create s io name es \<Longrightarrow> level_file create s' io name es"
  shows "directory create s' io
    (compacted man level ([0..<k] @ joined fss level k a b) (run_start fss level a)
      (run_start fss level a + run_length fss level a b) (insert_index fss level a b) names)
    (compacted_levels_of fss level k a b outs)"
proof -
  let ?cur = "[0..<k] @ joined fss level k a b" and ?p = "run_start fss level a" and ?r = "run_length fss level a b"
  let ?ins = "insert_index fss level a b" and ?nxt = "next_level fss level"
  let ?man = "compacted man level ?cur ?p (?p + ?r) ?ins names" and ?fss = "compacted_levels_of fss level k a b outs"
  let ?Lf = "if level + 1 < length fss then fss else fss @ [[]]"
  let ?Lm = "if level + 1 < length (data_files man) then data_files man else data_files man @ [[]]"
  note len = directory_length [OF assms(1)] and lev = directory_levels [OF assms(1)]
  have dir: "list_all2 (list_all2 (level_file create s io)) (data_files man) fss"
    and sorted: "\<forall>l<length fss. 0 < l \<longrightarrow> sorted_wrt le_entry (concat (fss ! l))"
    using assms(1) by (simp_all add: directory_def)
  have keep: "list_all2 (level_file create s' io) xs ys" if "list_all2 (level_file create s io) xs ys" for xs ys
    using that assms(12) by (rule list_all2_mono)
  have L: "list_all2 (list_all2 (level_file create s' io)) ?Lm ?Lf"
    using list_all2_mono [OF dir keep] len by (simp add: list_all2_appendI)
  have n: "list_all2 (level_file create s io) (level_files man (level + 1)) ?nxt"
    using lev(2) [of "level + 1"] len by (simp add: level_files_def next_level_def)
  then have ln: "length (level_files man (level + 1)) = length ?nxt" by (rule list_all2_lengthD)
  have ins: "0 < ?r \<or> ?ins = 0 \<and> ?p = 0 \<or> ?ins = int ?p \<and> ?p = length (level_files man (level + 1))"
    using assms(4) ln by (cases "level + 1 < length fss") (auto simp: no_gap_def insert_index_def next_level_def)
  have df: "data_files ?man = ?Lm[level := nths (data_files man ! level) (- set ?cur),
      level + 1 := take ?p (level_files man (level + 1)) @ names @ drop (?p + ?r) (level_files man (level + 1))]"
    by (rule compacted_levels [OF _ ins]) (use lev(1) assms(2) in simp)
  have files: "list_all2 (list_all2 (level_file create s' io)) (data_files ?man) ?fss"
    unfolding df compacted_levels_of_def
    by (intro list_all2_update_cong L list_all2_nths list_all2_appendI list_all2_takeI list_all2_dropI assms(10)
        keep lev(2) assms(2) n)
  have new: "sorted_wrt le_entry (concat (take ?p ?nxt @ outs @ drop (?p + ?r) ?nxt))"
    unfolding next_level_parts
  proof (rule sorted_replaced [OF _ _ assms(7,5,6)])
    show "sorted_wrt le_entry (concat ?nxt)" using sorted by (simp add: next_level_def)
    show "\<forall>x\<in>set ?nxt. x \<noteq> []" by (rule level_files_nonempty [OF n])
  qed
  have "sorted_wrt le_entry (concat (?fss ! l))" if l: "l < length ?fss" "0 < l" for l
  proof -
    consider "l = level + 1" | "l = level" | "l \<noteq> level" "l \<noteq> level + 1" by blast
    then show ?thesis
    proof cases
      case 1
      then show ?thesis using new assms(2) by (simp add: compacted_levels_of_def)
    next
      case 2
      have "sorted_wrt le_entry (concat (fss ! level))" using sorted l(2) assms(2) 2 by simp
      then have "sorted_wrt le_entry (concat (nths (fss ! level) I))" for I by (rule sorted_concat_nths)
      then show ?thesis using 2 assms(2) by (simp add: compacted_levels_of_def del: set_append)
    next
      case 3
      then show ?thesis using sorted l by (auto simp: compacted_levels_of_def nth_append split: if_splits)
    qed
  qed
  moreover have "all_entries ?fss \<subseteq> all_entries fss" by (rule compacted_subset [OF assms(2,3,8)])
  moreover have "good_manifest ?man"
    using good_compacted assms(1,11) lev(1) [OF assms(2)] by (simp add: directory_def)
  ultimately show ?thesis using files assms(1,9) unfolding directory_def by blast
qed

text \<open>The interval covers the files to start from and, on level 0, those that join them.\<close>

definition within :: "bytes \<Rightarrow> bytes \<Rightarrow> bytes list \<Rightarrow> bool" where
  "within a b es \<longleftrightarrow> (\<forall>e\<in>set es. le_entry a e \<and> le_entry e b)"

definition covers :: "bytes list list list \<Rightarrow> nat \<Rightarrow> nat \<Rightarrow> bytes \<Rightarrow> bytes \<Rightarrow> bool" where
  "covers fss level k a b \<longleftrightarrow> ordered_entry a \<and> ordered_entry b \<and> le_entry a b \<and>
     (\<forall>i\<in>set ([0..<k] @ joined fss level k a b). within a b (fss ! level ! i))"

text \<open>\<open>n\<close> new data files and the MANIFEST are written, and no other file is touched.\<close>

definition extends :: "os \<Rightarrow> TCIO \<Rightarrow> os \<Rightarrow> TCIO \<Rightarrow> nat \<Rightarrow> bool" where
  "extends s io s' io' n \<longleftrightarrow> io' = io\<lparr>file_id := file_id io + of_nat n\<rparr> \<and>
     (\<forall>g. (\<forall>j<n. sst_path io (out_name io j) \<noteq> Inr g) \<longrightarrow> PathJoin (kDatabaseDir io) kManifestFilename \<noteq> Inr g \<longrightarrow>
        files s' g = files s g)"

lemma compact_range_ok:
  assumes "directory create s io man fss" "merge_room s io fss" "level < length fss" "0 < k" "k \<le> length (fss ! level)"
    and "covers fss level k a b" "no_gap fss level a b"
  shows "\<exists>st man' io' s' fss'. compact_range create s io man level [0..<k] a b = Inr (st, man', io', s') \<and>
    StatusNoError st \<and> directory create s' io' man' fss' \<and> keeps_newest (all_entries fss) (all_entries fss') \<and>
    mset (concat (concat fss')) \<subseteq># mset (concat (concat fss)) \<and> ReadManifest s' io' = Inr (NoError, Some man', s') \<and>
    (\<exists>n\<le>length (concat (concat fss)). extends s io s' io' n) \<and>
    length (concat fss') \<le> length (concat fss) + length (concat (concat fss)) \<and> length fss' = max (length fss) (level + 2)"
proof -
  let ?cur = "[0..<k] @ joined fss level k a b" and ?p = "run_start fss level a" and ?r = "run_length fss level a b"
  let ?index = "map (Pair level) ?cur @ map (Pair (level + 1)) [?p..<?p + ?r]"
  let ?B = "takeWhile (overlaps a b) (dropWhile (below a) (next_level fss level))"
  let ?ess = "map ((!) (fss ! level)) ?cur @ ?B"
  have cov: "ordered_entry a" "ordered_entry b" "le_entry a b" "\<forall>i\<in>set ?cur. within a b (fss ! level ! i)"
    using assms(6) by (simp_all add: covers_def)
  note ix = chosen_index [OF assms(3,5), of a b] and len = directory_length [OF assms(1)]
    and lev = directory_levels [OF assms(1,3)]
  obtain fs where fs: "paths_of io (data_files man) ?index = Inr fs" "mergeable create s io fs ?ess"
    "\<forall>e\<in>set (concat ?ess). length e < sst_limit" "length (concat ?ess) \<le> length (concat (concat fss))"
    using selected_mergeable [OF assms(1,2) ix(1,2)] unfolding ix(6) by blast
  obtain st outs s1 where m: "MultiwayMerge create s io fs = Inr (st, map (out_name io) [0..<length outs],
      io\<lparr>file_id := file_id io + of_nat (length outs)\<rparr>, s1)" "StatusNoError st" "quiet s1"
    "\<forall>j<length outs. on_disk create s1 io (out_name io j) (outs ! j) \<and> outs ! j \<noteq> [] \<and> total_size (outs ! j) < sst_limit"
    "sorted_wrt le_entry (concat outs)" "set (concat outs) \<subseteq> set (concat ?ess)"
    "\<forall>e\<in>set (concat ?ess). \<exists>x\<in>set (concat outs). same_key x e \<and> le_entry e x"
    "\<forall>g. (\<forall>j<length outs. sst_path io (out_name io j) \<noteq> Inr g) \<longrightarrow> files s1 g = files s g"
    "length outs \<le> length (concat ?ess)" "mset (concat outs) \<subseteq># mset (concat ?ess)"
    using MultiwayMerge_outputs [OF fs(2,3)] by blast
  define names where "names = map (out_name io) [0..<length outs]"
  define io1 where "io1 = io\<lparr>file_id := file_id io + of_nat (length outs)\<rparr>"
  define man' where "man' = compacted man level ?cur ?p (?p + ?r) (insert_index fss level a b) names"
  define fss' where "fss' = compacted_levels_of fss level k a b outs"
  note merge = m(1) [folded names_def io1_def]
  have io1: "kDatabaseDir io1 = kDatabaseDir io" "reader_pool io1 = reader_pool io" by (simp_all add: io1_def)
  have ne: "kDatabaseDir io \<noteq> []" "0 < reader_pool io" using assms(1) by (simp_all add: directory_def)
  then obtain mpath where mp: "PathJoin (kDatabaseDir io) kManifestFilename = Inr mpath"
    by (cases "last (kDatabaseDir io) = CHR ''/''") (auto simp: PathJoin_def)
  have q1: "open_results s1 = []" "read_results s1 = []" using m(3) by (simp_all add: quiet_def)
  obtain st2 s2 where w: "WriteManifest s1 io1 man' = Inr (st2, s2)" "StatusNoError st2"
    "files s2 mpath = Some (str_bytes (Manifest_Encode man'))" "\<forall>g. g \<noteq> mpath \<longrightarrow> files s2 g = files s1 g" "quiet s2"
    using WriteManifest_writes [OF q1(1), of io1 mpath man'] mp q1(2) io1(1) by (auto simp: quiet_def)
  have nl: "length (level_files man (level + 1)) = length (next_level fss level)"
    using directory_levels(3) [OF assms(1), of "level + 1"] len by (simp add: level_files_def next_level_def)
  have upd: "UpdateManifest s1 io1 man (map (\<lambda>(l, i). (int l, int i)) ?index) names level (insert_index fss level a b) =
      Inr (st2, man', s2)"
  proof -
    have eq: "map (\<lambda>(l, i). (int l, int i)) ?index =
        map (\<lambda>i. (int level, int i)) ?cur @ map (\<lambda>i. (int level + 1, int i)) [?p..<?p + ?r]" by (simp add: comp_def)
    have "UpdateManifest s1 io1 man
        (map (\<lambda>i. (int level, int i)) ?cur @ map (\<lambda>i. (int level + 1, int i)) [?p..<?p + ?r]) names level
        (insert_index fss level a b) =
      (let man' = man' in rmap (\<lambda>(st, s1). (st, if StatusNoError st then man' else man, s1)) (WriteManifest s1 io1 man'))"
      unfolding man'_def
    proof (rule UpdateManifest_eq)
      show "level < length (data_files man)" by (rule lev(1))
      show "sorted_wrt (<) ?cur" by (rule ix(3))
      show "\<forall>i\<in>set ?cur. i < length (data_files man ! level)" using ix(4) lev(3) by simp
      show "?p \<le> ?p + ?r" by simp
      show "?p + ?r \<le> length (level_files man (level + 1))" using ix(5) nl by simp
      show "insert_index fss level a b = 0 \<or> insert_index fss level a b = int (length (level_files man (level + 1)))"
        if "?p = ?p + ?r"
        using that nl by (auto simp: insert_index_def next_level_def)
    qed
    then show ?thesis unfolding eq using w(1,2) by (simp add: Let_def)
  qed
  have run: "compact_range create s io man level [0..<k] a b = Inr (st2, man', io1, s2)"
    unfolding compact_range_chooses [OF assms(1,3) cov(1,2)] Let_def fs(1) rbind.simps merge prod.case upd
    using m(2) by simp
  have names: "\<forall>f\<in>set names. good_name f" by (auto simp: names_def out_name_def good_name_hex16)
  have fr: "names_free io 0 (length (concat ?ess)) s" using fs(2) by (simp add: mergeable_def)
  have frame: "\<forall>g. (\<forall>j<length (concat ?ess). sst_path io (out_name io j) \<noteq> Inr g) \<longrightarrow> g \<noteq> mpath \<longrightarrow> files s2 g = files s g"
    using m(8,9) w(4) by (simp add: less_le_trans)
  have "extends s io s2 io1 (length outs)" using m(8) w(4) mp by (simp add: extends_def io1_def)
  then have ext: "\<exists>n\<le>length (concat (concat fss)). extends s io s2 io1 n" using m(9) fs(4) le_trans by blast
  have kept: "level_file create s2 io name es" if "level_file create s io name es" for name es
    by (rule level_file_kept [OF that fr w(5) mp frame])
  have new: "list_all2 (level_file create s2 io) names outs"
    unfolding names_def
  proof (rule outputs_level_files [OF _ m(5)], intro allI impI conjI)
    fix j assume j: "j < length outs"
    show "outs ! j \<noteq> []" "total_size (outs ! j) < sst_limit" using m(4) j by blast+
    show "on_disk create s2 io (out_name io j) (outs ! j)"
      by (rule on_disk_keep [OF _ w(5)]) (use m(4) j w(4) sst_path_manifest [OF _ mp] in blast)+
  qed
  have inside: "\<forall>e\<in>set (concat outs). le_entry a e \<and> le_entry e b \<or> e \<in> set (concat ?B)"
    using m(6) cov(4) by (auto simp: within_def)
  have sub: "set (concat outs) \<subseteq> all_entries fss"
  proof -
    have "set (concat ?ess) \<subseteq> all_entries fss"
      unfolding ix(6) [symmetric] by (rule concat_subset [OF selected_files [OF ix(2)]])
    then show ?thesis using m(6) by blast
  qed
  have dir: "directory create s2 io man' fss'"
    unfolding man'_def fss'_def
    by (rule directory_compacted [OF assms(1,3,5,7) cov(3) inside m(5) sub w(5) new names kept])
  then have "directory create s2 io1 man' fss'" by (simp add: directory_def io1_def)
  moreover have "keeps_newest (all_entries fss) (all_entries fss')"
    unfolding fss'_def by (rule compacted_entries [OF assms(3,5) m(6,7)])
  moreover have "mset (concat (concat fss')) \<subseteq># mset (concat (concat fss))"
    unfolding fss'_def by (rule compacted_mset [OF assms(3,5) m(10)])
  moreover have "ReadManifest s2 io1 = Inr (NoError, Some man', s2)"
  proof (rule ReadManifest_reads [OF w(5) _ w(3)])
    show "Manifest_Decode (Manifest_Encode man') = Inr man'"
      by (rule Manifest_Decode_Encode) (use dir in \<open>simp add: directory_def\<close>)
  qed (use ne mp io1 in simp_all)
  moreover have "length (concat fss') \<le> length (concat fss) + length (concat (concat fss))"
    using compacted_count [OF assms(3,5), of a b outs] m(9) fs(4) unfolding fss'_def by linarith
  moreover have "length fss' = max (length fss) (level + 2)" using assms(3) by (simp add: fss'_def compacted_levels_of_def)
  ultimately show ?thesis
    using run w(2) ext by (intro exI [of _ st2] exI [of _ man'] exI [of _ io1] exI [of _ s2] exI [of _ fss'] conjI)
qed

section \<open>Which compactions keep the directory in order\<close>

text \<open>A file whose range does not meet that of the given entries, one whose range lies in it, and two
  files with the range between them.\<close>

definition apart :: "bytes list \<Rightarrow> bytes list \<Rightarrow> bool" where
  "apart xs es \<longleftrightarrow> (\<forall>x\<in>set xs. \<not> le_entry x (last es)) \<or> (\<forall>x\<in>set xs. \<not> le_entry (hd es) x)"

definition enclosed :: "bytes list \<Rightarrow> bytes list \<Rightarrow> bool" where
  "enclosed xs es \<longleftrightarrow> (\<exists>x\<in>set xs. le_entry x (hd es)) \<and> (\<exists>x\<in>set xs. le_entry (last es) x)"

definition between :: "bytes list \<Rightarrow> bytes list \<Rightarrow> bytes list \<Rightarrow> bool" where
  "between xs f g \<longleftrightarrow> (\<forall>x\<in>set xs. \<not> le_entry x (last f)) \<and> (\<forall>x\<in>set xs. \<not> le_entry (hd g) x)"

definition compactable :: "bytes list list list \<Rightarrow> nat \<Rightarrow> nat \<Rightarrow> bool" where
  "compactable fss level k \<longleftrightarrow> level < length fss \<and> 0 < k \<and> k \<le> length (fss ! level) \<and>
     (let xs = concat (take k (fss ! level)); nxt = next_level fss level
      in (level = 0 \<longrightarrow> (\<forall>es\<in>set (drop k (fss ! 0)). apart xs es \<or> enclosed xs es)) \<and>
         (\<forall>j<length nxt - 1. \<not> between xs (nxt ! j) (nxt ! (j + 1))))"

lemma spans_no_gap:
  assumes "compactable fss level k" "within a b (concat (take k (fss ! level)))"
  shows "no_gap fss level a b"
proof (rule ccontr)
  let ?xs = "concat (take k (fss ! level))" and ?nxt = "next_level fss level"
  define p where "p = run_start fss level a"
  assume "\<not> no_gap fss level a b"
  then have r: "takeWhile (overlaps a b) (dropWhile (below a) ?nxt) = []" and p: "0 < p" "p \<noteq> length ?nxt"
    by (simp_all add: no_gap_def p_def run_length_def)
  then have pl: "p < length ?nxt" using length_takeWhile_le [of "below a" ?nxt] by (simp add: p_def run_start_def)
  have "dropWhile (below a) ?nxt = ?nxt ! p # drop (Suc p) ?nxt"
    using pl by (simp add: dropWhile_eq_drop Cons_nth_drop_Suc p_def run_start_def)
  then have "\<not> overlaps a b (?nxt ! p)" using r by (auto split: if_splits)
  moreover have "\<not> below a (?nxt ! p)" using nth_length_takeWhile [of "below a" ?nxt] pl by (simp add: p_def run_start_def)
  ultimately have "above b (?nxt ! p)" by (simp add: overlaps_def)
  moreover have "below a (?nxt ! (p - 1))"
  proof -
    have "takeWhile (below a) ?nxt ! (p - 1) \<in> set (takeWhile (below a) ?nxt)"
      using p(1) by (intro nth_mem) (simp add: p_def run_start_def)
    moreover have "takeWhile (below a) ?nxt ! (p - 1) = ?nxt ! (p - 1)"
      using p(1) by (intro takeWhile_nth) (simp add: p_def run_start_def)
    ultimately show ?thesis by (metis set_takeWhileD)
  qed
  ultimately have "between ?xs (?nxt ! (p - 1)) (?nxt ! p)"
    using assms(2) ent_le_trans unfolding between_def within_def below_def above_def by blast
  then have "between ?xs (?nxt ! (p - 1)) (?nxt ! (p - 1 + 1))" using p(1) by simp
  moreover have "p - 1 < length ?nxt - 1" using p(1) pl by simp
  ultimately show False using assms(1) unfolding compactable_def Let_def by blast
qed

lemma spans_covers:
  assumes "directory create s io man fss" "compactable fss level k"
    and "a \<in> set (concat (take k (fss ! level)))" "b \<in> set (concat (take k (fss ! level)))"
    and "within a b (concat (take k (fss ! level)))"
  shows "covers fss level k a b"
proof -
  let ?xs = "concat (take k (fss ! level))"
  have lev: "list_all2 (level_file create s io) (data_files man ! level) (fss ! level)"
    using directory_levels(2) [OF assms(1)] assms(2) by (simp add: compactable_def)
  have entries: "es \<noteq> [] \<and> sorted_wrt le_entry es \<and> (\<forall>e\<in>set es. ordered_entry e)" if "es \<in> set (fss ! level)" for es
  proof -
    obtain i where "i < length (fss ! level)" "es = fss ! level ! i" using \<open>es \<in> set (fss ! level)\<close> by (metis in_set_conv_nth)
    then have "level_file create s io (data_files man ! level ! i) es" using lev by (simp add: list_all2_conv_all_nth)
    then show ?thesis using level_file_parts(1,2) unfolding level_file_def by blast
  qed
  have "\<forall>e\<in>set ?xs. ordered_entry e" using entries set_take_subset [of k "fss ! level"] by fastforce
  then have o: "ordered_entry a" "ordered_entry b" using assms(3,4) by blast+
  have "le_entry a b" using assms(3,5) unfolding within_def by blast
  moreover have "within a b (fss ! level ! i)" if "i < k" for i
  proof -
    have "fss ! level ! i \<in> set (take k (fss ! level))"
      using that assms(2) by (auto simp: compactable_def in_set_conv_nth intro!: exI [of _ i])
    then show ?thesis using assms(5) by (auto simp: within_def)
  qed
  moreover have "within a b (fss ! level ! i)" if "i \<in> set (joined fss level k a b)" for i
  proof -
    have l: "level = 0" and i: "k \<le> i" "i < length (fss ! level)" "overlaps a b (fss ! level ! i)"
      using that by (auto simp: joined_def split: if_splits)
    let ?es = "fss ! level ! i"
    have "?es \<in> set (drop k (fss ! level))" using i(1,2) by (auto simp: in_set_conv_nth intro!: exI [of _ "i - k"])
    then have "apart ?xs ?es \<or> enclosed ?xs ?es" using assms(2) l by (simp add: compactable_def Let_def)
    moreover have "\<not> apart ?xs ?es"
      using i(3) assms(3,4) unfolding apart_def overlaps_def below_def above_def by blast
    ultimately have en: "le_entry a (hd ?es)" "le_entry (last ?es) b"
      using assms(5) ent_le_trans unfolding enclosed_def within_def by blast+
    have s: "?es \<noteq> []" "sorted_wrt le_entry ?es" using entries [of ?es] i(2) by simp_all
    have "le_entry (hd ?es) e \<and> le_entry e (last ?es)" if "e \<in> set ?es" for e
      using s that sorted_wrt_last [OF s(2) ent_le_refl that] ent_le_refl by (cases ?es) auto
    then show ?thesis using en ent_le_trans unfolding within_def by blast
  qed
  ultimately show ?thesis using o by (auto simp: covers_def)
qed

section \<open>Both kinds of compaction\<close>

lemma ReadSSTGroupBoundary_files:
  assumes "list_all2 (\<lambda>f es. \<exists>ft. ReadSSTFooter_keys readers s f = Inr (NoError, ft, hd es, last es, s)) fs ess"
  shows "ReadSSTGroupBoundary readers s fs = Inr (NoError, map (\<lambda>es. (hd es, last es)) ess, s)"
  using assms by (induction rule: list_all2_induct) auto

lemma group_bounds_spans:
  assumes "\<forall>(x, y)\<in>set bs. ordered_entry x \<and> ordered_entry y" "ordered_entry a" "ordered_entry b"
  shows "\<exists>a' b'. group_bounds bs a b = Inr (a', b') \<and> a' \<in> insert a (fst ` set bs) \<and> b' \<in> insert b (snd ` set bs) \<and>
    le_entry a' a \<and> le_entry b b' \<and> (\<forall>(x, y)\<in>set bs. le_entry a' x \<and> le_entry y b')"
  using assms
proof (induction bs arbitrary: a b)
  case (Cons xy bs)
  obtain x y where xy: "xy = (x, y)" by (cases xy)
  let ?a = "if le_entry a x then a else x" and ?b = "if le_entry y b then b else y"
  have o: "ordered_entry x" "ordered_entry y" using Cons.prems(1) xy by auto
  have "group_bounds (xy # bs) a b = group_bounds bs ?a ?b"
    using compare_ordered(3,4) o Cons.prems(2,3) xy by simp
  moreover have le: "le_entry ?a a" "le_entry ?a x" "le_entry b ?b" "le_entry y ?b"
    using ent_le_total [of "ent_of a" "ent_of x"] ent_le_total [of "ent_of y" "ent_of b"] ent_le_refl by auto
  obtain a' b' where r: "group_bounds bs ?a ?b = Inr (a', b')" "a' \<in> insert ?a (fst ` set bs)" "b' \<in> insert ?b (snd ` set bs)"
    "le_entry a' ?a" "le_entry ?b b'" "\<forall>(x, y)\<in>set bs. le_entry a' x \<and> le_entry y b'"
  proof -
    have p: "\<forall>(x, y)\<in>set bs. ordered_entry x \<and> ordered_entry y" "ordered_entry ?a" "ordered_entry ?b"
      using Cons.prems o by auto
    show thesis using Cons.IH [OF p] that by blast
  qed
  moreover have "le_entry a' a" "le_entry a' x" "le_entry b b'" "le_entry y b'"
    using r(4,5) le ent_le_trans by blast+
  ultimately show ?case using xy by (intro exI [of _ a'] exI [of _ b']) auto
qed (auto simp: ent_le_refl)

lemma first_file_spans:
  assumes "sorted_wrt le_entry es" "es \<noteq> []"
  shows "within (hd es) (last es) es"
  using assms sorted_wrt_last [OF assms(1) ent_le_refl] by (cases es) (auto simp: within_def ent_le_refl)

lemma chosen_files:
  assumes "directory create s io man fss" "level < length fss" "k \<le> length (fss ! level)"
  shows "\<exists>fs. paths_of io (data_files man) (map (Pair level) [0..<k]) = Inr fs \<and>
    list_all2 (\<lambda>f es. (\<exists>ft. ReadSSTFooter_keys (reader_pool io) s f = Inr (NoError, ft, hd es, last es, s)) \<and>
      es \<noteq> [] \<and> sorted_wrt le_entry es \<and> ordered_entry (hd es) \<and> ordered_entry (last es)) fs (take k (fss ! level))"
proof -
  have dir: "list_all2 (list_all2 (level_file create s io)) (data_files man) fss" and r: "0 < reader_pool io"
    using assms(1) by (simp_all add: directory_def)
  have "\<forall>(l, i)\<in>set (map (Pair level) [0..<k]). l < length fss \<and> i < length (fss ! l)" using assms(2,3) by auto
  from paths_of_sources [OF dir this]
  obtain fs where fs: "paths_of io (data_files man) (map (Pair level) [0..<k]) = Inr fs"
    "list_all2 (source s) fs (map (\<lambda>(l, i). fss ! l ! i) (map (Pair level) [0..<k]))" by blast
  have t: "map (\<lambda>(l, i). fss ! l ! i) (map (Pair level) [0..<k]) = take k (fss ! level)"
    using assms(3) by (intro nth_equalityI) simp_all
  have bound: "(\<exists>ft. ReadSSTFooter_keys (reader_pool io) s f = Inr (NoError, ft, hd es, last es, s)) \<and>
      es \<noteq> [] \<and> sorted_wrt le_entry es \<and> ordered_entry (hd es) \<and> ordered_entry (last es)" if src: "source s f es" for f es
  proof -
    obtain flex where "sst_at s f es flex" using src by (auto simp: source_def)
    then have "es \<noteq> []" "\<exists>ft. ReadSSTFooter_keys (reader_pool io) s f = Inr (NoError, ft, hd es, last es, s)"
      using ReadSSTFooter_keys_image [OF _ r] by (auto simp: sst_at_def)
    then show ?thesis using src by (simp add: source_def)
  qed
  show ?thesis by (rule exI [of _ fs], rule conjI [OF fs(1)]) (rule list_all2_mono [OF fs(2) [unfolded t] bound])
qed

text \<open>Both versions call \<open>compact_range\<close> with the least and the greatest entry of the files.\<close>

lemma CompactSST_group_range:
  assumes "directory create s io man fss" "compactable fss level k"
  shows "\<exists>a b. CompactSST_group create s io man level [0..<k] = compact_range create s io man level [0..<k] a b \<and>
    a \<in> set (concat (take k (fss ! level))) \<and> b \<in> set (concat (take k (fss ! level))) \<and>
    within a b (concat (take k (fss ! level)))"
proof -
  let ?ess = "take k (fss ! level)"
  have k: "level < length fss" "0 < k" "k \<le> length (fss ! level)" using assms(2) by (simp_all add: compactable_def)
  obtain fs where fs: "paths_of io (data_files man) (map (Pair level) [0..<k]) = Inr fs"
    "list_all2 (\<lambda>f es. (\<exists>ft. ReadSSTFooter_keys (reader_pool io) s f = Inr (NoError, ft, hd es, last es, s)) \<and>
      es \<noteq> [] \<and> sorted_wrt le_entry es \<and> ordered_entry (hd es) \<and> ordered_entry (last es)) fs ?ess"
    using chosen_files [OF assms(1) k(1,3)] by blast
  have files: "\<forall>es\<in>set ?ess. es \<noteq> [] \<and> sorted_wrt le_entry es \<and> ordered_entry (hd es) \<and> ordered_entry (last es)"
    using fs(2) by (induction rule: list_all2_induct) auto
  have bounds: "ReadSSTGroupBoundary (reader_pool io) s fs = Inr (NoError, map (\<lambda>es. (hd es, last es)) ?ess, s)"
    by (rule ReadSSTGroupBoundary_files) (use fs(2) in \<open>auto elim: list_all2_mono\<close>)
  obtain g gs where g: "?ess = g # gs" using k(2,3) by (cases ?ess) auto
  obtain a b where ab: "group_bounds (map (\<lambda>es. (hd es, last es)) gs) (hd g) (last g) = Inr (a, b)"
    "a \<in> insert (hd g) (fst ` set (map (\<lambda>es. (hd es, last es)) gs))"
    "b \<in> insert (last g) (snd ` set (map (\<lambda>es. (hd es, last es)) gs))"
    "le_entry a (hd g)" "le_entry (last g) b"
    "\<forall>(x, y)\<in>set (map (\<lambda>es. (hd es, last es)) gs). le_entry a x \<and> le_entry y b"
    using group_bounds_spans [of "map (\<lambda>es. (hd es, last es)) gs" "hd g" "last g"] files g by auto
  have "within a b es" if es: "es \<in> set ?ess" for es
  proof -
    have "within (hd es) (last es) es" using first_file_spans files es by blast
    moreover have "le_entry a (hd es)" "le_entry (last es) b" using ab(4-6) es g by auto
    ultimately show ?thesis using ent_le_trans unfolding within_def by blast
  qed
  then have w: "within a b (concat ?ess)" by (auto simp: within_def)
  have m: "a \<in> set (concat ?ess)" "b \<in> set (concat ?ess)" 
  proof -
    have "\<forall>es\<in>set ?ess. hd es \<in> set es \<and> last es \<in> set es" using files by simp
    then show "a \<in> set (concat ?ess)" "b \<in> set (concat ?ess)" using ab(2,3) unfolding g by auto
  qed
  have "CompactSST_group create s io man level [0..<k] = compact_range create s io man level [0..<k] a b"
    using k(2) fs(1) bounds ab(1) unfolding CompactSST_group_def g by simp
  then show ?thesis using w m by blast
qed

lemma CompactSST_range:
  assumes "directory create s io man fss" "compactable fss level 1"
  shows "\<exists>a b. CompactSST create s io man level 0 = compact_range create s io man level [0..<1] a b \<and>
    a \<in> set (concat (take 1 (fss ! level))) \<and> b \<in> set (concat (take 1 (fss ! level))) \<and>
    within a b (concat (take 1 (fss ! level)))"
proof -
  have k: "level < length fss" "1 \<le> length (fss ! level)" using assms(2) by (simp_all add: compactable_def)
  obtain g gs where g: "fss ! level = g # gs" using k(2) by (cases "fss ! level") auto
  have lev: "list_all2 (level_file create s io) (data_files man ! level) (g # gs)" "level < length (data_files man)"
    using directory_levels(1,2) [OF assms(1) k(1)] g by simp_all
  then obtain name names where n: "data_files man ! level = name # names" "level_file create s io name g"
    by (auto simp: list_all2_Cons2)
  obtain f ft where f: "sst_path io name = Inr f" "ReadSSTFooter_keys (reader_pool io) s f = Inr (NoError, ft, hd g, last g, s)"
    using level_file_parts(6) [OF n(2), of "reader_pool io"] assms(1) by (auto simp: directory_def)
  have "CompactSST create s io man level 0 = compact_range create s io man level [0..<1] (hd g) (last g)"
    using lev(2) n(1) f by (simp add: CompactSST_def rd_def)
  moreover have "g \<noteq> []" "within (hd g) (last g) g"
    using level_file_parts(1) [OF n(2)] n(2) first_file_spans by (auto simp: level_file_def)
  ultimately show ?thesis using g by (intro exI [of _ "hd g"] exI [of _ "last g"]) simp
qed

lemma compaction_ok:
  assumes "directory create s io man fss" "merge_room s io fss" "compactable fss level k"
    and "run = CompactSST_group create s io man level [0..<k] \<or> k = 1 \<and> run = CompactSST create s io man level 0"
  shows "\<exists>a b st man' io' s' fss'. run = compact_range create s io man level [0..<k] a b \<and>
    compact_range create s io man level [0..<k] a b = Inr (st, man', io', s') \<and> StatusNoError st \<and>
    directory create s' io' man' fss' \<and> keeps_newest (all_entries fss) (all_entries fss') \<and>
    mset (concat (concat fss')) \<subseteq># mset (concat (concat fss)) \<and> ReadManifest s' io' = Inr (NoError, Some man', s') \<and>
    (\<exists>n\<le>length (concat (concat fss)). extends s io s' io' n) \<and>
    length (concat fss') \<le> length (concat fss) + length (concat (concat fss)) \<and> length fss' = max (length fss) (level + 2)"
proof -
  have c: "level < length fss" "0 < k" "k \<le> length (fss ! level)" using assms(3) by (simp_all add: compactable_def)
  obtain a b where r: "run = compact_range create s io man level [0..<k] a b"
    "a \<in> set (concat (take k (fss ! level)))" "b \<in> set (concat (take k (fss ! level)))"
    "within a b (concat (take k (fss ! level)))"
    using CompactSST_group_range [OF assms(1,3)] CompactSST_range [OF assms(1)] assms(3,4) by metis
  have "covers fss level k a b" "no_gap fss level a b"
    using spans_covers [OF assms(1,3) r(2-4)] spans_no_gap [OF assms(3) r(4)] by blast+
  from compact_range_ok [OF assms(1,2) c this] show ?thesis using r(1) by blast
qed

lemma compaction_keeps_less:
  assumes "directory create s io man fss" "merge_room s io fss" "compactable fss level k"
    and "run = CompactSST_group create s io man level [0..<k] \<or> k = 1 \<and> run = CompactSST create s io man level 0"
    and "run = Inr (st, man', io', s')"
  shows "length (data_files man' ! level) < length (data_files man ! level)"
proof -
  obtain a b st man' io' s' where r: "run = compact_range create s io man level [0..<k] a b"
    "compact_range create s io man level [0..<k] a b = Inr (st, man', io', s')" "StatusNoError st"
    using compaction_ok [OF assms(1-4)] by blast
  have "[0..<k] = 0 # [1..<k]" using assms(3) by (simp add: compactable_def upt_conv_Cons)
  then have "shortens man level man'" using compact_range_shorter r(2,3) by metis
  then show ?thesis using r(1,2) assms(5) by (simp add: shortens_def)
qed

section \<open>The compaction loop\<close>

definition settled :: "Manifest \<Rightarrow> nat \<Rightarrow> bool" where
  "settled man n \<longleftrightarrow> (\<forall>i<n. i < length kDefaultLevelSize \<and> length (data_files man ! i) < kDefaultLevelSize ! i)"

lemma settled_Suc: "settled man (Suc i) \<longleftrightarrow> settled man i \<and> i < length kDefaultLevelSize \<and>
    length (data_files man ! i) < kDefaultLevelSize ! i"
  by (auto simp: settled_def less_Suc_eq)

lemma BackgroundCompact_loop_settles:
  assumes "BackgroundCompact_loop create s io man i ret = Inr (st, man', io', s')" "StatusNoError st"
    and "i \<le> length (data_files man)" "settled man i"
  shows "settled man' (length (data_files man'))"
  using assms
proof (induction create s io man i ret arbitrary: man' rule: BackgroundCompact_loop.induct)
  case (1 create s io man i ret)
  show ?case
  proof (cases "length (data_files man) \<le> i")
    case True
    then show ?thesis using 1(3-6) by (simp add: BackgroundCompact_loop.simps [of create s io man i ret])
  next
    case False
    obtain limit where l: "rd kDefaultLevelSize i = Inr limit" "i < length kDefaultLevelSize" "limit = kDefaultLevelSize ! i"
      using 1(3) False by (auto simp: BackgroundCompact_loop.simps [of create s io man i ret] rd_def split: if_splits)
    define size where "size = length (data_files man ! i)"
    show ?thesis
    proof (cases "limit \<le> size")
      case small: False
      have "BackgroundCompact_loop create s io man (i + 1) ret = Inr (st, man', io', s')"
        using 1(3) False l(1) small by (simp add: BackgroundCompact_loop.simps [of create s io man i ret] size_def)
      moreover have "settled man (i + 1)" using 1(6) l(2,3) small by (simp add: settled_Suc size_def)
      ultimately show ?thesis
        using 1(2) [OF False l(1) size_def small] 1(4) False by simp
    next
      case True
      obtain st1 man1 io1 s1 where c: "CompactSST_group create s io man i [0..<size - limit + 1] = Inr (st1, man1, io1, s1)"
        "StatusNoError st1" "BackgroundCompact_loop create s1 io1 man1 i st1 = Inr (st, man', io', s')"
        using 1(3,4) False l(1) True
        by (auto simp: BackgroundCompact_loop.simps [of create s io man i ret] size_def Let_def res_simps split: if_splits)
      have sh: "shortens man i man1" by (rule CompactSST_group_shorter [OF c(1,2)])
      then have "i < length (data_files man1)" by (simp add: shortens_def)
      moreover have "settled man1 i" using sh 1(6) by (simp add: settled_def shortens_def)
      ultimately show ?thesis
        using 1(1) [OF False l(1) size_def True c(1) refl refl refl] c(2,3) 1(4) by simp
    qed
  qed
qed

section \<open>An example\<close>

abbreviation example_io :: TCIO where
  "example_io \<equiv> \<lparr>kDatabaseDir = ''db'', file_id = 5, reader_pool = 4\<rparr>"

abbreviation level0_manifest :: "string list \<Rightarrow> Manifest" where
  "level0_manifest names \<equiv> \<lparr>path_to_manifest = ''m'', path_to_log = ''l'', data_files = [names]\<rparr>"

abbreviation tiny :: "bytes list \<Rightarrow> bool" where
  "tiny es \<equiv> es \<noteq> [] \<and> sorted_wrt le_entry es \<and> (\<forall>e\<in>set es. ordered_entry e) \<and> total_size es \<le> 1000"

lemma tiny_size:
  assumes "tiny es"
  shows "length (blocks es) \<le> 1000" "length es \<le> 1000" "e \<in> set es \<Longrightarrow> length e < sst_limit"
proof -
  have "length e \<le> total_size es" if "e \<in> set es" for e
    unfolding total_size_def length_concat using that by (induction es) auto
  then show "length (blocks es) \<le> 1000" "length es \<le> 1000" "e \<in> set es \<Longrightarrow> length e < sst_limit"
    using assms entries_size [of es] by (fastforce simp: kApproximateSSTFileSize_def)+
qed

text \<open>A directory with the given small files on level 0.\<close>

lemma example_level0:
  assumes "length names = length ess" "distinct names" "\<forall>f\<in>set names. length f = 1 \<and> good_name f" "length ess < 100"
    and t: "\<forall>es\<in>set ess. tiny es"
  shows "\<exists>s. directory small_filter s example_io (level0_manifest names) [ess] \<and> merge_room s example_io [ess] \<and>
    (\<forall>n. names_free example_io 0 n s)"
proof -
  define fx where "fx es = (case small_filter es of Inr x \<Rightarrow> x | Inl _ \<Rightarrow> [])" for es
  have fx: "small_filter es = Inr (fx es)" "SST_fits es (fx es)" if es: "tiny es" for es
  proof -
    obtain x where "small_filter es = Inr x" "SST_fits es x" using tiny_file [of es] es by (auto simp: sst_at_def)
    then show "small_filter es = Inr (fx es)" "SST_fits es (fx es)" by (simp_all add: fx_def)
  qed
  let ?path = "\<lambda>f. ''db/'' @ f @ ''.tdb''"
  let ?s = "\<lparr>files = map_of (zip (map ?path names) (map (\<lambda>es. sst_image es (fx es)) ess)), open_results = [],
    write_results = [], read_results = []\<rparr> :: os"
  have path: "sst_path example_io b = Inr (?path b)" for b by (simp add: sst_path_def PathJoin_def)
  have "level_file small_filter ?s example_io (names ! i) (ess ! i)" if i: "i < length ess" for i
  proof -
    have "distinct (map ?path names)" using assms(2) by (simp add: distinct_map inj_on_def)
    then have "files ?s (?path (names ! i)) = Some (sst_image (ess ! i) (fx (ess ! i)))"
      using i assms(1) map_of_zip_nth [of "map ?path names" "map (\<lambda>es. sst_image es (fx es)) ess" i] by simp
    moreover have "tiny (ess ! i)" using t nth_mem [OF i] by blast
    ultimately show ?thesis using fx [of "ess ! i"] path
      by (simp add: level_file_def on_disk_def sst_at_def quiet_def sorted_entries_file)
  qed
  then have f: "list_all2 (level_file small_filter ?s example_io) names ess"
    using assms(1) by (simp add: list_all2_conv_all_nth)
  have free: "names_free example_io 0 n ?s" for n
  proof -
    have "?path (hex16 i) \<notin> set (map ?path names)" for i
    proof
      assume "?path (hex16 i) \<in> set (map ?path names)"
      then obtain f where "f \<in> set names" "hex16 i = f" by auto
      then have "length (hex16 i) = 1" using assms(3) by simp
      then show False by (simp add: hex16_def)
    qed
    moreover have "set (map fst (zip (map ?path names) (map (\<lambda>es. sst_image es (fx es)) ess))) = set (map ?path names)"
      by (subst map_fst_zip) (simp_all only: length_map assms(1))
    ultimately have "?path (hex16 i) \<notin> fst ` set (zip (map ?path names) (map (\<lambda>es. sst_image es (fx es)) ess))" for i
      by (simp only: list.set_map not_False_eq_True)
    then have "files ?s (?path (hex16 i)) = None" for i
      unfolding os.select_convs map_of_eq_None_iff .
    then show ?thesis using path by (simp add: names_free_def out_name_def)
  qed
  have l: "length (concat ess) \<le> 1000 * length ess" "sum_list (map (length \<circ> blocks) ess) \<le> 1000 * length ess"
  proof -
    have "length (concat xss) \<le> 1000 * length xss \<and> sum_list (map (length \<circ> blocks) xss) \<le> 1000 * length xss"
      if "\<forall>es\<in>set xss. length es \<le> 1000 \<and> length (blocks es) \<le> 1000" for xss
      using that by (induction xss) auto
    moreover have "\<forall>es\<in>set ess. length es \<le> 1000 \<and> length (blocks es) \<le> 1000"
    proof
      fix es assume "es \<in> set ess"
      from tiny_size(2,1) [OF bspec [OF t this]] show "length es \<le> 1000 \<and> length (blocks es) \<le> 1000" by (rule conjI)
    qed
    ultimately have "length (concat ess) \<le> 1000 * length ess \<and> sum_list (map (length \<circ> blocks) ess) \<le> 1000 * length ess"
      .
    then show "length (concat ess) \<le> 1000 * length ess" "sum_list (map (length \<circ> blocks) ess) \<le> 1000 * length ess"
      by (rule conjunct1, rule conjunct2)
  qed
  have "filter_fits small_filter" by (rule filter_fits_bloom) (simp_all add: default_seeds_def)
  moreover have "length e < sst_limit" if "es \<in> set ess" "e \<in> set es" for es e
    by (rule tiny_size(3) [OF bspec [OF t that(1)] that(2)])
  ultimately have "directory small_filter ?s example_io (level0_manifest names) [ess]"
    using f assms(3) by (auto simp: directory_def quiet_def good_manifest_def newline_def)
  moreover have "merge_room ?s example_io [ess]" using l assms(4) free by (simp add: merge_room_def)
  ultimately show ?thesis using free by blast
qed

lemma example_directory:
  assumes "tiny es1" "tiny es2"
  shows "\<exists>s. directory small_filter s example_io (level0_manifest [''a'', ''b'']) [[es1, es2]] \<and> merge_room s example_io [[es1, es2]]"
    "\<exists>s. directory small_filter s example_io (level0_manifest [''a'']) [[es1]] \<and> merge_room s example_io [[es1]]"
  using example_level0 [of "[''a'', ''b'']" "[es1, es2]"] example_level0 [of "[''a'']" "[es1]"] assms
  by (auto simp: good_name_def newline_def)

lemma directory_elsewhere:
  assumes "directory create s io man fss" "merge_room s io fss" "quiet s'"
    and same: "\<forall>name p. sst_path io name = Inr p \<longrightarrow> files s' p = files s p"
  shows "directory create s' io man fss" "merge_room s' io fss"
proof -
  have "level_file create s' io name es" if "level_file create s io name es" for name es
    using that on_disk_keep [OF _ assms(3)] same unfolding level_file_def by blast
  then have "list_all2 (level_file create s' io) xs ys" if "list_all2 (level_file create s io) xs ys" for xs ys
    using that by (auto elim: list_all2_mono)
  then have "list_all2 (list_all2 (level_file create s' io)) (data_files man) fss"
    using assms(1) unfolding directory_def by (auto elim: list_all2_mono)
  then show "directory create s' io man fss" using assms(1,3) unfolding directory_def by blast
  show "merge_room s' io fss"
    using assms(2) same unfolding merge_room_def names_free_def by metis
qed

lemma loop_idle:
  assumes "settled man (length (data_files man))" "i \<le> length (data_files man)"
  shows "BackgroundCompact_loop create s io man i ret = Inr (ret, man, io, s)"
  using assms(2)
proof (induction i rule: inc_induct)
  case base
  then show ?case by (simp add: BackgroundCompact_loop.simps)
next
  case (step n)
  then have "\<not> kDefaultLevelSize ! n \<le> length (data_files man ! n)"
    using assms(1) by (simp add: settled_def not_le)
  with step show ?case using assms(1)
    by (simp add: BackgroundCompact_loop.simps [of create s io man n] settled_def rd_def Let_def)
qed

section \<open>Properties\<close>



text \<open>C18. When \<open>BackgroundCompact\<close>, whose loop always ends, returns without error, every
  level is below its limit, and there are no more levels than limits.\<close>

theorem BackgroundCompact_settles:
  assumes "BackgroundCompact create s io logger man = Inr (st, man', io', logger', s')" "StatusNoError st"
  shows "\<forall>i<length (data_files man'). i < length kDefaultLevelSize \<and> length (data_files man' ! i) < kDefaultLevelSize ! i"
proof -
  obtain st1 man1 io1 s1 where "BackgroundCompact_loop create s1 io1 man1 0 st1 = Inr (st, man', io', s')"
    using assms by (auto simp: BackgroundCompact_def Let_def res_simps split: if_splits)
  from BackgroundCompact_loop_settles [OF this assms(2)] show ?thesis by (simp add: settled_def)
qed

theorem BackgroundCompact_settles_witness:
  "\<exists>s st man' io' logger' s'. BackgroundCompact small_filter s example_io
      (Writer_new \<lparr>file_name = ''db/LOG'', file_mode = kAppend, is_open = False\<rparr> 1024) (level0_manifest [''a'']) =
      Inr (st, man', io', logger', s') \<and> length (data_files man') = 2 \<and> length (data_files man' ! 0) < 4"
proof -
  let ?e = "entry_bytes [107] [1] 0 kInsert" and ?msg = "''Starting BackgroundCompact.''"
  let ?w = "Writer_new \<lparr>file_name = ''db/LOG'', file_mode = kAppend, is_open = False\<rparr> 1024"
  have t: "tiny [?e]" using tiny_entries by auto
  obtain s where s: "directory small_filter s example_io (level0_manifest [''a'']) [[[?e]]]" "merge_room s example_io [[[?e]]]"
    using example_directory(2) [OF t t] by blast
  have "quiet s" using s(1) by (simp add: directory_def)
  then obtain lst lw s1 where l: "TCIO_Log s ?w ?msg = Inr (lst, lw, s1)" "quiet s1" "\<forall>g. g \<noteq> ''db/LOG'' \<longrightarrow> files s1 g = files s g"
    using Log_writes [of ?w _ s ?msg] by (auto simp: Writer_new_def)
  have "p \<noteq> ''db/LOG''" if "sst_path example_io name = Inr p" for name p
    using that by (auto simp: sst_path_def PathJoin_def dest!: arg_cong [of _ _ last])
  then have same: "\<forall>name p. sst_path example_io name = Inr p \<longrightarrow> files s1 p = files s p" using l(3) by blast
  note s1 = directory_elsewhere [OF s l(2) same]
  have "compactable [[[?e]]] 0 1" by (simp add: compactable_def next_level_def)
  from compaction_ok [OF s1 this disjI2 [OF conjI [OF refl refl]]]
  obtain st man' io' s2 fss' where c: "CompactSST small_filter s1 example_io (level0_manifest [''a'']) 0 0 = Inr (st, man', io', s2)"
    "StatusNoError st" "directory small_filter s2 io' man' fss'" "length (concat fss') \<le> length (concat [[[?e]]]) + length (concat (concat [[[?e]]]))" "length fss' = max (length [[[?e]]]) (0 + 2)"
    by (elim exE conjE) (rule that, simp_all only:)
  have len: "length (data_files man') = 2" using directory_length [OF c(3)] c(5) by simp
  have small: "length (data_files man' ! i) \<le> 2" if "i < 2" for i
  proof -
    have "length (fss' ! i) \<le> length (concat fss')"
      using that c(5) by (simp add: length_concat member_le_sum_list)
    then show ?thesis using directory_levels(3) [OF c(3)] that c(4,5) by simp
  qed
  have "settled man' (length (data_files man'))"
    unfolding settled_def len using small [of 0] small [of 1] by (auto simp: kDefaultLevelSize_def less_2_cases_iff)
  from loop_idle [OF this, of 0]
  have run: "BackgroundCompact small_filter s example_io ?w (level0_manifest [''a'']) = Inr (st, man', io', lw, s2)"
    using l(1) c(1,2) by (simp add: BackgroundCompact_def)
  have "length (data_files man' ! 0) < 4"
    using BackgroundCompact_settles [OF run c(2), unfolded len, rule_format, of 0] by (simp add: kDefaultLevelSize_def)
  then show ?thesis
    using len run by (intro exI [of _ s] exI [of _ st] exI [of _ man'] exI [of _ io'] exI [of _ lw] exI [of _ s2]) simp
qed

end
