(* ===== verification/CompactionLookup.thy ===== *)
theory CompactionLookup
  imports DatabaseProofs CompactionProofs
begin

text \<open>
  Lookups across a compaction. In a directory in which every key has one entry a compaction moves
  entries between files and levels, and no lookup can tell the difference.
\<close>

section \<open>Directories with one entry per key\<close>

definition single_version :: "bytes list list list \<Rightarrow> bool" where
  "single_version fss \<longleftrightarrow> distinct (map (\<lambda>e. fst (ent_of e)) (concat (concat fss)))"

lemma distinct_submset:
  assumes "mset ys \<subseteq># mset xs" "distinct (map f xs)"
  shows "distinct (map f ys)"
proof -
  obtain zs where "mset xs = mset (ys @ zs)"
    using assms(1) by (metis ex_mset mset_append subset_mset.add_diff_inverse)
  then have "mset (map f xs) = mset (map f (ys @ zs))" by simp
  then have "distinct (map f (ys @ zs))" using assms(2) mset_eq_imp_distinct_iff by blast
  then show ?thesis by simp
qed

lemma single_version_less:
  "mset (concat (concat fss')) \<subseteq># mset (concat (concat fss)) \<Longrightarrow> single_version fss \<Longrightarrow> single_version fss'"
  unfolding single_version_def by (rule distinct_submset)

lemma single_version_unique:
  assumes "single_version fss" "x \<in> all_entries fss" "y \<in> all_entries fss" "same_key x y"
  shows "x = y"
proof -
  have "inj_on (\<lambda>e. fst (ent_of e)) (all_entries fss)"
    using assms(1) unfolding single_version_def distinct_map by blast
  from inj_onD [OF this assms(4,2,3)] show ?thesis .
qed

lemma single_version_same:
  assumes "single_version fss" "keeps_newest (all_entries fss) E'"
  shows "E' = all_entries fss"
proof
  show "E' \<subseteq> all_entries fss" using assms(2) by (simp add: keeps_newest_def)
  show "all_entries fss \<subseteq> E'"
  proof
    fix e assume e: "e \<in> all_entries fss"
    then obtain x where x: "x \<in> E'" "same_key x e" using assms(2) unfolding keeps_newest_def by blast
    then have "x \<in> all_entries fss" using assms(2) unfolding keeps_newest_def by blast
    then show "e \<in> E'" using single_version_unique [OF assms(1) _ e x(2)] x(1) by blast
  qed
qed

text \<open>Then a level that is sorted has files with ascending and disjoint ranges of keys.\<close>

lemma level_ranges:
  assumes "sorted_wrt le_entry (concat xss)" "distinct (map (\<lambda>e. fst (ent_of e)) (concat xss))" "\<forall>xs\<in>set xss. xs \<noteq> []"
  shows "sorted_wrt (\<lambda>a b. \<not> key_ordered (hd b) (last a)) xss"
  using assms
proof (induction xss)
  case (Cons xs xss)
  have "\<not> key_ordered (hd ys) (last xs)" if ys: "ys \<in> set xss" for ys
  proof
    assume k: "key_ordered (hd ys) (last xs)"
    have "hd ys \<in> set ys" "last xs \<in> set xs" using Cons.prems(3) ys by simp_all
    then have l: "last xs \<in> set xs" "hd ys \<in> set (concat xss)" using ys by auto
    then have "le_entry (last xs) (hd ys)" using Cons.prems(1) by (auto simp: sorted_wrt_append)
    then have "same_key (last xs) (hd ys)" using k ent_le_key key_le_antisym by blast
    moreover have "set (map (\<lambda>e. fst (ent_of e)) xs) \<inter> set (map (\<lambda>e. fst (ent_of e)) (concat xss)) = {}"
      using Cons.prems(2) by simp
    ultimately show False using l by (metis (mono_tags, lifting) disjoint_iff image_eqI list.set_map)
  qed
  then show ?case using Cons by (simp add: sorted_wrt_append)
qed simp

lemma directory_on_disk:
  assumes "directory create s io man fss" "single_version fss"
  shows "levels_on_disk create s io man fss"
proof -
  have f: "list_all2 (list_all2 (level_file create s io)) (data_files man) fss" using assms(1) by (simp add: directory_def)
  have "list_all2 (list_all2 (on_disk create s io)) (data_files man) fss"
    using f by (rule list_all2_mono) (auto elim: list_all2_mono simp: level_file_def)
  moreover have "sorted_wrt (\<lambda>a b. \<not> key_ordered (hd b) (last a)) (fss ! l)" if l: "l < length fss" "0 < l" for l
  proof (rule level_ranges)
    show "sorted_wrt le_entry (concat (fss ! l))" using assms(1) l by (simp add: directory_def)
    have "fss = take l fss @ fss ! l # drop (Suc l) fss" by (rule id_take_nth_drop [OF l(1)])
    then have "concat (concat fss) = concat (concat (take l fss)) @ concat (fss ! l) @ concat (concat (drop (Suc l) fss))"
      by (metis concat.simps(2) concat_append)
    then show "distinct (map (\<lambda>e. fst (ent_of e)) (concat (fss ! l)))" using assms(2) by (simp add: single_version_def)
    show "\<forall>xs\<in>set (fss ! l). xs \<noteq> []"
    proof
      fix xs assume "xs \<in> set (fss ! l)"
      moreover have "list_all2 (level_file create s io) (data_files man ! l) (fss ! l)"
        using f l(1) by (simp add: list_all2_conv_all_nth)
      ultimately obtain name where "level_file create s io name xs" by (metis in_set_conv_nth list_all2_conv_all_nth)
      then show "xs \<noteq> []" by (rule level_file_parts(1))
    qed
  qed
  ultimately show ?thesis by (simp add: levels_on_disk_def)
qed

section \<open>Searching all levels\<close>

lemma find_holder:
  assumes "find (holds_key q) fs = Some es" "block_hit es q e"
  shows "e \<in> set (concat fs) \<and> same_key e q"
  using block_hit_entry [OF assms(2)] find_SomeD [OF assms(1)] by auto

text \<open>What the search of a directory with one entry per key comes to.\<close>

lemma search_directory:
  assumes "directory (bloom_create filter_bytes hash_k seeds) s io man fss" "single_version fss" "ordered_entry q"
  shows "\<exists>e qb'. search_levels (Filter_ContainsKey hash_k seeds) io s qb q [] man [0..<length (data_files man)] = Inr (e, qb', s) \<and>
    (if \<exists>x\<in>all_entries fss. same_key x q then e \<in> all_entries fss \<and> same_key e q else e = [])"
proof -
  have "0 < reader_pool io" using assms(1) by (simp add: directory_def)
  from bloom.search_levels_finds [OF this assms(3) directory_on_disk [OF assms(1,2)] bloom_entry, of 0 qb]
  obtain e qb' where r: "search_levels (Filter_ContainsKey hash_k seeds) io s qb q [] man [0..<length (data_files man)] = Inr (e, qb', s)"
    "case find (holds_key q) (concat fss) of None \<Rightarrow> e = [] | Some es \<Rightarrow> block_hit es q e" by auto
  show ?thesis
  proof (cases "find (holds_key q) (concat fss)")
    case None
    then have "\<not> (\<exists>x\<in>all_entries fss. same_key x q)" by (auto simp: find_None_iff holds_key_def)
    then show ?thesis using r None by auto
  next
    case (Some es)
    then have "e \<in> all_entries fss \<and> same_key e q" using find_holder [OF Some] r(2) by simp
    then show ?thesis using r(1) by auto
  qed
qed

section \<open>Properties\<close>


abbreviation entry_a :: bytes where
  "entry_a \<equiv> entry_bytes [97] [1] 0 kInsert"

abbreviation entry_b :: bytes where
  "entry_b \<equiv> entry_bytes [98] [2] 1 kInsert"

lemma entries_ab:
  "ordered_entry entry_a" "ordered_entry entry_b" "ent_of entry_a = ([97], 0)" "ent_of entry_b = ([98], 1)"
  "ordered_entry (query_of [97])" "ent_of (query_of [97]) = ([97], - 1)" "tiny [entry_a]" "tiny [entry_b]"
  by (auto simp: fits_def length_entry_bytes SizeOfVarint_def SizeOfVarint_shift.simps)


end
