(* ===== verification/DatabaseCompaction.thy ===== *)
theory DatabaseCompaction
  imports DatabaseFlush CompactionLookup
begin

text \<open>
  The background task with a compaction: \<open>MVCCWriteLevel0\<close> on a database whose level 0 is full
  compacts the directory before it writes the table. With one entry per key no lookup sees either.
\<close>

section \<open>One compaction in the background\<close>

text \<open>What \<open>BackgroundCompact\<close> needs to be one compaction: afterwards every level is below its limit.
  The flush then makes a version that no reader holds.\<close>

definition compaction_settles :: "(bytes list \<Rightarrow> bytes res) \<Rightarrow> TCDB \<Rightarrow> bool" where
  "compaction_settles create db \<longleftrightarrow> (\<forall>lst lg s st man io s'.
     TCIO_Log (db_os db) (db_logger db) ''Starting BackgroundCompact.'' = Inr (lst, lg, s) \<longrightarrow>
     CompactSST create s (db_io db) (latest_manifest db) 0 0 = Inr (st, man, io, s') \<longrightarrow>
     settled man (length (data_files man)) \<and>
     Manifest_Encode (push_level0 man (hex16 (file_id io))) \<notin> fst ` set (counts_of (version_ctrl db)))"

definition log_apart :: "TCDB \<Rightarrow> bool" where
  "log_apart db \<longleftrightarrow> 0 < kMaxBufferSize (db_logger db) \<and> buffer (db_logger db) = [] \<and>
     (\<exists>d. dbfile (db_logger db) = Some d \<and> (\<forall>name. sst_path (db_io db) name \<noteq> Inr (file_name d)))"

lemma BackgroundCompact_once:
  assumes "directory create (db_os db) (db_io db) (latest_manifest db) fss" "merge_room (db_os db) (db_io db) fss"
    and "compactable fss 0 1" "log_apart db" "compaction_settles create db"
  shows "\<exists>st man io lg s s' fss'. BackgroundCompact create (db_os db) (db_io db) (db_logger db) (latest_manifest db) =
      Inr (st, man, io, lg, s') \<and> StatusNoError st \<and>
    directory create s' io man fss' \<and> keeps_newest (all_entries fss) (all_entries fss') \<and>
    mset (concat (concat fss')) \<subseteq># mset (concat (concat fss)) \<and>
    (\<exists>n\<le>length (concat (concat fss)). extends s (db_io db) s' io n) \<and>
    (\<forall>name p. sst_path (db_io db) name = Inr p \<longrightarrow> files s p = files (db_os db) p) \<and>
    Manifest_Encode (push_level0 man (hex16 (file_id io))) \<notin> fst ` set (counts_of (version_ctrl db))"
proof -
  let ?msg = "''Starting BackgroundCompact.''" and ?man = "latest_manifest db"
  obtain d where d: "dbfile (db_logger db) = Some d" "\<forall>name. sst_path (db_io db) name \<noteq> Inr (file_name d)"
    and lg: "0 < kMaxBufferSize (db_logger db)" "buffer (db_logger db) = []" using assms(4) by (auto simp: log_apart_def)
  have "quiet (db_os db)" using assms(1) by (simp add: directory_def)
  then obtain lst lg1 s where l: "TCIO_Log (db_os db) (db_logger db) ?msg = Inr (lst, lg1, s)" "quiet s"
    "\<forall>g. g \<noteq> file_name d \<longrightarrow> files s g = files (db_os db) g"
    using Log_writes [OF d(1) lg, of "db_os db" ?msg] by blast
  have same: "\<forall>name p. sst_path (db_io db) name = Inr p \<longrightarrow> files s p = files (db_os db) p"
  proof (intro allI impI)
    fix name p assume "sst_path (db_io db) name = Inr p"
    then have "p \<noteq> file_name d" using d(2) by auto
    then show "files s p = files (db_os db) p" using l(3) by blast
  qed
  note s = directory_elsewhere [OF assms(1,2) l(2) same]
  obtain st man io s' fss' where c: "CompactSST create s (db_io db) ?man 0 0 = Inr (st, man, io, s')" "StatusNoError st"
    "directory create s' io man fss'" "keeps_newest (all_entries fss) (all_entries fss')"
    "mset (concat (concat fss')) \<subseteq># mset (concat (concat fss))"
    "\<exists>n\<le>length (concat (concat fss)). extends s (db_io db) s' io n"
    using compaction_ok [OF s assms(3) disjI2 [OF conjI [OF refl refl]]]
    by (elim exE conjE) (rule that, simp_all only:, blast)
  have settled: "settled man (length (data_files man))"
    "Manifest_Encode (push_level0 man (hex16 (file_id io))) \<notin> fst ` set (counts_of (version_ctrl db))"
    using assms(5) l(1) c(1) unfolding compaction_settles_def by blast+
  have "0 < length fss" using assms(3) by (simp add: compactable_def)
  then have "data_files ?man \<noteq> []" using directory_length [OF assms(1)] by auto
  then have "BackgroundCompact create (db_os db) (db_io db) (db_logger db) ?man = Inr (st, man, io, lg1, s')"
    using l(1) c(1,2) loop_idle [OF settled(1), of 0 create s' io st] by (simp add: BackgroundCompact_def)
  then show ?thesis using c(2-6) same settled(2)
    by (intro exI [of _ st] exI [of _ man] exI [of _ io] exI [of _ lg1] exI [of _ s] exI [of _ s'] exI [of _ fss'] conjI)
qed

text \<open>The next file name is free afterwards.\<close>

lemma next_name_free:
  assumes "names_free io 0 (Suc k) s" "extends s io s' io' n" "n \<le> k" "k < 2 ^ 64"
  shows "\<exists>p. sst_path io' (hex16 (file_id io')) = Inr p \<and> files s' p = None"
proof -
  have io': "io' = io\<lparr>file_id := file_id io + of_nat n\<rparr>" using assms(2) by (simp add: extends_def)
  then have name: "hex16 (file_id io') = out_name io n" by (simp add: out_name_def)
  obtain p where p: "sst_path io (out_name io n) = Inr p" "files s p = None"
    using assms(1,3) unfolding names_free_def by (meson le_imp_less_Suc zero_le)
  have "sst_path io (out_name io j) \<noteq> Inr p" if "j < n" for j
    using out_name_inj [OF p(1), of j] that assms(3,4) by auto
  moreover have "PathJoin (kDatabaseDir io) kManifestFilename \<noteq> Inr p" using sst_path_manifest [OF p(1)] by blast
  ultimately have "files s' p = None" using assms(2) p(2) by (simp add: extends_def)
  then show ?thesis using p(1) unfolding name by (simp add: io' sst_path_def)
qed

section \<open>Lookups with one entry per key\<close>

lemma rmap_fst_pair [simp]: "rmap fst (rmap (\<lambda>v. (v, x)) m) = m"
  by (cases m) simp_all

lemma Get_one_version:
  assumes "db_sound (bloom_create filter_bytes hash_k seeds) hash mem K db m fss"
    and "seq_bytes mem key = k" "k \<in> K" "fits k" "k \<noteq> []" "lookup_value (m k) = []"
    and "inj_on (\<lambda>e. fst (ent_of e)) (all_entries fss)"
  shows "e \<in> all_entries fss \<Longrightarrow> fst (ent_of e) = k \<Longrightarrow>
      rmap fst (TCDB_Get hash mem (Filter_ContainsKey hash_k seeds) db key) = EntryValue e"
    and "(\<And>e. e \<in> all_entries fss \<Longrightarrow> fst (ent_of e) \<noteq> k) \<Longrightarrow>
      rmap fst (TCDB_Get hash mem (Filter_ContainsKey hash_k seeds) db key) = Inr []"
proof -
  let ?get = "TCDB_Get hash mem (Filter_ContainsKey hash_k seeds) db key"
  obtain db' where g: "case find (holds_key (query_of k)) (concat fss) of
        None \<Rightarrow> ?get = Inr ([], db')
      | Some es \<Rightarrow> \<exists>e. block_hit es (query_of k) e \<and> ?get = rmap (\<lambda>v. (v, db')) (EntryValue e)"
    using Get_answers [OF assms(1-5)] assms(6) by auto
  have q: "fst (ent_of (query_of k)) = k" using assms(4) by simp
  have holder: "find (holds_key (query_of k)) (concat fss) = None \<longleftrightarrow> (\<forall>x\<in>all_entries fss. fst (ent_of x) \<noteq> k)"
    unfolding find_None_iff holds_key_def q by auto
  show "rmap fst ?get = Inr []" if "\<And>e. e \<in> all_entries fss \<Longrightarrow> fst (ent_of e) \<noteq> k"
    using g holder that by simp
  show "rmap fst ?get = EntryValue e" if e: "e \<in> all_entries fss" "fst (ent_of e) = k"
  proof -
    obtain es where es: "find (holds_key (query_of k)) (concat fss) = Some es" using holder e by auto
    then obtain x where x: "block_hit es (query_of k) x" "?get = rmap (\<lambda>v. (v, db')) (EntryValue x)" using g by auto
    have "x \<in> all_entries fss" "same_key x e" using find_holder [OF es x(1)] e(2) q by simp_all
    then have "x = e" using inj_onD [OF assms(7) _ _ e(1)] by blast
    then show ?thesis using x(2) by simp
  qed
qed

section \<open>Properties\<close>

text \<open>A database whose level 0 is full, and a table that can be flushed: the directory is in order,
  there are names for the new files, one compaction is enough, and no key is there twice.\<close>

definition compacts_and_flushes ::
    "(bytes list \<Rightarrow> bytes res) \<Rightarrow> TCDB \<Rightarrow> bytes list list list \<Rightarrow> table \<Rightarrow> bytes list \<Rightarrow> bool" where
  "compacts_and_flushes create db fss t es \<longleftrightarrow>
     directory create (db_os db) (db_io db) (latest_manifest db) fss \<and> merge_room (db_os db) (db_io db) fss \<and>
     names_free (db_io db) 0 (Suc (length (concat (concat fss)))) (db_os db) \<and>
     compactable fss 0 1 \<and> 4 \<le> length (fss ! 0) \<and> log_apart db \<and> compaction_settles create db \<and>
     TCTable_EntrySet t = Inr es \<and> es \<noteq> [] \<and> (\<exists>flex. create es = Inr flex \<and> SST_fits es flex) \<and>
     distinct (map (\<lambda>e. fst (ent_of e)) (es @ concat (concat fss)))"

lemma all_entries_push: "all_entries (push_files fss es) = set es \<union> all_entries fss"
  by (cases fss) (auto simp: push_files_def)

lemma compact_and_flush:
  assumes "db_sound create hash mem K db m fss" "table_rel t mt" "compacts_and_flushes create db fss t es"
  shows "\<exists>st db' fss'. MVCCWriteLevel0 create db t = Inr (st, db') \<and> StatusNoError st \<and> mem_table db' = mem_table db \<and>
    db_sound create hash mem K db' m fss' \<and> all_entries fss' = set es \<union> all_entries fss \<and> quiet (db_os db')"
proof -
  have h: "directory create (db_os db) (db_io db) (latest_manifest db) fss" "merge_room (db_os db) (db_io db) fss"
    "names_free (db_io db) 0 (Suc (length (concat (concat fss)))) (db_os db)"
    "compactable fss 0 1" "4 \<le> length (fss ! 0)" "log_apart db" "compaction_settles create db"
    "TCTable_EntrySet t = Inr es" "es \<noteq> []" "distinct (map (\<lambda>e. fst (ent_of e)) (es @ concat (concat fss)))"
    and "\<exists>flex. create es = Inr flex \<and> SST_fits es flex"
    using assms(3) by (simp_all add: compacts_and_flushes_def)
  then obtain flex where flex: "create es = Inr flex" "SST_fits es flex" by blast
  have single: "single_version fss" using h(10) by (simp add: single_version_def)
  obtain st man io lg s s' fss1 where c: "BackgroundCompact create (db_os db) (db_io db) (db_logger db) (latest_manifest db) =
      Inr (st, man, io, lg, s')" "StatusNoError st"
    "directory create s' io man fss1" "keeps_newest (all_entries fss) (all_entries fss1)"
    "mset (concat (concat fss1)) \<subseteq># mset (concat (concat fss))"
    "\<exists>n\<le>length (concat (concat fss)). extends s (db_io db) s' io n"
    "\<forall>name p. sst_path (db_io db) name = Inr p \<longrightarrow> files s p = files (db_os db) p"
    "Manifest_Encode (push_level0 man (hex16 (file_id io))) \<notin> fst ` set (counts_of (version_ctrl db))"
    using BackgroundCompact_once [OF h(1,2,4,6,7)] by blast
  have "names_free (db_io db) 0 (Suc (length (concat (concat fss)))) s"
    using h(3) c(7) unfolding names_free_def by metis
  moreover have "length (concat (concat fss)) < 2 ^ 64" using h(2) by (simp add: merge_room_def)
  ultimately obtain p where p: "sst_path io (hex16 (file_id io)) = Inr p" "files s' p = None"
    using next_name_free c(6) by blast
  have l: "0 < length fss" using h(4) by (simp add: compactable_def)
  have "data_files (latest_manifest db) \<noteq> [] \<and> kDefaultLevelSize ! 0 \<le> length (data_files (latest_manifest db) ! 0)"
    using directory_length [OF h(1)] directory_levels(3) [OF h(1) l] l h(5) by (auto simp: kDefaultLevelSize_def)
  then have pre: "(if data_files (latest_manifest db) \<noteq> [] \<and> kDefaultLevelSize ! 0 \<le> length (data_files (latest_manifest db) ! 0)
      then BackgroundCompact create (db_os db) (db_io db) (db_logger db) (latest_manifest db)
      else Inr (NoError, latest_manifest db, db_io db, db_logger db, db_os db)) = Inr (st, man, io, lg, s')"
    using c(1) by simp
  have disk: "levels_on_disk create s' io man fss1" by (rule directory_on_disk [OF c(3) single_version_less [OF c(5) single]])
  have rest: "0 < reader_pool io" "quiet s'" using c(3) by (simp_all add: directory_def)
  obtain st2 db' where f: "MVCCWriteLevel0 create db t = Inr (st2, db')" "StatusNoError st2"
    "db_sound create hash mem K db' m (push_files fss1 es)" "mem_table db' = mem_table db" "quiet (db_os db')"
    using flush_after [where create = create, OF assms(1) pre c(2) disk rest h(8) table_entries(1,2) [OF assms(2) h(8)] h(9) flex p c(8)]
    by blast
  moreover have "all_entries (push_files fss1 es) = set es \<union> all_entries fss"
    unfolding all_entries_push single_version_same [OF single c(4)] ..
  ultimately show ?thesis by (intro exI [of _ st2] exI [of _ db'] exI [of _ "push_files fss1 es"]) simp
qed

lemma table_misses:
  assumes "table_rel t m" "TCTable_EntrySet t = Inr es" "m k = None" "e \<in> set es"
  shows "fst (ent_of e) \<noteq> k"
proof -
  obtain es' where es': "iec.holds (skl t) es'"
    "\<forall>key. case m key of None \<Rightarrow> \<forall>e\<in>set es'. fst (ent_of e) \<noteq> key | Some d \<Rightarrow> \<exists>e. newest es' key e \<and> describes d e"
    using assms(1) by (auto simp: table_rel_def)
  have "es' = es" using assms(2) iec.EntrySet_holds [OF es'(1)] by (simp add: TCTable_EntrySet_def)
  then show ?thesis using spec [OF es'(2), of k] assms(3,4) by auto
qed


text \<open>A database with four files of one entry each.\<close>

abbreviation full_level :: "bytes list list" where
  "full_level \<equiv> [[entry_bytes [97] [1] 0 kInsert], [entry_bytes [98] [1] 1 kInsert], [entry_bytes [99] [1] 2 kInsert],
     [entry_bytes [100] [1] 3 kInsert]]"

definition full_db :: "os \<Rightarrow> TCDB" where
  "full_db s = example_db\<lparr>db_io := example_io, db_os := s,
     version_ctrl := \<lparr>version_list = [(0, \<lparr>ref = 1, version_manifest = level0_manifest [''a'', ''b'', ''c'', ''d''], version_id = 0\<rparr>)],
       version_map = [Manifest_Encode (level0_manifest [''a'', ''b'', ''c'', ''d'']) \<mapsto> 0], next_node = 1\<rparr>\<rparr>"

lemma full_level_entries:
  "\<forall>es\<in>set full_level. tiny es" "distinct (map (\<lambda>e. fst (ent_of e)) (first_version # concat full_level))"
  "single_version [full_level]" "compactable [full_level] 0 1"
  by (auto simp: fits_def length_entry_bytes SizeOfVarint_def SizeOfVarint_shift.simps tiny_entries single_version_def
      compactable_def next_level_def apart_def ent_le_def)

lemma full_db_simps [simp]:
  "db_io (full_db s) = example_io" "db_os (full_db s) = s" "latest_manifest (full_db s) = level0_manifest [''a'', ''b'', ''c'', ''d'']"
  "mem_table (full_db s) = TCTable_new 0" "query_cache (full_db s) = query_cache example_db"
  "db_logger (full_db s) = Writer_new \<lparr>file_name = ''db/LOG'', file_mode = kAppend, is_open = False\<rparr> 1024"
  by (simp_all add: full_db_def latest_manifest_def example_db_def)

lemma full_db_log: "log_apart (full_db s)"
  by (auto simp: log_apart_def Writer_new_def sst_path_def PathJoin_def dest!: arg_cong [of _ _ last])

lemma full_db_sound:
  assumes "directory small_filter s example_io (level0_manifest [''a'', ''b'', ''c'', ''d'']) [full_level]"
  shows "db_sound small_filter hash example_mem {[107]} (full_db s) (\<lambda>_. None) [full_level]"
proof -
  have "levels_on_disk small_filter s example_io (level0_manifest [''a'', ''b'', ''c'', ''d'']) [full_level]"
    by (rule directory_on_disk [OF assms full_level_entries(3)])
  moreover have "ctrl_ok (version_ctrl (full_db s))" "version_list (version_ctrl (full_db s)) \<noteq> []"
    by (simp_all add: full_db_def ctrl_ok_def ManifestStr_def)
  moreover have "cold_cache hash example_mem {[107]} (query_cache example_db)"
    using example_db_sound [where hash = hash] by (simp add: db_sound_def)
  ultimately show ?thesis using table_rel_new by (simp add: db_sound_def)
qed

lemma full_db_settles:
  assumes "directory small_filter s example_io (level0_manifest [''a'', ''b'', ''c'', ''d'']) [full_level]"
    and "merge_room s example_io [full_level]"
  shows "compaction_settles small_filter (full_db s)"
  unfolding compaction_settles_def
proof (intro allI impI)
  fix lst lg s1 st man io s'
  let ?man = "level0_manifest [''a'', ''b'', ''c'', ''d'']" and ?w = "Writer_new \<lparr>file_name = ''db/LOG'', file_mode = kAppend, is_open = False\<rparr> 1024"
  assume l: "TCIO_Log (db_os (full_db s)) (db_logger (full_db s)) ''Starting BackgroundCompact.'' = Inr (lst, lg, s1)"
    and c: "CompactSST small_filter s1 (db_io (full_db s)) (latest_manifest (full_db s)) 0 0 = Inr (st, man, io, s')"
  have "quiet s" using assms(1) by (simp add: directory_def)
  then have s1: "quiet s1" "\<forall>g. g \<noteq> ''db/LOG'' \<longrightarrow> files s1 g = files s g"
    using Log_writes [of ?w _ s "''Starting BackgroundCompact.''"] l by (auto simp: Writer_new_def)
  have "p \<noteq> ''db/LOG''" if "sst_path example_io name = Inr p" for name p
    using that by (auto simp: sst_path_def PathJoin_def dest!: arg_cong [of _ _ last])
  then have same: "\<forall>name p. sst_path example_io name = Inr p \<longrightarrow> files s1 p = files s p" using s1(2) by blast
  note d = directory_elsewhere [OF assms s1(1) same]
  obtain st2 man2 io2 s2 fss2 where r: "CompactSST small_filter s1 example_io ?man 0 0 = Inr (st2, man2, io2, s2)"
    "StatusNoError st2" "directory small_filter s2 io2 man2 fss2"
    "length (concat fss2) \<le> length (concat [full_level]) + length (concat (concat [full_level]))"
    "length fss2 = max (length [full_level]) (0 + 2)"
    using compaction_ok [OF d full_level_entries(4) disjI2 [OF conjI [OF refl refl]]]
    by (elim exE conjE) (rule that, simp_all only:)
  have eq: "man2 = man" using c r(1) by simp
  have "length (data_files man2 ! 0) < length (data_files ?man ! 0)"
    using compaction_keeps_less [OF d full_level_entries(4) disjI2 [OF conjI [OF refl refl]] r(1)] .
  then have l0: "length (data_files man2 ! 0) < 4" by simp
  have len: "length (data_files man2) = 2" using directory_length [OF r(3)] r(5) by simp
  have "length (fss2 ! 1) \<le> length (concat fss2)" using r(5) by (simp add: length_concat member_le_sum_list)
  then have l1: "length (data_files man2 ! 1) < 10" using directory_levels(3) [OF r(3), of 1] r(4,5) by simp
  have "settled man2 (length (data_files man2))"
    unfolding settled_def len using l0 l1 by (auto simp: kDefaultLevelSize_def less_2_cases_iff)
  moreover have "Manifest_Encode (push_level0 man2 (hex16 (file_id io))) \<noteq> Manifest_Encode ?man"
  proof
    assume e: "Manifest_Encode (push_level0 man2 (hex16 (file_id io))) = Manifest_Encode ?man"
    have "good_manifest (push_level0 man2 (hex16 (file_id io)))" "good_manifest ?man"
      using r(3) assms(1) good_push_level0 good_name_hex16 by (auto simp: directory_def)
    then have "push_level0 man2 (hex16 (file_id io)) = ?man" using e Manifest_Decode_Encode by (metis sum.inject(2))
    then have "length (data_files (push_level0 man2 (hex16 (file_id io)))) = 1" by simp
    then show False using len by (cases "data_files man2") (auto simp: push_level0_def)
  qed
  moreover have "fst ` set (counts_of (version_ctrl (full_db s))) = {Manifest_Encode ?man}"
    by (simp add: full_db_def counts_of_def ManifestStr_def)
  ultimately show "settled man (length (data_files man)) \<and>
      Manifest_Encode (push_level0 man (hex16 (file_id io))) \<notin> fst ` set (counts_of (version_ctrl (full_db s)))"
    using eq by simp
qed


end
