(* ===== verification/DatabaseReopen.thy ===== *)
theory DatabaseReopen
  imports DatabaseFlush
begin

text \<open>
  Closing a database and opening it again. \<open>~TCDB\<close> deletes the memory table and writes nothing; the
  constructor reads the MANIFEST of the directory. So the data files survive and the table does
  not, and the numbers of entries and files start at 0 again.
\<close>

section \<open>The destructor\<close>

text \<open>What is left of a database that has been deleted is what it wrote.\<close>

definition TCDB_delete :: "TCDB \<Rightarrow> os" where
  "TCDB_delete db = db_os db"

section \<open>Reading a directory\<close>

text \<open>A directory with both metadata files, the MANIFEST being that of \<open>man\<close>.\<close>

definition readable_directory :: "os \<Rightarrow> string \<Rightarrow> Manifest \<Rightarrow> bool" where
  "readable_directory s dir man \<longleftrightarrow> quiet s \<and> good_manifest man \<and>
     (\<exists>mpath lpath. PathJoin dir kManifestFilename = Inr mpath \<and> PathJoin dir kLogFilename = Inr lpath \<and>
       files s mpath = Some (str_bytes (Manifest_Encode man)) \<and> lpath \<in> dom (files s))"

lemma open_append_same:
  assumes "quiet s" "f \<in> dom (files s)"
  shows "\<exists>w. TCLogger_new s f = (w, s)"
proof -
  have "os_open s f kAppend = (True, s)"
    using assms by (auto simp: os_open_def quiet_def content_def Let_def fun_upd_idem)
  then show ?thesis by (simp add: TCLogger_new_def DBFile_new_def DBFile_Open_def Let_def)
qed

lemma TCIO_new_readable:
  assumes "readable_directory s dir man"
  shows "TCIO_new s dir = Inr (\<lparr>kDatabaseDir = dir, file_id = 0, reader_pool = 4\<rparr>, s)"
  using assms by (auto simp: readable_directory_def TCIO_new_def BuildMetadataFile_def Let_def)

definition reads_numbers :: "Config \<Rightarrow> bool" where
  "reads_numbers config \<longleftrightarrow> (\<exists>a b. stoi (GetConfig config ''default_core_thread_num'') = Inr a \<and>
     stoi (GetConfig config ''max_task_queue_size'') = Inr b)"

lemma TCDB_new_readable:
  assumes "readable_directory s (GetConfig config ''database_dir'') man" "reads_numbers config"
  shows "\<exists>db a b. TCDB_new s config = Inr (db, a, b) \<and> db_os db = s \<and> latest_manifest db = man \<and>
    mem_table db = TCTable_new 0 \<and> db_io db = \<lparr>kDatabaseDir = GetConfig config ''database_dir'', file_id = 0, reader_pool = 4\<rparr> \<and>
    ctrl_ok (version_ctrl db) \<and> version_list (version_ctrl db) \<noteq> [] \<and>
    query_cache db = TCCache_new kDefaultCacheSize"
proof -
  let ?dir = "GetConfig config ''database_dir''"
  let ?io = "\<lparr>kDatabaseDir = ?dir, file_id = 0, reader_pool = 4\<rparr>"
  obtain mpath lpath where p: "quiet s" "good_manifest man" "PathJoin ?dir kManifestFilename = Inr mpath"
    "PathJoin ?dir kLogFilename = Inr lpath" "files s mpath = Some (str_bytes (Manifest_Encode man))" "lpath \<in> dom (files s)"
    using assms(1) by (auto simp: readable_directory_def)
  obtain w where w: "TCLogger_new s lpath = (w, s)" using open_append_same [OF p(1,6)] by blast
  have m: "ReadManifest s ?io = Inr (NoError, Some man, s)"
    using p(1,3,5) Manifest_Decode_Encode [OF p(2)] by (intro ReadManifest_reads) simp_all
  obtain a b where n: "stoi (GetConfig config ''default_core_thread_num'') = Inr a"
    "stoi (GetConfig config ''max_task_queue_size'') = Inr b"
    using assms(2) by (auto simp: reads_numbers_def)
  show ?thesis
    using TCIO_new_readable [OF assms(1)] p(4) w m n
    by (simp add: TCDB_new_def Let_def TCVersion_new_def AppendVersion_def TCVersionCtrl_new_def latest_manifest_def ctrl_ok_def)
qed

section \<open>Properties\<close>

text \<open>C16. Closing a database and opening its directory again gives a sound database over exactly the
  same data files, with an empty memory table: a value that only the table had reads as the
  empty string afterwards. The numbers of entries and of files restart at 0.\<close>

theorem reopen_keeps_files_only:
  assumes "db_sound (bloom_create filter_bytes hash_k seeds) hash mem K db m fss"
    and "GetConfig config ''database_dir'' = kDatabaseDir (db_io db)" "reads_numbers config"
    and "readable_directory (db_os db) (kDatabaseDir (db_io db)) (latest_manifest db)"
    and "seq_bytes mem key = k" "k \<in> K" "fits k" "k \<noteq> []" "m k = Some (Some v)" "v \<noteq> []"
    and "find (holds_key (query_of k)) (concat fss) = None"
  shows "\<exists>db' a b. TCDB_new (TCDB_delete db) config = Inr (db', a, b) \<and>
    db_sound (bloom_create filter_bytes hash_k seeds) hash mem K db' (\<lambda>_. None) fss \<and>
    rmap fst (TCDB_Get hash mem (Filter_ContainsKey hash_k seeds) db key) = Inr v \<and>
    rmap fst (TCDB_Get hash mem (Filter_ContainsKey hash_k seeds) db' key) = Inr [] \<and>
    entry_id (mem_table db') = 0 \<and> file_id (db_io db') = 0"
proof -
  let ?c = "bloom_create filter_bytes hash_k seeds" and ?p = "Filter_ContainsKey hash_k seeds"
  obtain db' a b where n: "TCDB_new (TCDB_delete db) config = Inr (db', a, b)" "db_os db' = db_os db"
    "latest_manifest db' = latest_manifest db" "mem_table db' = TCTable_new 0"
    "db_io db' = \<lparr>kDatabaseDir = kDatabaseDir (db_io db), file_id = 0, reader_pool = 4\<rparr>"
    "ctrl_ok (version_ctrl db')" "version_list (version_ctrl db') \<noteq> []" "query_cache db' = TCCache_new kDefaultCacheSize"
    using TCDB_new_readable [of "db_os db" config, unfolded assms(2), OF assms(4,3)] by (auto simp: TCDB_delete_def)
  have "no_collision hash K" using assms(1) by (simp add: db_sound_def cold_cache_def)
  then have "cold_cache hash mem K (query_cache db')"
    unfolding n(8) using cache_rel_new [of hash mem K kDefaultCacheSize]
    by (auto simp: cold_cache_def intro: exI [of _ "[]"])
  moreover have "on_disk ?c (db_os db') (db_io db') = on_disk ?c (db_os db) (db_io db)"
    unfolding n(2,5) by (intro ext) (simp add: on_disk_def sst_path_def)
  then have "levels_on_disk ?c (db_os db') (db_io db') (latest_manifest db') fss"
    using assms(1) by (simp add: db_sound_def levels_on_disk_def n(3))
  ultimately have sound: "db_sound ?c hash mem K db' (\<lambda>_. None) fss"
    using n(4-7) table_rel_new by (simp add: db_sound_def)
  have before: "rmap fst (TCDB_Get hash mem ?p db key) = Inr v"
    using Get_answers [OF assms(1,5-8)] assms(9,10) by (auto simp: lookup_value_def)
  have after: "rmap fst (TCDB_Get hash mem ?p db' key) = Inr []"
    using Get_answers [OF sound assms(5-8)] assms(11) by (auto simp: lookup_value_def)
  from n(1,4,5) sound before after show ?thesis
    by (intro exI [of _ db'] exI [of _ a] exI [of _ b]) (simp add: TCTable_new_def)
qed

theorem reopen_keeps_files_only_witness:
  "\<exists>db config db' a b. rmap fst (TCDB_Get example_hash example_mem (Filter_ContainsKey 6 default_seeds) db (0, 1)) = Inr [1] \<and>
    TCDB_new (TCDB_delete db) config = Inr (db', a, b) \<and>
    rmap fst (TCDB_Get example_hash example_mem (Filter_ContainsKey 6 default_seeds) db' (0, 1)) = Inr []"
proof -
  obtain t where t: "table_rel t [[107] \<mapsto> Some [1]]" using example_tables(1) by blast
  let ?s = "\<lparr>files = [''db/MANIFEST'' \<mapsto> str_bytes (Manifest_Encode example_manifest), ''db/LOG'' \<mapsto> []],
    open_results = [], write_results = [], read_results = []\<rparr>"
  let ?db = "example_db\<lparr>mem_table := t, db_os := ?s\<rparr>"
  let ?config = "[''database_dir'' \<mapsto> ''db'', ''default_core_thread_num'' \<mapsto> ''4'', ''max_task_queue_size'' \<mapsto> ''10'']"
  have sound: "db_sound (bloom_create (\<lambda>_. 8) 6 default_seeds) example_hash example_mem {[107]} ?db [[107] \<mapsto> Some [1]] []"
    using example_db_sound [of "bloom_create (\<lambda>_. 8) 6 default_seeds" example_hash] t
    by (simp add: db_sound_def latest_manifest_def levels_on_disk_def example_db_def)
  have dir: "readable_directory (db_os ?db) (kDatabaseDir (db_io ?db)) (latest_manifest ?db)"
    by (simp add: readable_directory_def quiet_def example_db_def latest_manifest_def good_manifest_def newline_def
        PathJoin_def kManifestFilename_def kLogFilename_def)
  have name: "GetConfig ?config ''database_dir'' = kDatabaseDir (db_io ?db)" by (simp add: GetConfig_def example_db_def)
  have numbers: "reads_numbers ?config"
    by (simp add: reads_numbers_def GetConfig_def stoi_def is_digit_def digit_of_def)
  have key: "seq_bytes example_mem (0, 1) = [107]" "[107] \<in> {[107 :: byte]}" "fits [107]" "[107] \<noteq> ([] :: bytes)"
    "[[107] \<mapsto> Some [1]] [107] = Some (Some [1 :: byte])" "[1] \<noteq> ([] :: bytes)"
    "find (holds_key (query_of [107])) (concat []) = None" by (simp_all add: seq_bytes_def fits_def)
  from reopen_keeps_files_only [OF sound name numbers dir key] show ?thesis by blast
qed

end
