(* ===== verification/TaskPool.thy ===== *)
theory TaskPool
  imports Prelude
begin

text \<open>
  \<open>ConcurrentQueue\<close> and \<open>TCThreadPool\<close> (\<open>include/util/thread_pool.h\<close>, \<open>src/util/thread_pool.cc\<close>).

  A worker is where \<open>BackgroundThreadTask\<close> has brought it; the mutex \<open>mtx_\<close> has at most one owner.
  The queue has a mutex of its own, so each of its operations is one step. \<open>SubmitTask\<close> and
  \<open>Shutdown\<close> change the shared state and notify in two steps, neither under \<open>mtx_\<close>. The two reads
  of the waiting condition are one step. \<open>submitted\<close> and \<open>executed\<close> are records of the history.
\<close>

section \<open>The queue\<close>

definition Enqueue :: "'a list \<Rightarrow> 'a \<Rightarrow> 'a list" where
  "Enqueue q t = q @ [t]"

definition Dequeue :: "'a list \<Rightarrow> 'a option \<times> 'a list" where
  "Dequeue q = (case q of [] \<Rightarrow> (None, q) | t # ts \<Rightarrow> (Some t, ts))"

definition Queue_empty :: "'a list \<Rightarrow> bool" where
  "Queue_empty q \<longleftrightarrow> length q = 0"

section \<open>The pool\<close>

datatype 't worker = Loops | Locks | Checks | Sleeps | Waits | Woken | Takes | Runs 't | Gone

record 't pool =
  running :: bool
  task_queue :: "'t list"
  workers :: "'t worker list"
  mtx :: "nat option"
  to_notify :: nat
  to_notify_all :: nat
  submitted :: "'t list"
  executed :: "'t list"

definition TCThreadPool_new :: "'t pool" where
  "TCThreadPool_new = \<lparr>running = False, task_queue = [], workers = [], mtx = None, to_notify = 0,
     to_notify_all = 0, submitted = [], executed = []\<rparr>"

definition moves :: "'t pool \<Rightarrow> nat \<Rightarrow> 't worker \<Rightarrow> 't pool" where
  "moves p t w = p\<lparr>workers := (workers p)[t := w]\<rparr>"

text \<open>What worker \<open>t\<close> does next in \<open>BackgroundThreadTask\<close>; \<open>None\<close> while it cannot go on.\<close>

definition BackgroundThreadTask :: "nat \<Rightarrow> 't pool \<Rightarrow> 't pool option" where
  "BackgroundThreadTask t p =
     (case workers p ! t of
        Loops \<Rightarrow> Some (moves p t (if running p then Locks else Gone))
      | Locks \<Rightarrow> if mtx p = None then Some (moves (p\<lparr>mtx := Some t\<rparr>) t Checks) else None
      | Checks \<Rightarrow> Some (moves p t (if running p \<and> Queue_empty (task_queue p) then Sleeps else Takes))
      | Sleeps \<Rightarrow> Some (moves (p\<lparr>mtx := None\<rparr>) t Waits)
      | Waits \<Rightarrow> None
      | Woken \<Rightarrow> if mtx p = None then Some (moves (p\<lparr>mtx := Some t\<rparr>) t Checks) else None
      | Takes \<Rightarrow>
          (case Dequeue (task_queue p) of
             (None, q) \<Rightarrow> Some (moves (p\<lparr>mtx := None\<rparr>) t Loops)
           | (Some task, q) \<Rightarrow> Some (moves (p\<lparr>task_queue := q\<rparr>) t (Runs task)))
      | Runs task \<Rightarrow> Some (moves (p\<lparr>mtx := None, executed := executed p @ [task]\<rparr>) t Loops)
      | Gone \<Rightarrow> None)"

text \<open>The steps of the callers. \<open>n\<close> is \<open>kDefaultCoreThreadNum\<close>.\<close>

definition SubmitTask :: "'t pool \<Rightarrow> 't \<Rightarrow> 't pool" where
  "SubmitTask p task = p\<lparr>task_queue := Enqueue (task_queue p) task, to_notify := to_notify p + 1,
     submitted := submitted p @ [task]\<rparr>"

definition wake_all :: "'t pool \<Rightarrow> 't pool" where
  "wake_all p = p\<lparr>workers := map (\<lambda>w. case w of Waits \<Rightarrow> Woken | _ \<Rightarrow> w) (workers p)\<rparr>"

definition Start :: "nat \<Rightarrow> 't pool \<Rightarrow> 't pool" where
  "Start n p = wake_all (p\<lparr>running := True, workers := workers p @ replicate (n - length (workers p)) Loops\<rparr>)"

definition Shutdown :: "'t pool \<Rightarrow> 't pool" where
  "Shutdown p = p\<lparr>running := False, to_notify_all := to_notify_all p + 1\<rparr>"

inductive pool_step :: "nat \<Rightarrow> 't pool \<Rightarrow> 't pool \<Rightarrow> bool" for n where
  worker: "t < length (workers p) \<Longrightarrow> BackgroundThreadTask t p = Some p' \<Longrightarrow> pool_step n p p'"
| submit: "pool_step n p (SubmitTask p task)"
| notify: "0 < to_notify p \<Longrightarrow> t < length (workers p) \<Longrightarrow> workers p ! t = Waits \<Longrightarrow>
    pool_step n p (moves (p\<lparr>to_notify := to_notify p - 1\<rparr>) t Woken)"
| notify_nobody: "0 < to_notify p \<Longrightarrow> Waits \<notin> set (workers p) \<Longrightarrow>
    pool_step n p (p\<lparr>to_notify := to_notify p - 1\<rparr>)"
| start: "mtx p = None \<Longrightarrow> pool_step n p (Start n p)"
| shutdown: "pool_step n p (Shutdown p)"
| notify_all: "0 < to_notify_all p \<Longrightarrow> pool_step n p (wake_all (p\<lparr>to_notify_all := to_notify_all p - 1\<rparr>))"

abbreviation pool_reaches :: "nat \<Rightarrow> 't pool \<Rightarrow> 't pool \<Rightarrow> bool" where
  "pool_reaches n \<equiv> (pool_step n)\<^sup>*\<^sup>*"

section \<open>Every task once, in order, and one at a time\<close>

fun inside :: "'t worker \<Rightarrow> bool" where
  "inside Checks = True"
| "inside Sleeps = True"
| "inside Takes = True"
| "inside (Runs _) = True"
| "inside _ = False"

fun task_of :: "'t worker \<Rightarrow> 't list" where
  "task_of (Runs task) = [task]"
| "task_of _ = []"

definition in_flight :: "'t pool \<Rightarrow> 't list" where
  "in_flight p = concat (map task_of (workers p))"

definition pool_inv :: "nat \<Rightarrow> 't pool \<Rightarrow> bool" where
  "pool_inv n p \<longleftrightarrow> (\<forall>t. mtx p = Some t \<longleftrightarrow> t < length (workers p) \<and> inside (workers p ! t)) \<and>
     length (workers p) \<le> n \<and> executed p @ in_flight p @ task_queue p = submitted p"

text \<open>Without an owner nobody is inside; with one, nobody else.\<close>

lemma in_flight_outside: "(\<And>w. w \<in> set ws \<Longrightarrow> \<not> inside w) \<Longrightarrow> concat (map task_of ws) = []"
  by (induction ws) (use inside.elims(3) in \<open>force elim: task_of.elims\<close>)+

lemma in_flight_one:
  assumes "t < length ws" "\<And>u. u < length ws \<Longrightarrow> u \<noteq> t \<Longrightarrow> \<not> inside (ws ! u)"
  shows "concat (map task_of ws) = task_of (ws ! t)"
proof -
  have "\<not> inside w" if "w \<in> set (take t ws) \<or> w \<in> set (drop (Suc t) ws)" for w
    using that assms by (fastforce simp: in_set_conv_nth)
  then have "concat (map task_of (take t ws)) = []" "concat (map task_of (drop (Suc t) ws)) = []"
    using in_flight_outside by blast+
  then show ?thesis using id_take_nth_drop [OF assms(1)]
    by (metis append.right_neutral append_Nil concat.simps(2) concat_append list.simps(9) map_append)
qed

lemma pool_invD:
  assumes "pool_inv n p"
  shows "mtx p = Some t \<longleftrightarrow> t < length (workers p) \<and> inside (workers p ! t)"
    and "length (workers p) \<le> n" "executed p @ in_flight p @ task_queue p = submitted p"
  using assms unfolding pool_inv_def by blast+

lemma pool_invI:
  "(\<And>t. mtx p = Some t \<longleftrightarrow> t < length (workers p) \<and> inside (workers p ! t)) \<Longrightarrow> length (workers p) \<le> n \<Longrightarrow>
    executed p @ in_flight p @ task_queue p = submitted p \<Longrightarrow> pool_inv n p"
  unfolding pool_inv_def by blast

lemma outside_task: "\<not> inside w \<Longrightarrow> task_of w = []"
  by (cases w) simp_all

lemma pool_inv_others:
  assumes "pool_inv n p" "t < length (workers p)" "inside (workers p ! t)"
  shows "mtx p = Some t" "u < length (workers p) \<Longrightarrow> u \<noteq> t \<Longrightarrow> \<not> inside (workers p ! u)"
    "in_flight p = task_of (workers p ! t)"
proof -
  show m: "mtx p = Some t" using pool_invD(1) [OF assms(1)] assms(2,3) by blast
  show o: "\<not> inside (workers p ! u)" if "u < length (workers p)" "u \<noteq> t" for u
    using pool_invD(1) [OF assms(1), of u] m that by simp
  show "in_flight p = task_of (workers p ! t)"
    unfolding in_flight_def using in_flight_one [OF assms(2)] o by blast
qed

lemma in_flight_same:
  "t < length (workers p) \<Longrightarrow> task_of w = task_of (workers p ! t) \<Longrightarrow> in_flight (moves p t w) = in_flight p"
  by (simp add: in_flight_def moves_def map_update) (metis list_update_id nth_map)

text \<open>The three ways to move: without the mutex, taking it, and while holding it.\<close>

lemma pool_inv_outside:
  assumes "pool_inv n p" "t < length (workers p)" "\<not> inside (workers p ! t)" "\<not> inside w"
  shows "pool_inv n (moves p t w)"
proof (rule pool_invI)
  have "in_flight (moves p t w) = in_flight p"
    using in_flight_same [OF assms(2)] outside_task assms(3,4) by metis
  then show "executed (moves p t w) @ in_flight (moves p t w) @ task_queue (moves p t w) = submitted (moves p t w)"
    using pool_invD(3) [OF assms(1)] by (simp add: moves_def)
  show "mtx (moves p t w) = Some u \<longleftrightarrow> u < length (workers (moves p t w)) \<and> inside (workers (moves p t w) ! u)" for u
    using pool_invD(1) [OF assms(1), of u] assms(2-4) by (cases "u = t") (simp_all add: moves_def)
qed (use pool_invD(2) [OF assms(1)] in \<open>simp add: moves_def\<close>)

lemma pool_inv_enter:
  assumes "pool_inv n p" "t < length (workers p)" "mtx p = None" "inside w" "task_of w = []"
  shows "pool_inv n (moves (p\<lparr>mtx := Some t\<rparr>) t w)"
proof (rule pool_invI)
  let ?p = "moves (p\<lparr>mtx := Some t\<rparr>) t w"
  have o: "\<not> inside (workers p ! u)" if "u < length (workers p)" for u
    using pool_invD(1) [OF assms(1), of u] assms(3) that by simp
  have "in_flight ?p = in_flight p"
    using in_flight_same [of t "p\<lparr>mtx := Some t\<rparr>" w] assms(2,5) outside_task [OF o [OF assms(2)]]
    by (simp add: in_flight_def)
  then show "executed ?p @ in_flight ?p @ task_queue ?p = submitted ?p"
    using pool_invD(3) [OF assms(1)] by (simp add: moves_def)
  show "mtx ?p = Some u \<longleftrightarrow> u < length (workers ?p) \<and> inside (workers ?p ! u)" for u
    using o [of u] assms(2,4) by (cases "u = t") (auto simp: moves_def)
qed (use pool_invD(2) [OF assms(1)] in \<open>simp add: moves_def\<close>)

lemma pool_inv_inside:
  assumes "pool_inv n p" "t < length (workers p)" "inside (workers p ! t)"
    and "mtx p' = (if inside w then Some t else None)" "workers p' = (workers p)[t := w]"
    and "executed p' @ task_of w @ task_queue p' = executed p @ task_of (workers p ! t) @ task_queue p"
    and "submitted p' = submitted p"
  shows "pool_inv n p'"
proof (rule pool_invI)
  note others = pool_inv_others [OF assms(1-3)]
  have "in_flight p' = task_of w"
    unfolding in_flight_def assms(5) using in_flight_one [of t "(workers p)[t := w]"] others(2) assms(2) by simp
  then show "executed p' @ in_flight p' @ task_queue p' = submitted p'"
    using assms(6,7) others(3) pool_invD(3) [OF assms(1)] by simp
  show "mtx p' = Some u \<longleftrightarrow> u < length (workers p') \<and> inside (workers p' ! u)" for u
    using others(2) [of u] assms(2) by (cases "u = t") (auto simp: assms(4,5))
qed (use pool_invD(2) [OF assms(1)] assms(5) in simp)

lemma pool_inv_worker:
  assumes "pool_inv n p" "t < length (workers p)" "BackgroundThreadTask t p = Some p'"
  shows "pool_inv n p'"
proof (cases "workers p ! t")
  case Loops
  then show ?thesis using assms pool_inv_outside [OF assms(1,2)] by (auto simp: BackgroundThreadTask_def)
next
  case Locks
  then show ?thesis using assms pool_inv_enter [OF assms(1,2)] by (auto simp: BackgroundThreadTask_def split: if_splits)
next
  case Woken
  then show ?thesis using assms pool_inv_enter [OF assms(1,2)] by (auto simp: BackgroundThreadTask_def split: if_splits)
next
  case Checks
  let ?w = "if running p \<and> Queue_empty (task_queue p) then Sleeps else Takes"
  have "p' = moves p t ?w" using assms(3) Checks by (simp add: BackgroundThreadTask_def)
  then show ?thesis
    using pool_inv_others(1) [OF assms(1,2)] Checks by (intro pool_inv_inside [OF assms(1,2), where w = ?w]) (auto simp: moves_def)
next
  case Sleeps
  then have "p' = moves (p\<lparr>mtx := None\<rparr>) t Waits" using assms(3) by (simp add: BackgroundThreadTask_def)
  then show ?thesis using Sleeps by (intro pool_inv_inside [OF assms(1,2), where w = Waits]) (auto simp: moves_def)
next
  case Takes
  note others = pool_inv_others [OF assms(1,2)]
  show ?thesis
  proof (cases "task_queue p")
    case Nil
    then have "p' = moves (p\<lparr>mtx := None\<rparr>) t Loops" using assms(3) Takes by (simp add: BackgroundThreadTask_def Dequeue_def)
    then show ?thesis using Takes by (intro pool_inv_inside [OF assms(1,2), where w = Loops]) (auto simp: moves_def)
  next
    case (Cons task q)
    then have "p' = moves (p\<lparr>task_queue := q\<rparr>) t (Runs task)"
      using assms(3) Takes by (simp add: BackgroundThreadTask_def Dequeue_def)
    then show ?thesis
      using Takes Cons others(1) by (intro pool_inv_inside [OF assms(1,2), where w = "Runs task"]) (auto simp: moves_def)
  qed
next
  case (Runs task)
  then have "p' = moves (p\<lparr>mtx := None, executed := executed p @ [task]\<rparr>) t Loops"
    using assms(3) by (simp add: BackgroundThreadTask_def)
  then show ?thesis using Runs by (intro pool_inv_inside [OF assms(1,2), where w = Loops]) (auto simp: moves_def)
qed (use assms(3) in \<open>auto simp: BackgroundThreadTask_def\<close>)

lemma wake_same:
  "inside (case w of Waits \<Rightarrow> Woken | _ \<Rightarrow> w) = inside w" "task_of (case w of Waits \<Rightarrow> Woken | _ \<Rightarrow> w) = task_of w"
  by (cases w; simp)+

lemma pool_inv_wake_all:
  assumes "pool_inv n p"
  shows "pool_inv n (wake_all p)"
proof (rule pool_invI)
  have "in_flight (wake_all p) = in_flight p" by (simp add: in_flight_def wake_all_def o_def wake_same)
  then show "executed (wake_all p) @ in_flight (wake_all p) @ task_queue (wake_all p) = submitted (wake_all p)"
    using pool_invD(3) [OF assms] by (simp add: wake_all_def)
  show "mtx (wake_all p) = Some t \<longleftrightarrow> t < length (workers (wake_all p)) \<and> inside (workers (wake_all p) ! t)" for t
    using pool_invD(1) [OF assms, of t] by (auto simp: wake_all_def wake_same)
qed (use pool_invD(2) [OF assms] in \<open>simp add: wake_all_def\<close>)

lemma pool_inv_step:
  assumes "pool_step n p p'" "pool_inv n p"
  shows "pool_inv n p'"
  using assms
proof cases
  case (worker t)
  then show ?thesis using pool_inv_worker assms(2) by blast
next
  case (submit task)
  then show ?thesis using assms(2) by (simp add: SubmitTask_def pool_inv_def in_flight_def Enqueue_def)
next
  case (notify t)
  have "pool_inv n (p\<lparr>to_notify := to_notify p - 1\<rparr>)" using assms(2) by (simp add: pool_inv_def in_flight_def)
  from pool_inv_outside [OF this, of t Woken] show ?thesis using notify by simp
next
  case start
  let ?p = "p\<lparr>running := True, workers := workers p @ replicate (n - length (workers p)) Loops\<rparr>"
  have "pool_inv n ?p"
  proof (rule pool_invI)
    show "mtx ?p = Some t \<longleftrightarrow> t < length (workers ?p) \<and> inside (workers ?p ! t)" for t
      using pool_invD(1) [OF assms(2), of t] start(2) by (auto simp: nth_append)
    show "executed ?p @ in_flight ?p @ task_queue ?p = submitted ?p"
      using pool_invD(3) [OF assms(2)] by (simp add: in_flight_def)
  qed (use pool_invD(2) [OF assms(2)] in simp)
  from pool_inv_wake_all [OF this] show ?thesis using start(1) by (simp add: Start_def)
next
  case notify_all
  have "pool_inv n (p\<lparr>to_notify_all := to_notify_all p - 1\<rparr>)" using assms(2) by (simp add: pool_inv_def in_flight_def)
  from pool_inv_wake_all [OF this] show ?thesis using notify_all by simp
qed (use assms(2) in \<open>simp_all add: pool_inv_def in_flight_def Shutdown_def\<close>)

lemma pool_inv_new: "pool_inv n TCThreadPool_new"
  by (simp add: pool_inv_def TCThreadPool_new_def in_flight_def)

lemma pool_inv_reachable:
  "pool_reaches n TCThreadPool_new p \<Longrightarrow> pool_inv n p"
  by (induction rule: rtranclp_induct) (use pool_inv_new pool_inv_step in blast)+

lemma pool_one_task:
  assumes ok: "pool_inv n p"
  shows "length (in_flight p) \<le> 1"
proof (cases "\<exists>t<length (workers p). inside (workers p ! t)")
  case True
  then obtain t where "t < length (workers p)" "inside (workers p ! t)" by blast
  from pool_inv_others(3) [OF ok this] show ?thesis by (cases "workers p ! t") simp_all
next
  case False
  then have "in_flight p = []"
    unfolding in_flight_def by (intro in_flight_outside) (auto simp: in_set_conv_nth)
  then show ?thesis by simp
qed

text \<open>C20. Whatever callers and workers do, every submitted task is executed at most once and in the
  order of submission: what has been executed, what is running and what is queued make up what
  was submitted. There are never more than \<open>kDefaultCoreThreadNum\<close> workers, and however many
  there are, never more than one task is running, since a worker holds the mutex of the pool
  while it runs its task.\<close>

theorem pool_runs_in_order:
  assumes "pool_reaches n TCThreadPool_new p"
  shows "executed p @ in_flight p @ task_queue p = submitted p \<and> length (workers p) \<le> n \<and> length (in_flight p) \<le> 1"
proof -
  have ok: "pool_inv n p" by (rule pool_inv_reachable [OF assms])
  have "length (in_flight p) \<le> 1" by (rule pool_one_task [OF ok])
  with ok show ?thesis by (simp add: pool_inv_def)
qed

section \<open>A notification may find nobody waiting\<close>

lemma pool_run_step: "pool_step n p p' \<Longrightarrow> pool_reaches n p' q \<Longrightarrow> pool_reaches n p q"
  by (rule converse_rtranclp_into_rtranclp)

lemma pool_run_turn:
  "BackgroundThreadTask 0 p = Some p' \<Longrightarrow> workers p \<noteq> [] \<Longrightarrow> pool_reaches n p' q \<Longrightarrow> pool_reaches n p q"
  using pool_run_step [OF worker, of 0 p p' n q] by blast

abbreviation one_worker :: "'t worker \<Rightarrow> nat option \<Rightarrow> 't list \<Rightarrow> nat \<Rightarrow> 't list \<Rightarrow> 't pool" where
  "one_worker w m q k sub \<equiv> \<lparr>running = True, task_queue = q, workers = [w], mtx = m, to_notify = k,
     to_notify_all = 0, submitted = sub, executed = []\<rparr>"

lemma started: "pool_step 1 TCThreadPool_new (one_worker Loops None [] 0 [])"
  using start [of TCThreadPool_new 1] by (simp add: TCThreadPool_new_def Start_def wake_all_def)

text \<open>A wake-up can be lost: \<open>SubmitTask\<close> neither enqueues nor notifies under the mutex of the pool.
  When it does both between the check of an only worker and its wait, the worker sleeps with
  a task in the queue, nothing left to notify it and nothing it can do.\<close>

theorem pool_loses_wakeup:
  "\<exists>p. pool_reaches 1 TCThreadPool_new p \<and> running p \<and> task_queue p = [task] \<and> workers p = [Waits] \<and>
    to_notify p = 0 \<and> to_notify_all p = 0 \<and> BackgroundThreadTask 0 p = None"
proof -
  let ?asleep = "one_worker Waits None [task] 0 [task]"
  have 1: "pool_step 1 (one_worker Sleeps (Some 0) [] 0 []) (one_worker Sleeps (Some 0) [task] 1 [task])"
    using submit [of 1 "one_worker Sleeps (Some 0) [] 0 []" task] by (simp add: SubmitTask_def Enqueue_def)
  have 2: "pool_step 1 (one_worker Sleeps (Some 0) [task] 1 [task]) (one_worker Sleeps (Some 0) [task] 0 [task])"
    using notify_nobody [of "one_worker Sleeps (Some 0) [task] 1 [task]" 1] by simp
  have "pool_reaches 1 (one_worker Sleeps (Some 0) [task] 0 [task]) ?asleep"
    by (rule pool_run_turn [where p' = ?asleep]) (simp_all add: BackgroundThreadTask_def moves_def)
  then have "pool_reaches 1 (one_worker Sleeps (Some 0) [] 0 []) ?asleep"
    by (rule pool_run_step [OF 1 pool_run_step [OF 2]])
  then have "pool_reaches 1 (one_worker Checks (Some 0) [] 0 []) ?asleep"
    by (rule pool_run_turn [rotated 2]) (simp_all add: BackgroundThreadTask_def moves_def Queue_empty_def)
  then have "pool_reaches 1 (one_worker Locks None [] 0 []) ?asleep"
    by (rule pool_run_turn [rotated 2]) (simp_all add: BackgroundThreadTask_def moves_def)
  then have "pool_reaches 1 (one_worker Loops None [] 0 []) ?asleep"
    by (rule pool_run_turn [rotated 2]) (simp_all add: BackgroundThreadTask_def moves_def)
  then have "pool_reaches 1 TCThreadPool_new ?asleep" by (rule pool_run_step [OF started])
  then show ?thesis by (rule exI [of _ ?asleep, OF conjI]) (simp add: BackgroundThreadTask_def)
qed

theorem pool_runs_in_order_witness:
  "\<exists>p :: nat pool. executed p = [7] \<and> in_flight p = [8] \<and> submitted p = [7, 8] \<and> task_queue p = [] \<and> length (workers p) \<le> 1"
proof -
  let ?p = "(one_worker (Runs (8 :: nat)) (Some 0) [] 2 [7, 8])\<lparr>executed := [7]\<rparr>"
  note turn = pool_run_turn [rotated 2] and turn_simps = BackgroundThreadTask_def moves_def Queue_empty_def Dequeue_def
  have "pool_reaches 1 ((one_worker Takes (Some 0) [8 :: nat] 2 [7, 8])\<lparr>executed := [7]\<rparr>) ?p"
    by (rule turn [OF rtranclp.rtrancl_refl]) (simp_all add: turn_simps)
  then have "pool_reaches 1 ((one_worker Checks (Some 0) [8 :: nat] 2 [7, 8])\<lparr>executed := [7]\<rparr>) ?p"
    by (rule turn) (simp_all add: turn_simps)
  then have "pool_reaches 1 ((one_worker Locks None [8 :: nat] 2 [7, 8])\<lparr>executed := [7]\<rparr>) ?p"
    by (rule turn) (simp_all add: turn_simps)
  then have "pool_reaches 1 ((one_worker Loops None [8 :: nat] 2 [7, 8])\<lparr>executed := [7]\<rparr>) ?p"
    by (rule turn) (simp_all add: turn_simps)
  then have "pool_reaches 1 (one_worker (Runs 7) (Some 0) [8 :: nat] 2 [7, 8]) ?p"
    by (rule turn) (simp_all add: turn_simps)
  then have "pool_reaches 1 (one_worker Takes (Some 0) [7, 8 :: nat] 2 [7, 8]) ?p"
    by (rule turn) (simp_all add: turn_simps)
  then have "pool_reaches 1 (one_worker Checks (Some 0) [7, 8 :: nat] 2 [7, 8]) ?p"
    by (rule turn) (simp_all add: turn_simps)
  then have "pool_reaches 1 (one_worker Locks None [7, 8 :: nat] 2 [7, 8]) ?p"
    by (rule turn) (simp_all add: turn_simps)
  then have 1: "pool_reaches 1 (one_worker Loops None [7, 8 :: nat] 2 [7, 8]) ?p"
    by (rule turn) (simp_all add: turn_simps)
  have "pool_step 1 (one_worker Loops None [] 0 []) (one_worker Loops None [7 :: nat] 1 [7])"
    "pool_step 1 (one_worker Loops None [7 :: nat] 1 [7]) (one_worker Loops None [7, 8] 2 [7, 8])"
    using submit [of 1 "one_worker Loops None [] 0 []" "7 :: nat"] submit [of 1 "one_worker Loops None [7] 1 [7]" "8 :: nat"]
    by (simp_all add: SubmitTask_def Enqueue_def numeral_2_eq_2)
  then have "pool_reaches 1 TCThreadPool_new ?p"
    by (intro pool_run_step [OF started] pool_run_step [OF _ pool_run_step [OF _ 1]])
  from pool_runs_in_order [OF this] show ?thesis
    by (intro exI [of _ ?p]) (simp add: in_flight_def)
qed

end
