(* ===== verification/DatabasePool.thy ===== *)
theory DatabasePool
  imports TaskPool DatabaseFlush
begin

text \<open>
  The database together with its thread pool: what \<open>Insert\<close> and \<open>ConcurrentInsert\<close> of \<open>src/table/db.cc\<close>
  submit to \<open>TCThreadPool\<close>, and what the workers do with it.

  A state is a pool of tasks and a database. A task is an insertion that \<open>ConcurrentInsert\<close> has
  bound, with the dice its \<open>rand()\<close> calls will give, or the flush of the table that the future of
  the database is about. An insertion that finds the table full while a flush is pending waits
  in \<open>get\<close>, so it has no step. Every call on the database is one step.
  The insertions that wait are tasks of the pool here, in place of the list in \<open>ConcurrentInsert\<close> of the
  database model.
\<close>

section \<open>Steps\<close>

datatype db_task = InsertTask seqref seqref "nat list" | FlushTask

definition table_full :: "TCDB \<Rightarrow> bool" where
  "table_full db \<longleftrightarrow> kDefaultSSTFileSize \<le> TCTable_MemUsage (mem_table db)"

fun flush_pending :: "compact_future \<Rightarrow> bool" where
  "flush_pending (Pending immutable) = True"
| "flush_pending _ = False"

text \<open>An insertion that ran on \<open>db\<close> and led to \<open>db'\<close> has submitted a flush if it transferred the table.\<close>

definition submit_flush :: "TCDB \<Rightarrow> TCDB \<Rightarrow> db_task pool \<Rightarrow> db_task pool" where
  "submit_flush db db' p = (if table_full db \<and> flush_pending (compact_future db') then SubmitTask p FlushTask else p)"

definition waits_for_flush :: "TCDB \<Rightarrow> bool" where
  "waits_for_flush db \<longleftrightarrow> table_full db \<and> flush_pending (compact_future db)"

text \<open>The pool moves by itself as long as no task is submitted or done; \<open>n\<close> is its number of threads.\<close>

inductive db_step ::
    "(bytes list \<Rightarrow> bytes res) \<Rightarrow> caller_memory \<Rightarrow> nat \<Rightarrow> db_task pool \<times> TCDB \<Rightarrow> db_task pool \<times> TCDB \<Rightarrow> bool"
  for create mem n where
  pool_moves: "pool_step n p p' \<Longrightarrow> submitted p' = submitted p \<Longrightarrow> executed p' = executed p \<Longrightarrow>
    db_step create mem n (p, db) (p', db)"
| flush: "t < length (workers p) \<Longrightarrow> workers p ! t = Runs FlushTask \<Longrightarrow> BackgroundThreadTask t p = Some p' \<Longrightarrow>
    background_step create db = Inr db' \<Longrightarrow> db_step create mem n (p, db) (p', db')"
| worker_insert: "t < length (workers p) \<Longrightarrow> workers p ! t = Runs (InsertTask key val rs) \<Longrightarrow>
    BackgroundThreadTask t p = Some p' \<Longrightarrow> \<not> waits_for_flush db \<Longrightarrow>
    TCDB_Insert create db (seq_bytes mem key) (seq_bytes mem val) rs = Inr (ret, db') \<Longrightarrow>
    db_step create mem n (p, db) (submit_flush db db' p', db')"
| caller_insert: "\<not> waits_for_flush db \<Longrightarrow> TCDB_Insert create db key val rs = Inr (ret, db') \<Longrightarrow>
    db_step create mem n (p, db) (submit_flush db db' p, db')"
| concurrent_insert: "db_step create mem n (p, db) (SubmitTask p (InsertTask key val rs), db)"
| caller_get: "TCDB_Get hash mem contains db key = Inr (v, db') \<Longrightarrow> db_step create mem n (p, db) (p, db')"

abbreviation db_reaches ::
    "(bytes list \<Rightarrow> bytes res) \<Rightarrow> caller_memory \<Rightarrow> nat \<Rightarrow> db_task pool \<times> TCDB \<Rightarrow> db_task pool \<times> TCDB \<Rightarrow> bool" where
  "db_reaches create mem n \<equiv> (db_step create mem n)\<^sup>*\<^sup>*"

section \<open>What the calls do to the future and the pool\<close>

lemma Get_keeps_future:
  assumes "TCDB_Get hash mem contains db key = Inr (v, db')"
  shows "mem_table db' = mem_table db" "compact_future db' = compact_future db"
  using assms by (auto simp: TCDB_Get_def res_simps Let_def split: option.splits if_splits prod.splits)

lemma background_step_pending:
  assumes "background_step create db = Inr db'" "flush_pending (compact_future db)"
  shows "\<not> flush_pending (compact_future db')"
  using assms by (cases "compact_future db") (auto simp: background_step_def res_simps)

lemma transfer_future:
  assumes "transfer_full create db key = Inr (early, db')" "table_full db" "\<not> flush_pending (compact_future db)"
  shows "early \<noteq> None \<longrightarrow> \<not> flush_pending (compact_future db')"
  using assms
  by (cases "compact_future db")
    (auto simp: transfer_full_def future_get_def background_step_def table_full_def res_simps Let_def
      split: prod.splits pc.splits if_splits)

lemma Insert_future:
  assumes "TCDB_Insert create db key val rs = Inr (ret, db')" "\<not> table_full db"
  shows "compact_future db' = compact_future db"
  using assms by (auto simp: TCDB_Insert_def table_full_def res_simps split: prod.splits pc.splits)

lemma finish_task:
  assumes "workers p ! t = Runs task" "BackgroundThreadTask t p = Some p'"
  shows "executed p' = executed p @ [task]" "submitted p' = submitted p"
  using assms by (auto simp: BackgroundThreadTask_def moves_def)

lemma submit_flush_history:
  "executed (submit_flush db db' p) = executed p"
  "submitted (submit_flush db db' p) = submitted p @ (if table_full db \<and> flush_pending (compact_future db') then [FlushTask] else [])"
  by (simp_all add: submit_flush_def SubmitTask_def)

lemma submit_flush_step: "(pool_step n)\<^sup>*\<^sup>* p (submit_flush db db' p)"
  using submit [of n p FlushTask] by (auto simp: submit_flush_def)

section \<open>A pending flush is one task\<close>

text \<open>Tasks that have been submitted and not been executed.\<close>

definition tasks_left :: "'t pool \<Rightarrow> 't list" where
  "tasks_left p = in_flight p @ task_queue p"

definition flush_inv :: "nat \<Rightarrow> db_task pool \<times> TCDB \<Rightarrow> bool" where
  "flush_inv n s \<longleftrightarrow> pool_inv n (fst s) \<and>
     count_list (submitted (fst s)) FlushTask = count_list (executed (fst s)) FlushTask +
       (if flush_pending (compact_future (snd s)) then 1 else 0)"

lemma pool_inv_reaches: "pool_reaches n p p' \<Longrightarrow> pool_inv n p \<Longrightarrow> pool_inv n p'"
  by (induction rule: rtranclp_induct) (use pool_inv_step in blast)+

lemma flush_inv_left:
  "flush_inv n s \<Longrightarrow> count_list (tasks_left (fst s)) FlushTask = (if flush_pending (compact_future (snd s)) then 1 else 0)"
proof -
  assume inv: "flush_inv n s"
  then have "submitted (fst s) = executed (fst s) @ tasks_left (fst s)"
    using pool_invD(3) by (fastforce simp: flush_inv_def tasks_left_def)
  then show ?thesis using inv by (simp add: flush_inv_def)
qed

lemma running_left: "t < length (workers p) \<Longrightarrow> workers p ! t = Runs task \<Longrightarrow> task \<in> set (tasks_left p)"
  using nth_mem [of t "workers p"] by (force simp: tasks_left_def in_flight_def)

lemma flush_inv_insert:
  assumes "flush_inv n (p, db)" "\<not> waits_for_flush db" "TCDB_Insert create db key val rs = Inr (ret, db')"
    and "pool_inv n (submit_flush db db' p')" "submitted p' = submitted p"
    and "count_list (executed p') FlushTask = count_list (executed p) FlushTask"
  shows "flush_inv n (submit_flush db db' p', db')"
proof (cases "table_full db")
  case True
  then have "\<not> flush_pending (compact_future db)" using assms(2) by (simp add: waits_for_flush_def)
  then show ?thesis using assms(1,4-6) True by (simp add: flush_inv_def submit_flush_history)
next
  case False
  then show ?thesis
    using assms(1,4-6) Insert_future [OF assms(3) False] by (simp add: flush_inv_def submit_flush_history)
qed

lemma flush_inv_step: "db_step create mem n s s' \<Longrightarrow> flush_inv n s \<Longrightarrow> flush_inv n s'"
proof (induction rule: db_step.induct)
  case (pool_moves p p' db)
  then show ?case using pool_inv_step [of n p p'] by (simp add: flush_inv_def)
next
  case (flush t p p' db db')
  have "pool_inv n p'" using flush(5) pool_inv_worker [OF _ flush(1,3)] by (simp add: flush_inv_def)
  moreover have "flush_pending (compact_future db)"
    using flush_inv_left [OF flush(5)] running_left [OF flush(1,2)] by (auto simp: count_list_0_iff split: if_splits)
  ultimately show ?case
    using flush(5) finish_task [OF flush(2,3)] background_step_pending [OF flush(4)] by (simp add: flush_inv_def)
next
  case (worker_insert t p key val rs p' db ret db')
  have "pool_inv n p" using worker_insert(6) by (simp add: flush_inv_def)
  then have "pool_inv n p'" using pool_inv_worker worker_insert(1,3) by blast
  then have "pool_inv n (submit_flush db db' p')" by (rule pool_inv_reaches [OF submit_flush_step])
  then show ?case
    using finish_task [OF worker_insert(2,3)] by (intro flush_inv_insert [OF worker_insert(6,4,5)]) simp_all
next
  case (caller_insert db key val rs ret db' p)
  have "pool_inv n p" using caller_insert(3) by (simp add: flush_inv_def)
  then have "pool_inv n (submit_flush db db' p)" by (rule pool_inv_reaches [OF submit_flush_step])
  then show ?case by (intro flush_inv_insert [OF caller_insert(3,1,2)]) simp_all
next
  case (concurrent_insert p db key val rs)
  have "pool_inv n (SubmitTask p (InsertTask key val rs))"
    by (rule pool_inv_step [OF submit]) (use concurrent_insert in \<open>simp add: flush_inv_def\<close>)
  then show ?case using concurrent_insert by (simp add: flush_inv_def) (simp add: SubmitTask_def)
next
  case (caller_get hash contains db key v db' p)
  then show ?case using Get_keeps_future(2) [OF caller_get(1)] by (simp add: flush_inv_def)
qed

lemma flush_inv_reaches: "db_reaches create mem n s s' \<Longrightarrow> flush_inv n s \<Longrightarrow> flush_inv n s'"
  by (induction rule: rtranclp_induct) (use flush_inv_step in blast)+

section \<open>An insertion in the pool that waits for the pool\<close>

lemma running_stays:
  assumes "pool_step n p p'" "w < length (workers p)" "workers p ! w = Runs task" "executed p' = executed p"
  shows "w < length (workers p') \<and> workers p' ! w = Runs task"
  using assms(1)
proof cases
  case (worker t)
  have "t \<noteq> w"
  proof
    assume "t = w"
    then show False using finish_task(1) [OF assms(3)] worker(2) assms(4) by simp
  qed
  then show ?thesis
    using worker(2) assms(2,3)
    by (auto simp: BackgroundThreadTask_def moves_def split: worker.splits if_splits option.splits prod.splits)
next
  case (notify t)
  then have "t \<noteq> w" using assms(3) by auto
  then show ?thesis using notify(1) assms(2,3) by (simp add: moves_def)
qed (use assms(2,3) in \<open>auto simp: SubmitTask_def Start_def wake_all_def Shutdown_def nth_append\<close>)

text \<open>A worker runs an insertion, the table is full, and a flush has been submitted and not been run.\<close>

definition stuck :: "nat \<Rightarrow> nat \<Rightarrow> db_task \<Rightarrow> db_task pool \<times> TCDB \<Rightarrow> bool" where
  "stuck n w task s \<longleftrightarrow> pool_inv n (fst s) \<and> w < length (workers (fst s)) \<and> workers (fst s) ! w = Runs task \<and>
     task \<noteq> FlushTask \<and> waits_for_flush (snd s)"

lemma stuck_alone:
  assumes "stuck n w task (p, db)" "t < length (workers p)" "workers p ! t = Runs task'"
  shows "t = w \<and> task' = task"
proof -
  have "t = w" using pool_inv_others(2) [of n p w t] assms by (auto simp: stuck_def)
  then show ?thesis using assms(1,3) by (simp add: stuck_def)
qed

lemma stuck_step:
  assumes "db_step create mem n s s'" "stuck n w task s"
  shows "stuck n w task s' \<and> executed (fst s') = executed (fst s) \<and> mem_table (snd s') = mem_table (snd s) \<and>
    compact_future (snd s') = compact_future (snd s)"
  using assms
proof (induction rule: db_step.induct)
  case (pool_moves p p' db)
  then show ?case using running_stays [OF pool_moves(1) _ _ pool_moves(3)] pool_inv_step [OF pool_moves(1)]
    by (simp add: stuck_def)
next
  case (flush t p p' db db')
  then show ?case using stuck_alone [OF flush(5,1,2)] by (simp add: stuck_def)
next
  case (concurrent_insert p db key val rs)
  have "pool_inv n (SubmitTask p (InsertTask key val rs))"
    by (rule pool_inv_step [OF submit]) (use concurrent_insert in \<open>simp add: stuck_def\<close>)
  then show ?case using concurrent_insert by (simp add: stuck_def) (simp add: SubmitTask_def)
next
  case (caller_get hash contains db key v db' p)
  then show ?case using Get_keeps_future [OF caller_get(1)] by (simp add: stuck_def waits_for_flush_def table_full_def)
qed (simp_all add: stuck_def)

lemma stuck_reaches:
  assumes "db_reaches create mem n s s'" "stuck n w task s"
  shows "stuck n w task s' \<and> executed (fst s') = executed (fst s) \<and> mem_table (snd s') = mem_table (snd s) \<and>
    compact_future (snd s') = compact_future (snd s)"
  using assms(1)
proof (induction rule: rtranclp_induct)
  case base
  then show ?case using assms(2) by simp
next
  case (step s1 s2)
  then show ?case using stuck_step [OF step(2), of w task] by simp
qed

section \<open>A run that fills the table\<close>

lemma db_steps:
  "db_step create mem n s s' \<Longrightarrow> db_reaches create mem n s' s'' \<Longrightarrow> db_reaches create mem n s s''"
  by (rule converse_rtranclp_into_rtranclp)

lemma Insert_room:
  assumes "table_rel (mem_table db) m" "good_op (OpInsert key val, rs)" "entry_id (mem_table db) < - 1"
    and "\<not> table_full db" "write_count (mmt_trans_lock db) = 0"
  shows "\<exists>t. TCDB_Insert create db key val rs = Inr (NoError, db\<lparr>mem_table := t\<rparr>) \<and> table_rel t (m(key \<mapsto> Some val)) \<and>
    entry_id t = entry_id (mem_table db) + 1 \<and>
    mem_allocator t = snd (Allocate (mem_allocator (mem_table db)) (insert_entry_size key val))"
proof -
  from run_op_rel [OF assms(1-3)] obtain t where t: "TCTable_Insert (mem_table db) key val rs = Inr (NoError, t)"
    "table_rel t (m(key \<mapsto> Some val))" "entry_id t = entry_id (mem_table db) + 1" by auto
  moreover have "TCDB_Insert create db key val rs = Inr (NoError, db\<lparr>mem_table := t\<rparr>)"
    using t(1) assms(4,5) by (simp add: TCDB_Insert_def table_full_def ReadLock_def ReadUnlock_def Let_def)
  moreover have "mem_allocator t = snd (Allocate (mem_allocator (mem_table db)) (insert_entry_size key val))"
    using put_allocates t(1) by (simp add: TCTable_Insert_def)
  ultimately show ?thesis by blast
qed

text \<open>An entry of more than half a block takes a block of its own.\<close>

lemma Allocate_large:
  assumes "paged m" "2048 < n"
  shows "paged (snd (Allocate m n))" "used_memory (snd (Allocate m n)) = used_memory m + 4096"
proof -
  have "1 \<le> length (block_ptr m)" using assms(1) by (simp add: paged_def Suc_le_eq)
  then have "4096 \<le> length (block_ptr m) * 4096" by simp
  then show "used_memory (snd (Allocate m n)) = used_memory m + 4096"
    using assms by (simp add: Allocate_def AllocateFullBlock_def kMaxSectorSize_def paged_def used_memory_def)
qed (rule Allocate_paged(1) [OF assms(1)])

abbreviation large_value :: bytes where
  "large_value \<equiv> replicate 3000 0"

lemma large_insert:
  "2048 < insert_entry_size [107] large_value" "good_op (OpInsert [107] large_value, [3])"
  using example_good [of large_value] by (simp_all add: insert_entry_size_def fits_def)

lemma fill_table:
  assumes "table_rel (mem_table db) m" "paged (mem_allocator (mem_table db))" "write_count (mmt_trans_lock db) = 0"
    and "used_memory (mem_allocator (mem_table db)) + 4096 * k = kApproximateSSTFileSize"
    and "unat (entry_id (mem_table db)) + k < 2 ^ 32"
  shows "\<exists>t m'. db_reaches create mem n (p, db) (p, db\<lparr>mem_table := t\<rparr>) \<and> table_rel t m' \<and> table_full (db\<lparr>mem_table := t\<rparr>) \<and>
    unat (entry_id t) = unat (entry_id (mem_table db)) + k"
  using assms
proof (induction k arbitrary: db m)
  case 0
  then have "unat (TCTable_MemUsage (mem_table db)) = kApproximateSSTFileSize"
    using paged_MemUsage [OF 0(2)] by (simp add: kApproximateSSTFileSize_def)
  then have "table_full db"
    by (simp add: table_full_def word_le_nat_alt kDefaultSSTFileSize_def kApproximateSSTFileSize_def)
  then show ?case using 0(1) by (intro exI [of _ "mem_table db"] exI [of _ m]) simp
next
  case (Suc k)
  have room: "\<not> table_full db"
    using paged_usage [OF Suc.prems(2)] Suc.prems(4) by (simp add: table_full_def linorder_not_le)
  have "unat (- 1 :: u64) = 2 ^ 64 - 1"
    by transfer (simp add: take_bit_minus_one_eq_mask mask_eq_exp_minus_1)
  then have id: "entry_id (mem_table db) < - 1" using Suc.prems(5) by (simp add: word_less_nat_alt)
  obtain t where t: "TCDB_Insert create db [107] large_value [3] = Inr (NoError, db\<lparr>mem_table := t\<rparr>)"
    "table_rel t (m([107] \<mapsto> Some large_value))" "entry_id t = entry_id (mem_table db) + 1"
    "mem_allocator t = snd (Allocate (mem_allocator (mem_table db)) (insert_entry_size [107] large_value))"
    using Insert_room [OF Suc.prems(1) large_insert(2) id room Suc.prems(3)] by blast
  let ?db = "db\<lparr>mem_table := t\<rparr>"
  have step: "db_step create mem n (p, db) (p, ?db)"
    using caller_insert [OF _ t(1), of mem n p] room by (simp add: waits_for_flush_def submit_flush_def)
  have e: "unat (entry_id t) = unat (entry_id (mem_table db)) + 1"
    unfolding t(3) using Suc.prems(5) by (subst unat_plus_simple [THEN iffD1]) (auto simp: word_le_nat_alt unat_word_ariths)
  have a: "paged (mem_allocator t)" "used_memory (mem_allocator t) = used_memory (mem_allocator (mem_table db)) + 4096"
    unfolding t(4) by (rule Allocate_large [OF Suc.prems(2) large_insert(1)])+
  have "table_rel (mem_table ?db) (m([107] \<mapsto> Some large_value))" "paged (mem_allocator (mem_table ?db))"
    "write_count (mmt_trans_lock ?db) = 0" "used_memory (mem_allocator (mem_table ?db)) + 4096 * k = kApproximateSSTFileSize"
    "unat (entry_id (mem_table ?db)) + k < 2 ^ 32"
    using t(2) a e Suc.prems(3-5) by simp_all
  from Suc.IH [OF this] obtain t' m' where r: "db_reaches create mem n (p, ?db) (p, ?db\<lparr>mem_table := t'\<rparr>)" "table_rel t' m'"
    "table_full (?db\<lparr>mem_table := t'\<rparr>)" "unat (entry_id t') = unat (entry_id t) + k"
    by auto
  then show ?case using db_steps [OF step r(1)] e by (intro exI [of _ t'] exI [of _ m']) simp
qed

text \<open>From a new pool and database to a worker that waits for the flush queued behind it: one
  concurrent insertion is queued, the caller fills the table, transfers it and fills the next,
  and then the worker takes the insertion.\<close>

abbreviation example_task :: db_task where
  "example_task \<equiv> InsertTask (0, 1) (1, 1) [3]"

abbreviation waiting_pool :: "db_task worker \<Rightarrow> nat option \<Rightarrow> db_task list \<Rightarrow> db_task pool" where
  "waiting_pool w m q \<equiv> one_worker w m q 2 [example_task, FlushTask]"

lemma worker_takes_insert:
  "db_reaches create mem 1 (waiting_pool Loops None [example_task, FlushTask], db)
    (waiting_pool (Runs example_task) (Some 0) [FlushTask], db)"
proof -
  let ?q = "[example_task, FlushTask]"
  have turn: "db_step create mem 1 (waiting_pool w m ?q, db) (waiting_pool w' m' q', db)"
    if "BackgroundThreadTask 0 (waiting_pool w m ?q) = Some (waiting_pool w' m' q')" for w m w' m' q'
    using pool_moves [OF worker [OF _ that]] by simp
  have "db_step create mem 1 (waiting_pool Loops None ?q, db) (waiting_pool Locks None ?q, db)"
    "db_step create mem 1 (waiting_pool Locks None ?q, db) (waiting_pool Checks (Some 0) ?q, db)"
    "db_step create mem 1 (waiting_pool Checks (Some 0) ?q, db) (waiting_pool Takes (Some 0) ?q, db)"
    "db_step create mem 1 (waiting_pool Takes (Some 0) ?q, db) (waiting_pool (Runs example_task) (Some 0) [FlushTask], db)"
    by (rule turn, simp add: BackgroundThreadTask_def moves_def Queue_empty_def Dequeue_def)+
  then show ?thesis by (meson converse_rtranclp_into_rtranclp rtranclp.rtrancl_refl)
qed

lemma new_table: "table_rel (TCTable_new n) (\<lambda>_. None)" "paged (mem_allocator (TCTable_new n))"
  "used_memory (mem_allocator (TCTable_new n)) = 0" "paged MemAllocator_default" "used_memory MemAllocator_default = 0"
  by (rule table_rel_new)
    (simp_all add: TCTable_new_def paged_def used_memory_def MemAllocator_default_def
      MemAllocator_new_def AllocateFullBlock_def MemAllocator.Unref_def)

lemma waiting_reachable:
  "\<exists>db. db_reaches create mem 1 (TCThreadPool_new, example_db) (waiting_pool (Runs example_task) (Some 0) [FlushTask], db) \<and>
    table_full db \<and> flush_pending (compact_future db)"
proof -
  let ?p = "one_worker Loops None [example_task] 1 [example_task]"
  have 1: "db_step create mem 1 (TCThreadPool_new, example_db) (one_worker Loops None [] 0 [], example_db)"
    using pool_moves [OF started] by (simp add: TCThreadPool_new_def)
  have 2: "db_step create mem 1 (one_worker Loops None [] 0 [], example_db) (?p, example_db)"
    using concurrent_insert [of create mem 1 "one_worker Loops None [] 0 []" example_db "(0, 1)" "(1, 1)" "[3]"]
    by (simp add: SubmitTask_def Enqueue_def)
  have "table_rel (mem_table example_db) (\<lambda>_. None)" "paged (mem_allocator (mem_table example_db))"
    "write_count (mmt_trans_lock example_db) = 0"
    "used_memory (mem_allocator (mem_table example_db)) + 4096 * 512 = kApproximateSSTFileSize"
    "unat (entry_id (mem_table example_db)) + 512 < 2 ^ 32"
    using new_table(1-3) [of 0] example_small(2,3) by (simp_all add: example_db_def kApproximateSSTFileSize_def)
  from fill_table [OF this, of create mem 1 ?p] obtain t m where
    3: "db_reaches create mem 1 (?p, example_db) (?p, example_db\<lparr>mem_table := t\<rparr>)"
    "table_full (example_db\<lparr>mem_table := t\<rparr>)" "unat (entry_id t) = 512"
    using example_small(3) by auto
  let ?db = "example_db\<lparr>mem_table := t\<rparr>"
  have "unat (- 1 :: u64) = 2 ^ 64 - 1"
    by transfer (simp add: take_bit_minus_one_eq_mask mask_eq_exp_minus_1)
  then have id: "entry_id (mem_table ?db) < - 1" using 3(3) by (simp add: word_less_nat_alt)
  have full: "kDefaultSSTFileSize \<le> TCTable_MemUsage (mem_table ?db)" using 3(2) by (simp add: table_full_def)
  have log: "mmt_trans_lock ?db = ReadWriteLock_new" "compact_future ?db = NoFuture"
    "dbfile (db_logger ?db) = Some \<lparr>file_name = ''db/LOG'', file_mode = kAppend, is_open = False\<rparr>"
    "0 < kMaxBufferSize (db_logger ?db)" "buffer (db_logger ?db) = []" "quiet (db_os ?db)"
    by (simp_all add: example_db_def Writer_new_def quiet_def)
  obtain t1 lg s where i: "TCDB_Insert create ?db [107] large_value [3] =
      Inr (NoError, ?db\<lparr>db_logger := lg, db_os := s, mem_table := t1, compact_future := Pending (mem_table ?db)\<rparr>)"
    "table_rel t1 [[107] \<mapsto> Some large_value]" "entry_id t1 = entry_id (mem_table ?db) + 1"
    "mem_allocator t1 = snd (Allocate MemAllocator_default (insert_entry_size [107] large_value))"
    using Insert_transfers [OF full log(1,2) large_insert(2) id log(3-6), of create] by blast
  let ?db1 = "?db\<lparr>db_logger := lg, db_os := s, mem_table := t1, compact_future := Pending (mem_table ?db)\<rparr>"
  have "submit_flush ?db ?db1 ?p = waiting_pool Loops None [example_task, FlushTask]"
    using 3(2) by (simp add: submit_flush_def SubmitTask_def Enqueue_def numeral_2_eq_2)
  then have 4: "db_step create mem 1 (?p, ?db) (waiting_pool Loops None [example_task, FlushTask], ?db1)"
    using caller_insert [OF _ i(1), of mem 1 ?p] log(2) by (simp add: waits_for_flush_def)
  have "table_rel (mem_table ?db1) [[107] \<mapsto> Some large_value]" using i(2) by simp
  moreover have "paged (mem_allocator (mem_table ?db1))"
    "used_memory (mem_allocator (mem_table ?db1)) + 4096 * 511 = kApproximateSSTFileSize"
    using Allocate_large [OF new_table(4) large_insert(1)] new_table(5) i(4) by (simp_all add: kApproximateSSTFileSize_def)
  moreover have "write_count (mmt_trans_lock ?db1) = 0" "unat (entry_id (mem_table ?db1)) + 511 < 2 ^ 32"
    using log(1) i(3) 3(3) by (simp_all add: ReadWriteLock_new_def unat_word_ariths)
  ultimately obtain t2 where 5: "db_reaches create mem 1 (waiting_pool Loops None [example_task, FlushTask], ?db1)
      (waiting_pool Loops None [example_task, FlushTask], ?db1\<lparr>mem_table := t2\<rparr>)" "table_full (?db1\<lparr>mem_table := t2\<rparr>)"
    using fill_table [of ?db1 _ 511] by blast
  have "db_reaches create mem 1 (TCThreadPool_new, example_db)
      (waiting_pool (Runs example_task) (Some 0) [FlushTask], ?db1\<lparr>mem_table := t2\<rparr>)"
    by (rule db_steps [OF 1 db_steps [OF 2 rtranclp_trans [OF 3(1) db_steps [OF 4 rtranclp_trans [OF 5(1) worker_takes_insert]]]]])
  then show ?thesis using 5(2) by (intro exI [of _ "?db1\<lparr>mem_table := t2\<rparr>"]) simp
qed

section \<open>Properties\<close>

text \<open>C21. The future and the pool agree. In every state that callers, concurrent insertions and workers can
  reach, exactly one flush task is running or queued while a flush is pending, and none
  otherwise; every task has been executed, runs or is queued in the order of submission. So a
  flush never runs without a table to flush and \<open>get\<close> never waits for a task that is not there.\<close>

theorem pending_flush_is_one_task:
  assumes "db_reaches create mem n (TCThreadPool_new, db0) (p, db)" "compact_future db0 = NoFuture"
  shows "count_list (in_flight p @ task_queue p) FlushTask = (if flush_pending (compact_future db) then 1 else 0) \<and>
    executed p @ in_flight p @ task_queue p = submitted p \<and> length (in_flight p) \<le> 1"
proof -
  have "flush_inv n (TCThreadPool_new, db0)"
    using pool_inv_new assms(2) by (simp add: flush_inv_def) (simp add: TCThreadPool_new_def)
  then have inv: "flush_inv n (p, db)" by (rule flush_inv_reaches [OF assms(1)])
  then have ok: "pool_inv n p" by (simp add: flush_inv_def)
  show ?thesis using flush_inv_left [OF inv] pool_invD(3) [OF ok] pool_one_task [OF ok] by (simp add: tasks_left_def)
qed

theorem pending_flush_is_one_task_witness:
  "\<exists>p (db :: TCDB). flush_pending (compact_future db) \<and> in_flight p = [example_task] \<and>
    count_list (in_flight p @ task_queue p) FlushTask = 1 \<and> submitted p = [example_task, FlushTask]"
proof -
  let ?p = "waiting_pool (Runs example_task) (Some 0) [FlushTask]"
  obtain db where db: "db_reaches example_create example_mem 1 (TCThreadPool_new, example_db) (?p, db)"
    "flush_pending (compact_future db)" using waiting_reachable by blast
  have "compact_future example_db = NoFuture" by (simp add: example_db_def)
  from pending_flush_is_one_task [OF db(1) this] db(2)
  have "flush_pending (compact_future db) \<and> in_flight ?p = [example_task] \<and>
      count_list (in_flight ?p @ task_queue ?p) FlushTask = 1 \<and> submitted ?p = [example_task, FlushTask]"
    by (simp add: in_flight_def)
  then show ?thesis by blast
qed

text \<open>C38. \<open>ConcurrentInsert\<close> can stop the database for ever. When a worker runs an insertion that finds
  the table full while a flush is pending, it waits in \<open>get\<close> with the mutex of the pool held,
  and the flush is behind it in the queue of that pool. Whatever anybody does from then on, the
  worker keeps waiting, no task is executed any more, the flush stays pending and nothing
  enters the table.\<close>

theorem insert_in_pool_deadlocks:
  assumes "db_reaches create mem n (TCThreadPool_new, db0) (p, db)" "compact_future db0 = NoFuture"
    and "w < length (workers p)" "workers p ! w = Runs (InsertTask key val rs)"
    and "table_full db" "flush_pending (compact_future db)"
    and "db_reaches create mem n (p, db) (p', db')"
  shows "workers p' ! w = Runs (InsertTask key val rs) \<and> executed p' = executed p \<and> FlushTask \<in> set (task_queue p') \<and>
    mem_table db' = mem_table db \<and> compact_future db' = compact_future db"
proof -
  have "flush_inv n (TCThreadPool_new, db0)"
    using pool_inv_new assms(2) by (simp add: flush_inv_def) (simp add: TCThreadPool_new_def)
  then have inv: "flush_inv n (p, db)" by (rule flush_inv_reaches [OF assms(1)])
  then have "stuck n w (InsertTask key val rs) (p, db)"
    using assms(3-6) by (simp add: stuck_def flush_inv_def waits_for_flush_def)
  note s = stuck_reaches [OF assms(7) this]
  then have w: "pool_inv n p'" "w < length (workers p')" "workers p' ! w = Runs (InsertTask key val rs)"
    by (simp_all add: stuck_def)
  then have "in_flight p' = [InsertTask key val rs]" using pool_inv_others(3) [OF w(1,2)] by simp
  moreover have "count_list (tasks_left p') FlushTask = 1"
    using flush_inv_left [OF flush_inv_reaches [OF assms(7) inv]] s assms(6) by simp
  ultimately have "count_list (task_queue p') FlushTask \<noteq> 0" by (simp add: tasks_left_def)
  then have "FlushTask \<in> set (task_queue p')" by (simp add: count_list_0_iff)
  then show ?thesis using s w(3) by simp
qed

theorem insert_in_pool_deadlocks_witness:
  "\<exists>p db p'. db_reaches example_create example_mem 1 (TCThreadPool_new, example_db) (p, db) \<and>
    db_reaches example_create example_mem 1 (p, db) (p', db) \<and> length (submitted p') = 3 \<and>
    workers p' = [Runs example_task] \<and> executed p' = [] \<and> FlushTask \<in> set (task_queue p')"
proof -
  let ?p = "waiting_pool (Runs example_task) (Some 0) [FlushTask]" and ?p' = "SubmitTask (waiting_pool (Runs example_task) (Some 0) [FlushTask]) example_task"
  obtain db where db: "db_reaches example_create example_mem 1 (TCThreadPool_new, example_db) (?p, db)"
    "table_full db" "flush_pending (compact_future db)" using waiting_reachable by blast
  have none: "compact_future example_db = NoFuture" by (simp add: example_db_def)
  have more: "db_reaches example_create example_mem 1 (?p, db) (?p', db)"
    using concurrent_insert by (rule r_into_rtranclp)
  have "0 < length (workers ?p)" "workers ?p ! 0 = Runs example_task" by simp_all
  from insert_in_pool_deadlocks [OF db(1) none this db(2,3) more] db(1) more show ?thesis
    by (intro exI [of _ ?p] exI [of _ db] exI [of _ ?p']) (simp add: SubmitTask_def)
qed

end
