(* ===== verification/OldPool.thy ===== *)
theory OldPool
  imports Prelude "HOL-Library.Multiset"
begin

text \<open>
  The first thread pool, \<open>ThreadPool\<close> (\<open>include/util/thread_pool.h\<close>, \<open>src/util/thread_pool.cc\<close>), which
  \<open>TCThreadPool\<close> of \<open>TaskPool\<close> replaced. \<open>Start\<close> makes a thread that waits for the first task and then
  makes the workers.

  The queue and the list of threads are only touched under \<open>mtx_\<close>, but for the size that \<open>SubmitTask\<close>
  reads before it takes the mutex. So what a thread does from taking \<open>mtx_\<close> to releasing it, at the
  end of the block or in \<open>cv_.wait\<close>, is one step, and a thread that a notification wakes is where it
  was before it took the mutex. A task is a pointer, \<open>None\<close> when it is null. \<open>submitted\<close>, \<open>taken\<close> and
  \<open>executed\<close> are records of the history.
\<close>

section \<open>State and operations\<close>

datatype 't thread = InitLocks | InitWaits | Locks | Waits | Runs "'t option" | Ended

record 't old_pool =
  kMaxTaskQueueSize :: int
  kMaxCoreThreadNum :: int
  task_queue :: "'t option list"
  threads :: "'t thread list"
  thread_queue :: "nat list"
  entering :: "'t option list"
  submitted :: "'t option list"
  taken :: "'t option list"
  executed :: "'t list"

text \<open>Both limits are of type \<open>int\<close> and are compared with sizes, for which they are converted.\<close>

definition as_size :: "int \<Rightarrow> nat" where
  "as_size k = unat (word_of_int k :: u64)"

definition ThreadPool_new :: "int \<Rightarrow> int \<Rightarrow> 't old_pool" where
  "ThreadPool_new max_task_queue_size max_core_thread_num =
     \<lparr>kMaxTaskQueueSize = max_task_queue_size, kMaxCoreThreadNum = max_core_thread_num, task_queue = [],
      threads = [], thread_queue = [], entering = [], submitted = [], taken = [], executed = []\<rparr>"

definition ThreadPool_default :: "'t old_pool" where
  "ThreadPool_default = ThreadPool_new 0 0"

definition ThreadPool_Start :: "'t old_pool \<Rightarrow> bool \<times> 't old_pool" where
  "ThreadPool_Start p = (True, p\<lparr>threads := threads p @ [InitLocks]\<rparr>)"

fun old_wake :: "'t thread \<Rightarrow> 't thread" where
  "old_wake InitWaits = InitLocks"
| "old_wake Waits = Locks"
| "old_wake w = w"

definition notify_all :: "'t old_pool \<Rightarrow> 't old_pool" where
  "notify_all p = p\<lparr>threads := map old_wake (threads p)\<rparr>"

text \<open>\<open>SubmitTask\<close>: the test, which may return \<open>false\<close>, and the part under the mutex for the \<open>i\<close>-th of
  the callers that passed the test.\<close>

definition SubmitTask_test :: "'t old_pool \<Rightarrow> 't option \<Rightarrow> bool \<times> 't old_pool" where
  "SubmitTask_test p t_task =
     (if as_size (kMaxTaskQueueSize p) \<le> length (task_queue p) then (False, p)
      else (True, p\<lparr>entering := entering p @ [t_task]\<rparr>))"

definition SubmitTask_push :: "nat \<Rightarrow> 't old_pool \<Rightarrow> 't old_pool" where
  "SubmitTask_push i p =
     notify_all (p\<lparr>task_queue := task_queue p @ [entering p ! i],
       entering := take i (entering p) @ drop (Suc i) (entering p), submitted := submitted p @ [entering p ! i]\<rparr>)"

definition old_moves :: "'t old_pool \<Rightarrow> nat \<Rightarrow> 't thread \<Rightarrow> 't old_pool" where
  "old_moves p t w = p\<lparr>threads := (threads p)[t := w]\<rparr>"

text \<open>What thread \<open>t\<close> does next; \<open>None\<close> while it cannot go on.\<close>

definition InitThreadPool :: "nat \<Rightarrow> 't old_pool \<Rightarrow> 't old_pool option" where
  "InitThreadPool t p =
     (case threads p ! t of
        InitLocks \<Rightarrow>
          if task_queue p = [] then Some (old_moves p t InitWaits)
          else
            let n = as_size (kMaxCoreThreadNum p) - length (thread_queue p); k = length (threads p) in
            Some (notify_all (p\<lparr>threads := (threads p)[t := Ended] @ replicate n Locks,
              thread_queue := thread_queue p @ [k..<k + n]\<rparr>))
      | _ \<Rightarrow> None)"

fun given :: "'t option \<Rightarrow> 't list" where
  "given None = []"
| "given (Some task) = [task]"

definition ThreadPool_BackgroundThreadTask :: "nat \<Rightarrow> 't old_pool \<Rightarrow> 't old_pool option" where
  "ThreadPool_BackgroundThreadTask t p =
     (case threads p ! t of
        Locks \<Rightarrow>
          (case task_queue p of
             [] \<Rightarrow> Some (old_moves p t Waits)
           | first_task # q \<Rightarrow> Some (old_moves (p\<lparr>task_queue := q, taken := taken p @ [first_task]\<rparr>) t (Runs first_task)))
      | Runs first_task \<Rightarrow> Some (old_moves (p\<lparr>executed := executed p @ given first_task\<rparr>) t Locks)
      | _ \<Rightarrow> None)"

text \<open>The steps of the pool, and those of at most \<open>c\<close> callers that submit at the same time; a waiting
  thread may also wake up spuriously.\<close>

inductive old_serving :: "'t old_pool \<Rightarrow> 't old_pool \<Rightarrow> bool" where
  push: "i < length (entering p) \<Longrightarrow> old_serving p (SubmitTask_push i p)"
| init: "t < length (threads p) \<Longrightarrow> InitThreadPool t p = Some p' \<Longrightarrow> old_serving p p'"
| work: "t < length (threads p) \<Longrightarrow> ThreadPool_BackgroundThreadTask t p = Some p' \<Longrightarrow> old_serving p p'"

inductive old_pool_step :: "nat \<Rightarrow> 't old_pool \<Rightarrow> 't old_pool \<Rightarrow> bool" for c where
  serve: "old_serving p p' \<Longrightarrow> old_pool_step c p p'"
| start: "ThreadPool_Start p = (ok, p') \<Longrightarrow> old_pool_step c p p'"
| submit: "length (entering p) < c \<Longrightarrow> SubmitTask_test p task = (ok, p') \<Longrightarrow> old_pool_step c p p'"
| spurious: "t < length (threads p) \<Longrightarrow> old_pool_step c p (old_moves p t (old_wake (threads p ! t)))"

abbreviation old_pool_reaches :: "nat \<Rightarrow> 't old_pool \<Rightarrow> 't old_pool \<Rightarrow> bool" where
  "old_pool_reaches c \<equiv> (old_pool_step c)\<^sup>*\<^sup>*"

section \<open>What every reachable state satisfies\<close>

fun running_of :: "'t thread \<Rightarrow> 't list" where
  "running_of (Runs task) = given task"
| "running_of _ = []"

fun sleeps :: "'t thread \<Rightarrow> bool" where
  "sleeps InitWaits = True"
| "sleeps Waits = True"
| "sleeps _ = False"

fun is_worker :: "'t thread \<Rightarrow> nat" where
  "is_worker Locks = 1"
| "is_worker Waits = 1"
| "is_worker (Runs _) = 1"
| "is_worker _ = 0"

definition old_running :: "'t old_pool \<Rightarrow> 't multiset" where
  "old_running p = (\<Sum>w\<leftarrow>threads p. mset (running_of w))"

definition old_workers :: "'t old_pool \<Rightarrow> nat" where
  "old_workers p = (\<Sum>w\<leftarrow>threads p. is_worker w)"

definition old_inv :: "nat \<Rightarrow> 't old_pool \<Rightarrow> bool" where
  "old_inv c p \<longleftrightarrow> taken p @ task_queue p = submitted p \<and>
     mset (executed p) + old_running p = mset (concat (map given (taken p))) \<and>
     (task_queue p \<noteq> [] \<longrightarrow> (\<forall>w\<in>set (threads p). \<not> sleeps w)) \<and>
     (Ended \<in> set (threads p) \<longrightarrow> as_size (kMaxCoreThreadNum p) \<le> old_workers p) \<and>
     old_workers p = length (thread_queue p) \<and> old_workers p \<le> as_size (kMaxCoreThreadNum p) \<and>
     length (task_queue p) + length (entering p) \<le> as_size (kMaxTaskQueueSize p) - 1 + c"

lemma sum_list_move:
  fixes f :: "'a \<Rightarrow> 'b :: cancel_comm_monoid_add"
  assumes "t < length xs"
  shows "(\<Sum>x\<leftarrow>xs[t := y]. f x) + f (xs ! t) = (\<Sum>x\<leftarrow>xs. f x) + f y"
proof -
  have "xs = take t xs @ xs ! t # drop (Suc t) xs" by (rule id_take_nth_drop [OF assms])
  then have "(\<Sum>x\<leftarrow>xs. f x) = (\<Sum>x\<leftarrow>take t xs. f x) + (f (xs ! t) + (\<Sum>x\<leftarrow>drop (Suc t) xs. f x))"
    by (metis list.simps(9) map_append sum_list.Cons sum_list_append)
  moreover have "(\<Sum>x\<leftarrow>xs[t := y]. f x) = (\<Sum>x\<leftarrow>take t xs. f x) + (f y + (\<Sum>x\<leftarrow>drop (Suc t) xs. f x))"
    by (simp add: upd_conv_take_nth_drop [OF assms])
  ultimately show ?thesis by (simp add: ac_simps)
qed

lemma old_wake_same [simp]: "running_of (old_wake w) = running_of w" "is_worker (old_wake w) = is_worker w" "\<not> sleeps (old_wake w)"
  "old_wake w = Ended \<longleftrightarrow> w = Ended" "Ended = old_wake w \<longleftrightarrow> Ended = w"
  by (cases w; simp)+

lemma notify_all_simps [simp]:
  "old_running (notify_all p) = old_running p" "old_workers (notify_all p) = old_workers p"
  "Ended \<in> set (threads (notify_all p)) \<longleftrightarrow> Ended \<in> set (threads p)"
  "\<forall>w\<in>set (threads (notify_all p)). \<not> sleeps w"
  "task_queue (notify_all p) = task_queue p" "entering (notify_all p) = entering p" "taken (notify_all p) = taken p"
  "submitted (notify_all p) = submitted p" "executed (notify_all p) = executed p"
  "kMaxCoreThreadNum (notify_all p) = kMaxCoreThreadNum p" "kMaxTaskQueueSize (notify_all p) = kMaxTaskQueueSize p"
  "thread_queue (notify_all p) = thread_queue p"
  by (auto simp: notify_all_def old_running_def old_workers_def o_def)

lemma old_invD:
  assumes "old_inv c p"
  shows "taken p @ task_queue p = submitted p" "mset (executed p) + old_running p = mset (concat (map given (taken p)))"
    "task_queue p \<noteq> [] \<Longrightarrow> \<forall>w\<in>set (threads p). \<not> sleeps w"
    "Ended \<in> set (threads p) \<Longrightarrow> as_size (kMaxCoreThreadNum p) \<le> old_workers p"
    "old_workers p = length (thread_queue p)" "old_workers p \<le> as_size (kMaxCoreThreadNum p)"
    "length (task_queue p) + length (entering p) \<le> as_size (kMaxTaskQueueSize p) - 1 + c"
  using assms unfolding old_inv_def by blast+

text \<open>A thread that is replaced by one that does the same.\<close>

lemma moves_same:
  assumes "t < length (threads p)" "running_of w = running_of (threads p ! t)" "is_worker w = is_worker (threads p ! t)"
  shows "old_running (old_moves p t w) = old_running p" "old_workers (old_moves p t w) = old_workers p"
  using sum_list_move [OF assms(1), of "\<lambda>w. mset (running_of w)" w] sum_list_move [OF assms(1), of is_worker w] assms(2,3)
  by (simp_all add: old_running_def old_workers_def old_moves_def)

lemma moves_threads: "t < length (threads p) \<Longrightarrow> w' \<in> set (threads (old_moves p t w)) \<Longrightarrow> w' = w \<or> w' \<in> set (threads p)"
  using set_update_subset_insert by (fastforce simp: old_moves_def)

lemma old_moves_simps [simp]:
  "task_queue (old_moves p t w) = task_queue p" "entering (old_moves p t w) = entering p" "taken (old_moves p t w) = taken p"
  "submitted (old_moves p t w) = submitted p" "executed (old_moves p t w) = executed p"
  "kMaxCoreThreadNum (old_moves p t w) = kMaxCoreThreadNum p" "kMaxTaskQueueSize (old_moves p t w) = kMaxTaskQueueSize p"
  "thread_queue (old_moves p t w) = thread_queue p"
  by (simp_all add: old_moves_def)

lemma old_inv_moves:
  assumes "old_inv c p" "t < length (threads p)" "running_of w = running_of (threads p ! t)"
    and "is_worker w = is_worker (threads p ! t)" "sleeps w \<longrightarrow> task_queue p = []" "w = Ended \<longrightarrow> threads p ! t = Ended"
  shows "old_inv c (old_moves p t w)"
  using assms(1) moves_same [OF assms(2-4)] moves_threads [OF assms(2), of _ w] assms(5,6) nth_mem [OF assms(2)]
  unfolding old_inv_def old_moves_simps by metis

text \<open>A worker that takes a task or has executed one.\<close>

lemma moves_running:
  assumes "t < length (threads p)" "is_worker w = is_worker (threads p ! t)"
  shows "old_running (old_moves p t w) + mset (running_of (threads p ! t)) = old_running p + mset (running_of w)"
    "old_workers (old_moves p t w) = old_workers p"
  using sum_list_move [OF assms(1), of "\<lambda>w. mset (running_of w)" w] sum_list_move [OF assms(1), of is_worker w] assms(2)
  by (simp_all add: old_running_def old_workers_def old_moves_def)

lemma old_inv_taken:
  assumes "old_inv c p" "t < length (threads p)" "threads p ! t = Locks" "task_queue p = task # q"
  shows "old_inv c (old_moves (p\<lparr>task_queue := q, taken := taken p @ [task]\<rparr>) t (Runs task))"
proof -
  let ?p = "p\<lparr>task_queue := q, taken := taken p @ [task]\<rparr>"
  have same: "old_running ?p = old_running p" "old_workers ?p = old_workers p" by (simp_all add: old_running_def old_workers_def)
  have "old_running (old_moves ?p t (Runs task)) = old_running p + mset (given task)"
    "old_workers (old_moves ?p t (Runs task)) = old_workers p"
    using moves_running [of t ?p "Runs task"] assms(2,3) same by simp_all
  moreover have "(\<forall>w\<in>set (threads p). \<not> sleeps w) \<Longrightarrow> \<forall>w\<in>set (threads (old_moves ?p t (Runs task))). \<not> sleeps w"
    "Ended \<in> set (threads (old_moves ?p t (Runs task))) \<Longrightarrow> Ended \<in> set (threads p)"
    using moves_threads [of t ?p _ "Runs task"] assms(2) by fastforce+
  moreover note old_invD [OF assms(1)] assms(4)
  ultimately show ?thesis unfolding old_inv_def by (intro conjI impI) simp_all
qed

lemma old_inv_executed:
  assumes "old_inv c p" "t < length (threads p)" "threads p ! t = Runs task"
  shows "old_inv c (old_moves (p\<lparr>executed := executed p @ given task\<rparr>) t Locks)"
proof -
  let ?p = "p\<lparr>executed := executed p @ given task\<rparr>"
  have same: "old_running ?p = old_running p" "old_workers ?p = old_workers p" by (simp_all add: old_running_def old_workers_def)
  have "old_running (old_moves ?p t Locks) + mset (given task) = old_running p" "old_workers (old_moves ?p t Locks) = old_workers p"
    using moves_running [of t ?p Locks] assms(2,3) same by simp_all
  moreover have "(\<forall>w\<in>set (threads p). \<not> sleeps w) \<Longrightarrow> \<forall>w\<in>set (threads (old_moves ?p t Locks)). \<not> sleeps w"
    "Ended \<in> set (threads (old_moves ?p t Locks)) \<Longrightarrow> Ended \<in> set (threads p)"
    using moves_threads [of t ?p _ Locks] assms(2) by fastforce+
  moreover have "mset (executed p @ given task) + old_running (old_moves ?p t Locks) = mset (concat (map given (taken p)))"
    unfolding old_invD(2) [OF assms(1), symmetric] calculation(1) [symmetric] by simp
  moreover note old_invD [OF assms(1)]
  ultimately show ?thesis unfolding old_inv_def by (intro conjI impI) simp_all
qed

lemma sum_list_0_replicate: "sum_list (replicate n (0 :: 'a :: comm_monoid_add)) = 0"
  by (induction n) simp_all

lemma old_inv_created:
  assumes "old_inv c p" "t < length (threads p)" "threads p ! t = InitLocks" "n = as_size (kMaxCoreThreadNum p) - length (thread_queue p)"
  shows "old_inv c (notify_all (p\<lparr>threads := (threads p)[t := Ended] @ replicate n Locks,
    thread_queue := thread_queue p @ [k..<k + n]\<rparr>))"
proof -
  let ?p = "p\<lparr>threads := (threads p)[t := Ended] @ replicate n Locks, thread_queue := thread_queue p @ [k..<k + n]\<rparr>"
  have "old_running ?p = old_running (old_moves p t Ended)" "old_workers ?p = old_workers (old_moves p t Ended) + n"
    by (simp_all add: old_running_def old_workers_def old_moves_def sum_list_replicate sum_list_0_replicate)
  then have "old_running ?p = old_running p" "old_workers ?p = old_workers p + n"
    using moves_same [of t p Ended] assms(2,3) by simp_all
  then show ?thesis using assms(1,4) by (simp add: old_inv_def)
qed

lemma old_inv_serving:
  assumes "old_serving p p'" "old_inv c p"
  shows "old_inv c p'"
  using assms(1)
proof cases
  case (push i)
  let ?p = "p\<lparr>task_queue := task_queue p @ [entering p ! i], entering := take i (entering p) @ drop (Suc i) (entering p),
    submitted := submitted p @ [entering p ! i]\<rparr>"
  have "old_running ?p = old_running p" "old_workers ?p = old_workers p" by (simp_all add: old_running_def old_workers_def)
  then show ?thesis using assms(2) push by (auto simp: SubmitTask_push_def old_inv_def)
next
  case (init t)
  then have l: "threads p ! t = InitLocks" by (auto simp: InitThreadPool_def split: thread.splits)
  show ?thesis
  proof (cases "task_queue p = []")
    case True
    then have "p' = old_moves p t InitWaits" using init(2) l by (simp add: InitThreadPool_def)
    then show ?thesis using old_inv_moves [OF assms(2) init(1), of InitWaits] l True by simp
  next
    case False
    then show ?thesis
      using init(2) l old_inv_created [OF assms(2) init(1) l refl, of "length (threads p)"] by (simp add: InitThreadPool_def Let_def)
  qed
next
  case (work t)
  then consider "threads p ! t = Locks" "task_queue p = []" "p' = old_moves p t Waits"
    | task q where "threads p ! t = Locks" "task_queue p = task # q"
      "p' = old_moves (p\<lparr>task_queue := q, taken := taken p @ [task]\<rparr>) t (Runs task)"
    | task where "threads p ! t = Runs task" "p' = old_moves (p\<lparr>executed := executed p @ given task\<rparr>) t Locks"
    by (auto simp: ThreadPool_BackgroundThreadTask_def split: thread.splits list.splits)
  then show ?thesis
  proof cases
    case 1
    then show ?thesis using old_inv_moves [OF assms(2) work(1), of Waits] by simp
  qed (use old_inv_taken old_inv_executed assms(2) work(1) in blast)+
qed

lemma old_inv_step:
  assumes "old_pool_step c p p'" "old_inv c p"
  shows "old_inv c p'"
  using assms(1)
proof cases
  case serve
  then show ?thesis using old_inv_serving assms(2) by blast
next
  case (start ok)
  then have p': "p' = p\<lparr>threads := threads p @ [InitLocks]\<rparr>" by (simp add: ThreadPool_Start_def)
  have "old_running p' = old_running p" "old_workers p' = old_workers p" by (simp_all add: old_running_def old_workers_def p')
  then show ?thesis using assms(2) by (auto simp: old_inv_def p')
next
  case (submit task ok)
  show ?thesis
  proof (cases "as_size (kMaxTaskQueueSize p) \<le> length (task_queue p)")
    case False
    then have p': "p' = p\<lparr>entering := entering p @ [task]\<rparr>" using submit(2) by (simp add: SubmitTask_test_def)
    have "old_running p' = old_running p" "old_workers p' = old_workers p" by (simp_all add: old_running_def old_workers_def p')
    then show ?thesis using assms(2) submit(1) False by (auto simp: old_inv_def p')
  qed (use submit(2) assms(2) in \<open>simp add: SubmitTask_test_def\<close>)
next
  case (spurious t)
  show ?thesis unfolding spurious(1) by (rule old_inv_moves [OF assms(2) spurious(2)]) simp_all
qed

lemma old_inv_reachable: "old_pool_reaches c (ThreadPool_new k n) p \<Longrightarrow> old_inv c p"
proof (induction rule: rtranclp_induct)
  case base
  show ?case by (simp add: old_inv_def ThreadPool_new_def old_running_def old_workers_def)
qed (use old_inv_step in blast)

section \<open>Every task is served\<close>

fun old_weight :: "'t thread \<Rightarrow> nat" where
  "old_weight InitLocks = 1"
| "old_weight Locks = 1"
| "old_weight (Runs _) = 2"
| "old_weight _ = 0"

fun is_init :: "'t thread \<Rightarrow> nat" where
  "is_init InitLocks = 1"
| "is_init InitWaits = 1"
| "is_init _ = 0"

definition old_measure :: "('t old_pool \<times> 't old_pool) set" where
  "old_measure = measures [\<lambda>p. length (entering p) + (\<Sum>w\<leftarrow>threads p. is_init w), \<lambda>p. length (task_queue p),
     \<lambda>p. \<Sum>w\<leftarrow>threads p. old_weight w]"

lemma is_init_wake [simp]: "is_init (old_wake w) = is_init w"
  by (cases w) simp_all

lemma old_serving_decreases: "old_serving p p' \<Longrightarrow> (p', p) \<in> old_measure"
proof (induction rule: old_serving.induct)
  case (push i p)
  then show ?case by (simp add: old_measure_def SubmitTask_push_def notify_all_def o_def)
next
  case (init t p p')
  note move = sum_list_move [OF init(1), of is_init] sum_list_move [OF init(1), of old_weight]
  have l: "threads p ! t = InitLocks" using init(2) by (auto simp: InitThreadPool_def split: thread.splits)
  show ?case
  proof (cases "task_queue p = []")
    case True
    then have "p' = old_moves p t InitWaits" using init(2) l by (simp add: InitThreadPool_def)
    then show ?thesis using move [of InitWaits] l by (simp add: old_measure_def old_moves_def)
  next
    case False
    then have "length (entering p') = length (entering p)" "(\<Sum>w\<leftarrow>threads p'. is_init w) = (\<Sum>w\<leftarrow>(threads p)[t := Ended]. is_init w)"
      using init(2) l by (auto simp: InitThreadPool_def Let_def notify_all_def o_def sum_list_replicate)
    then show ?thesis using move(1) [of Ended] l by (simp add: old_measure_def)
  qed
next
  case (work t p p')
  note move = sum_list_move [OF work(1), of is_init] sum_list_move [OF work(1), of old_weight]
  show ?case
  proof (cases "threads p ! t")
    case Locks
    then show ?thesis
      using work(2) move [of Waits] move [of "Runs (hd (task_queue p))"]
      by (auto simp: ThreadPool_BackgroundThreadTask_def old_measure_def old_moves_def split: list.splits)
  next
    case (Runs task)
    then show ?thesis
      using work(2) move [of Locks] by (auto simp: ThreadPool_BackgroundThreadTask_def old_measure_def old_moves_def)
  qed (use work(2) in \<open>simp_all add: ThreadPool_BackgroundThreadTask_def\<close>)
qed

lemma stuck_threads:
  assumes "\<nexists>p'. old_serving p p'"
  shows "entering p = []" "w \<in> set (threads p) \<Longrightarrow> w = InitWaits \<or> w = Waits \<or> w = Ended"
proof -
  show "entering p = []" using push [of 0 p] assms by auto
  show "w = InitWaits \<or> w = Waits \<or> w = Ended" if w: "w \<in> set (threads p)"
  proof (rule ccontr)
    assume o: "\<not> ?thesis"
    obtain t where t: "t < length (threads p)" "threads p ! t = w" using w by (auto simp: in_set_conv_nth)
    have "InitThreadPool t p \<noteq> None \<or> ThreadPool_BackgroundThreadTask t p \<noteq> None"
      using o t(2) by (cases w) (auto simp: InitThreadPool_def ThreadPool_BackgroundThreadTask_def Let_def split: list.splits)
    then show False using init [OF t(1)] work [OF t(1)] assms by auto
  qed
qed

lemma old_serving_reaches: "old_serving\<^sup>*\<^sup>* p p' \<Longrightarrow> old_pool_reaches c p p'"
  by (rule rtranclp_mono [THEN predicate2D]) (auto intro: serve)

lemma serving_keeps: "old_serving p p' \<Longrightarrow> kMaxCoreThreadNum p' = kMaxCoreThreadNum p \<and>
    kMaxTaskQueueSize p' = kMaxTaskQueueSize p \<and> (threads p \<noteq> [] \<longrightarrow> threads p' \<noteq> [])"
  by (induction rule: old_serving.induct)
    (auto simp: SubmitTask_push_def notify_all_def InitThreadPool_def ThreadPool_BackgroundThreadTask_def old_moves_def Let_def
      split: thread.splits list.splits if_splits)

lemma serving_keeps_all:
  "old_serving\<^sup>*\<^sup>* p p' \<Longrightarrow> kMaxCoreThreadNum p' = kMaxCoreThreadNum p \<and> (threads p \<noteq> [] \<longrightarrow> threads p' \<noteq> [])"
  by (induction rule: rtranclp_induct) (use serving_keeps in fastforce)+

lemma step_limits: "old_pool_step c p p' \<Longrightarrow> kMaxTaskQueueSize p' = kMaxTaskQueueSize p \<and> kMaxCoreThreadNum p' = kMaxCoreThreadNum p"
proof (induction rule: old_pool_step.induct)
  case (serve p p')
  then show ?case using serving_keeps by blast
qed (auto simp: old_moves_def ThreadPool_Start_def SubmitTask_test_def split: if_splits)

lemma stuck_done:
  assumes "old_inv c p" "\<nexists>p'. old_serving p p'" "threads p \<noteq> []" "0 < as_size (kMaxCoreThreadNum p)"
  shows "task_queue p = [] \<and> mset (executed p) = mset (concat (map given (submitted p)))"
proof -
  note w = stuck_threads(2) [OF assms(2)]
  have "task_queue p = []"
  proof (rule ccontr)
    assume "task_queue p \<noteq> []"
    then have e: "w = Ended" if "w \<in> set (threads p)" for w using w [OF that] that old_invD(3) [OF assms(1)] by auto
    then have "Ended \<in> set (threads p)" using assms(3) by (cases "threads p") auto
    moreover have "map is_worker (threads p) = map (\<lambda>_. 0) (threads p)" by (rule map_cong [OF refl]) (metis e is_worker.simps(6))
    then have "old_workers p = 0" by (simp add: old_workers_def)
    ultimately show False using assms(1,4) by (simp add: old_inv_def)
  qed
  moreover have "map (\<lambda>w. mset (running_of w)) (threads p) = map (\<lambda>_. {#}) (threads p)"
    by (rule map_cong [OF refl]) (auto dest: w)
  then have "old_running p = {#}" unfolding old_running_def by (simp only: sum_list_0)
  ultimately show ?thesis using assms(1) by (simp add: old_inv_def)
qed

section \<open>Properties\<close>

text \<open>C22. Tasks are taken in the order in which they were queued, none is lost or executed twice, and
  the queue exceeds its limit by less than the number of callers that submit at the same time.
  Once the pool has been started with at least one worker to make, it has no infinite run without
  new calls and spurious old_wake-ups, and a run that cannot go on has executed every task that was
  queued: no notification is lost, since \<open>SubmitTask\<close> notifies under the mutex.\<close>

theorem old_pool_serves_all:
  assumes "old_pool_reaches c (ThreadPool_new k n) p"
  shows "taken p @ task_queue p = submitted p \<and> mset (executed p) \<subseteq># mset (concat (map given (taken p))) \<and>
    length (task_queue p) \<le> as_size k - 1 + c \<and>
    \<not> (\<exists>f. f 0 = p \<and> (\<forall>i. old_serving (f i) (f (Suc i)))) \<and>
    (\<forall>p'. old_serving\<^sup>*\<^sup>* p p' \<longrightarrow> (\<nexists>p''. old_serving p' p'') \<longrightarrow> threads p \<noteq> [] \<longrightarrow> 0 < as_size n \<longrightarrow>
      task_queue p' = [] \<and> entering p' = [] \<and> mset (executed p') = mset (concat (map given (submitted p'))))"
proof (intro conjI allI impI notI)
  have limits: "kMaxTaskQueueSize p = k \<and> kMaxCoreThreadNum p = n"
    using assms
  proof (induction rule: rtranclp_induct)
    case (step p p')
    then show ?case using step_limits by metis
  qed (simp add: ThreadPool_new_def)
  note ok = old_inv_reachable [OF assms]
  show "taken p @ task_queue p = submitted p" by (rule old_invD(1) [OF ok])
  show "mset (executed p) \<subseteq># mset (concat (map given (taken p)))"
    unfolding old_invD(2) [OF ok, symmetric] by simp
  show "length (task_queue p) \<le> as_size k - 1 + c" using old_invD(7) [OF ok] limits by simp
  {
    assume "\<exists>f. f 0 = p \<and> (\<forall>i. old_serving (f i) (f (Suc i)))"
    then obtain f where "f 0 = p" "\<And>i. old_serving (f i) (f (Suc i))" by blast
    then have "\<forall>i. (f (Suc i), f i) \<in> old_measure" using old_serving_decreases by blast
    then show False unfolding old_measure_def using wf_measures wf_iff_no_infinite_down_chain by blast
  next
    fix p' assume r: "old_serving\<^sup>*\<^sup>* p p'" "\<nexists>p''. old_serving p' p''" "threads p \<noteq> []" "0 < as_size n"
    have "old_inv c p'" by (rule old_inv_reachable [OF rtranclp_trans [OF assms old_serving_reaches [OF r(1)]]])
    moreover have "threads p' \<noteq> []" "0 < as_size (kMaxCoreThreadNum p')"
      using serving_keeps_all [OF r(1)] r(3,4) limits by simp_all
    ultimately have d: "task_queue p' = [] \<and> mset (executed p') = mset (concat (map given (submitted p')))"
      using stuck_done r(2) by blast
    show "task_queue p' = []" "mset (executed p') = mset (concat (map given (submitted p')))" using d by blast+
    show "entering p' = []" by (rule stuck_threads(1) [OF r(2)])
  }
qed

text \<open>One caller, one worker, and a task that is waiting in the queue.\<close>

theorem old_pool_serves_all_witness:
  "\<exists>p :: nat old_pool. task_queue p = [Some 7] \<and> threads p = [InitLocks] \<and>
    \<not> (\<exists>f. f 0 = p \<and> (\<forall>i. old_serving (f i) (f (Suc i))))"
proof -
  let ?p0 = "ThreadPool_new 1 1 :: nat old_pool" and ?p1 = "snd (ThreadPool_Start (ThreadPool_new 1 1 :: nat old_pool))"
  let ?p2 = "snd (SubmitTask_test ?p1 (Some 7))"
  let ?p3 = "SubmitTask_push 0 ?p2"
  have "old_pool_step 1 ?p0 ?p1" by (rule old_pool_step.start [of _ True]) (simp add: ThreadPool_Start_def)
  moreover have "old_pool_step 1 ?p1 ?p2"
    by (rule old_pool_step.submit [of _ _ _ "fst (SubmitTask_test ?p1 (Some 7))"]) (simp_all add: ThreadPool_Start_def ThreadPool_new_def)
  moreover have "old_pool_step 1 ?p2 ?p3"
    by (rule old_pool_step.serve [OF old_serving.push])
      (simp add: ThreadPool_Start_def ThreadPool_new_def SubmitTask_test_def as_size_def)
  ultimately have "old_pool_reaches 1 ?p0 ?p3" by (meson converse_rtranclp_into_rtranclp rtranclp.rtrancl_refl)
  from old_pool_serves_all [OF this] show ?thesis
    by (intro exI [of _ ?p3] conjI)
      (simp_all add: ThreadPool_Start_def ThreadPool_new_def SubmitTask_test_def SubmitTask_push_def notify_all_def as_size_def)
qed

text \<open>The unsynchronised test of \<open>SubmitTask\<close>: two callers fill a queue of size one twice.\<close>

lemma old_pool_exceeds_limit:
  "\<exists>p :: nat old_pool. old_pool_reaches 2 (ThreadPool_new 1 1) p \<and> length (task_queue p) = 2"
proof -
  let ?p0 = "ThreadPool_new 1 1 :: nat old_pool"
  let ?p1 = "snd (SubmitTask_test ?p0 (Some 7))"
  let ?p2 = "snd (SubmitTask_test ?p1 (Some 8))"
  let ?p3 = "SubmitTask_push 0 ?p2" and ?p4 = "SubmitTask_push 0 (SubmitTask_push 0 ?p2)"
  note defs = ThreadPool_new_def SubmitTask_test_def SubmitTask_push_def notify_all_def as_size_def
  have "old_pool_step 2 ?p0 ?p1" "old_pool_step 2 ?p1 ?p2"
    by (rule old_pool_step.submit [OF _ surjective_pairing], simp add: defs)+
  moreover have "old_pool_step 2 ?p2 ?p3" "old_pool_step 2 ?p3 ?p4"
    by (rule old_pool_step.serve [OF old_serving.push], simp add: defs)+
  ultimately have "old_pool_reaches 2 ?p0 ?p4" by (meson converse_rtranclp_into_rtranclp rtranclp.rtrancl_refl)
  then show ?thesis by (intro exI [of _ ?p4]) (simp add: defs)
qed

end
