(* ===== verification/VariableInt.thy ===== *)
theory VariableInt
  imports Varint
begin

text \<open>
  The older variable-length integers, \<open>VariableInteger\<close> (\<open>src/coding/variable_int.cc\<close>,
  \<open>include/coding/variable_int.h\<close>): groups of seven bits with a tag bit like those of
  \<open>Varint\<close>, but the most significant group first. \<open>top_byte\<close> is \<open>*byte_ptr\<close>, the last
  byte of the value in memory; the loops shift the value below it.
\<close>

section \<open>Encoding\<close>

definition top_byte :: "u64 \<Rightarrow> byte" where
  "top_byte ul = byte_at ul 7"

text \<open>The loop that drops empty groups, with the number of rounds left.\<close>

fun skip_groups :: "nat \<Rightarrow> nat \<Rightarrow> u64 \<Rightarrow> nat \<times> u64" where
  "skip_groups 0 out_byte ul = (out_byte, ul)"
| "skip_groups (Suc n) out_byte ul =
     (if top_byte ul AND 0x7F = 0 then skip_groups n (out_byte - 1) (push_bit 7 ul) else (out_byte, ul))"

text \<open>The loop that writes tagged groups, and the last group behind it.\<close>

fun store_groups :: "nat \<Rightarrow> u64 \<Rightarrow> bytes" where
  "store_groups 0 ul = [top_byte ul AND 0x7F]"
| "store_groups (Suc n) ul = (top_byte ul OR 0x80) # store_groups n (push_bit 7 ul)"

definition Encode_uint64 :: "u64 \<Rightarrow> bytes" where
  "Encode_uint64 src =
     (let (out_byte, ul) = (if top_byte src AND 0x80 = 0 then skip_groups 9 9 src else (10, src)) in
      if out_byte = 0 then [0]
      else if out_byte = 10 then 0x81 # store_groups (out_byte - 1 - 1) ul
      else store_groups (out_byte - 1) ul)"

definition Encode_uint64Size :: "u64 \<Rightarrow> nat" where
  "Encode_uint64Size src =
     (if src \<le> 0x7F then 1
      else if src \<le> 0x3FFF then 2
      else if src \<le> 0x1FFFFF then 3
      else if src \<le> 0xFFFFFFF then 4
      else if src \<le> 0x7FFFFFFFF then 5
      else if src \<le> 0x3FFFFFFFFFF then 6
      else if src \<le> 0x1FFFFFFFFFFFF then 7
      else if src \<le> 0xFFFFFFFFFFFFFF then 8
      else if src \<le> 0x7FFFFFFFFFFFFFFF then 9
      else 10)"

section \<open>Decoding\<close>

fun count_tagged :: "bytes \<Rightarrow> nat \<Rightarrow> nat res" where
  "count_tagged [] total_byte = Inl OobRead"
| "count_tagged (b # bs) total_byte = (if tagged b then count_tagged bs (total_byte + 1) else Inr total_byte)"

text \<open>\<open>*cpy_ptr |= b\<close> sets bits of the lowest byte.\<close>

fun load_groups :: "nat \<Rightarrow> bytes \<Rightarrow> u64 \<Rightarrow> u64 res" where
  "load_groups 0 byte_ptr ret = Inr ret"
| "load_groups (Suc n) byte_ptr ret =
     rbind (rd byte_ptr 0) (\<lambda>b. load_groups n (tl byte_ptr) (push_bit 7 ret OR ucast (0x7F AND b)))"

definition Decode_uint64 :: "bytes \<Rightarrow> u64 res" where
  "Decode_uint64 src =
     rbind (count_tagged src 1) (\<lambda>total_byte.
     rbind (rd src 0) (\<lambda>b. load_groups (total_byte - 1) (tl src) (0 OR ucast (0x7F AND b))))"

section \<open>Groups from the top\<close>

definition group_at :: "nat \<Rightarrow> u64 \<Rightarrow> byte" where
  "group_at n w = ucast (drop_bit (7 * n) w) AND 0x7F"

fun be_groups :: "nat \<Rightarrow> u64 \<Rightarrow> bytes" where
  "be_groups 0 w = [group_at 0 w]"
| "be_groups (Suc n) w = (group_at (Suc n) w OR 0x80) # be_groups n w"

lemma bit_7F: "bit (0x7F :: int) i \<longleftrightarrow> i < 7"
proof -
  have "(0x7F :: int) = mask 7" by (simp add: mask_eq_exp_minus_1)
  then show ?thesis by (auto simp only: bit_mask_iff) auto
qed

lemma bit_80: "bit (0x80 :: int) i \<longleftrightarrow> i = 7"
proof -
  have "(0x80 :: int) = push_bit 7 1" by simp
  then show ?thesis by (auto simp only: bit_push_bit_iff bit_1_iff) auto
qed

lemma bit_group: "bit (group_at n w) i \<longleftrightarrow> i < 7 \<and> bit w (7 * n + i)"
  by (auto simp: group_at_def bit_simps bit_7F)

lemma bit_top_byte: "bit (top_byte w) i \<longleftrightarrow> i < 8 \<and> bit w (56 + i)"
  by (simp add: top_byte_def bit_byte_at)

lemma top_byte_group:
  assumes "n \<le> 8"
  shows "top_byte (push_bit (56 - 7 * n) w) AND 0x7F = group_at n w"
    "top_byte (push_bit (56 - 7 * n) w) OR 0x80 = group_at n w OR 0x80"
  by (rule bit_eqI, use assms in \<open>auto simp: bit_simps bit_group bit_top_byte bit_7F bit_80 algebra_simps\<close>)+

lemma store_groups_be: "n \<le> 8 \<Longrightarrow> store_groups n (push_bit (56 - 7 * n) w) = be_groups n w"
proof (induction n)
  case 0
  then show ?case using top_byte_group(1) [of 0 w] by simp
next
  case (Suc n)
  have "push_bit 7 (push_bit (56 - 7 * Suc n) w) = push_bit (56 - 7 * n) w"
    using Suc.prems by (simp add: push_bit_push_bit)
  then show ?case using Suc top_byte_group(2) [of "Suc n" w] by simp
qed

lemma group_nat: "group_at n w = of_nat (unat w div 128 ^ n mod 128)"
proof -
  have "unat (drop_bit (7 * n) w) = unat w div 128 ^ n"
    by (simp only: unat_drop_bit_eq) (simp add: drop_bit_eq_div power_mult)
  then show ?thesis unfolding group_at_def ucast_7F by simp
qed

lemma group_zero: "group_at n w = 0 \<longleftrightarrow> unat w div 128 ^ n mod 128 = 0"
proof -
  have "unat (of_nat (m mod 128) :: byte) = m mod 128" for m
    by (simp add: unsigned_of_nat take_bit_eq_mod)
  then have "unat (group_at n w) = unat w div 128 ^ n mod 128" unfolding group_nat .
  then show ?thesis by (simp add: unat_eq_0 [symmetric] del: unat_eq_0)
qed

lemma skip_groups_be:
  assumes "size_class k w" "0 < k" "w \<noteq> 0"
  shows "k \<le> n \<Longrightarrow> n \<le> 9 \<Longrightarrow> skip_groups n n (push_bit (63 - 7 * n) w) = (k, push_bit (63 - 7 * k) w)"
proof (induction n)
  case 0
  then show ?case using assms(2) by simp
next
  case (Suc n)
  have e: "63 - 7 * Suc n = 56 - 7 * n" by simp
  have top: "top_byte (push_bit (56 - 7 * n) w) AND 0x7F = 0 \<longleftrightarrow> unat w div 128 ^ n mod 128 = 0"
    using top_byte_group(1) [of n w] group_zero Suc.prems(2) by simp
  show ?case
  proof (cases "k = Suc n")
    case True
    then have w: "unat w < 128 ^ n * 128" "n = 0 \<or> 128 ^ n \<le> unat w"
      using assms(1) by (auto simp: size_class_def)
    have "unat w div 128 ^ n < 128" using w(1) by (simp add: div_less_iff_less_mult)
    moreover have "0 < unat w div 128 ^ n"
      using w(2) assms(3) by (auto simp: div_greater_zero_iff unat_gt_0 word_neq_0_conv Suc_le_eq)
    ultimately show ?thesis using True top by simp
  next
    case False
    then have k: "k \<le> n" using Suc.prems(1) by simp
    have "unat w < 128 ^ k" using assms(1) by (simp add: size_class_def)
    also have "(128::nat) ^ k \<le> 128 ^ n" using k by (rule power_increasing) simp
    finally have "unat w div 128 ^ n = 0" by simp
    moreover have "push_bit 7 (push_bit (56 - 7 * n) w) = push_bit (63 - 7 * n) w"
      using Suc.prems(2) by (simp add: push_bit_push_bit)
    ultimately show ?thesis using Suc.IH [OF k] Suc.prems(2) top by simp
  qed
qed

lemma Encode_uint64_be:
  assumes "size_class k w" "0 < k" "k \<le> 10"
  shows "Encode_uint64 w = be_groups (k - 1) w"
proof -
  have top: "top_byte w AND 0x80 = 0 \<longleftrightarrow> k \<le> 9"
  proof -
    have "top_byte w AND 0x80 = 0 \<longleftrightarrow> \<not> bit w 63"
      using and_exp_eq_0_iff_not_bit [of "top_byte w" 7] by (simp add: bit_top_byte)
    also have "\<dots> \<longleftrightarrow> unat w < 2 ^ 63"
      using top_bit_iff [of w] and_exp_eq_0_iff_not_bit [of w 63] by (simp add: not_le)
    also have "\<dots> \<longleftrightarrow> k \<le> 9"
      using size_class_less [OF assms(1,2), of "2 ^ 63" 9] by (simp add: word_less_nat_alt)
    finally show ?thesis .
  qed
  consider "w = 0" | "w \<noteq> 0" "k \<le> 9" | "w \<noteq> 0" "k = 10" using assms(3) by linarith
  then show ?thesis
  proof cases
    case 1
    then have "k = 1" using assms(1) by (auto simp: size_class_def)
    moreover have "Encode_uint64 0 = [0]" by (simp add: Encode_uint64_def top_byte_def byte_at_def numeral_eq_Suc)
    ultimately show ?thesis using 1 by (simp add: group_at_def)
  next
    case 2
    then have "skip_groups 9 9 w = (k, push_bit (63 - 7 * k) w)" using skip_groups_be [OF assms(1,2), of 9] by simp
    moreover have "63 - 7 * k = 56 - 7 * (k - 1)" using assms(2) by (cases k) auto
    ultimately show ?thesis
      using 2 assms(2) top store_groups_be [of "k - 1" w] unfolding Encode_uint64_def by simp
  next
    case 3
    have "group_at 9 w = 1"
    proof -
      have "2 ^ 63 \<le> unat w" "unat w < 2 ^ 64" using assms(1) 3 unat_less_u64 [of w] by (simp_all add: size_class_def)
      then have "unat w div 2 ^ 63 = 1" by (intro div_nat_eqI) auto
      then show ?thesis unfolding group_nat by simp
    qed
    then have "be_groups 9 w = 0x81 # be_groups 8 w" using be_groups.simps(2) [of 8 w] by simp
    then show ?thesis using 3 top store_groups_be [of 8 w] unfolding Encode_uint64_def by simp
  qed
qed

lemma length_be_groups [simp]: "length (be_groups n w) = Suc n"
  by (induction n) auto

lemma count_be_groups: "count_tagged (be_groups n w @ rest) t = Inr (t + n)"
proof (induction n arbitrary: t)
  case 0
  then show ?case by (simp add: group_at_def)
qed simp

lemma payload_be: "0x7F AND (group_at n w OR 0x80) = group_at n w" "0x7F AND group_at n w = group_at n w"
  by (rule bit_eqI, auto simp: bit_simps bit_group bit_7F bit_80)+

lemma load_group: "push_bit 7 (drop_bit (7 * Suc n) w) OR ucast (group_at n w) = (drop_bit (7 * n) w :: u64)"
  by (rule bit_eqI) (auto simp: bit_simps bit_group algebra_simps)

lemma load_be_groups:
  "load_groups (Suc n) (be_groups n w @ rest) (drop_bit (7 * Suc n) w) = Inr w"
proof (induction n)
  case 0
  then show ?case using load_group [of 0 w] by (simp add: payload_be)
next
  case (Suc n)
  have "load_groups (Suc (Suc n)) (be_groups (Suc n) w @ rest) (drop_bit (7 * Suc (Suc n)) w) =
      load_groups (Suc n) (be_groups n w @ rest) (drop_bit (7 * Suc n) w)"
    unfolding load_group [of "Suc n" w, symmetric] load_groups.simps(2) [of "Suc n"] be_groups.simps(2)
    by (simp only: append_Cons rd_0 rbind.simps list.sel payload_be)
  then show ?case using Suc by simp
qed

lemma Decode_be_groups:
  assumes "unat w < 128 ^ Suc n"
  shows "Decode_uint64 (be_groups n w @ rest) = Inr w"
proof -
  have "drop_bit (7 * Suc n) w = 0"
  proof -
    have "unat (drop_bit (7 * Suc n) w) = unat w div 128 ^ Suc n"
      by (simp only: unat_drop_bit_eq) (simp only: drop_bit_eq_div power_mult, simp)
    then show ?thesis using assms by (simp add: unat_eq_0 [symmetric] del: unat_eq_0)
  qed
  then have "load_groups (Suc n) (be_groups n w @ rest) 0 = Inr w" using load_be_groups [of n w rest] by simp
  then show ?thesis unfolding Decode_uint64_def count_be_groups by simp
qed

section \<open>Properties\<close>

lemma payload_groups: "map (\<lambda>b. b AND 0x7F) (groups k w) = map (\<lambda>n. group_at n w) [0..<k]"
proof (induction k arbitrary: w)
  case (Suc k)
  have "group_at n (drop_bit 7 w) = group_at (Suc n) w" for n
    by (rule bit_eqI) (auto simp: bit_group bit_simps algebra_simps)
  then have "map (\<lambda>n. group_at n (drop_bit 7 w)) [0..<k] = map (\<lambda>n. group_at n w) [Suc 0..<Suc k]"
    by (simp add: map_Suc_upt [symmetric] comp_def del: upt_Suc)
  moreover have "[0..<Suc k] = 0 # [Suc 0..<Suc k]" by (rule upt_conv_Cons) simp
  moreover have "(if k = 0 then ucast w AND 0x7F else ucast w AND 0x7F OR 0x80) AND 0x7F = group_at 0 w"
    by (rule bit_eqI) (auto simp: bit_group bit_simps bit_7F bit_80)
  ultimately show ?case using Suc by simp
qed simp

lemma payload_be_groups: "map (\<lambda>b. b AND 0x7F) (be_groups n w) = rev (map (\<lambda>n. group_at n w) [0..<Suc n])"
proof (induction n)
  case (Suc n)
  then show ?case using payload_be(1) [of "Suc n" w] by (simp add: and.commute)
qed (simp add: group_at_def)

text \<open>C32. The older codec loses nothing: decoding an encoded 64-bit value gives it back whatever
  follows it in memory, the encoding has the size \<open>Encode_uint64Size\<close> says, and it consists of
  the seven-bit groups of the varint codec in the opposite order.\<close>

theorem variable_int_roundtrip:
  "Decode_uint64 (Encode_uint64 w @ rest) = Inr w \<and> length (Encode_uint64 w) = Encode_uint64Size w \<and>
   map (\<lambda>b. b AND 0x7F) (Encode_uint64 w) = rev (map (\<lambda>b. b AND 0x7F) (EncodeVarint64 w))"
proof -
  obtain k where k: "0 < k" "k \<le> 10" "size_class k w" by (rule u64_size_cases)
  have e: "Encode_uint64 w = be_groups (k - 1) w" by (rule Encode_uint64_be [OF k(3,1,2)])
  have "unat w < 128 ^ Suc (k - 1)" using k(1,3) by (simp add: size_class_def)
  then have "Decode_uint64 (Encode_uint64 w @ rest) = Inr w" unfolding e by (rule Decode_be_groups)
  moreover have "Encode_uint64Size w = k"
  proof -
    have "src \<le> t \<longleftrightarrow> src < 1 + t" if "1 + t \<noteq> 0" for src t :: u64
      using unatSuc [OF that] by (simp add: word_le_nat_alt word_less_nat_alt less_Suc_eq_le)
    then show ?thesis
      using size_class_thresholds64 [OF k(3,1)] k(1,2) by (simp add: Encode_uint64Size_def)
  qed
  moreover have "map (\<lambda>b. b AND 0x7F) (Encode_uint64 w) = rev (map (\<lambda>b. b AND 0x7F) (EncodeVarint64 w))"
    unfolding e EncodeVarint64_groups [OF k(1,2,3)] payload_be_groups payload_groups using k(1) by simp
  ultimately show ?thesis using e k(1) by simp
qed

end
