(* ===== verification/Csv.thy ===== *)
theory Csv
  imports Prelude
begin

text \<open>
  The reader of tables, \<open>CSVParser\<close> (\<open>src/util/csv.cc\<close>, \<open>include/util/csv.h\<close>).

  The loops of \<open>SplitCol\<close> need not end, so they take a number of rounds: a run that uses them up is
  \<open>Inl OutOfFuel\<close>. Subscripts are natural numbers; since every round adds at most two to them
  beyond the length of the line, runs below \<open>2 ^ 62\<close> rounds are runs of the code. A stream is
  what is left of the file, with the flag that \<open>getline\<close> tests before it touches its argument.
\<close>

section \<open>One line\<close>

definition kSeperator :: char where
  "kSeperator = CHR '',''"

definition kStringBoundaryFlag :: char where
  "kStringBoundaryFlag = CHR 0x22"

definition line_feed :: char where
  "line_feed = CHR 0x0A"

text \<open>\<open>while (i < str.size() && str[i] != c) ++i;\<close> and \<open>std::string::substr\<close>.\<close>

definition scan_to :: "char \<Rightarrow> string \<Rightarrow> nat \<Rightarrow> nat" where
  "scan_to c str i = i + length (takeWhile (\<lambda>x. x \<noteq> c) (drop i str))"

definition substr :: "string \<Rightarrow> nat \<Rightarrow> nat \<Rightarrow> string res" where
  "substr str pos n = (if pos \<le> length str then Inr (take n (drop pos str)) else Inl Thrown)"

text \<open>The loop over a column in quotes; the result is the column, \<open>i\<close> and \<open>start\<close> when
  \<open>boundary_stack\<close> is back at 0.\<close>

fun quoted_column :: "nat \<Rightarrow> string \<Rightarrow> nat \<Rightarrow> nat \<Rightarrow> nat \<Rightarrow> (string \<times> nat \<times> nat) res" where
  "quoted_column 0 str boundary_stack i start = Inl OutOfFuel"
| "quoted_column (Suc fuel) str boundary_stack i start =
     (let i = scan_to kStringBoundaryFlag str i in
      if boundary_stack = 1 then
        if i + 1 < length str \<and> (str ! (i + 1) = kSeperator \<or> str ! (i + 1) = line_feed) then
          rmap (\<lambda>col. (col, i + 2, i + 2)) (substr str start (i - start))
        else quoted_column fuel str (boundary_stack + 1) (i + 1) start
      else quoted_column fuel str (boundary_stack - 1) (i + 1) start)"

text \<open>The loop over the columns. In the plain branch \<open>i\<close> has moved past \<open>start\<close> when it ends the line.\<close>

fun SplitCol_loop :: "nat \<Rightarrow> string \<Rightarrow> nat \<Rightarrow> nat \<Rightarrow> string list \<Rightarrow> string list res" where
  "SplitCol_loop 0 str i start ret = Inl OutOfFuel"
| "SplitCol_loop (Suc fuel) str i start ret =
     (if i < length str then
        if str ! i \<noteq> kStringBoundaryFlag then
          let i = scan_to kSeperator str i in
          rbind (if i = length str then substr str start (i - start - 1) else substr str start (i - start)) (\<lambda>col.
          SplitCol_loop fuel str (i + 1) (i + 1) (ret @ [col]))
        else
          rbind (quoted_column fuel str 1 (i + 1) (start + 1)) (\<lambda>(col, i, start).
          SplitCol_loop fuel str i start (ret @ [col]))
      else Inr ret)"

definition SplitCol :: "nat \<Rightarrow> string \<Rightarrow> string list res" where
  "SplitCol fuel str = (if str = [] then Inr [] else SplitCol_loop fuel str 0 0 [])"

section \<open>A file\<close>

record ifstream =
  unread :: string
  good :: bool

text \<open>\<open>getline\<close> leaves its argument alone when the stream is no longer good, and reading into the
  end of the file ends that.\<close>

definition getline :: "ifstream \<Rightarrow> string \<Rightarrow> string \<times> ifstream" where
  "getline ifs buffer =
     (if \<not> good ifs then (buffer, ifs)
      else
        let line = takeWhile (\<lambda>c. c \<noteq> line_feed) (unread ifs); rest = dropWhile (\<lambda>c. c \<noteq> line_feed) (unread ifs) in
        if rest = [] then (line, \<lparr>unread = [], good = False\<rparr>) else (line, \<lparr>unread = tl rest, good = True\<rparr>))"

text \<open>A file that cannot be opened gives a stream that is not good.\<close>

definition open_stream :: "string option \<Rightarrow> ifstream" where
  "open_stream content = (case content of None \<Rightarrow> \<lparr>unread = [], good = False\<rparr> | Some s \<Rightarrow> \<lparr>unread = s, good = True\<rparr>)"

fun read_lines :: "nat \<Rightarrow> ifstream \<Rightarrow> string \<Rightarrow> nat \<Rightarrow> string list list res" where
  "read_lines fuel ifs buffer 0 = Inr []"
| "read_lines fuel ifs buffer (Suc n) =
     (let (buffer, ifs) = getline ifs buffer in
      rbind (SplitCol fuel buffer) (\<lambda>cols. rmap ((#) cols) (read_lines fuel ifs buffer n)))"

definition ReadCSV_lines :: "nat \<Rightarrow> string option \<Rightarrow> int \<Rightarrow> string list list res" where
  "ReadCSV_lines fuel content lines = read_lines fuel (open_stream content) [] (nat lines)"

fun read_all :: "nat \<Rightarrow> ifstream \<Rightarrow> string \<Rightarrow> string list list res" where
  "read_all 0 ifs buffer = Inl OutOfFuel"
| "read_all (Suc fuel) ifs buffer =
     (if buffer = [] then Inr []
      else
        rbind (SplitCol fuel buffer) (\<lambda>cols.
        let (buffer, ifs) = getline ifs buffer in
        rmap ((#) cols) (read_all fuel ifs buffer)))"

definition ReadCSV :: "nat \<Rightarrow> string option \<Rightarrow> string list list res" where
  "ReadCSV fuel content = (let (buffer, ifs) = getline (open_stream content) [] in read_all fuel ifs buffer)"

section \<open>Columns\<close>

text \<open>A table as it should be written: plain columns, and columns in quotes with the quotes in them
  doubled. The parser gives the text between the outer quotes, still doubled.\<close>

datatype column = Plain string | Quoted string

definition escape :: "string \<Rightarrow> string" where
  "escape s = concat (map (\<lambda>c. if c = kStringBoundaryFlag then [c, c] else [c]) s)"

fun column_text :: "column \<Rightarrow> string" where
  "column_text (Plain s) = s"
| "column_text (Quoted s) = kStringBoundaryFlag # escape s @ [kStringBoundaryFlag]"

fun column_value :: "column \<Rightarrow> string" where
  "column_value (Plain s) = s"
| "column_value (Quoted s) = escape s"

definition plain :: "string \<Rightarrow> bool" where
  "plain s \<longleftrightarrow> kSeperator \<notin> set s \<and> (s \<noteq> [] \<longrightarrow> hd s \<noteq> kStringBoundaryFlag)"

fun good_column :: "column \<Rightarrow> bool" where
  "good_column (Plain s) \<longleftrightarrow> plain s"
| "good_column (Quoted s) \<longleftrightarrow> True"

definition columns_text :: "column list \<Rightarrow> string" where
  "columns_text cols = concat (map (\<lambda>c. column_text c @ [kSeperator]) cols)"

lemma columns_text_simps [simp]:
  "columns_text [] = []" "columns_text (c # cs) = column_text c @ kSeperator # columns_text cs"
  by (simp_all add: columns_text_def)

lemma escape_simps [simp]:
  "escape [] = []" "escape (c # s) = (if c = kStringBoundaryFlag then [c, c] else [c]) @ escape s"
  by (simp_all add: escape_def)

lemma char_facts [simp]: "kSeperator \<noteq> kStringBoundaryFlag" "kStringBoundaryFlag \<noteq> kSeperator"
  "kStringBoundaryFlag \<noteq> line_feed" "kSeperator \<noteq> line_feed"
  by (simp_all add: kSeperator_def kStringBoundaryFlag_def line_feed_def)

lemma takeWhile_until: "c \<notin> set s \<Longrightarrow> takeWhile (\<lambda>x. x \<noteq> c) s = s" "c \<notin> set s \<Longrightarrow> takeWhile (\<lambda>x. x \<noteq> c) (s @ c # r) = s"
  "c \<notin> set s \<Longrightarrow> dropWhile (\<lambda>x. x \<noteq> c) (s @ c # r) = c # r" "c \<notin> set s \<Longrightarrow> dropWhile (\<lambda>x. x \<noteq> c) s = []"
  by (induction s) auto

lemma scan_to_append: "c \<notin> set s \<Longrightarrow> post = [] \<or> hd post = c \<Longrightarrow> scan_to c (pre @ s @ post) (length pre) = length pre + length s"
  by (cases post) (auto simp: scan_to_def takeWhile_until)

lemma scan_to_here: "scan_to c (pre @ c # post) (length pre) = length pre"
  by (simp add: scan_to_def)

lemma scan_to_skip: "x \<noteq> c \<Longrightarrow> scan_to c (pre @ x # post) (length pre) = scan_to c (pre @ x # post) (Suc (length pre))"
  by (simp add: scan_to_def)

lemma quoted_skip:
  assumes "x \<noteq> kStringBoundaryFlag"
  shows "quoted_column fuel (pre @ x # post) k (length pre) start = quoted_column fuel (pre @ x # post) k (Suc (length pre)) start"
  by (cases fuel) (simp_all add: scan_to_skip [OF assms])

lemma quoted_pair:
  fixes pre post
  defines "str \<equiv> pre @ kStringBoundaryFlag # kStringBoundaryFlag # post"
  shows "quoted_column (Suc (Suc fuel)) str 1 (length pre) start =
    quoted_column fuel str 1 (length (pre @ [kStringBoundaryFlag, kStringBoundaryFlag])) start"
proof -
  let ?q = kStringBoundaryFlag
  have "scan_to ?q str (length pre) = length pre" unfolding str_def by (rule scan_to_here)
  moreover have "str ! (length pre + 1) = ?q" unfolding str_def by (simp add: nth_append)
  moreover have "scan_to ?q str (length pre + 1) = length pre + 1"
    using scan_to_here [of ?q "pre @ [?q]" post] unfolding str_def by simp
  ultimately show ?thesis by (simp add: Let_def)
qed

text \<open>A column in quotes is read up to the quote before the separator.\<close>

lemma quoted_column_reads:
  assumes "str = pre @ escape s @ kStringBoundaryFlag # kSeperator # post" "start \<le> length pre" "length (escape s) < fuel"
  shows "quoted_column fuel str 1 (length pre) start =
    Inr (take (length pre + length (escape s) - start) (drop start str), length pre + length (escape s) + 2,
      length pre + length (escape s) + 2)"
  using assms
proof (induction s arbitrary: pre fuel)
  case Nil
  then obtain f where "fuel = Suc f" by (cases fuel) auto
  then show ?case
    using Nil by (simp add: Let_def scan_to_here nth_append substr_def)
next
  case (Cons x s)
  show ?case
  proof (cases "x = kStringBoundaryFlag")
    case False
    have "quoted_column fuel str 1 (length pre) start = quoted_column fuel str 1 (length (pre @ [x])) start"
      using quoted_skip [OF False, of fuel pre] Cons.prems(1) False by simp
    also have "\<dots> = Inr (take (length (pre @ [x]) + length (escape s) - start) (drop start str),
        length (pre @ [x]) + length (escape s) + 2, length (pre @ [x]) + length (escape s) + 2)"
      by (rule Cons.IH) (use Cons.prems False in simp_all)
    finally show ?thesis using False by simp
  next
    case True
    obtain f where f: "fuel = Suc (Suc f)" "length (escape s) < f" using Cons.prems(3) True
      by (cases fuel; cases "fuel - 1") auto
    let ?q = kStringBoundaryFlag
    have str: "str = pre @ ?q # ?q # escape s @ ?q # kSeperator # post" using Cons.prems(1) True by simp
    have "quoted_column fuel str 1 (length pre) start = quoted_column f str 1 (length (pre @ [?q, ?q])) start"
      unfolding f(1) str by (rule quoted_pair)
    also have "\<dots> = Inr (take (length (pre @ [?q, ?q]) + length (escape s) - start) (drop start str),
        length (pre @ [?q, ?q]) + length (escape s) + 2, length (pre @ [?q, ?q]) + length (escape s) + 2)"
      by (rule Cons.IH) (use Cons.prems(2) str f(2) in simp_all)
    finally show ?thesis using True by simp
  qed
qed

text \<open>A column in front of a separator.\<close>

lemma SplitCol_column:
  assumes "str = pre @ column_text c @ kSeperator # post" "good_column c" "length (column_text c) < fuel"
  shows "SplitCol_loop (Suc fuel) str (length pre) (length pre) ret =
    SplitCol_loop fuel str (length pre + length (column_text c) + 1) (length pre + length (column_text c) + 1)
      (ret @ [column_value c])"
proof (cases c)
  case (Plain s)
  have "str ! length pre \<noteq> kStringBoundaryFlag"
    using assms(1,2) Plain by (cases s) (auto simp: nth_append plain_def)
  moreover have "scan_to kSeperator str (length pre) = length pre + length s"
    using scan_to_append [of kSeperator s "kSeperator # post" pre] assms(1,2) Plain by (simp add: plain_def)
  ultimately show ?thesis using assms(1) Plain by (simp add: Let_def substr_def)
next
  case (Quoted s)
  let ?q = kStringBoundaryFlag
  have str: "str = (pre @ [?q]) @ escape s @ ?q # kSeperator # post" using assms(1) Quoted by simp
  have "quoted_column fuel str 1 (length (pre @ [?q])) (length (pre @ [?q])) =
      Inr (take (length (pre @ [?q]) + length (escape s) - length (pre @ [?q])) (drop (length (pre @ [?q])) str),
        length (pre @ [?q]) + length (escape s) + 2, length (pre @ [?q]) + length (escape s) + 2)"
    by (rule quoted_column_reads [OF str]) (use assms(3) Quoted in simp_all)
  moreover have "take (length (escape s)) (drop (length (pre @ [?q])) str) = escape s" unfolding str by simp
  ultimately show ?thesis using assms(1) Quoted by (simp add: nth_append)
qed

lemma SplitCol_columns:
  assumes "str = pre @ columns_text cols @ t" "\<forall>c\<in>set cols. good_column c" "length (columns_text cols @ t) < fuel"
  shows "\<exists>fuel'. length t < fuel' \<and> SplitCol_loop fuel str (length pre) (length pre) ret =
    SplitCol_loop fuel' str (length pre + length (columns_text cols)) (length pre + length (columns_text cols))
      (ret @ map column_value cols)"
  using assms
proof (induction cols arbitrary: pre ret fuel)
  case (Cons c cols)
  obtain f where f: "fuel = Suc f" using Cons.prems(3) by (cases fuel) auto
  have "SplitCol_loop fuel str (length pre) (length pre) ret =
      SplitCol_loop f str (length pre + length (column_text c) + 1) (length pre + length (column_text c) + 1)
        (ret @ [column_value c])"
    unfolding f by (rule SplitCol_column) (use Cons.prems f in auto)
  moreover have "\<exists>fuel'. length t < fuel' \<and>
      SplitCol_loop f str (length (pre @ column_text c @ [kSeperator])) (length (pre @ column_text c @ [kSeperator])) (ret @ [column_value c]) =
      SplitCol_loop fuel' str (length (pre @ column_text c @ [kSeperator]) + length (columns_text cols))
        (length (pre @ column_text c @ [kSeperator]) + length (columns_text cols)) ((ret @ [column_value c]) @ map column_value cols)"
    by (rule Cons.IH) (use Cons.prems f in auto)
  ultimately show ?case by (simp add: add.commute add.left_commute)
qed auto

text \<open>What is behind the last separator: nothing, a plain text, of which the last character is
  dropped, or a quote that is never closed in front of a separator.\<close>

lemma SplitCol_end: "0 < fuel \<Longrightarrow> SplitCol_loop fuel str (length str) start ret = Inr ret"
  by (cases fuel) auto

lemma SplitCol_last:
  assumes "plain t" "t \<noteq> []" "1 < fuel"
  shows "SplitCol_loop fuel (pre @ t) (length pre) (length pre) ret = Inr (ret @ [butlast t])"
proof -
  obtain f where f: "fuel = Suc (Suc f)" using assms(3) by (cases fuel; cases "fuel - 1") auto
  have "(pre @ t) ! length pre \<noteq> kStringBoundaryFlag" using assms(1,2) by (cases t) (auto simp: plain_def)
  moreover have "scan_to kSeperator (pre @ t) (length pre) = length pre + length t"
    using scan_to_append [of kSeperator t "[]" pre] assms(1) by (simp add: plain_def)
  ultimately show ?thesis using f assms(2) by (simp add: Let_def substr_def butlast_conv_take)
qed

lemma quoted_column_stuck: "kStringBoundaryFlag \<notin> set (drop i str) \<Longrightarrow> quoted_column fuel str k i start = Inl OutOfFuel"
proof (induction fuel arbitrary: k i)
  case (Suc fuel)
  have "scan_to kStringBoundaryFlag str i = i + (length str - i)"
    using Suc.prems by (simp add: scan_to_def takeWhile_until)
  then have "length str \<le> scan_to kStringBoundaryFlag str i" by simp
  then show ?case using Suc.IH by (simp add: Let_def)
qed simp

lemma quoted_column_unclosed:
  assumes "str = pre @ escape s @ kStringBoundaryFlag # u" "kStringBoundaryFlag \<notin> set u"
    and "u = [] \<or> hd u \<noteq> kSeperator \<and> hd u \<noteq> line_feed"
  shows "quoted_column fuel str 1 (length pre) start = Inl OutOfFuel"
  using assms(1)
proof (induction s arbitrary: pre fuel)
  case Nil
  let ?q = kStringBoundaryFlag
  have "scan_to ?q str (length pre) = length pre" unfolding Nil by (simp add: scan_to_here)
  moreover have "\<not> (length pre + 1 < length str \<and> (str ! (length pre + 1) = kSeperator \<or> str ! (length pre + 1) = line_feed))"
    using assms(3) unfolding Nil by (cases u) (auto simp: nth_append)
  moreover have "?q \<notin> set (drop (length pre + 1) str)" using assms(2) unfolding Nil by simp
  ultimately show ?case using quoted_column_stuck [of "length pre + 1" str] by (cases fuel) (auto simp: Let_def)
next
  case (Cons x s)
  let ?q = kStringBoundaryFlag
  show ?case
  proof (cases "x = ?q")
    case False
    have "quoted_column fuel str 1 (length (pre @ [x])) start = Inl OutOfFuel"
      by (rule Cons.IH) (use Cons.prems False in simp)
    then show ?thesis using quoted_skip [OF False, of fuel pre] Cons.prems False by simp
  next
    case True
    have str: "str = pre @ ?q # ?q # escape s @ ?q # u" using Cons.prems True by simp
    have "quoted_column f str 1 (length (pre @ [?q, ?q])) start = Inl OutOfFuel" for f
      by (rule Cons.IH) (simp add: str)
    moreover have "quoted_column 1 str 1 (length pre) start = Inl OutOfFuel"
      unfolding str One_nat_def by (simp add: Let_def scan_to_here nth_append)
    moreover have "fuel = 0 \<or> fuel = 1 \<or> fuel = Suc (Suc (fuel - 2))" by arith
    ultimately show ?thesis using quoted_pair [of "fuel - 2" pre] unfolding str by (metis quoted_column.simps(1))
  qed
qed

section \<open>Lines and files\<close>

lemma SplitCol_start: "str = columns_text cols @ t \<Longrightarrow> \<forall>c\<in>set cols. good_column c \<Longrightarrow> length str < fuel \<Longrightarrow>
  \<exists>fuel'. length t < fuel' \<and> SplitCol fuel str = SplitCol_loop fuel' str (length (columns_text cols)) (length (columns_text cols))
    (map column_value cols)"
  using SplitCol_columns [of str "[]" cols t fuel "[]"] SplitCol_end [of _ "[]"]
  by (cases "str = []") (auto simp: SplitCol_def columns_text_def)

lemma SplitCol_splits:
  assumes "\<forall>c\<in>set cols. good_column c" "plain t" "length (columns_text cols @ t) < fuel"
  shows "SplitCol fuel (columns_text cols @ t) = Inr (map column_value cols @ (if t = [] then [] else [butlast t]))"
proof -
  obtain f where f: "length t < f" "SplitCol fuel (columns_text cols @ t) =
      SplitCol_loop f (columns_text cols @ t) (length (columns_text cols)) (length (columns_text cols)) (map column_value cols)"
    using SplitCol_start [OF refl assms(1,3)] by blast
  show ?thesis
  proof (cases "t = []")
    case True
    then show ?thesis using f SplitCol_end [of f "columns_text cols"] by simp
  next
    case False
    moreover have "1 < f" using f(1) False by (cases t) auto
    ultimately show ?thesis using f(2) SplitCol_last [OF assms(2)] by simp
  qed
qed

text \<open>A line that ends with a column in quotes: the parser looks for the separator behind it for ever.\<close>

lemma SplitCol_quoted_last:
  assumes "\<forall>c\<in>set cols. good_column c" "kStringBoundaryFlag \<notin> set u"
    and "u = [] \<or> hd u \<noteq> kSeperator \<and> hd u \<noteq> line_feed"
    and "line = columns_text cols @ column_text (Quoted s) @ u" "length line < fuel"
  shows "SplitCol fuel line = Inl OutOfFuel"
proof -
  let ?p = "columns_text cols" and ?q = kStringBoundaryFlag
  obtain f where f: "length (column_text (Quoted s) @ u) < f" "SplitCol fuel line = SplitCol_loop f line (length ?p) (length ?p) (map column_value cols)"
    using SplitCol_start [OF assms(4,1,5)] by blast
  obtain n where n: "f = Suc n" using f(1) by (cases f) simp_all
  have line: "line = (?p @ [?q]) @ escape s @ ?q # u" using assms(4) by simp
  have "quoted_column n line 1 (length (?p @ [?q])) (length (?p @ [?q])) = Inl OutOfFuel"
    by (rule quoted_column_unclosed [OF line assms(2,3)])
  then show ?thesis using f(2) n unfolding line by simp
qed

text \<open>\<open>SplitCol\<close> returns or goes on; it never throws.\<close>

lemma quoted_column_result:
  assumes "start \<le> length str"
  shows "quoted_column fuel str k i start = Inl OutOfFuel \<or>
    (\<exists>col j. quoted_column fuel str k i start = Inr (col, j, j) \<and> j \<le> length str)"
proof (induction fuel arbitrary: k i)
  case (Suc fuel)
  let ?j = "scan_to kStringBoundaryFlag str i"
  note step = quoted_column.simps(2) [of fuel str k i start, unfolded Let_def]
  show ?case
  proof (cases "k = 1 \<and> ?j + 1 < length str \<and> (str ! (?j + 1) = kSeperator \<or> str ! (?j + 1) = line_feed)")
    case True
    then show ?thesis using assms unfolding step by (simp add: substr_def)
  next
    case False
    then have "\<exists>k'. quoted_column (Suc fuel) str k i start = quoted_column fuel str k' (?j + 1) start"
      unfolding step by auto
    then show ?thesis using Suc by metis
  qed
qed simp

lemma SplitCol_loop_result:
  "SplitCol_loop fuel str i i ret = Inl OutOfFuel \<or> (\<exists>cols. SplitCol_loop fuel str i i ret = Inr cols)"
proof (induction fuel arbitrary: i ret)
  case (Suc fuel)
  let ?j = "scan_to kSeperator str i"
  note step = SplitCol_loop.simps(2) [of fuel str i i ret, unfolded Let_def]
  consider "length str \<le> i" | "i < length str" "str ! i \<noteq> kStringBoundaryFlag"
    | "i < length str" "str ! i = kStringBoundaryFlag" by linarith
  then show ?case
  proof cases
    case 2
    then obtain col where "SplitCol_loop (Suc fuel) str i i ret = SplitCol_loop fuel str (?j + 1) (?j + 1) (ret @ [col])"
      unfolding step by (cases "?j = length str") (simp_all add: substr_def)
    then show ?thesis using Suc by simp
  next
    case 3
    then have "i + 1 \<le> length str" by simp
    from quoted_column_result [OF this, of fuel 1 "i + 1"] show ?thesis
    proof (elim disjE exE conjE)
      fix col j assume "quoted_column fuel str 1 (i + 1) (i + 1) = Inr (col, j, j)"
      then show ?thesis using 3 Suc [of j "ret @ [col]"] unfolding step by simp
    qed (use 3 in \<open>simp_all add: step\<close>)
  qed (simp add: step)
qed simp

lemma SplitCol_result: "SplitCol fuel str = Inl OutOfFuel \<or> (\<exists>cols. SplitCol fuel str = Inr cols)"
  using SplitCol_loop_result by (simp add: SplitCol_def)

lemma getline_line: "line_feed \<notin> set l \<Longrightarrow>
    getline \<lparr>unread = l @ line_feed # rest, good = True\<rparr> buffer = (l, \<lparr>unread = rest, good = True\<rparr>)"
  by (simp add: getline_def takeWhile_until)

lemma getline_last: "line_feed \<notin> set l \<Longrightarrow> getline \<lparr>unread = l, good = True\<rparr> buffer = (l, \<lparr>unread = [], good = False\<rparr>)"
  by (simp add: getline_def takeWhile_until)

text \<open>A file whose last line has no line feed: the last call of \<open>getline\<close> fails and leaves the line in
  the buffer, so that \<open>ReadCSV\<close> reads it again for ever.\<close>

lemma read_all_stuck: "\<not> good ifs \<Longrightarrow> buffer \<noteq> [] \<Longrightarrow> read_all fuel ifs buffer = Inl OutOfFuel"
proof (induction fuel)
  case (Suc fuel)
  then show ?case using SplitCol_result [of fuel buffer] by (auto simp: getline_def)
qed simp

lemma read_all_unended:
  "\<forall>l\<in>set (buffer # ls). l \<noteq> [] \<and> line_feed \<notin> set l \<Longrightarrow> line_feed \<notin> set t \<Longrightarrow> t \<noteq> [] \<Longrightarrow>
    read_all fuel \<lparr>unread = concat (map (\<lambda>l. l @ [line_feed]) ls) @ t, good = True\<rparr> buffer = Inl OutOfFuel"
proof (induction ls arbitrary: buffer fuel)
  case Nil
  then show ?case
    using SplitCol_result [of "fuel - 1" buffer] by (cases fuel) (auto simp: getline_last read_all_stuck)
next
  case (Cons l ls)
  then show ?case
    using SplitCol_result [of "fuel - 1" buffer] by (cases fuel) (auto simp: getline_line)
qed

lemma ReadCSV_unended:
  assumes "\<forall>l\<in>set ls. l \<noteq> [] \<and> line_feed \<notin> set l" "line_feed \<notin> set t" "t \<noteq> []"
  shows "ReadCSV fuel (Some (concat (map (\<lambda>l. l @ [line_feed]) ls) @ t)) = Inl OutOfFuel"
proof (cases ls)
  case Nil
  then show ?thesis using assms by (simp add: ReadCSV_def open_stream_def getline_last read_all_stuck)
next
  case (Cons l ms)
  then show ?thesis using assms read_all_unended [of l ms t] by (simp add: ReadCSV_def open_stream_def getline_line)
qed

section \<open>Properties\<close>

text \<open>Tables with lines that end in carriage return and line feed, the last column being plain.\<close>

definition carriage_return :: char where
  "carriage_return = CHR 0x0D"

definition row_text :: "column list \<times> string \<Rightarrow> string" where
  "row_text r = columns_text (fst r) @ snd r @ [carriage_return]"

definition row_value :: "column list \<times> string \<Rightarrow> string list" where
  "row_value r = map column_value (fst r) @ [snd r]"

definition good_row :: "column list \<times> string \<Rightarrow> bool" where
  "good_row r \<longleftrightarrow> (\<forall>c\<in>set (fst r). good_column c) \<and> plain (snd r) \<and> line_feed \<notin> set (row_text r)"

definition table_text :: "(column list \<times> string) list \<Rightarrow> string" where
  "table_text rows = concat (map (\<lambda>r. row_text r @ [line_feed]) rows)"

lemma SplitCol_row: "good_row r \<Longrightarrow> length (row_text r) < fuel \<Longrightarrow> SplitCol fuel (row_text r) = Inr (row_value r)"
  using SplitCol_splits [of "fst r" "snd r @ [carriage_return]" fuel]
  by (cases "snd r") (auto simp: row_text_def row_value_def good_row_def plain_def carriage_return_def kSeperator_def kStringBoundaryFlag_def)

lemma row_text_ne [simp]: "row_text r \<noteq> []"
  by (simp add: row_text_def)

lemma table_text_simps [simp]: "table_text [] = []" "table_text (r # rows) = row_text r @ line_feed # table_text rows"
  by (simp_all add: table_text_def)

lemma read_all_rows:
  "\<forall>r\<in>set (r # rows). good_row r \<Longrightarrow> length (row_text r) + length (table_text rows) + 1 < fuel \<Longrightarrow>
    read_all fuel \<lparr>unread = table_text rows, good = True\<rparr> (row_text r) = Inr (map row_value (r # rows))"
proof (induction rows arbitrary: r fuel)
  case Nil
  then obtain f where "fuel = Suc (Suc f)" by (cases fuel; cases "fuel - 1") auto
  then show ?case using Nil SplitCol_row [of r "Suc f"] by (simp add: getline_last)
next
  case (Cons r' rows)
  then obtain f where f: "fuel = Suc f" by (cases fuel) auto
  have "getline \<lparr>unread = table_text (r' # rows), good = True\<rparr> (row_text r) = (row_text r', \<lparr>unread = table_text rows, good = True\<rparr>)"
    using Cons.prems(1) by (simp add: getline_line good_row_def)
  moreover have "read_all f \<lparr>unread = table_text rows, good = True\<rparr> (row_text r') = Inr (map row_value (r' # rows))"
    by (rule Cons.IH) (use Cons.prems f in auto)
  ultimately show ?case using Cons.prems f SplitCol_row [of r f] by simp
qed

lemma read_lines_rows:
  "\<forall>r\<in>set rows. good_row r \<Longrightarrow> length (table_text rows) < fuel \<Longrightarrow>
    read_lines fuel \<lparr>unread = table_text rows, good = True\<rparr> buffer (length rows) = Inr (map row_value rows)"
  by (induction rows arbitrary: buffer) (simp_all add: getline_line good_row_def SplitCol_row)

text \<open>C34. A table whose lines end in carriage return and line feed is read back: \<open>ReadCSV\<close>, and the
  version with the number of lines, return the columns of every line, a column in quotes as the text
  between them. More rounds than the file has characters are enough.\<close>

theorem ReadCSV_reads_table:
  assumes "\<forall>r\<in>set rows. good_row r" "length (table_text rows) + 1 < fuel"
  shows "ReadCSV fuel (Some (table_text rows)) = Inr (map row_value rows) \<and>
    ReadCSV_lines fuel (Some (table_text rows)) (int (length rows)) = Inr (map row_value rows)"
proof (rule conjI)
  show "ReadCSV_lines fuel (Some (table_text rows)) (int (length rows)) = Inr (map row_value rows)"
    using read_lines_rows [OF assms(1), of fuel "[]"] assms(2) by (simp add: ReadCSV_lines_def open_stream_def)
  show "ReadCSV fuel (Some (table_text rows)) = Inr (map row_value rows)"
  proof (cases rows)
    case Nil
    then show ?thesis using assms(2) by (cases fuel) (simp_all add: ReadCSV_def open_stream_def getline_last)
  next
    case (Cons r rs)
    then have "getline \<lparr>unread = table_text rows, good = True\<rparr> [] = (row_text r, \<lparr>unread = table_text rs, good = True\<rparr>)"
      using assms(1) by (simp add: getline_line good_row_def)
    then show ?thesis using read_all_rows [of r rs fuel] assms Cons by (simp add: ReadCSV_def open_stream_def)
  qed
qed

theorem ReadCSV_reads_table_witness:
  "ReadCSV 40 (Some (table_text [([Plain ''id'', Quoted ''a,b''], ''x''), ([Plain ''7''], [])])) =
    Inr [[''id'', ''a,b'', ''x''], [''7'', []]]"
proof -
  let ?rows = "[([Plain ''id'', Quoted ''a,b''], ''x''), ([Plain ''7''], [])]"
  have "\<forall>r\<in>set ?rows. good_row r"
    by (simp add: good_row_def plain_def row_text_def kSeperator_def kStringBoundaryFlag_def line_feed_def carriage_return_def)
  moreover have "length (table_text ?rows) + 1 < 40" by (simp add: row_text_def kStringBoundaryFlag_def)
  ultimately have "ReadCSV 40 (Some (table_text ?rows)) = Inr (map row_value ?rows)" using ReadCSV_reads_table by blast
  then show ?thesis by (simp add: row_value_def kStringBoundaryFlag_def)
qed

end
