(* ===== verification/Spec2Isabelle.thy ===== *)
theory Spec2Isabelle
  imports DatabaseCompaction DatabaseReopen DatabasePool TaskPool OldPool VariableInt Csv SSTProofs BloomFilter DbTable Tools Format MemAllocator SkipListProofs LruCache
begin

text \<open>
  A verification library for TomCatDB, a key-value store that keeps recent operations in a
  memory table over a skip list and older ones in sorted data files (SST files) on levels.

  \<^bold>\<open>The program.\<close> \<open>TCDB\<close> (\<open>src/table/db.cc\<close>) is the object a client calls. \<open>Insert\<close> and \<open>Delete\<close>
  encode an entry (\<open>InternalEntry\<close>) into memory of the \<open>MemAllocator\<close> and link it into the skip list
  of the \<open>TCTable\<close>. A full table is handed to a task of the \<open>TCThreadPool\<close>, which compacts level 0 if
  that is full, writes the table to a new data file (\<open>TCIO\<close> over \<open>SequentialWriter\<close> and \<open>DBFile\<close>) with a
  bloom filter, and appends a new version to the \<open>TCVersionCtrl\<close>. \<open>Get\<close> asks the cache, the table and
  the files of the newest version, level by level. The MANIFEST file records the files of each
  level. A \<open>ReadWriteLock\<close> lets insertions share the table and the transfer of a full one exclude
  them.

  \<^bold>\<open>Theories and code.\<close>
  \<^item> \<open>Prelude\<close>: faults and results, checked subscripts, bytes and machine words, lemma collections;
    \<open>Interfaces\<close>: the locales that the components interpret: \<open>framing\<close> (self-delimiting items, entries),
    \<open>key_order\<close> and \<open>strict_key_order\<close> (comparators: entries, integers, the queue of the merge),
    \<open>hash_equality\<close> (hash tables: the index of the cache), \<open>filter_policy\<close> (the bloom filter).
  \<^item> \<open>Basics\<close>: \<open>Status\<close>, \<open>Sequence\<close>, \<open>Config\<close>. \<open>Tools\<close>: \<open>util/tools\<close>. \<open>Varint\<close>: \<open>coding/varint\<close>;
    \<open>VariableInt\<close>: the older \<open>coding/variable_int\<close>. \<open>Csv\<close>: \<open>util/csv\<close>.
    \<open>InternalEntry\<close>: \<open>coding/internal_entry\<close>. \<open>Comparators\<close>: \<open>util/comparator\<close>. \<open>Hash\<close>: \<open>coding/hash.h\<close>.
    \<open>BloomFilter\<close>: \<open>coding/filter\<close>. \<open>Format\<close>: \<open>coding/format\<close>.
  \<^item> \<open>MemAllocator\<close>: \<open>util/mem_allocator\<close>, a block being a number with its size or released.
    \<open>SkipListModel\<close> and \<open>SkipListProofs\<close>: \<open>table/skiplist.h\<close> as a store of nodes with explicit
    pointers. \<open>DbTable\<close>: \<open>table/db_table\<close>.
  \<^item> \<open>DualList\<close>: \<open>util/dual_list.h\<close> with addresses of nodes. \<open>LruCache\<close>: \<open>table/cache\<close>, keyed as the code
    keys it, by pointers into memory of the caller.
  \<^item> \<open>FileIO\<close>: \<open>io/dbfile\<close>, \<open>io/reader\<close>, \<open>io/writer\<close>. The record \<open>os\<close> holds the contents of the files and the
    results that the coming calls of \<open>open\<close>, \<open>write\<close> and \<open>read\<close> will have, so that every pattern of
    failures and short transfers is an input. \<open>Logger\<close>: \<open>util/logger\<close>.
  \<^item> \<open>SSTFile\<close> and \<open>SSTProofs\<close>: the data-file part of \<open>io/io.cc\<close>; \<open>DatabaseIO\<close>: its file names, MANIFEST,
    flush and manifest update.
  \<^item> \<open>SSTSearch\<close>: the lookups of \<open>db.cc\<close> in data files. \<open>MergeModel\<close>, \<open>MergeProofs\<close>, \<open>MergeCorrect\<close>:
    \<open>MultiwayMerge\<close> and \<open>IterMerge\<close>. \<open>Compaction\<close> and \<open>CompactionProofs\<close>: \<open>CompactSST\<close> and
    \<open>BackgroundCompact\<close>; \<open>CompactionLookup\<close>: what a compaction means for lookups.
  \<^item> \<open>Versions\<close>: \<open>table/version\<close>. \<open>RWLock\<close>: \<open>util/lock_util\<close>, as steps of any number of threads.
    \<open>TaskPool\<close>: \<open>TCThreadPool\<close> of \<open>util/thread_pool\<close>, as steps of callers and workers; \<open>OldPool\<close>: its
    predecessor \<open>ThreadPool\<close> there.
  \<^item> \<open>Database\<close>, \<open>DatabaseProofs\<close>, \<open>DatabaseFlush\<close>: \<open>TCDB\<close> itself, for one caller and a background task
    that runs at any time between its calls. \<open>DatabaseCompaction\<close>: the background task that compacts
    and then flushes. \<open>DatabaseReopen\<close>: closing a database and opening its directory again.
    \<open>DatabasePool\<close>: the database with its pool, that is what \<open>Insert\<close> and \<open>ConcurrentInsert\<close> submit and
    the workers execute.

  \<^bold>\<open>Reading the model.\<close> Every function that can reach undefined behaviour returns \<open>Inl\<close> of a fault:
  reads and writes out of range, use of freed or uninitialised memory, a failed assertion, division
  by zero, an exception, a lock that is never released. \<open>Inr\<close> carries the \<open>Status\<close> and the updated
  state. So a theorem that a call is \<open>Inr\<close> also says that nothing undefined happens. Machine
  integers are words of the width of the code. Random levels of the skip list are a list of dice,
  and names of files are computed as in the code.

  \<^bold>\<open>What is shown.\<close>
  \<^item> The database is a map while its table has room; a lookup goes by the table and then by the files
    of the newest version in order; a flush loses nothing of a table with one entry per key. With
    one version per key, a compaction and a background flush that compacts are invisible to lookups.
    Opening a directory again gives a sound database over its data files.
  \<^item> Data files read back as written, whatever the pattern of writes; a lookup finds a key exactly
    when a file of the level has it; the merge keeps the newest entry of every key, sorted; the
    compaction keeps the next level sorted and brings every level below its limit.
  \<^item> The table refines a map, the skip list sorts, the comparator is a linear order, the codecs and
    the MANIFEST round-trip, the filter has no false negatives, the allocator hands out disjoint
    regions, the cache is an LRU list and the version controller a list of reference counts. The
    doubly linked list keeps its store well typed, and both lists and the allocator free everything once.
  \<^item> The lock excludes and serves everybody, the pool runs every task once and in order, and so does
    the old pool, which leaves no task behind. While a flush is pending exactly one task of the pool
    is that flush.
  \<^item> Where the code does not do what it means to, a theorem shows what it does: old values that come
    back after a flush or after a merge that splits versions, deletions that leave the entry of a data
    file, tables that cannot be seen or get lost, the lock kept after a failed flush, the deadlock of
    the predicate option, the lost wake-up of the pool, the insertion that waits in the pool for the
    pool, the faults of the merge and of the readers, the loss of the table on closing, the lines and
    files the CSV reader cuts or never finishes.

  \<^bold>\<open>Fuel and bounds.\<close> Loops are recursive functions with a termination proof; the measures are in the
  theories. Following skip-list pointers is bounded by the number of nodes, and a well-formed list
  never runs out of it; the loops of a writer consume the list of outcomes of the system. The
  merge consumes its queue and blocks; the compaction loop shortens a level or moves up one. The
  loops of the CSV reader need not end, so they take fuel: one round more than the characters of
  the file is enough for a table written as the parser expects it.

  \<^bold>\<open>Assumptions.\<close> Positive theorems about files ask for a quiet system (no failure to come) unless they
  say otherwise, for names of new files that are not taken, and for entries below 2 MB. Hash
  functions of the standard library are parameters. The filter is a parameter of the flush and
  the merge; \<open>BloomFilter\<close> shows that the one of the code qualifies.

  \<^bold>\<open>Not modelled.\<close> \<open>batch_writer.h\<close>, an unfinished class that does not compile beside \<open>writer.h\<close>;
  \<open>TCPageCache\<close> and \<open>ProtobufEncode64\<close>, which are declared without a body; \<open>main.cc\<close> and the tests, which only
  call the engine; the destructors that only release what one object owns; lists of includes. Data
  races on the table itself are outside the model: its operations are atomic.
\<close>

end
